(* ===== verification/Prelude.thy ===== *)
theory Prelude
  imports Main "HOL-Library.Char_ord" "HOL-Library.List_Lexorder" "HOL-Library.Word"
begin

text \<open>
  Shared vocabulary of the development: Go strings (byte strings, compared bytewise), the
  functions of the packages \<open>strings\<close> and \<open>strconv\<close> that the sources call, the result type
  of fallible operations, and the generic lemmas on them that the components share.
\<close>

section \<open>Collections of facts\<close>

named_theorems go_string_simps \<open>rewrite rules for the string functions\<close>
named_theorems model_defs \<open>definitions that the component proofs unfold together\<close>

section \<open>Results and strings\<close>

text \<open>A Go call with results \<open>(v, err)\<close> is \<open>Inl err\<close> or \<open>Inr v\<close>.\<close>

type_synonym ('e, 'a) result = "'e + 'a"

text \<open>A \<open>[]byte\<close>.\<close>

type_synonym bytes = "8 word list"

definition HasPrefix :: "string \<Rightarrow> string \<Rightarrow> bool" where
  "HasPrefix s p \<longleftrightarrow> take (length p) s = p"

definition HasSuffix :: "string \<Rightarrow> string \<Rightarrow> bool" where
  "HasSuffix s p \<longleftrightarrow> length p \<le> length s \<and> drop (length s - length p) s = p"

definition TrimPrefix :: "string \<Rightarrow> string \<Rightarrow> string" where
  "TrimPrefix s p = (if HasPrefix s p then drop (length p) s else s)"

definition TrimSuffix :: "string \<Rightarrow> string \<Rightarrow> string" where
  "TrimSuffix s p = (if HasSuffix s p then take (length s - length p) s else s)"

text \<open>\<open>strings.Split(s, sep)\<close> for a one-byte separator: always at least one element.\<close>

fun split_on :: "char \<Rightarrow> string \<Rightarrow> string list" where
  "split_on c [] = [[]]"
| "split_on c (x # xs) =
     (if x = c then [] # split_on c xs
      else (case split_on c xs of [] \<Rightarrow> [[x]] | y # ys \<Rightarrow> (x # y) # ys))"

text \<open>\<open>strings.Join(parts, sep)\<close>.\<close>

fun join_with :: "string \<Rightarrow> string list \<Rightarrow> string" where
  "join_with sep [] = []"
| "join_with sep [x] = x"
| "join_with sep (x # y # zs) = x @ sep @ join_with sep (y # zs)"

fun Contains :: "string \<Rightarrow> string \<Rightarrow> bool" where
  "Contains [] sub = (sub = [])"
| "Contains (x # xs) sub = (HasPrefix (x # xs) sub \<or> Contains xs sub)"

text \<open>\<open>strings.ReplaceAll(s, c, "")\<close> for a one-byte \<open>c\<close>.\<close>

definition RemoveAll :: "char \<Rightarrow> string \<Rightarrow> string" where
  "RemoveAll c s = filter (\<lambda>x. x \<noteq> c) s"

text \<open>\<open>strings.ToLower\<close> on ASCII; other bytes are kept.\<close>

definition lower_char :: "char \<Rightarrow> char" where
  "lower_char c = (let n = (of_char c :: nat) in if 65 \<le> n \<and> n \<le> 90 then char_of (n + 32) else c)"

definition ToLower :: "string \<Rightarrow> string" where
  "ToLower s = map lower_char s"

text \<open>\<open>strconv.Itoa\<close> on a non-negative integer.\<close>

definition digit_char :: "nat \<Rightarrow> char" where
  "digit_char d = char_of (d + 48)"

fun Itoa :: "nat \<Rightarrow> string" where
  "Itoa n = (if n < 10 then [digit_char n] else Itoa (n div 10) @ [digit_char (n mod 10)])"

declare Itoa.simps [simp del]

section \<open>Machine integers\<close>

text \<open>Go's \<open>int64\<close> arithmetic: results wrap around in two's complement, and division truncates
  towards zero.\<close>

definition wrap64 :: "int \<Rightarrow> int" where
  "wrap64 x = (x + 2 ^ 63) mod 2 ^ 64 - 2 ^ 63"

definition go_div :: "int \<Rightarrow> int \<Rightarrow> int" where
  "go_div a b = sgn a * sgn b * (\<bar>a\<bar> div \<bar>b\<bar>)"

text \<open>The remainder has the sign of the dividend.\<close>

definition go_mod :: "int \<Rightarrow> int \<Rightarrow> int" where
  "go_mod a b = a - b * go_div a b"

text \<open>\<open>uint64(x)\<close>.\<close>

definition to_uint64 :: "int \<Rightarrow> int" where
  "to_uint64 x = x mod 2 ^ 64"

lemma wrap64_small [simp]: "- (2 ^ 63) \<le> x \<Longrightarrow> x < 2 ^ 63 \<Longrightarrow> wrap64 x = x"
  by (simp add: wrap64_def)

lemma wrap64_nat: "int n < 2 ^ 63 \<Longrightarrow> wrap64 (int n) = int n"
  by simp

lemma wrap64_range: "- (2 ^ 63) \<le> wrap64 x \<and> wrap64 x < 2 ^ 63"
proof -
  have "0 \<le> (x + 2 ^ 63) mod 2 ^ 64" "(x + 2 ^ 63) mod 2 ^ 64 < (2 ^ 64 :: int)" by auto
  then show ?thesis by (simp add: wrap64_def)
qed

lemma go_div_nonneg [simp]: "0 \<le> a \<Longrightarrow> 0 < b \<Longrightarrow> go_div a b = a div b"
  by (cases "a = 0") (auto simp: go_div_def)

lemma go_mod_nonneg [simp]: "0 \<le> a \<Longrightarrow> 0 < b \<Longrightarrow> go_mod a b = a mod b"
  by (simp add: go_mod_def minus_mult_div_eq_mod)

section \<open>Lemmas on strings\<close>

lemma HasPrefix_append [simp, go_string_simps]: "HasPrefix (p @ s) p"
  by (simp add: HasPrefix_def)

lemma HasPrefix_iff: "HasPrefix s p \<longleftrightarrow> (\<exists>r. s = p @ r)"
  by (auto simp: HasPrefix_def) (metis append_take_drop_id)

lemma HasSuffix_append [simp, go_string_simps]: "HasSuffix (s @ p) p"
  by (simp add: HasSuffix_def)

lemma HasSuffix_iff: "HasSuffix s p \<longleftrightarrow> (\<exists>r. s = r @ p)"
  by (auto simp: HasSuffix_def) (metis append_take_drop_id)

lemma TrimPrefix_append [simp, go_string_simps]: "TrimPrefix (p @ s) p = s"
  by (simp add: TrimPrefix_def)

lemma TrimSuffix_append [simp, go_string_simps]: "TrimSuffix (s @ p) p = s"
  by (simp add: TrimSuffix_def)

lemma TrimSuffix_no_suffix: "\<not> HasSuffix s p \<Longrightarrow> TrimSuffix s p = s"
  by (simp add: TrimSuffix_def)

lemma TrimPrefix_no_prefix: "\<not> HasPrefix s p \<Longrightarrow> TrimPrefix s p = s"
  by (simp add: TrimPrefix_def)

lemma HasSuffix_single: "HasSuffix s [c] \<longleftrightarrow> s \<noteq> [] \<and> last s = c"
  by (auto simp: HasSuffix_iff) (metis append_butlast_last_id)

lemma HasPrefix_single: "HasPrefix s [c] \<longleftrightarrow> s \<noteq> [] \<and> hd s = c"
  by (cases s) (auto simp: HasPrefix_def)

lemma Contains_iff: "Contains s sub \<longleftrightarrow> (\<exists>a b. s = a @ sub @ b)"
proof (induction s)
  case Nil
  then show ?case by simp
next
  case (Cons x xs)
  have "(\<exists>a b. x # xs = a @ sub @ b) \<longleftrightarrow> HasPrefix (x # xs) sub \<or> (\<exists>a b. xs = a @ sub @ b)"
    by (simp add: HasPrefix_iff) (metis append_Cons append_Nil neq_Nil_conv list.inject)
  with Cons.IH show ?case by simp
qed

lemma split_on_nonempty [simp]: "split_on c s \<noteq> []"
  by (induction s) (auto split: list.splits)

lemma join_with_Cons: "zs \<noteq> [] \<Longrightarrow> join_with sep (x # zs) = x @ sep @ join_with sep zs"
  by (cases zs) auto

lemma join_with_nonempty: "x \<noteq> [] \<Longrightarrow> join_with sep (x # xs) \<noteq> []"
  by (cases xs) auto

lemma split_on_no_sep: "c \<notin> set s \<Longrightarrow> split_on c s = [s]"
  by (induction s) auto

lemma split_on_append_sep: "split_on c (s @ c # t) = split_on c s @ split_on c t"
  by (induction s) (auto split: list.splits)

lemma split_on_parts: "p \<in> set (split_on c s) \<Longrightarrow> c \<notin> set p"
proof (induction s arbitrary: p)
  case Nil
  then show ?case by simp
next
  case (Cons x xs)
  show ?case
  proof (cases "x = c")
    case True
    with Cons show ?thesis by auto
  next
    case False
    obtain y ys where y: "split_on c xs = y # ys"
      using split_on_nonempty by (metis neq_Nil_conv)
    have "c \<notin> set y" using Cons.IH [of y] y by simp
    moreover have "q \<in> set ys \<Longrightarrow> c \<notin> set q" for q using Cons.IH [of q] y by simp
    ultimately show ?thesis using Cons.prems False y by auto
  qed
qed

text \<open>Splitting and joining at the same separator are inverse to each other.\<close>

lemma join_split: "join_with [c] (split_on c s) = s"
proof (induction s)
  case Nil
  then show ?case by simp
next
  case (Cons x xs)
  obtain y ys where "split_on c xs = y # ys"
    using split_on_nonempty by (metis neq_Nil_conv)
  with Cons show ?case by (cases ys) auto
qed

lemma split_join:
  "parts \<noteq> [] \<Longrightarrow> \<forall>p \<in> set parts. c \<notin> set p \<Longrightarrow> split_on c (join_with [c] parts) = parts"
proof (induction parts)
  case Nil
  then show ?case by simp
next
  case (Cons p ps)
  show ?case
  proof (cases "ps = []")
    case True
    with Cons.prems show ?thesis by (simp add: split_on_no_sep)
  next
    case False
    with Cons show ?thesis
      by (simp add: join_with_Cons split_on_append_sep split_on_no_sep)
  qed
qed

lemma join_with_append:
  "xs \<noteq> [] \<Longrightarrow> ys \<noteq> [] \<Longrightarrow> join_with sep (xs @ ys) = join_with sep xs @ sep @ join_with sep ys"
proof (induction xs)
  case (Cons x xs)
  then show ?case by (cases "xs = []") (auto simp: join_with_Cons)
qed simp

section \<open>Decimal numerals\<close>

lemma digit_char_inj: "a < 10 \<Longrightarrow> b < 10 \<Longrightarrow> digit_char a = digit_char b \<Longrightarrow> a = b"
proof -
  assume "a < 10" "b < 10" "digit_char a = digit_char b"
  moreover then have "(of_char (char_of (a + 48) :: char) :: nat) = of_char (char_of (b + 48) :: char)"
    by (simp add: digit_char_def)
  ultimately show "a = b" by (simp only: of_char_of) simp
qed

lemma Itoa_nonempty [simp]: "Itoa n \<noteq> []"
  by (subst Itoa.simps) simp

lemma Itoa_inj: "Itoa a = Itoa b \<Longrightarrow> a = b"
proof (induction a arbitrary: b rule: Itoa.induct)
  case (1 a)
  show ?case
  proof (cases "a < 10")
    case True
    with "1.prems" have "Itoa b = [digit_char a]" by (simp add: Itoa.simps [of a])
    then have "b < 10 \<and> digit_char b = digit_char a"
      by (auto simp: Itoa.simps [of b] split: if_splits)
    with True show ?thesis using digit_char_inj by blast
  next
    case False
    with "1.prems" have eq: "Itoa b = Itoa (a div 10) @ [digit_char (a mod 10)]"
      by (simp add: Itoa.simps [of a])
    then have "\<not> b < 10" by (auto simp: Itoa.simps [of b] dest: sym)
    with eq have "Itoa (a div 10) = Itoa (b div 10)" "digit_char (a mod 10) = digit_char (b mod 10)"
      by (auto simp: Itoa.simps [of b])
    with "1.IH" [OF False] have "a div 10 = b div 10" "a mod 10 = b mod 10"
      by (auto dest: digit_char_inj [rotated 2])
    then show ?thesis by (metis div_mult_mod_eq)
  qed
qed

section \<open>Lemmas on lists\<close>

lemma nth_swap: "i < length xs \<Longrightarrow> j < length xs \<Longrightarrow> k < length xs \<Longrightarrow>
   (xs[i := xs ! j, j := xs ! i]) ! k = (if k = i then xs ! j else if k = j then xs ! i else xs ! k)"
  by (auto simp: nth_list_update)

text \<open>Sums over the elements of a list when one element changes.\<close>

lemma sum_list_map_update:
  fixes f :: "'a \<Rightarrow> nat"
  shows "t < length xs \<Longrightarrow> (\<Sum>x\<leftarrow>xs[t := y]. f x) + f (xs ! t) = (\<Sum>x\<leftarrow>xs. f x) + f y"
proof (induction xs arbitrary: t)
  case (Cons x xs)
  then show ?case by (cases t) auto
qed simp

lemma sum_list_map_member:
  fixes f :: "'a \<Rightarrow> nat"
  shows "x \<in> set xs \<Longrightarrow> f x \<le> (\<Sum>x\<leftarrow>xs. f x)"
  by (auto intro: member_le_sum_list)

lemma sum_list_map_two:
  fixes f :: "'a \<Rightarrow> nat"
  shows "t < u \<Longrightarrow> u < length xs \<Longrightarrow> f (xs ! t) + f (xs ! u) \<le> (\<Sum>x\<leftarrow>xs. f x)"
proof (induction xs arbitrary: t u)
  case (Cons x xs)
  then obtain v where v: "u = Suc v" "v < length xs" by (cases u) auto
  show ?case
  proof (cases t)
    case 0
    then show ?thesis using v sum_list_map_member [of "xs ! v" xs f] by simp
  next
    case (Suc w)
    then show ?thesis using Cons.IH [of w v] Cons.prems v by simp
  qed
qed simp

lemma length_filter_update:
  "i < length xs \<Longrightarrow> length (filter P (xs[i := y])) + (if P (xs ! i) then 1 else 0)
     = length (filter P xs) + (if P y then 1 else 0)"
proof (induction xs arbitrary: i)
  case (Cons x xs)
  show ?case
  proof (cases i)
    case (Suc j)
    then show ?thesis using Cons.IH [of j] Cons.prems by (simp split: if_splits)
  qed simp
qed simp

text \<open>A list of pieces of one size, all but the last ones.\<close>

lemma drop_concat_uniform:
  "i \<le> length xs \<Longrightarrow> \<forall>k<i. length (xs ! k) = s \<Longrightarrow> drop (i * s) (concat xs) = concat (drop i xs)"
proof (induction i arbitrary: xs)
  case (Suc i)
  then obtain y ys where xs: "xs = y # ys" by (cases xs) auto
  with Suc.prems(2) have "length y = s" by auto
  moreover have "\<forall>k<i. length (ys ! k) = s" using Suc.prems(2) xs by auto
  ultimately show ?case using Suc.IH [of ys] Suc.prems(1) xs by simp
qed simp

lemma take_drop_concat_uniform:
  "i < length xs \<Longrightarrow> \<forall>k<i. length (xs ! k) = s
     \<Longrightarrow> take (length (xs ! i)) (drop (i * s) (concat xs)) = xs ! i"
  by (simp add: drop_concat_uniform flip: Cons_nth_drop_Suc)

end
