(* ===== verification/Go_Path.thy ===== *)
theory Go_Path
  imports Prelude
begin

text \<open>
  The functions of \<open>path/filepath\<close> (on Unix) and \<open>path\<close> that the gateway calls: \<open>Clean\<close>, \<open>Join\<close>,
  \<open>Base\<close>, \<open>Split\<close> and \<open>Ext\<close>. \<open>Clean\<close> works on the slash-separated elements of a path with a stack,
  which is what its lexical rules amount to. The lemmas are about rooted paths, the only ones the
  gateway builds: they are determined by their list of names.
\<close>

section \<open>Definitions\<close>

abbreviation slash :: char where
  "slash \<equiv> CHR ''/''"

text \<open>One element of the path against the stack of the elements kept so far (top first).\<close>

definition clean_step :: "bool \<Rightarrow> string list \<Rightarrow> string \<Rightarrow> string list" where
  "clean_step rooted stack e =
     (if e = [] \<or> e = ''.'' then stack
      else if e = ''..'' then
        (case stack of
           [] \<Rightarrow> if rooted then [] else [e]
         | t # ts \<Rightarrow> if t = ''..'' then e # stack else ts)
      else e # stack)"

definition clean_elems :: "bool \<Rightarrow> string list \<Rightarrow> string list" where
  "clean_elems rooted es = rev (foldl (clean_step rooted) [] es)"

definition Clean :: "string \<Rightarrow> string" where
  "Clean path =
     (if path = [] then ''.''
      else if hd path = slash then slash # join_with [slash] (clean_elems True (split_on slash path))
      else case clean_elems False (split_on slash path) of
             [] \<Rightarrow> ''.''
           | es \<Rightarrow> join_with [slash] es)"

text \<open>\<open>Join\<close> skips the empty elements at the front, joins the rest and cleans the result.\<close>

definition Join :: "string list \<Rightarrow> string" where
  "Join elems =
     (case dropWhile (\<lambda>e. e = []) elems of
        [] \<Rightarrow> []
      | es \<Rightarrow> Clean (join_with [slash] es))"

text \<open>\<open>pathJoin\<close> of \<open>cmd/object-api-utils.go\<close> keeps a slash at the end.\<close>

definition pathJoin :: "string list \<Rightarrow> string" where
  "pathJoin elem = Join elem @ (if elem \<noteq> [] \<and> HasSuffix (last elem) ''/'' then ''/'' else [])"

text \<open>The bucket of the server itself.\<close>

definition minioMetaBucket :: string where "minioMetaBucket = ''.minio.sys''"

text \<open>\<open>Split\<close> at the last slash; the file part.\<close>

definition SplitFile :: "string \<Rightarrow> string" where
  "SplitFile path = last (split_on slash path)"

definition Base :: "string \<Rightarrow> string" where
  "Base path =
     (if path = [] then ''.''
      else let p = rev (dropWhile (\<lambda>c. c = slash) (rev path)) in
           if p = [] then [slash] else SplitFile p)"

text \<open>\<open>path.Ext\<close>: from the last dot of the last element on, empty without a dot.\<close>

definition Ext :: "string \<Rightarrow> string" where
  "Ext path =
     (let f = SplitFile path in
      if CHR ''.'' \<in> set f then CHR ''.'' # last (split_on (CHR ''.'') f) else [])"

section \<open>Rooted paths\<close>

text \<open>A name is one proper element of a path.\<close>

definition name_ok :: "string \<Rightarrow> bool" where
  "name_ok n \<longleftrightarrow> n \<noteq> [] \<and> n \<noteq> ''.'' \<and> n \<noteq> ''..'' \<and> slash \<notin> set n"

text \<open>The rooted path with the given names.\<close>

definition abs_path :: "string list \<Rightarrow> string" where
  "abs_path ns = slash # join_with [slash] ns"

text \<open>The names a sequence of elements leaves on the stack under the root.\<close>

definition norm_elems :: "string list \<Rightarrow> string list" where
  "norm_elems es = clean_elems True es"

lemma norm_elems_Nil [simp]: "norm_elems [] = []"
  by (simp add: norm_elems_def clean_elems_def)

lemma foldl_clean_name_ok:
  "list_all name_ok st \<Longrightarrow> \<forall>e \<in> set es. slash \<notin> set e \<Longrightarrow>
   list_all name_ok (foldl (clean_step True) st es)"
proof (induction es arbitrary: st)
  case (Cons e es)
  have "list_all name_ok (clean_step True st e)"
  proof (cases "e = [] \<or> e = ''.'' \<or> e = ''..''")
    case True
    with Cons.prems show ?thesis by (cases st) (auto simp: clean_step_def)
  next
    case False
    then have "name_ok e" using Cons.prems by (simp add: name_ok_def)
    with False Cons.prems show ?thesis by (simp add: clean_step_def)
  qed
  with Cons show ?case by simp
qed simp

lemma norm_elems_name_ok: "\<forall>e \<in> set es. slash \<notin> set e \<Longrightarrow> list_all name_ok (norm_elems es)"
  using foldl_clean_name_ok [of "[]" es] by (simp add: norm_elems_def clean_elems_def list_all_rev)

lemma clean_step_name_ok [simp]: "name_ok e \<Longrightarrow> clean_step r st e = e # st"
  by (auto simp: name_ok_def clean_step_def)

lemma foldl_clean_names: "list_all name_ok es \<Longrightarrow> foldl (clean_step r) st es = rev es @ st"
  by (induction es arbitrary: st) auto

lemma norm_elems_names [simp]: "list_all name_ok es \<Longrightarrow> norm_elems es = es"
  by (simp add: norm_elems_def clean_elems_def foldl_clean_names)

lemma norm_elems_skip: "e = [] \<or> e = ''.'' \<Longrightarrow> norm_elems (e # es) = norm_elems es"
  by (auto simp: norm_elems_def clean_elems_def clean_step_def)

lemma norm_elems_append_names:
  "list_all name_ok ns \<Longrightarrow> ''..'' \<notin> set es \<Longrightarrow> norm_elems (ns @ es) = ns @ norm_elems es"
proof -
  assume ns: "list_all name_ok ns" and es: "''..'' \<notin> set es"
  have "foldl (clean_step True) (st @ st') es = foldl (clean_step True) st es @ st'" for st st'
    using es
  proof (induction es arbitrary: st)
    case (Cons e es)
    then show ?case using Cons.IH [of st] Cons.IH [of "e # st"] by (auto simp: clean_step_def)
  qed simp
  from this [of "[]" "rev ns"] show ?thesis
    using ns by (simp add: norm_elems_def clean_elems_def foldl_clean_names)
qed

lemma Clean_rooted: "Clean (slash # s) = abs_path (norm_elems (split_on slash s))"
  by (simp add: Clean_def abs_path_def norm_elems_def clean_elems_def clean_step_def)

lemma split_abs_path:
  "list_all name_ok ns \<Longrightarrow> split_on slash (join_with [slash] ns) = (if ns = [] then [[]] else ns)"
  by (auto simp: name_ok_def list_all_iff intro: split_join)

text \<open>Cleaning leaves a path made of names alone, so cleaning twice is cleaning once.\<close>

lemma Clean_abs_path [simp]: "list_all name_ok ns \<Longrightarrow> Clean (abs_path ns) = abs_path ns"
proof -
  assume "list_all name_ok ns"
  then have "Clean (abs_path ns) = abs_path (norm_elems (if ns = [] then [[]] else ns))"
    using Clean_rooted [of "join_with [slash] ns"] by (simp add: abs_path_def split_abs_path)
  also have "\<dots> = abs_path ns"
    using \<open>list_all name_ok ns\<close> by (simp add: norm_elems_skip)
  finally show ?thesis .
qed

lemma norm_split_name_ok: "list_all name_ok (norm_elems (split_on slash s))"
  by (rule norm_elems_name_ok) (auto dest: split_on_parts)

lemma Clean_rooted_idem: "Clean (Clean (slash # s)) = Clean (slash # s)"
  by (simp add: Clean_rooted norm_split_name_ok)

lemma abs_path_inj:
  "list_all name_ok ns \<Longrightarrow> list_all name_ok ms \<Longrightarrow> abs_path ns = abs_path ms \<Longrightarrow> ns = ms"
proof -
  assume *: "list_all name_ok ns" "list_all name_ok ms" "abs_path ns = abs_path ms"
  then have "split_on slash (join_with [slash] ns) = split_on slash (join_with [slash] ms)"
    by (simp add: abs_path_def)
  with * show "ns = ms"
    by (auto simp: split_abs_path name_ok_def split: if_splits)
qed

lemma split_on_join:
  "xs \<noteq> [] \<Longrightarrow> split_on slash (join_with [slash] xs) = concat (map (split_on slash) xs)"
proof (induction xs)
  case (Cons x xs)
  then show ?case by (cases "xs = []") (auto simp: join_with_Cons split_on_append_sep)
qed simp

lemma Join_rooted:
  "Join ((slash # s) # es) = abs_path (norm_elems (concat (map (split_on slash) (s # es))))"
proof -
  have "join_with [slash] ((slash # s) # es) = slash # join_with [slash] (s # es)"
    by (cases es) auto
  then have "Join ((slash # s) # es) = Clean (slash # join_with [slash] (s # es))"
    by (simp add: Join_def)
  also have "\<dots> = abs_path (norm_elems (split_on slash (join_with [slash] (s # es))))"
    by (rule Clean_rooted)
  finally show ?thesis by (simp only: split_on_join list.distinct not_False_eq_True)
qed

lemma Join_root: "Join (''/'' # es) = abs_path (norm_elems (concat (map (split_on slash) es)))"
  using Join_rooted [of "[]" es] by (simp add: norm_elems_skip)

lemma Join_abs_path:
  assumes "list_all name_ok cs" and "''..'' \<notin> set (split_on slash x)"
  shows "Join [abs_path cs, x] = abs_path (cs @ norm_elems (split_on slash x))"
proof -
  have "Join [abs_path cs, x] =
      abs_path (norm_elems ((if cs = [] then [[]] else cs) @ split_on slash x))"
    using Join_rooted [of "join_with [slash] cs" "[x]"] assms(1)
    by (simp add: split_abs_path abs_path_def [of cs])
  also have "\<dots> = abs_path (cs @ norm_elems (split_on slash x))"
    using assms by (cases "cs = []") (simp_all add: norm_elems_skip norm_elems_append_names)
  finally show ?thesis .
qed

lemma TrimPrefix_abs_path:
  assumes "list_all name_ok ns" and "ns \<noteq> []"
  shows "TrimPrefix (abs_path (cs @ ns)) (abs_path cs @ ''/'') =
           (if cs = [] then abs_path ns else join_with [slash] ns)"
proof (cases "cs = []")
  case True
  have "\<exists>x xs. join_with [slash] ns = x # xs \<and> x \<noteq> slash"
    using assms by (cases ns; cases "hd ns"; cases "tl ns") (auto simp: name_ok_def)
  then have "\<not> HasPrefix (abs_path ns) (abs_path [] @ ''/'')"
    by (auto simp: HasPrefix_def abs_path_def)
  with True show ?thesis by (simp add: TrimPrefix_def)
next
  case False
  then have "abs_path (cs @ ns) = (abs_path cs @ ''/'') @ join_with [slash] ns"
    using assms(2) by (simp add: abs_path_def join_with_append)
  with False show ?thesis by (metis TrimPrefix_append)
qed

text \<open>A path below \<open>cs\<close> is recovered from what is left of it after trimming \<open>cs\<close>.\<close>

lemma Join_TrimPrefix:
  assumes "list_all name_ok cs" and "list_all name_ok ns" and "ns \<noteq> []"
  shows "Join [abs_path cs, TrimPrefix (abs_path (cs @ ns)) (abs_path cs @ ''/'')] = abs_path (cs @ ns)"
proof -
  have dd: "''..'' \<notin> set ns" using assms(2) by (auto simp: list_all_iff name_ok_def)
  show ?thesis
  proof (cases "cs = []")
    case True
    have "split_on slash (abs_path ns) = [] # ns"
      using assms(2,3) by (simp add: abs_path_def split_abs_path)
    with True show ?thesis using assms dd TrimPrefix_abs_path [OF assms(2,3), of cs]
      Join_abs_path [of "[]" "abs_path ns"] by (simp add: norm_elems_skip)
  next
    case False
    have "split_on slash (join_with [slash] ns) = ns" using assms(2,3) by (simp add: split_abs_path)
    with False show ?thesis using assms dd TrimPrefix_abs_path [OF assms(2,3), of cs]
      Join_abs_path [of cs "join_with [slash] ns"] by simp
  qed
qed

lemma Base_abs_path: "list_all name_ok ns \<Longrightarrow> ns \<noteq> [] \<Longrightarrow> Base (abs_path ns) = last ns"
proof -
  assume ns: "list_all name_ok ns" "ns \<noteq> []"
  have l: "last ns \<noteq> []" "slash \<notin> set (last ns)" using ns by (auto simp: name_ok_def list_all_iff)
  have "\<exists>p. abs_path ns = p @ last ns"
  proof (cases "butlast ns = []")
    case True
    then have "ns = [last ns]" using ns(2) append_butlast_last_id by fastforce
    then show ?thesis by (metis abs_path_def append_Cons append_Nil join_with.simps(2))
  next
    case False
    then have "join_with [slash] (butlast ns @ [last ns]) = join_with [slash] (butlast ns) @ [slash] @ last ns"
      by (simp add: join_with_append)
    then show ?thesis using ns(2) by (metis abs_path_def append_Cons append_butlast_last_id append.assoc)
  qed
  then obtain p where p: "abs_path ns = p @ last ns" by blast
  have "last (abs_path ns) = last (last ns)" using p l by simp
  then have "last (abs_path ns) \<noteq> slash" using l by (metis last_in_set)
  then have "rev (dropWhile (\<lambda>c. c = slash) (rev (abs_path ns))) = abs_path ns"
    by (cases "abs_path ns" rule: rev_cases) auto
  moreover have "SplitFile (abs_path ns) = last ns"
    using ns by (simp add: SplitFile_def abs_path_def split_abs_path)
  ultimately show ?thesis by (simp add: Base_def Let_def abs_path_def)
qed

end
