(* ===== verification/Zcn_Types.thy ===== *)
theory Zcn_Types
  imports Go_Path
begin

text \<open>
  Data shared by the parts of the gateway (\<open>cmd/gateway/zcn\<close>): the errors it tells apart, the object
  references and operation requests it exchanges with the storage SDK, and the answers it gives to
  the S3 layer. The SDK (\<open>github.com/0chain/gosdk\<close>), the other packages that are not part of the
  repository, the clock and the file system of the host are the fields of the record \<open>zenv\<close>, a
  parameter of every definition that calls them. Calls that may have an effect take and return the
  state \<open>'w\<close> of the world, so that two calls with equal arguments may answer differently.
\<close>

section \<open>Errors\<close>

text \<open>\<open>ZError code msg\<close> is an error of \<open>github.com/0chain/errors\<close>, \<open>ErrorText\<close> one made by
  \<open>errors.New\<close> or \<open>fmt.Errorf\<close>, \<open>Panic\<close> a run-time panic of the handler.\<close>

datatype go_error =
    ZError string string
  | ObjectNotFound string string
  | BucketNotFound string
  | BucketNotEmpty string
  | PreConditionFailed
  | ContextCanceled
  | ErrorText string
  | Panic string

section \<open>The storage SDK's data\<close>

record ORef =
  RefType :: string
  RefPath :: string
  RefName :: string
  RefSize :: int
  ActualFileSize :: int
  ActualFileHash :: string
  MimeType :: string
  EncryptedKey :: string
  CustomMeta :: string
  CreatedAt :: int
  UpdatedAt :: int

record ObjectTreeResult =
  TreeRefs :: "ORef list"
  TreeOffsetPath :: string

datatype op_type =
    FileOperationInsert
  | FileOperationUpdate
  | FileOperationDelete
  | FileOperationCreateDir
  | FileOperationCopy

record FileMeta =
  fmRemotePath :: string
  fmActualSize :: int
  fmMimeType :: string
  fmRemoteName :: string
  fmCustomMeta :: string

definition noFileMeta :: FileMeta where
  "noFileMeta = \<lparr>fmRemotePath = [], fmActualSize = 0, fmMimeType = [], fmRemoteName = [], fmCustomMeta = []\<rparr>"

text \<open>An upload request carries the bytes its reader will deliver and the two options that the
  gateway sets, \<open>WithChunkNumber\<close> and \<open>WithEncrypt\<close>.\<close>

record OperationRequest =
  OperationType :: op_type
  opRemotePath :: string
  opDestPath :: string
  opFileMeta :: FileMeta
  opReader :: bytes
  opWorkdir :: string
  opChunkNumber :: nat
  opEncrypt :: bool
  opStreamUpload :: bool

definition opRequest0 :: "op_type \<Rightarrow> string \<Rightarrow> OperationRequest" where
  "opRequest0 t remotePath = \<lparr>OperationType = t, opRemotePath = remotePath, opDestPath = [],
     opFileMeta = noFileMeta, opReader = [], opWorkdir = [], opChunkNumber = 0, opEncrypt = False,
     opStreamUpload = False\<rparr>"

text \<open>How a download ends: the call itself fails, or it starts and the status callback reports
  completion or an error, or the time limit passes first. The bytes are those written before.\<close>

datatype download =
    DownloadRefused go_error
  | DownloadDone bytes
  | DownloadFailed go_error bytes
  | DownloadTimedOut bytes

section \<open>The S3 layer's data\<close>

text \<open>A \<open>map[string]string\<close> of user metadata, as the list of its entries.\<close>

type_synonym meta = "(string \<times> string) list"

record ObjectInfo =
  oiBucket :: string
  oiName :: string
  oiModTime :: int
  oiSize :: int
  oiIsDir :: bool
  oiETag :: string
  oiContentType :: string
  oiAccTime :: int
  oiStorageClass :: string
  oiUserDefined :: meta

definition noObjectInfo :: ObjectInfo where
  "noObjectInfo = \<lparr>oiBucket = [], oiName = [], oiModTime = 0, oiSize = 0, oiIsDir = False, oiETag = [],
     oiContentType = [], oiAccTime = 0, oiStorageClass = [], oiUserDefined = []\<rparr>"

record BucketInfo =
  biName :: string
  biCreated :: int

section \<open>The environment\<close>

record 'w zenv =
  GetRefs :: "string \<Rightarrow> string \<Rightarrow> string \<Rightarrow> string \<Rightarrow> string \<Rightarrow> string \<Rightarrow> int \<Rightarrow> int \<Rightarrow> 'w \<Rightarrow>
    (go_error, ObjectTreeResult) result \<times> 'w"
  DoMultiOperation :: "OperationRequest list \<Rightarrow> 'w \<Rightarrow> go_error option \<times> 'w"
  DownloadByBlocks :: "string \<Rightarrow> int \<Rightarrow> int \<Rightarrow> int \<Rightarrow> int \<Rightarrow> 'w \<Rightarrow> download \<times> 'w"
  GetChunkReadSize :: "bool \<Rightarrow> int"
  DataShards :: int
  EncryptionHeaderSize :: int
  EncryptedDataPaddingSize :: int
  ErrorString :: "go_error \<Rightarrow> string"
  jsonMarshal :: "meta \<Rightarrow> string"
  jsonUnmarshal :: "string \<Rightarrow> meta"
  TypeByExtension :: "string \<Rightarrow> string"
  MatchSimple :: "string \<Rightarrow> string \<Rightarrow> bool"
  TimeNow :: "'w \<Rightarrow> int"
  osCreate :: "string \<Rightarrow> 'w \<Rightarrow> go_error option"
  fileSeek :: "string \<Rightarrow> bytes \<Rightarrow> int \<Rightarrow> go_error option"
  cfgEncrypt :: bool
  cfgCompress :: bool
  cfgWorkDir :: string
  cfgTempDir :: string
  newUUID :: "'w \<Rightarrow> string"

end
