(* ===== verification/Go_Heap.thy ===== *)
theory Go_Heap
  imports Prelude "HOL-Library.Multiset"
begin

text \<open>
  The package \<open>container/heap\<close> of the Go standard library, which the gateway uses on two of its
  own types: \<open>queue\<close> (part numbers) and \<open>listQueue\<close> (directory paths). The functions take the
  interface as a record of operations, as the Go functions take a \<open>heap.Interface\<close>; the locale
  \<open>slice_heap\<close> states what an implementation on a slice promises, and its lemmas show that \<open>Push\<close>
  and \<open>Pop\<close> then keep the heap order and the multiset of the elements, and that \<open>Pop\<close> returns a
  least element.
\<close>

section \<open>The functions of container/heap\<close>

record ('h, 'x) heap_iface =
  hLen :: "'h \<Rightarrow> nat"
  hLess :: "'h \<Rightarrow> nat \<Rightarrow> nat \<Rightarrow> bool"
  hSwap :: "'h \<Rightarrow> nat \<Rightarrow> nat \<Rightarrow> 'h"
  hPush :: "'h \<Rightarrow> 'x \<Rightarrow> 'h"
  hPop :: "'h \<Rightarrow> ('x \<times> 'h) option"

definition parent :: "nat \<Rightarrow> nat" where
  "parent j = (j - 1) div 2"

function heap_up :: "('h, 'x) heap_iface \<Rightarrow> 'h \<Rightarrow> nat \<Rightarrow> 'h" where
  "heap_up hi h j =
     (let i = parent j in
      if i = j \<or> \<not> hLess hi h j i then h else heap_up hi (hSwap hi h i j) i)"
  by pat_completeness auto
termination
  by (relation "measure (\<lambda>(hi, h, j). j)") (auto simp: parent_def)

text \<open>The child that \<open>down\<close> compares with index \<open>i\<close>: the smaller one, the left one on a tie.\<close>

definition heap_child :: "('h, 'x) heap_iface \<Rightarrow> 'h \<Rightarrow> nat \<Rightarrow> nat \<Rightarrow> nat" where
  "heap_child hi h i n =
     (let j1 = 2 * i + 1 in if j1 + 1 < n \<and> hLess hi h (j1 + 1) j1 then j1 + 1 else j1)"

function heap_down :: "('h, 'x) heap_iface \<Rightarrow> 'h \<Rightarrow> nat \<Rightarrow> nat \<Rightarrow> 'h" where
  "heap_down hi h i n =
     (if n \<le> 2 * i + 1 then h
      else let j = heap_child hi h i n in
           if \<not> hLess hi h j i then h else heap_down hi (hSwap hi h i j) j n)"
  by pat_completeness auto
termination
  by (relation "measure (\<lambda>(hi, h, i, n). n - i)") (auto simp: heap_child_def Let_def)

definition heap_init :: "('h, 'x) heap_iface \<Rightarrow> 'h \<Rightarrow> 'h" where
  "heap_init hi h =
     (let n = hLen hi h in foldl (\<lambda>h i. heap_down hi h i n) h (rev [0..<n div 2]))"

definition heap_push :: "('h, 'x) heap_iface \<Rightarrow> 'h \<Rightarrow> 'x \<Rightarrow> 'h" where
  "heap_push hi h x = (let h' = hPush hi h x in heap_up hi h' (hLen hi h' - 1))"

text \<open>\<open>heap.Pop\<close> on an empty heap indexes with \<open>-1\<close> and panics: \<open>None\<close>.\<close>

definition heap_pop :: "('h, 'x) heap_iface \<Rightarrow> 'h \<Rightarrow> ('x \<times> 'h) option" where
  "heap_pop hi h =
     (if hLen hi h = 0 then None
      else let n = hLen hi h - 1 in hPop hi (heap_down hi (hSwap hi h 0 n) 0 n))"

declare heap_up.simps [simp del] heap_down.simps [simp del]

section \<open>The heap order\<close>

text \<open>\<open>heap_from k n h\<close>: among the first \<open>n\<close> elements, every child of an index from \<open>k\<close> on is no
  smaller than its parent.\<close>

definition heap_from :: "nat \<Rightarrow> nat \<Rightarrow> 'a::linorder list \<Rightarrow> bool" where
  "heap_from k n h \<longleftrightarrow> (\<forall>m<n. 0 < m \<longrightarrow> k \<le> parent m \<longrightarrow> h ! parent m \<le> h ! m)"

abbreviation is_heap :: "'a::linorder list \<Rightarrow> bool" where
  "is_heap h \<equiv> heap_from 0 (length h) h"

text \<open>The order up to one misplaced element, which may be too small for its place (\<open>up_inv\<close>) or
  too big for it (\<open>down_inv\<close>).\<close>

definition up_inv :: "'a::linorder list \<Rightarrow> nat \<Rightarrow> bool" where
  "up_inv h j \<longleftrightarrow>
     (\<forall>m<length h. 0 < m \<longrightarrow> m \<noteq> j \<longrightarrow> h ! parent m \<le> h ! m) \<and>
     (0 < j \<longrightarrow> (\<forall>m<length h. 0 < m \<longrightarrow> parent m = j \<longrightarrow> h ! parent j \<le> h ! m))"

definition down_inv :: "nat \<Rightarrow> nat \<Rightarrow> 'a::linorder list \<Rightarrow> nat \<Rightarrow> bool" where
  "down_inv k n h i \<longleftrightarrow>
     (\<forall>m<n. 0 < m \<longrightarrow> k \<le> parent m \<longrightarrow> parent m \<noteq> i \<longrightarrow> h ! parent m \<le> h ! m) \<and>
     (0 < i \<longrightarrow> k \<le> parent i \<longrightarrow> (\<forall>m<n. 0 < m \<longrightarrow> parent m = i \<longrightarrow> h ! parent i \<le> h ! m))"

lemma parent_less: "0 < m \<Longrightarrow> parent m < m"
  by (auto simp: parent_def)

lemma parent_le: "parent m \<le> m"
  by (auto simp: parent_def)

lemma parent_eq_iff: "0 < m \<Longrightarrow> parent m = i \<longleftrightarrow> m = 2 * i + 1 \<or> m = 2 * i + 2"
  by (auto simp: parent_def)

lemma heap_from_least:
  assumes "heap_from 0 n h" and "m < n"
  shows "h ! 0 \<le> h ! m"
  using assms(2)
proof (induction m rule: less_induct)
  case (less m)
  show ?case
  proof (cases "m = 0")
    case False
    then have "parent m < m" by (simp add: parent_less)
    with less have "h ! 0 \<le> h ! parent m" by simp
    also have "\<dots> \<le> h ! m" using assms(1) less.prems False by (simp add: heap_from_def)
    finally show ?thesis .
  qed simp
qed

section \<open>An interface on a slice\<close>

locale slice_heap =
  fixes hi :: "('a::linorder list, 'a) heap_iface"
  assumes hLen: "hLen hi h = length h"
    and hLess: "i < length h \<Longrightarrow> j < length h \<Longrightarrow> hLess hi h i j \<longleftrightarrow> h ! i < h ! j"
    and hSwap: "i < length h \<Longrightarrow> j < length h \<Longrightarrow> hSwap hi h i j = h[i := h ! j, j := h ! i]"
    and hPush: "hPush hi h x = h @ [x]"
    and hPop: "h \<noteq> [] \<Longrightarrow> hPop hi h = Some (last h, butlast h)"
begin

lemma length_hSwap: "i < length h \<Longrightarrow> j < length h \<Longrightarrow> length (hSwap hi h i j) = length h"
  by (simp add: hSwap)

lemma mset_hSwap: "i < length h \<Longrightarrow> j < length h \<Longrightarrow> mset (hSwap hi h i j) = mset h"
  by (simp add: hSwap mset_swap)

lemma nth_hSwap: "i < length h \<Longrightarrow> j < length h \<Longrightarrow> k < length h \<Longrightarrow>
   hSwap hi h i j ! k = (if k = i then h ! j else if k = j then h ! i else h ! k)"
  by (simp add: hSwap nth_swap)

lemma up_inv_swap:
  assumes inv: "up_inv h j" and j: "j < length h" "0 < j" and lt: "h ! j < h ! parent j"
  shows "up_inv (hSwap hi h (parent j) j) (parent j)"
proof -
  let ?i = "parent j" and ?h = "hSwap hi h (parent j) j"
  have i: "?i < length h" "?i \<noteq> j" using j parent_less [of j] by auto
  have nth: "?h ! k = (if k = ?i then h ! j else if k = j then h ! ?i else h ! k)"
    if "k < length h" for k
    using that i j by (simp add: nth_hSwap)
  have len: "length ?h = length h" using i j by (simp add: length_hSwap)
  have "?h ! parent m \<le> ?h ! m" if m: "m < length h" "0 < m" "m \<noteq> ?i" for m
  proof -
    have pm: "parent m < length h" "parent m \<noteq> m" using m parent_less [of m] by auto
    consider "m = j" | "m \<noteq> j" "parent m = j" | "m \<noteq> j" "parent m = ?i"
      | "m \<noteq> j" "parent m \<noteq> j" "parent m \<noteq> ?i" by blast
    then show ?thesis
    proof cases
      case 1 then show ?thesis using lt nth m pm i by (simp add: less_imp_le)
    next
      case 2
      then have "h ! ?i \<le> h ! m" using inv m j by (auto simp: up_inv_def)
      with 2 show ?thesis using nth m pm by auto
    next
      case 3
      then have "h ! ?i \<le> h ! m" using inv m by (auto simp: up_inv_def)
      with 3 lt show ?thesis using nth m pm i by auto
    next
      case 4
      then have "h ! parent m \<le> h ! m" using inv m by (auto simp: up_inv_def)
      with 4 show ?thesis using nth m pm by auto
    qed
  qed
  moreover have "?h ! parent ?i \<le> ?h ! m"
    if m: "0 < ?i" "m < length h" "0 < m" "parent m = ?i" for m
  proof -
    have p: "parent ?i < length h" "parent ?i \<noteq> ?i" "parent ?i \<noteq> j" "m \<noteq> ?i"
      using m(1) i j parent_less [of ?i] parent_less [of j] parent_less [of m] m by auto
    have le: "h ! parent ?i \<le> h ! ?i" using inv i m(1) by (auto simp: up_inv_def)
    show ?thesis
    proof (cases "m = j")
      case True
      with le show ?thesis using nth [of "parent ?i"] nth [of m] p m by simp
    next
      case False
      then have "h ! ?i \<le> h ! m" using inv m by (auto simp: up_inv_def)
      with le False show ?thesis using nth [of "parent ?i"] nth [of m] p m by simp
    qed
  qed
  ultimately show ?thesis by (simp add: up_inv_def len)
qed

lemma heap_up_correct:
  "up_inv h j \<Longrightarrow> j < length h \<Longrightarrow>
   heap_from 0 (length h) (heap_up hi h j) \<and> mset (heap_up hi h j) = mset h \<and> length (heap_up hi h j) = length h"
proof (induction j arbitrary: h rule: less_induct)
  case (less j)
  show ?case
  proof (cases "parent j = j \<or> \<not> hLess hi h j (parent j)")
    case True
    have "parent j < length h" using less.prems parent_le [of j] by simp
    with True less.prems have "parent j = j \<or> h ! parent j \<le> h ! j" by (auto simp: hLess)
    then have "0 < j \<longrightarrow> h ! parent j \<le> h ! j" using parent_less [of j] by auto
    then have "is_heap h" using less.prems(1) by (auto simp: up_inv_def heap_from_def)
    with True show ?thesis by (simp add: heap_up.simps [of hi h j] Let_def)
  next
    case False
    have p: "0 < j" "parent j < j" "parent j < length h"
      using False less.prems parent_less [of j] parent_le [of j] by (auto simp: parent_def)
    with False less.prems have "h ! j < h ! parent j" by (simp add: hLess)
    with less.prems p have "up_inv (hSwap hi h (parent j) j) (parent j)"
      by (simp add: up_inv_swap)
    with less.IH [OF p(2), of "hSwap hi h (parent j) j"] False p less.prems show ?thesis
      by (simp add: heap_up.simps [of hi h j] Let_def length_hSwap mset_hSwap)
  qed
qed

lemma down_inv_swap:
  assumes inv: "down_inv k n h i" and n: "n \<le> length h" and k: "k \<le> i"
    and j: "j < n" "0 < j" "parent j = i" and lt: "h ! j < h ! i"
    and least: "\<And>m. m < n \<Longrightarrow> 0 < m \<Longrightarrow> parent m = i \<Longrightarrow> h ! j \<le> h ! m"
  shows "down_inv k n (hSwap hi h i j) j"
proof -
  let ?h = "hSwap hi h i j"
  have i: "i < length h" "j < length h" "i < n" "i \<noteq> j" using j n parent_less [of j] by auto
  have nth: "?h ! l = (if l = i then h ! j else if l = j then h ! i else h ! l)"
    if "l < length h" for l
    using that i by (simp add: nth_hSwap)
  have "?h ! parent m \<le> ?h ! m" if m: "m < n" "0 < m" "k \<le> parent m" "parent m \<noteq> j" for m
  proof -
    have pm: "parent m < length h" "parent m < m" "m < length h"
      using m n parent_less [of m] by auto
    consider "m = j" | "m \<noteq> j" "parent m = i" | "m = i" | "m \<noteq> j" "m \<noteq> i" "parent m \<noteq> i" by blast
    then show ?thesis
    proof cases
      case 1 then show ?thesis using lt nth pm j i by (simp add: less_imp_le)
    next
      case 2
      then have "h ! j \<le> h ! m" using least m by auto
      with 2 show ?thesis using nth [of "parent m"] nth [of m] pm by simp
    next
      case 3
      then have "h ! parent i \<le> h ! j" using inv m j i by (auto simp: down_inv_def)
      with 3 show ?thesis using nth [of "parent m"] nth [of m] pm m by simp
    next
      case 4
      then have "h ! parent m \<le> h ! m" using inv m by (auto simp: down_inv_def)
      with 4 show ?thesis using nth [of "parent m"] nth [of m] pm m by simp
    qed
  qed
  moreover have "?h ! parent j \<le> ?h ! m" if m: "m < n" "0 < m" "parent m = j" for m
  proof -
    have "m \<noteq> i" "m \<noteq> j" "m < length h" using m j n parent_less [of m] parent_less [of j] by auto
    moreover have "k \<le> parent m" "parent m \<noteq> i" using m j k i parent_less [of j] by auto
    then have "h ! parent m \<le> h ! m" using inv m unfolding down_inv_def by blast
    then have "h ! j \<le> h ! m" using m by simp
    ultimately show ?thesis using nth [of i] nth [of m] i j by simp
  qed
  ultimately show ?thesis by (simp add: down_inv_def)
qed

lemma heap_down_correct:
  "down_inv k n h i \<Longrightarrow> n \<le> length h \<Longrightarrow> k \<le> i \<Longrightarrow>
   heap_from k n (heap_down hi h i n) \<and> mset (heap_down hi h i n) = mset h \<and>
   length (heap_down hi h i n) = length h \<and> (\<forall>m. n \<le> m \<longrightarrow> heap_down hi h i n ! m = h ! m)"
proof (induction "n - i" arbitrary: h i rule: less_induct)
  case less
  let ?j1 = "2 * i + 1"
  let ?j = "heap_child hi h i n"
  have keep: "heap_down hi h i n = h"
    if "n \<le> ?j1 \<or> \<not> hLess hi h ?j i"
    using that by (subst heap_down.simps) (auto simp: Let_def)
  have stop: "heap_from k n h"
    if "\<And>m. m < n \<Longrightarrow> 0 < m \<Longrightarrow> parent m = i \<Longrightarrow> h ! i \<le> h ! m"
    unfolding heap_from_def
  proof (intro allI impI)
    fix m assume "m < n" "0 < m" "k \<le> parent m"
    then show "h ! parent m \<le> h ! m"
      using that [of m] less.prems(1) by (cases "parent m = i") (auto simp: down_inv_def)
  qed
  show ?case
  proof (cases "n \<le> ?j1")
    case True
    then have "\<not> (m < n \<and> 0 < m \<and> parent m = i)" for m
      using parent_eq_iff [of m i] by auto
    then have "heap_from k n h" using stop by blast
    then show ?thesis using keep True by simp
  next
    case False
    then have j: "?j < n" "0 < ?j" "parent ?j = i" "i < ?j" and i: "i < n"
      by (auto simp: parent_eq_iff heap_child_def Let_def)
    have least: "h ! ?j \<le> h ! m" if m: "m < n" "0 < m" "parent m = i" for m
    proof -
      have "m = ?j1 \<or> m = ?j1 + 1" using m by (auto simp: parent_eq_iff)
      then show ?thesis using m less.prems(2) False
        by (auto simp: heap_child_def Let_def hLess not_less less_imp_le)
    qed
    have lt: "hLess hi h ?j i \<longleftrightarrow> h ! ?j < h ! i"
      using j i less.prems(2) by (intro hLess) linarith+
    show ?thesis
    proof (cases "hLess hi h ?j i")
      case False
      then have "h ! i \<le> h ! ?j" using lt by simp
      then have "heap_from k n h" using stop least order_trans by blast
      then show ?thesis using keep False by simp
    next
      case True
      let ?h = "hSwap hi h i ?j"
      have eq: "heap_down hi h i n = heap_down hi ?h ?j n"
        using \<open>\<not> n \<le> ?j1\<close> True by (subst heap_down.simps) (simp add: Let_def)
      have inv: "down_inv k n ?h ?j"
        using down_inv_swap [OF less.prems(1,2,3) j(1,2,3)] lt True least by blast
      have len: "length ?h = length h" "mset ?h = mset h"
        using j i less.prems(2) by (auto simp: length_hSwap mset_hSwap simp del: One_nat_def)
      have "?h ! m = h ! m" if "n \<le> m" for m
      proof (cases "m < length h")
        case True
        then show ?thesis using that j i less.prems(2) by (subst nth_hSwap) auto
      next
        case False
        then show ?thesis using j i less.prems(2) by (simp add: hSwap)
      qed
      moreover have "n - ?j < n - i" using j i by linarith
      ultimately show ?thesis
        using less.hyps [of ?j ?h] inv len less.prems(2,3) j(4) by (simp add: eq)
    qed
  qed
qed

lemma heap_push_correct:
  assumes "is_heap h"
  shows "is_heap (heap_push hi h x) \<and> mset (heap_push hi h x) = add_mset x (mset h)"
proof -
  have "(h @ [x]) ! parent m \<le> (h @ [x]) ! m" if "m < length h" "0 < m" for m
    using that assms parent_less [of m] by (auto simp: heap_from_def nth_append)
  moreover have "parent m \<noteq> length h" if "m < Suc (length h)" "0 < m" for m
    using that parent_less [of m] by auto
  ultimately have "up_inv (h @ [x]) (length h)" by (auto simp: up_inv_def less_Suc_eq)
  then have *: "heap_from 0 (Suc (length h)) (heap_up hi (h @ [x]) (length h)) \<and>
      mset (heap_up hi (h @ [x]) (length h)) = add_mset x (mset h) \<and>
      length (heap_up hi (h @ [x]) (length h)) = Suc (length h)"
    using heap_up_correct [of "h @ [x]" "length h"] by simp
  then show ?thesis by (auto simp: heap_push_def hPush hLen)
qed

lemma heap_pop_Some:
  assumes "is_heap h" and "h \<noteq> []"
  obtains h' where "heap_pop hi h = Some (h ! 0, h')" "is_heap h'" "mset h = add_mset (h ! 0) (mset h')"
proof -
  let ?n = "length h - 1"
  let ?s = "hSwap hi h 0 ?n"
  let ?d = "heap_down hi ?s 0 ?n"
  have n: "?n < length h" "0 < length h" using assms(2) by auto
  have s: "length ?s = length h" "mset ?s = mset h"
    using n by (auto simp: length_hSwap mset_hSwap)
  have "?s ! m = h ! m" if "m < ?n" "0 < m" for m
    using that n by (subst nth_hSwap) auto
  then have "?s ! parent m \<le> ?s ! m" if "m < ?n" "0 < m" "0 < parent m" for m
    using that assms(1) parent_less [of m] by (simp add: heap_from_def)
  then have "down_inv 0 ?n ?s 0" by (simp add: down_inv_def)
  then have d: "heap_from 0 ?n ?d" "mset ?d = mset h" "length ?d = length h" "?d ! ?n = ?s ! ?n"
    using heap_down_correct [of 0 ?n ?s 0] n s by auto
  have last: "last ?d = h ! 0"
    using d n assms(2) by (subst last_conv_nth) (auto simp: nth_hSwap)
  have ne: "?d \<noteq> []" using d(3) assms(2) by auto
  have "heap_from 0 (length (butlast ?d)) (butlast ?d)"
    unfolding heap_from_def
  proof (intro allI impI)
    fix m assume "m < length (butlast ?d)" "0 < m"
    then show "butlast ?d ! parent m \<le> butlast ?d ! m"
      using d(1,3) parent_less [of m] by (simp add: heap_from_def nth_butlast)
  qed
  moreover have "mset h = add_mset (h ! 0) (mset (butlast ?d))"
    using ne last d(2) by (metis append_butlast_last_id mset.simps add_mset_add_single mset_append)
  moreover have "heap_pop hi h = Some (h ! 0, butlast ?d)"
    using assms(2) ne last by (simp add: heap_pop_def hLen hPop Let_def)
  ultimately show ?thesis using that by blast
qed

text \<open>\<open>heap.Pop\<close> removes a least element and keeps the heap.\<close>

lemma heap_pop_least:
  assumes "is_heap h" and "heap_pop hi h = Some (x, h')"
  shows "is_heap h' \<and> mset h = add_mset x (mset h') \<and> (\<forall>y \<in> set h. x \<le> y)"
proof -
  have "h \<noteq> []" using assms(2) by (auto simp: heap_pop_def hLen)
  with assms obtain "is_heap h'" "x = h ! 0" "mset h = add_mset (h ! 0) (mset h')"
    by (metis heap_pop_Some option.inject prod.inject)
  moreover have "h ! 0 \<le> y" if "y \<in> set h" for y
    using that heap_from_least [OF assms(1)] by (auto simp: in_set_conv_nth)
  ultimately show ?thesis by auto
qed

lemma heap_head_least: "is_heap h \<Longrightarrow> y \<in> set h \<Longrightarrow> h ! 0 \<le> y"
  using heap_from_least by (auto simp: in_set_conv_nth)

lemma heap_init_correct: "is_heap (heap_init hi h) \<and> mset (heap_init hi h) = mset h"
proof -
  let ?n = "length h"
  have step: "heap_from 0 ?n g' \<and> mset g' = mset g \<and> length g' = length g"
    if "heap_from k ?n g" "length g = ?n" "g' = foldl (\<lambda>h i. heap_down hi h i ?n) g (rev [0..<k])"
    for k g g'
    using that
  proof (induction k arbitrary: g)
    case 0
    then show ?case by simp
  next
    case (Suc k)
    let ?g = "heap_down hi g k ?n"
    have "down_inv k ?n g k"
      using Suc.prems(1) parent_less [of k] by (auto simp: down_inv_def heap_from_def)
    then have "heap_from k ?n ?g" "mset ?g = mset g" "length ?g = length g"
      using heap_down_correct [of k ?n g k] Suc.prems(2) by auto
    then show ?case using Suc.IH [of ?g] Suc.prems by simp
  qed
  have "heap_from (?n div 2) ?n h" by (auto simp: heap_from_def parent_def)
  from step [OF this refl refl] show ?thesis by (simp add: heap_init_def hLen Let_def)
qed

end

end
