(* ===== verification/Zcn_DStorage.thy ===== *)
theory Zcn_DStorage
  imports Zcn_Types Go_Heap
begin

text \<open>
  \<open>cmd/gateway/zcn/dStorage.go\<close>: how the gateway looks up single references, lists directories page
  by page, reads ranges of files block by block and uploads files, and the helpers of \<open>helper.go\<close>
  it uses for that. The listing loops run as long as the SDK returns further pages, so they are
  partial functions: \<open>None\<close> is a listing that does not return.
\<close>

section \<open>Constants\<close>

definition rootPath :: string where "rootPath = ''/''"
definition rootBucketName :: string where "rootBucketName = ''root''"
definition s3DirectoryContentType :: string where
  "s3DirectoryContentType = ''application/x-directory; charset=UTF-8''"
definition s3ContentHash :: string where "s3ContentHash = ''d41d8cd98f00b204e9800998ecf8427e''"

definition pageLimit :: int where "pageLimit = 1000"
definition numBlocks :: int where "numBlocks = 100"
definition dirType :: string where "dirType = ''d''"
definition fileType :: string where "fileType = ''f''"
definition defaultChunkSize :: int where "defaultChunkSize = 64 * 1024"
definition maxSizeForMemoryFile :: int where "maxSizeForMemoryFile = 16 * 1024 * 1024"
definition oneMB :: int where "oneMB = 1024 * 1024"
definition hundredMB :: int where "hundredMB = 10 * (10 * oneMB)"
definition oneGB :: int where "oneGB = 1024 * oneMB"
definition pathDoesNotExist :: string where "pathDoesNotExist = ''path_no_exist''"
definition consensusFailed :: string where "consensusFailed = ''consensus_failed''"
definition lz4MimeType :: string where "lz4MimeType = ''application/x-lz4''"

lemmas zcn_consts = rootPath_def rootBucketName_def s3DirectoryContentType_def s3ContentHash_def
  pageLimit_def numBlocks_def dirType_def fileType_def defaultChunkSize_def maxSizeForMemoryFile_def
  oneMB_def hundredMB_def oneGB_def pathDoesNotExist_def consensusFailed_def lz4MimeType_def

section \<open>Error classification\<close>

definition isPathNoExistError :: "go_error \<Rightarrow> bool" where
  "isPathNoExistError err = (case err of ZError code _ \<Rightarrow> code = pathDoesNotExist | _ \<Rightarrow> False)"

definition isConsensusFailedError :: "go_error \<Rightarrow> bool" where
  "isConsensusFailedError err = (case err of ZError code _ \<Rightarrow> code = consensusFailed | _ \<Rightarrow> False)"

definition isSameRootError :: "'w zenv \<Rightarrow> go_error \<Rightarrow> bool" where
  "isSameRootError env err = Contains (ErrorString env err) ''previous allocation root are same''"

definition remotePathNotExistError :: "'w zenv \<Rightarrow> go_error \<Rightarrow> bool" where
  "remotePathNotExistError env err = Contains (ErrorString env err) ''does not exist''"

section \<open>The heap of directories\<close>

type_synonym listQueue = "string list"

definition listQueue_Len :: "listQueue \<Rightarrow> nat" where
  "listQueue_Len lq = length lq"

definition listQueue_Less :: "listQueue \<Rightarrow> nat \<Rightarrow> nat \<Rightarrow> bool" where
  "listQueue_Less lq i j \<longleftrightarrow> lq ! i < lq ! j"

definition listQueue_Push :: "listQueue \<Rightarrow> string \<Rightarrow> listQueue" where
  "listQueue_Push lq path = lq @ [path]"

definition listQueue_Swap :: "listQueue \<Rightarrow> nat \<Rightarrow> nat \<Rightarrow> listQueue" where
  "listQueue_Swap lq i j = lq[i := lq ! j, j := lq ! i]"

definition listQueue_Pop :: "listQueue \<Rightarrow> (string \<times> listQueue) option" where
  "listQueue_Pop lq = (let n = length lq in if n = 0 then None else Some (lq ! (n - 1), take (n - 1) lq))"

definition listQueue_iface :: "(listQueue, string) heap_iface" where
  "listQueue_iface = \<lparr>hLen = listQueue_Len, hLess = listQueue_Less, hSwap = listQueue_Swap,
     hPush = listQueue_Push, hPop = listQueue_Pop\<rparr>"

section \<open>References\<close>

definition path_level :: "string \<Rightarrow> int" where
  "path_level p = int (length (split_on slash (TrimSuffix p ''/'')))"

definition getRegularRefs ::
  "'w zenv \<Rightarrow> string \<Rightarrow> string \<Rightarrow> string \<Rightarrow> int \<Rightarrow> 'w \<Rightarrow> (go_error, ObjectTreeResult) result \<times> 'w" where
  "getRegularRefs env remotePath offsetPath objFileType limit w =
     (let level = path_level remotePath + 1;
          level = (if offsetPath \<noteq> [] \<and> path_level offsetPath > level then 0 else level);
          level = (if objFileType = fileType then 0 else level)
      in GetRefs env (Clean remotePath) offsetPath [] [] objFileType ''regular'' level limit w)"

text \<open>The SDK answers a lookup of a missing path with a consensus error, so such an error is
  retried once and then reported as a missing path.\<close>

definition pathNoExist :: "string \<Rightarrow> go_error" where
  "pathNoExist p = ZError pathDoesNotExist (''remotepath '' @ p @ '' does not exist'')"

definition first_ref :: "string \<Rightarrow> ObjectTreeResult \<Rightarrow> (go_error, ORef) result" where
  "first_ref p r = (case TreeRefs r of [] \<Rightarrow> Inl (pathNoExist p) | ref # _ \<Rightarrow> Inr ref)"

definition getSingleRegularRef :: "'w zenv \<Rightarrow> string \<Rightarrow> 'w \<Rightarrow> (go_error, ORef) result \<times> 'w" where
  "getSingleRegularRef env remotePath w =
     (let level = path_level remotePath; remotePath = Clean remotePath in
      case GetRefs env remotePath [] [] [] [] ''regular'' level 1 w of
        (Inr r, w1) \<Rightarrow> (first_ref remotePath r, w1)
      | (Inl err, w1) \<Rightarrow>
          if isConsensusFailedError err then
            (case GetRefs env remotePath [] [] [] [] ''regular'' level 1 w1 of
               (Inr r, w2) \<Rightarrow> (first_ref remotePath r, w2)
             | (Inl err2, w2) \<Rightarrow>
                 if isConsensusFailedError err2 then (Inl (pathNoExist remotePath), w2)
                 else (Inl err2, w2))
          else (Inl err, w1))"

definition getObjectRef ::
  "'w zenv \<Rightarrow> string \<Rightarrow> string \<Rightarrow> string \<Rightarrow> 'w \<Rightarrow> (go_error, ObjectInfo \<times> bool) result \<times> 'w" where
  "getObjectRef env bucket object remotePath w =
     (case getSingleRegularRef env remotePath w of
        (Inl err, w1) \<Rightarrow>
          (if isPathNoExistError err then Inl (ObjectNotFound bucket object) else Inl err, w1)
      | (Inr ref, w1) \<Rightarrow>
          (let isEncrypted = (EncryptedKey ref \<noteq> []);
               ref = (if RefType ref = dirType
                      then ref\<lparr>ActualFileHash := s3ContentHash, MimeType := s3DirectoryContentType,
                               ActualFileSize := 0\<rparr>
                      else ref)
           in (Inr (noObjectInfo\<lparr>oiBucket := bucket, oiName := RefName ref, oiModTime := UpdatedAt ref,
                      oiSize := ActualFileSize ref, oiIsDir := (RefType ref = dirType),
                      oiContentType := MimeType ref, oiETag := ActualFileHash ref\<rparr>, isEncrypted), w1)))"

section \<open>Listing\<close>

partial_function (option) listRootDir_loop ::
  "'w zenv \<Rightarrow> string \<Rightarrow> string \<Rightarrow> ORef list \<Rightarrow> 'w \<Rightarrow> ((go_error, ORef list) result \<times> 'w) option" where
  "listRootDir_loop env ft offsetPath refs w =
     (case getRegularRefs env rootPath offsetPath ft pageLimit w of
        (Inl err, w1) \<Rightarrow> Some (Inl err, w1)
      | (Inr r, w1) \<Rightarrow>
          if TreeRefs r = [] then Some (Inr refs, w1)
          else listRootDir_loop env ft (TreeOffsetPath r) (refs @ TreeRefs r) w1)"

definition listRootDir ::
  "'w zenv \<Rightarrow> string \<Rightarrow> 'w \<Rightarrow> ((go_error, ORef list) result \<times> 'w) option" where
  "listRootDir env ft w = listRootDir_loop env ft [] [] w"

definition getCommonPrefix :: "string \<Rightarrow> string" where
  "getCommonPrefix remotePath =
     (let pSlice = split_on slash (TrimSuffix remotePath ''/'') in
      if length pSlice < 2 then [] else join_with ''/'' (drop 2 pSlice))"

text \<open>The variables of \<open>listRegularRefs\<close> that its loops change.\<close>

record lr_state =
  lr_refs :: "ORef list"
  lr_prefixes :: "string list"
  lr_isTruncated :: bool
  lr_markedPath :: string
  lr_dirMap :: "string list"
  lr_directories :: listQueue
  lr_marker :: string
  lr_listPageLimit :: int

text \<open>The loop over the references of one page; it ends early when the result is full.\<close>

fun lr_page_refs :: "bool \<Rightarrow> int \<Rightarrow> string \<Rightarrow> string \<Rightarrow> ORef list \<Rightarrow> lr_state \<Rightarrow> lr_state" where
  "lr_page_refs isDelimited maxRefs cur commonPrefix [] st = st"
| "lr_page_refs isDelimited maxRefs cur commonPrefix (ref # rs) st =
     (let trimmedPath = TrimPrefix (RefPath ref) (cur @ ''/'') in
      if RefType ref = dirType \<and> RefPath ref \<in> set (lr_dirMap st) then
        lr_page_refs isDelimited maxRefs cur commonPrefix rs st
      else if RefType ref = dirType \<and> isDelimited then
        lr_page_refs isDelimited maxRefs cur commonPrefix rs
          (st\<lparr>lr_prefixes := lr_prefixes st @ [Join [commonPrefix, trimmedPath] @ ''/'']\<rparr>)
      else
        let st1 = (if RefType ref = dirType
                   then st\<lparr>lr_directories := heap_push listQueue_iface (lr_directories st) (RefPath ref),
                           lr_dirMap := RefPath ref # lr_dirMap st\<rparr>
                   else st);
            st2 = st1\<lparr>lr_refs := lr_refs st1 @ [ref\<lparr>RefName := Join [commonPrefix, trimmedPath]\<rparr>]\<rparr>
        in if maxRefs \<noteq> 0 \<and> int (length (lr_refs st2)) \<ge> maxRefs
           then st2\<lparr>lr_markedPath := RefPath ref, lr_isTruncated := True\<rparr>
           else lr_page_refs isDelimited maxRefs cur commonPrefix rs st2)"

text \<open>The loop over the pages of one directory.\<close>

definition lr_limit :: "int \<Rightarrow> lr_state \<Rightarrow> lr_state" where
  "lr_limit maxRefs st =
     (if int (length (lr_refs st)) + lr_listPageLimit st > maxRefs
      then st\<lparr>lr_listPageLimit := maxRefs - int (length (lr_refs st))\<rparr> else st)"

partial_function (option) lr_pages ::
  "'w zenv \<Rightarrow> string \<Rightarrow> int \<Rightarrow> bool \<Rightarrow> string \<Rightarrow> string \<Rightarrow> lr_state \<Rightarrow> 'w \<Rightarrow>
     ((go_error, lr_state) result \<times> 'w) option" where
  "lr_pages env ft maxRefs isDelimited cur offsetPath st w =
     (let st1 = lr_limit maxRefs st in
      case getRegularRefs env cur offsetPath ft (lr_listPageLimit st1) w of
        (Inl err, w1) \<Rightarrow> Some (Inl err, w1)
      | (Inr r, w1) \<Rightarrow>
          if TreeRefs r = [] then Some (Inr st1, w1)
          else let st2 = lr_page_refs isDelimited maxRefs cur (getCommonPrefix cur) (TreeRefs r) st1 in
               if lr_isTruncated st2 then Some (Inr st2, w1)
               else if int (length (TreeRefs r)) < lr_listPageLimit st2 then Some (Inr st2, w1)
               else lr_pages env ft maxRefs isDelimited cur (TreeOffsetPath r) st2 w1)"

text \<open>The loop over the directories, smallest path first.\<close>

partial_function (option) lr_dirs ::
  "'w zenv \<Rightarrow> string \<Rightarrow> int \<Rightarrow> bool \<Rightarrow> lr_state \<Rightarrow> 'w \<Rightarrow> ((go_error, lr_state) result \<times> 'w) option" where
  "lr_dirs env ft maxRefs isDelimited st w =
     (if lr_directories st = [] \<or> lr_isTruncated st then Some (Inr st, w)
      else case heap_pop listQueue_iface (lr_directories st) of
             None \<Rightarrow> Some (Inl (Panic ''index out of range''), w)
           | Some (_, ds) \<Rightarrow>
               let cur = lr_directories st ! 0;
                   offsetPath = (if lr_marker st \<noteq> [] then Join [cur, lr_marker st] else cur)
               in case lr_pages env ft maxRefs isDelimited cur offsetPath
                         (st\<lparr>lr_directories := ds, lr_marker := []\<rparr>) w of
                    None \<Rightarrow> None
                  | Some r \<Rightarrow>
                      (case r of
                         (Inl err, w1) \<Rightarrow> Some (Inl err, w1)
                       | (Inr st1, w1) \<Rightarrow> lr_dirs env ft maxRefs isDelimited st1 w1))"

definition lr_init :: "string \<Rightarrow> string \<Rightarrow> lr_state" where
  "lr_init remotePath marker =
     \<lparr>lr_refs = [], lr_prefixes = [], lr_isTruncated = False, lr_markedPath = [], lr_dirMap = [],
      lr_directories = heap_push listQueue_iface (heap_init listQueue_iface []) remotePath,
      lr_marker = marker, lr_listPageLimit = pageLimit\<rparr>"

definition listRegularRefs ::
  "'w zenv \<Rightarrow> string \<Rightarrow> string \<Rightarrow> string \<Rightarrow> int \<Rightarrow> bool \<Rightarrow> 'w \<Rightarrow>
     ((go_error, ORef list \<times> bool \<times> string \<times> string list) result \<times> 'w) option" where
  "listRegularRefs env remotePath marker ft maxRefs isDelimited w =
     (let remotePath = Clean remotePath in
      case lr_dirs env ft maxRefs isDelimited (lr_init remotePath marker) w of
        None \<Rightarrow> None
      | Some (Inl err, w1) \<Rightarrow> Some (Inl err, w1)
      | Some (Inr st, w1) \<Rightarrow>
          Some (Inr (lr_refs st, lr_isTruncated st,
                     if lr_isTruncated st then TrimPrefix (lr_markedPath st) (remotePath @ ''/'') else [],
                     lr_prefixes st), w1))"

section \<open>The heap of directories is a slice heap\<close>

interpretation dir_heap: slice_heap listQueue_iface
proof unfold_locales
  show "h \<noteq> [] \<Longrightarrow> hPop listQueue_iface h = Some (last h, butlast h)" for h
    by (simp add: listQueue_iface_def listQueue_Pop_def last_conv_nth butlast_conv_take Let_def)
qed (simp_all add: listQueue_iface_def listQueue_Len_def listQueue_Less_def listQueue_Swap_def
      listQueue_Push_def)

lemma dir_heap_single [simp]:
  "heap_push listQueue_iface (heap_init listQueue_iface []) p = [p]"
  "heap_pop listQueue_iface [p] = Some (p, [])"
proof -
  have nil: "heap_init listQueue_iface [] = []"
    using dir_heap.heap_init_correct [of "[]"] by simp
  have h: "is_heap ([] :: string list)" by (simp add: heap_from_def)
  show *: "heap_push listQueue_iface (heap_init listQueue_iface []) p = [p]"
    using dir_heap.heap_push_correct [OF h, of p] nil
    by (metis mset_single_iff mset.simps(1))
  have "is_heap [p]" by (simp add: heap_from_def)
  then show "heap_pop listQueue_iface [p] = Some (p, [])"
    by (rule dir_heap.heap_pop_Some) auto
qed

section \<open>A server of references\<close>

text \<open>
  What the SDK documents about \<open>GetRefs\<close>: the references below a path come sorted by path, those
  after the offset only, at most a page at a time, and the answer's offset is the last path of the
  page. \<open>serves env cur ft all\<close> says so of the calls that a listing of \<open>cur\<close> makes; \<open>all\<close> are the
  references below \<open>cur\<close>.
\<close>

definition page_after :: "ORef list \<Rightarrow> string \<Rightarrow> ORef list" where
  "page_after all off = filter (\<lambda>r. off < RefPath r) all"

definition page_answer :: "ORef list \<Rightarrow> string \<Rightarrow> int \<Rightarrow> ObjectTreeResult" where
  "page_answer all off limit =
     (let page = take (nat limit) (page_after all off) in
      \<lparr>TreeRefs = page, TreeOffsetPath = (if page = [] then off else RefPath (last page))\<rparr>)"

definition serves :: "'w zenv \<Rightarrow> string \<Rightarrow> string \<Rightarrow> string \<Rightarrow> ORef list \<Rightarrow> bool" where
  "serves env cur ft start all \<longleftrightarrow>
     sorted_wrt (\<lambda>a b. RefPath a < RefPath b) all \<and>
     (\<forall>off \<in> insert start (RefPath ` set all). \<forall>limit>0. \<forall>w. \<exists>w'.
        getRegularRefs env cur off ft limit w = (Inr (page_answer all off limit), w'))"

abbreviation refs_sorted :: "ORef list \<Rightarrow> bool" where
  "refs_sorted \<equiv> sorted_wrt (\<lambda>a b. RefPath a < RefPath b)"

lemma refs_sorted_after [simp]: "refs_sorted all \<Longrightarrow> refs_sorted (page_after all off)"
  by (simp add: page_after_def sorted_wrt_filter)

lemma after_last_of_page:
  assumes "refs_sorted all" and "0 < n" and "page_after all off \<noteq> []"
  shows "page_after all (RefPath (last (take n (page_after all off)))) = drop n (page_after all off)"
proof -
  let ?rem = "page_after all off"
  let ?l = "last (take n ?rem)"
  have l: "?l \<in> set (take n ?rem)" using assms(2,3) by (intro last_in_set) simp
  then have off: "off < RefPath ?l" by (auto simp: page_after_def dest: in_set_takeD)
  have sorted: "refs_sorted (take n ?rem @ drop n ?rem)" using assms(1) by simp
  have below: "\<not> RefPath ?l < RefPath r" if "r \<in> set (take n ?rem)" for r
  proof -
    have "refs_sorted (butlast (take n ?rem) @ [?l])"
      using assms sorted by (metis append_butlast_last_id sorted_wrt_append take_eq_Nil neq0_conv)
    then have "r = ?l \<or> RefPath r < RefPath ?l"
      using that assms(2,3) by (metis append_butlast_last_id in_set_conv_decomp set_ConsD
          sorted_wrt_append list.set_intros(1) rotate1.simps(2) set_rotate1 take_eq_Nil neq0_conv)
    then show ?thesis by auto
  qed
  have above: "RefPath ?l < RefPath r" if "r \<in> set (drop n ?rem)" for r
    using sorted that l unfolding sorted_wrt_append by blast
  have "page_after all (RefPath ?l) = page_after ?rem (RefPath ?l)"
    using off by (auto simp: page_after_def intro!: filter_cong)
  also have "\<dots> = page_after (take n ?rem @ drop n ?rem) (RefPath ?l)" by simp
  also have "\<dots> = filter (\<lambda>r. RefPath ?l < RefPath r) (take n ?rem) @
      filter (\<lambda>r. RefPath ?l < RefPath r) (drop n ?rem)"
    by (simp only: page_after_def filter_append)
  also have "\<dots> = drop n ?rem" using below above by simp
  finally show ?thesis .
qed

lemma page_after_in: "page_after all off \<noteq> [] \<Longrightarrow> 0 < n \<Longrightarrow>
   last (take n (page_after all off)) \<in> set all"
  by (metis filter_is_subset in_set_takeD last_in_set neq0_conv page_after_def subsetD take_eq_Nil)

section \<open>Listing the root directory\<close>

lemma listRootDir_loop_complete:
  assumes "serves env rootPath ft start all"
  shows "off \<in> insert start (RefPath ` set all) \<Longrightarrow>
    \<exists>w'. listRootDir_loop env ft off acc w = Some (Inr (acc @ page_after all off), w')"
proof (induction "length (page_after all off)" arbitrary: off acc w rule: less_induct)
  case less
  have lim: "(0::int) < pageLimit" by (simp add: pageLimit_def)
  obtain w1 where w1: "getRegularRefs env rootPath off ft pageLimit w =
      (Inr (page_answer all off pageLimit), w1)"
    using assms less.prems lim unfolding serves_def by blast
  let ?rem = "page_after all off" and ?n = "nat pageLimit"
  have n: "0 < ?n" by (simp add: pageLimit_def)
  show ?case
  proof (cases "?rem = []")
    case True
    with w1 show ?thesis
      by (subst listRootDir_loop.simps) (simp add: page_answer_def)
  next
    case False
    let ?off = "RefPath (last (take ?n ?rem))"
    have rest: "page_after all ?off = drop ?n ?rem"
      using after_last_of_page assms False n by (auto simp: serves_def)
    have "?off \<in> insert start (RefPath ` set all)" using page_after_in [OF False n] by auto
    moreover have "length (page_after all ?off) < length ?rem" using False n by (simp add: rest)
    ultimately obtain w' where
      "listRootDir_loop env ft ?off (acc @ take ?n ?rem) w1 = Some (Inr (acc @ take ?n ?rem @ drop ?n ?rem), w')"
      using less.hyps rest by (metis append.assoc)
    with False w1 n show ?thesis
      by (subst listRootDir_loop.simps) (simp add: page_answer_def Let_def)
  qed
qed

section \<open>Listing a directory or a subtree\<close>

text \<open>The specification: the shortest prefix of the references that holds \<open>n\<close> files, the objects
  and common prefixes the gateway makes of references.\<close>

abbreviation is_dir :: "ORef \<Rightarrow> bool" where
  "is_dir r \<equiv> RefType r = dirType"

fun take_files :: "nat \<Rightarrow> ORef list \<Rightarrow> ORef list" where
  "take_files 0 rs = []"
| "take_files (Suc n) [] = []"
| "take_files (Suc n) (r # rs) = r # (if is_dir r then take_files (Suc n) rs else take_files n rs)"

abbreviation files_of :: "ORef list \<Rightarrow> ORef list" where
  "files_of \<equiv> filter (\<lambda>r. \<not> is_dir r)"

abbreviation dirs_of :: "ORef list \<Rightarrow> ORef list" where
  "dirs_of \<equiv> filter is_dir"

definition rel_name :: "string \<Rightarrow> ORef \<Rightarrow> string" where
  "rel_name cur r = Join [getCommonPrefix cur, TrimPrefix (RefPath r) (cur @ ''/'')]"

definition as_object :: "string \<Rightarrow> ORef \<Rightarrow> ORef" where
  "as_object cur r = r\<lparr>RefName := rel_name cur r\<rparr>"

definition as_prefix :: "string \<Rightarrow> ORef \<Rightarrow> string" where
  "as_prefix cur r = rel_name cur r @ ''/''"

text \<open>A listing that never descends: with a delimiter, or of files only.\<close>

definition flat :: "bool \<Rightarrow> ORef list \<Rightarrow> bool" where
  "flat isDelimited rs \<longleftrightarrow> isDelimited \<or> dirs_of rs = []"

lemma take_files_all: "length (files_of rs) < n \<Longrightarrow> take_files n rs = rs"
  by (induction n rs rule: take_files.induct) auto

lemma take_files_append:
  "n \<le> length (files_of xs) \<Longrightarrow> take_files n (xs @ ys) = take_files n xs"
  by (induction n xs rule: take_files.induct) (auto split: if_splits)

lemma take_files_append_less:
  "length (files_of xs) < n \<Longrightarrow> take_files n (xs @ ys) = xs @ take_files (n - length (files_of xs)) ys"
proof (induction n xs rule: take_files.induct)
  case (3 n r rs)
  then show ?case by (cases "is_dir r") auto
qed auto

lemma length_files_take_files: "length (files_of (take_files n rs)) = min n (length (files_of rs))"
  by (induction n rs rule: take_files.induct) auto

lemma take_files_nonempty: "0 < n \<Longrightarrow> rs \<noteq> [] \<Longrightarrow> take_files n rs \<noteq> []"
  by (cases n; cases rs) auto

definition lr_emit :: "string \<Rightarrow> ORef list \<Rightarrow> lr_state \<Rightarrow> lr_state" where
  "lr_emit cur rs st = st\<lparr>lr_refs := lr_refs st @ map (as_object cur) (files_of rs),
                          lr_prefixes := lr_prefixes st @ map (as_prefix cur) (dirs_of rs)\<rparr>"

lemma lr_emit_simps [simp]:
  "lr_emit cur [] st = st"
  "lr_emit cur ys (lr_emit cur xs st) = lr_emit cur (xs @ ys) st"
  "lr_isTruncated (lr_emit cur xs st) = lr_isTruncated st"
  "lr_directories (lr_emit cur xs st) = lr_directories st"
  "lr_dirMap (lr_emit cur xs st) = lr_dirMap st"
  "lr_listPageLimit (lr_emit cur xs st) = lr_listPageLimit st"
  "lr_markedPath (lr_emit cur xs st) = lr_markedPath st"
  "length (lr_refs (lr_emit cur xs st)) = length (lr_refs st) + length (files_of xs)"
  by (simp_all add: lr_emit_def)

text \<open>One page of a flat listing: the references up to the one that fills the result are emitted.\<close>

lemma lr_page_refs_flat:
  "flat isDelimited rs \<Longrightarrow> lr_dirMap st = [] \<Longrightarrow> int (length (lr_refs st)) < maxRefs \<Longrightarrow>
   (let k = nat maxRefs - length (lr_refs st) in
    lr_page_refs isDelimited maxRefs cur (getCommonPrefix cur) rs st =
      (if length (files_of rs) < k then lr_emit cur rs st
       else (lr_emit cur (take_files k rs) st)
              \<lparr>lr_markedPath := RefPath (last (take_files k rs)), lr_isTruncated := True\<rparr>))"
proof (induction rs arbitrary: st)
  case Nil
  then show ?case by (simp add: Let_def)
next
  case (Cons r rs)
  let ?k = "nat maxRefs - length (lr_refs st)"
  obtain k where k: "?k = Suc k" using Cons.prems(3) by (cases ?k) auto
  have fl: "flat isDelimited rs" using Cons.prems(1) by (auto simp: flat_def split: if_splits)
  show ?case
  proof (cases "is_dir r")
    case True
    then have d: isDelimited using Cons.prems(1) by (simp add: flat_def)
    let ?st = "lr_emit cur [r] st"
    have "?st = st\<lparr>lr_prefixes := lr_prefixes st @ [as_prefix cur r]\<rparr>"
      using True by (simp add: lr_emit_def)
    then have step: "lr_page_refs isDelimited maxRefs cur (getCommonPrefix cur) (r # rs) st =
        lr_page_refs isDelimited maxRefs cur (getCommonPrefix cur) rs ?st"
      using True d Cons.prems(2) by (simp add: Let_def as_prefix_def rel_name_def)
    show ?thesis
      using Cons.IH [OF fl, of ?st] Cons.prems(2,3) True k take_files_nonempty [of "Suc k" rs]
      unfolding step by (cases "rs = []") (auto simp: Let_def)
  next
    case False
    let ?st = "lr_emit cur [r] st"
    have st: "?st = st\<lparr>lr_refs := lr_refs st @ [as_object cur r]\<rparr>"
      using False by (simp add: lr_emit_def)
    show ?thesis
    proof (cases "int (length (lr_refs ?st)) \<ge> maxRefs")
      case True
      then have "?k = 1" using False k by simp
      with True False Cons.prems(3) show ?thesis
        by (simp add: Let_def st as_object_def rel_name_def)
    next
      case full: False
      have step: "lr_page_refs isDelimited maxRefs cur (getCommonPrefix cur) (r # rs) st =
          lr_page_refs isDelimited maxRefs cur (getCommonPrefix cur) rs ?st"
        using False full Cons.prems(3) by (simp add: Let_def st as_object_def rel_name_def)
      have "nat maxRefs - length (lr_refs ?st) = k" "0 < k" using False full k by auto
      then show ?thesis
        using Cons.IH [OF fl, of ?st] Cons.prems(2) False full k take_files_nonempty [of k rs]
        unfolding step by (cases "rs = []") (auto simp: Let_def)
    qed
  qed
qed

lemma flat_after: "flat isDelimited all \<Longrightarrow> flat isDelimited (page_after all off)"
  by (auto simp: flat_def page_after_def filter_empty_conv)

lemma flat_take: "flat isDelimited rs \<Longrightarrow> flat isDelimited (take n rs)"
  by (auto simp: flat_def filter_empty_conv dest: in_set_takeD)

text \<open>The state after listing the references \<open>rs\<close> into \<open>st\<close>, up to the page limit variable.\<close>

definition lr_listed :: "int \<Rightarrow> string \<Rightarrow> ORef list \<Rightarrow> lr_state \<Rightarrow> lr_state" where
  "lr_listed maxRefs cur rs st =
     (let k = nat maxRefs - length (lr_refs st) in
      if length (files_of rs) < k then lr_emit cur rs st
      else (lr_emit cur (take_files k rs) st)
             \<lparr>lr_markedPath := RefPath (last (take_files k rs)), lr_isTruncated := True\<rparr>)"

lemma lr_listed_append:
  assumes "length (files_of xs) < nat maxRefs - length (lr_refs st)"
  shows "lr_listed maxRefs cur ys (lr_emit cur xs st) = lr_listed maxRefs cur (xs @ ys) st"
proof (cases "length (files_of (xs @ ys)) < nat maxRefs - length (lr_refs st)")
  case True
  with assms show ?thesis by (simp add: lr_listed_def Let_def less_diff_conv2 add.assoc)
next
  case False
  let ?k = "nat maxRefs - length (lr_refs st)"
  have *: "0 < ?k - length (files_of xs)" "ys \<noteq> []" using assms False by auto
  have "take_files ?k (xs @ ys) = xs @ take_files (?k - length (files_of xs)) ys"
    using assms by (rule take_files_append_less)
  then show ?thesis using False * assms take_files_nonempty [OF *]
    by (auto simp: lr_listed_def Let_def)
qed

lemma lr_listed_limit [simp]:
  "lr_listed maxRefs cur rs (st\<lparr>lr_listPageLimit := L\<rparr>) = (lr_listed maxRefs cur rs st)\<lparr>lr_listPageLimit := L\<rparr>"
  by (simp add: lr_listed_def lr_emit_def Let_def)

lemma lr_pages_flat:
  assumes srv: "serves env cur ft start all" and fl: "flat isDelimited all"
  shows "off \<in> insert start (RefPath ` set all) \<Longrightarrow> lr_dirMap st = [] \<Longrightarrow> \<not> lr_isTruncated st \<Longrightarrow>
    int (length (lr_refs st)) < maxRefs \<Longrightarrow> 0 < lr_listPageLimit st \<Longrightarrow>
    \<exists>w' L. lr_pages env ft maxRefs isDelimited cur off st w =
      Some (Inr ((lr_listed maxRefs cur (page_after all off) st)\<lparr>lr_listPageLimit := L\<rparr>), w')"
proof (induction "length (page_after all off)" arbitrary: off st w rule: less_induct)
  case less
  let ?rem = "page_after all off" and ?k = "nat maxRefs - length (lr_refs st)"
  obtain L where L: "lr_limit maxRefs st = st\<lparr>lr_listPageLimit := L\<rparr>" "0 < L"
  proof (cases "int (length (lr_refs st)) + lr_listPageLimit st > maxRefs")
    case True
    with less.prems(4) show ?thesis
      by (intro that [of "maxRefs - int (length (lr_refs st))"]) (auto simp: lr_limit_def)
  next
    case False
    with less.prems(5) show ?thesis
      by (intro that [of "lr_listPageLimit st"]) (auto simp: lr_limit_def)
  qed
  let ?st = "st\<lparr>lr_listPageLimit := L\<rparr>" and ?page = "take (nat L) ?rem"
  obtain w1 where w1: "getRegularRefs env cur off ft L w = (Inr (page_answer all off L), w1)"
    using srv less.prems(1) L(2) unfolding serves_def by blast
  have page: "lr_page_refs isDelimited maxRefs cur (getCommonPrefix cur) ?page ?st =
      lr_listed maxRefs cur ?page ?st"
    using lr_page_refs_flat [of isDelimited ?page ?st maxRefs cur] flat_take [OF flat_after [OF fl]]
      less.prems by (simp add: lr_listed_def Let_def)
  show ?case
  proof (cases "?rem = []")
    case True
    with w1 L less.prems(4) show ?thesis
      by (subst lr_pages.simps)
        (auto simp: Let_def page_answer_def lr_listed_def intro!: exI [of _ L])
  next
    case False
    have ne: "?page \<noteq> []" using False L(2) by simp
    show ?thesis
    proof (cases "length (files_of ?page) < ?k")
      case full: False
      have "take_files ?k ?rem = take_files ?k ?page"
        using take_files_append [of ?k ?page "drop (nat L) ?rem"] full by simp
      moreover have "\<not> length (files_of ?rem) < ?k"
        using full by (metis append_take_drop_id filter_append length_append not_less trans_le_add1)
      ultimately have "lr_listed maxRefs cur ?rem st = lr_listed maxRefs cur ?page st"
        using full by (simp add: lr_listed_def Let_def)
      moreover have "lr_isTruncated (lr_listed maxRefs cur ?page st)"
        using full by (simp add: lr_listed_def Let_def)
      ultimately show ?thesis using w1 L page ne
        by (subst lr_pages.simps) (auto simp: Let_def page_answer_def intro!: exI [of _ L])
    next
      case part: True
      then have listed: "lr_listed maxRefs cur ?page ?st = lr_emit cur ?page ?st"
        by (simp add: lr_listed_def Let_def)
      show ?thesis
      proof (cases "length ?page < nat L")
        case True
        then have "?page = ?rem" by simp
        with True w1 L page ne listed less.prems(3) part show ?thesis
          by (subst lr_pages.simps)
            (auto simp: Let_def page_answer_def lr_listed_def lr_emit_def intro!: exI [of _ L])
      next
        case long: False
        let ?off = "RefPath (last ?page)"
        have rest: "page_after all ?off = drop (nat L) ?rem"
          using after_last_of_page srv False L(2) by (auto simp: serves_def)
        have "?off \<in> insert start (RefPath ` set all)" using page_after_in [OF False, of "nat L"] L(2) by auto
        moreover have "length (page_after all ?off) < length ?rem" using False L(2) by (simp add: rest)
        moreover have "int (length (lr_refs (lr_emit cur ?page ?st))) < maxRefs"
          using part by simp
        ultimately obtain w' L' where
          "lr_pages env ft maxRefs isDelimited cur ?off (lr_emit cur ?page ?st) w1 =
             Some (Inr ((lr_listed maxRefs cur (drop (nat L) ?rem) (lr_emit cur ?page ?st))
                          \<lparr>lr_listPageLimit := L'\<rparr>), w')"
          using less.hyps [of ?off "lr_emit cur ?page ?st" w1] less.prems(2,3) L(2) rest by auto
        moreover have "lr_listed maxRefs cur (drop (nat L) ?rem) (lr_emit cur ?page ?st) =
            (lr_listed maxRefs cur ?rem st)\<lparr>lr_listPageLimit := L\<rparr>"
          using lr_listed_append [of ?page maxRefs ?st cur "drop (nat L) ?rem"] part by simp
        ultimately show ?thesis using w1 L page ne listed long less.prems(3)
          by (subst lr_pages.simps) (auto simp: Let_def page_answer_def)
      qed
    qed
  qed
qed

lemma lr_dirs_flat:
  assumes "serves env cur ft start all" and "flat isDelimited all" and "0 < maxRefs"
    and "start = (if marker = [] then cur else Join [cur, marker])"
  shows "\<exists>w' st. lr_dirs env ft maxRefs isDelimited (lr_init cur marker) w = Some (Inr st, w') \<and>
    lr_refs st = map (as_object cur) (files_of (take_files (nat maxRefs) (page_after all start))) \<and>
    lr_prefixes st = map (as_prefix cur) (dirs_of (take_files (nat maxRefs) (page_after all start))) \<and>
    lr_isTruncated st = (nat maxRefs \<le> length (files_of (page_after all start))) \<and>
    (lr_isTruncated st \<longrightarrow>
       lr_markedPath st = RefPath (last (take_files (nat maxRefs) (page_after all start))))"
proof -
  let ?st = "(lr_init cur marker)\<lparr>lr_directories := [], lr_marker := []\<rparr>"
  have "lr_dirMap ?st = []" "\<not> lr_isTruncated ?st" "int (length (lr_refs ?st)) < maxRefs"
    "0 < lr_listPageLimit ?st"
    using assms(3) by (auto simp: lr_init_def pageLimit_def)
  with lr_pages_flat [OF assms(1,2), of start ?st maxRefs w] obtain w' L where
    pages: "lr_pages env ft maxRefs isDelimited cur start ?st w =
      Some (Inr ((lr_listed maxRefs cur (page_after all start) ?st)\<lparr>lr_listPageLimit := L\<rparr>), w')" by auto
  let ?fin = "(lr_listed maxRefs cur (page_after all start) ?st)\<lparr>lr_listPageLimit := L\<rparr>"
  have "lr_dirs env ft maxRefs isDelimited (lr_init cur marker) w =
      lr_dirs env ft maxRefs isDelimited ?fin w'"
    using pages assms(4)
    by (subst lr_dirs.simps) (cases "marker = []"; simp add: lr_init_def Let_def)
  also have "\<dots> = Some (Inr ?fin, w')"
    by (subst lr_dirs.simps) (simp add: lr_listed_def lr_emit_def Let_def lr_init_def)
  finally show ?thesis using assms(3)
    by (auto simp: lr_listed_def lr_emit_def Let_def lr_init_def take_files_all)
qed

lemma take_files_add:
  "m \<le> length (files_of rs) \<Longrightarrow>
   take_files (m + n) rs = take_files m rs @ take_files n (drop (length (take_files m rs)) rs)"
proof (induction m rs rule: take_files.induct)
  case (3 m r rs)
  then show ?case by (cases "is_dir r") auto
qed auto

lemma take_files_prefix: "take_files n rs = take (length (take_files n rs)) rs"
  by (induction n rs rule: take_files.induct) auto

lemma serves_from: "serves env cur ft start all \<Longrightarrow> r \<in> set all \<Longrightarrow> serves env cur ft (RefPath r) all"
  by (auto simp: serves_def)

lemma take_files_subset: "set (take_files n rs) \<subseteq> set rs"
  by (induction n rs rule: take_files.induct) auto

text \<open>The references after the last one of a truncated listing are those it left out.\<close>

lemma page_after_front:
  assumes "refs_sorted all" and "0 < n" and "n \<le> length (files_of (page_after all start))"
  shows "page_after all (RefPath (last (take_files n (page_after all start)))) =
           drop (length (take_files n (page_after all start))) (page_after all start)"
proof -
  let ?rem = "page_after all start"
  have "?rem \<noteq> []" using assms(2,3) by auto
  moreover then have "0 < length (take_files n ?rem)" using assms(2) take_files_nonempty by simp
  ultimately show ?thesis
    using after_last_of_page [OF assms(1)] take_files_prefix [of n ?rem] by metis
qed

text \<open>An environment whose SDK serves a fixed list of references, to evaluate the model on.\<close>

definition static_env :: "ORef list \<Rightarrow> unit zenv" where
  "static_env all =
     \<lparr>GetRefs = (\<lambda>p off _ _ _ _ level limit w. (Inr (page_answer all off limit), w)),
      DoMultiOperation = (\<lambda>ops w. (None, w)),
      DownloadByBlocks = (\<lambda>p s e n t w. (DownloadDone [], w)),
      GetChunkReadSize = (\<lambda>enc. 65536), DataShards = 1,
      EncryptionHeaderSize = 128, EncryptedDataPaddingSize = 16,
      ErrorString = (\<lambda>e. case e of ZError c m \<Rightarrow> c @ '': '' @ m | ErrorText m \<Rightarrow> m | _ \<Rightarrow> []),
      jsonMarshal = (\<lambda>m. []), jsonUnmarshal = (\<lambda>s. []),
      TypeByExtension = (\<lambda>e. ''application/octet-stream''), MatchSimple = (\<lambda>p s. p = s),
      TimeNow = (\<lambda>w. 0), osCreate = (\<lambda>p w. None),
      fileSeek = (\<lambda>p bs off. if off \<le> int (length bs) then None else Some (ErrorText ''EOF'')),
      cfgEncrypt = False, cfgCompress = False, cfgWorkDir = [], cfgTempDir = ''/tmp'',
      newUUID = (\<lambda>w. ''u'')\<rparr>"

lemma static_serves: "refs_sorted all \<Longrightarrow> serves (static_env all) cur ft start all"
  by (auto simp: serves_def getRegularRefs_def static_env_def Let_def)

definition sample_ref :: "string \<Rightarrow> string \<Rightarrow> int \<Rightarrow> ORef" where
  "sample_ref t p n = \<lparr>RefType = t, RefPath = p, RefName = Base p, RefSize = n, ActualFileSize = n,
     ActualFileHash = ''h'', MimeType = ''text/plain'', EncryptedKey = [], CustomMeta = [],
     CreatedAt = 1, UpdatedAt = 2\<rparr>"

definition sample_refs :: "ORef list" where
  "sample_refs = [sample_ref ''f'' ''/b/a'' 3, sample_ref ''d'' ''/b/c'' 0, sample_ref ''f'' ''/b/d'' 5]"

lemma sample_serves: "serves (static_env sample_refs) cur ft start sample_refs"
  by (rule static_serves) (simp add: sample_refs_def sample_ref_def)

lemma listRegularRefs_page:
  assumes "serves env cur ft start all" and "flat isDelimited all" and "0 < maxRefs"
    and "cur = Clean remotePath" and "start = (if marker = [] then cur else Join [cur, marker])"
  shows "\<exists>w'. listRegularRefs env remotePath marker ft maxRefs isDelimited w =
    (let rest = page_after all start; front = take_files (nat maxRefs) rest;
         truncated = (nat maxRefs \<le> length (files_of rest))
     in Some (Inr (map (as_object cur) (files_of front), truncated,
                   if truncated then TrimPrefix (RefPath (last front)) (cur @ ''/'') else [],
                   map (as_prefix cur) (dirs_of front)), w'))"
  using lr_dirs_flat [OF assms(1,2,3,5), of w] assms(4)
  by (auto simp: listRegularRefs_def Let_def)

section \<open>Properties\<close>

text \<open>
  Listing the buckets asks for page after page until an empty one comes; when the SDK serves the
  directories of the root in pages sorted by path, however many there are, the loop ends and
  returns each of them exactly once, in order.
\<close>

theorem listRootDir_complete:
  assumes "serves env rootPath ft [] all" and "\<forall>r \<in> set all. RefPath r \<noteq> []"
  shows "\<exists>w'. listRootDir env ft w = Some (Inr all, w')"
proof -
  have "page_after all [] = all"
    using assms(2) by (auto simp: page_after_def filter_id_conv neq_Nil_conv)
  with listRootDir_loop_complete [OF assms(1), of "[]" "[]" w] show ?thesis
    by (simp add: listRootDir_def)
qed

theorem listRootDir_complete_witness:
  "\<exists>w'. listRootDir (static_env sample_refs) ''d'' () = Some (Inr sample_refs, w')"
proof -
  have "\<forall>r \<in> set sample_refs. RefPath r \<noteq> []" by (simp add: sample_refs_def sample_ref_def)
  from listRootDir_complete [OF sample_serves this] show ?thesis .
qed

text \<open>
  C12. A listing with a delimiter, or of files only, ends and returns the first \<open>maxRefs\<close> files after
  the marker as objects and the directories among them as common prefixes; it is truncated exactly
  when at least \<open>maxRefs\<close> files are left, and then its marker is the last object's path.
\<close>

theorem listRegularRefs_flat:
  assumes "serves env cur ft start all" and "flat isDelimited all" and "0 < maxRefs"
    and "cur = Clean remotePath" and "start = (if marker = [] then cur else Join [cur, marker])"
  shows "\<exists>w'. listRegularRefs env remotePath marker ft maxRefs isDelimited w =
    (let rest = page_after all start; front = take_files (nat maxRefs) rest;
         truncated = (nat maxRefs \<le> length (files_of rest))
     in Some (Inr (map (as_object cur) (files_of front), truncated,
                   if truncated then TrimPrefix (RefPath (last front)) (cur @ ''/'') else [],
                   map (as_prefix cur) (dirs_of front)), w'))"
  using assms by (rule listRegularRefs_page)

theorem listRegularRefs_flat_witness:
  "\<exists>w' o1 ps. listRegularRefs (static_env sample_refs) ''/b'' [] [] 1 True () =
     Some (Inr ([o1], True, ''a'', ps), w') \<and> RefPath o1 = ''/b/a''"
proof -
  have cur: "''/b'' = Clean ''/b''" by code_simp
  have fl: "flat True sample_refs" by (simp add: flat_def)
  have after: "page_after sample_refs ''/b'' = sample_refs" by code_simp
  have front: "take_files (Suc 0) sample_refs = [sample_ref ''f'' ''/b/a'' 3]" by code_simp
  have n: "Suc 0 \<le> length (files_of sample_refs)" by code_simp
  have t: "TrimPrefix (RefPath (sample_ref ''f'' ''/b/a'' 3)) (''/b'' @ ''/'') = ''a''" by code_simp
  have f: "files_of [sample_ref ''f'' ''/b/a'' 3] = [sample_ref ''f'' ''/b/a'' 3]" by code_simp
  have o1: "RefPath (as_object ''/b'' (sample_ref ''f'' ''/b/a'' 3)) = ''/b/a''" by code_simp
  obtain w' where "listRegularRefs (static_env sample_refs) ''/b'' [] [] 1 True () =
    (let front = take_files (Suc 0) sample_refs; truncated = (Suc 0 \<le> length (files_of sample_refs))
     in Some (Inr (map (as_object ''/b'') (files_of front), truncated,
                   if truncated then TrimPrefix (RefPath (last front)) (''/b'' @ ''/'') else [],
                   map (as_prefix ''/b'') (dirs_of front)), w'))"
    using listRegularRefs_flat [OF sample_serves fl _ cur refl, of 1 "[]" "[]" "()"]
    by (auto simp only: after nat_1 One_nat_def simp_thms if_True Let_def zero_less_one)
  then show ?thesis using o1 n
    by (simp only: Let_def front f t list.map last_ConsL if_True) blast
qed

text \<open>
  C27. Continuing a truncated listing from the marker it returned misses nothing and repeats nothing:
  the objects and prefixes of the two requests together are those of one request for as many
  objects.
\<close>

theorem listRegularRefs_resume:
  assumes srv: "serves env (abs_path cs) ft start all" and fl: "flat isDelimited all"
    and n: "0 < m" "0 < n" and cs: "list_all name_ok cs"
    and paths: "\<forall>r \<in> set all. \<exists>ns. ns \<noteq> [] \<and> list_all name_ok ns \<and> RefPath r = abs_path (cs @ ns)"
    and start: "start = (if marker = [] then abs_path cs else Join [abs_path cs, marker])"
    and more: "nat m \<le> length (files_of (page_after all start))"
  shows "\<exists>os ps marker' os' ps' w1 w2 w3 t marker''.
    listRegularRefs env (abs_path cs) marker ft m isDelimited w = Some (Inr (os, True, marker', ps), w1) \<and>
    listRegularRefs env (abs_path cs) marker' ft n isDelimited w1 = Some (Inr (os', t, marker'', ps'), w2) \<and>
    listRegularRefs env (abs_path cs) marker ft (m + n) isDelimited w =
      Some (Inr (os @ os', t, marker'', ps @ ps'), w3)"
proof -
  let ?cur = "abs_path cs" and ?rem = "page_after all start"
  let ?front = "take_files (nat m) ?rem"
  let ?last = "last ?front"
  let ?marker = "TrimPrefix (RefPath ?last) (?cur @ ''/'')"
  have sorted: "refs_sorted all" using srv by (simp add: serves_def)
  have ne: "?front \<noteq> []" using n more by (intro take_files_nonempty) auto
  then have last: "?last \<in> set all"
    using take_files_subset [of "nat m" ?rem] last_in_set by (fastforce simp: page_after_def)
  then obtain ns where ns: "ns \<noteq> []" "list_all name_ok ns" "RefPath ?last = abs_path (cs @ ns)"
    using paths by blast
  have join: "Join [?cur, ?marker] = RefPath ?last" using Join_TrimPrefix [OF cs ns(2,1)] ns(3) by simp
  have "?marker \<noteq> []"
    using TrimPrefix_abs_path [OF ns(2,1), of cs] ns join_with_nonempty [of "hd ns" "''/''" "tl ns"]
    by (cases ns) (auto simp: name_ok_def abs_path_def)
  then have start': "RefPath ?last = (if ?marker = [] then ?cur else Join [?cur, ?marker])"
    using join by simp
  have cur: "?cur = Clean ?cur" using cs by simp
  have rest: "page_after all (RefPath ?last) = drop (length ?front) ?rem"
    using page_after_front [OF sorted _ more] n by simp
  have rem: "?rem = ?front @ drop (length ?front) ?rem"
    by (metis append_take_drop_id take_files_prefix)
  have lenf: "length (files_of ?front) = nat m" using more by (simp add: length_files_take_files)
  have split: "take_files (nat (m + n)) ?rem =
      ?front @ take_files (nat n) (drop (length ?front) ?rem)"
    using take_files_add [OF more, of "nat n"] n by (simp add: nat_add_distrib)
  have len: "length (files_of ?rem) = nat m + length (files_of (drop (length ?front) ?rem))"
    by (subst rem) (simp only: filter_append length_append lenf)
  have t: "nat (m + n) \<le> length (files_of ?rem) \<longleftrightarrow>
      nat n \<le> length (files_of (drop (length ?front) ?rem))"
    using n by (simp add: len nat_add_distrib)
  have lasts: "last (take_files (nat (m + n)) ?rem) = last (take_files (nat n) (drop (length ?front) ?rem))"
    if "nat n \<le> length (files_of (drop (length ?front) ?rem))"
  proof -
    have "drop (length ?front) ?rem \<noteq> []" using that n by auto
    then have "take_files (nat n) (drop (length ?front) ?rem) \<noteq> []"
      using n by (intro take_files_nonempty) auto
    then show ?thesis by (simp add: split)
  qed
  obtain w1 where w1: "listRegularRefs env ?cur marker ft m isDelimited w =
      Some (Inr (map (as_object ?cur) (files_of ?front), True, ?marker,
                 map (as_prefix ?cur) (dirs_of ?front)), w1)"
    using listRegularRefs_page [OF srv fl n(1) cur start, of w] more by (auto simp: Let_def)
  obtain w2 where w2: "listRegularRefs env ?cur ?marker ft n isDelimited w1 =
    (let rest = drop (length ?front) ?rem; front = take_files (nat n) rest;
         truncated = (nat n \<le> length (files_of rest))
     in Some (Inr (map (as_object ?cur) (files_of front), truncated,
                   if truncated then TrimPrefix (RefPath (last front)) (?cur @ ''/'') else [],
                   map (as_prefix ?cur) (dirs_of front)), w2))"
    using listRegularRefs_page [OF serves_from [OF srv last] fl n(2) cur start', of w1] rest
    by (auto simp: Let_def)
  obtain w3 where w3: "listRegularRefs env ?cur marker ft (m + n) isDelimited w =
    (let front = take_files (nat (m + n)) ?rem; truncated = (nat (m + n) \<le> length (files_of ?rem))
     in Some (Inr (map (as_object ?cur) (files_of front), truncated,
                   if truncated then TrimPrefix (RefPath (last front)) (?cur @ ''/'') else [],
                   map (as_prefix ?cur) (dirs_of front)), w3))"
    using listRegularRefs_page [OF srv fl _ cur start, of "m + n" w] n by (auto simp: Let_def)
  show ?thesis
    using w1 w2 w3 t lasts by (auto simp: Let_def split)
qed

theorem listRegularRefs_resume_witness:
  "\<exists>os ps marker' os' ps' w1 w2 w3 t marker''.
    listRegularRefs (static_env sample_refs) (abs_path [''b'']) [] [] 1 True () =
      Some (Inr (os, True, marker', ps), w1) \<and>
    listRegularRefs (static_env sample_refs) (abs_path [''b'']) marker' [] 1 True w1 =
      Some (Inr (os', t, marker'', ps'), w2) \<and>
    listRegularRefs (static_env sample_refs) (abs_path [''b'']) [] [] (1 + 1) True () =
      Some (Inr (os @ os', t, marker'', ps @ ps'), w3)"
proof -
  have fl: "flat True sample_refs" by (simp add: flat_def)
  have cs: "list_all name_ok [''b'']" by code_simp
  have "\<forall>(r, n) \<in> set (zip sample_refs [''a'', ''c'', ''d'']).
      RefPath r = abs_path ([''b''] @ [n]) \<and> list_all name_ok [n]" by code_simp
  moreover have "\<exists>n. (r, n) \<in> set (zip sample_refs [''a'', ''c'', ''d''])" if "r \<in> set sample_refs" for r
    using that by (auto simp: sample_refs_def)
  ultimately have paths: "\<forall>r \<in> set sample_refs. \<exists>ns. ns \<noteq> [] \<and> list_all name_ok ns \<and>
      RefPath r = abs_path ([''b''] @ ns)"
    by blast
  have more: "nat 1 \<le> length (files_of (page_after sample_refs (abs_path [''b''])))" by code_simp
  have start: "abs_path [''b''] = (if [] = ([]::string) then abs_path [''b''] else Join [abs_path [''b''], []])"
    by simp
  show ?thesis
    by (rule listRegularRefs_resume [OF sample_serves fl zero_less_one zero_less_one cs paths start more])
qed

end
