(* ===== verification/Zcn_Transfer.thy ===== *)
theory Zcn_Transfer
  imports Zcn_DStorage
begin

text \<open>
  Moving data: the readers of \<open>helper.go\<close> and \<open>memFile.go\<close>, reading a range of a file
  (\<open>getFileReader\<close> of \<open>dStorage.go\<close>), and uploading one (\<open>putFile\<close>) through the batches of
  \<open>worker.go\<close>.
\<close>

section \<open>Readers\<close>

datatype io_error = EOF | ErrUnexpectedEOF | ErrShortBuffer | IoError go_error

text \<open>A source is the bytes it will still deliver and the error it ends with.\<close>

record source =
  src_left :: bytes
  src_end :: io_error

definition ReadAtLeast :: "source \<Rightarrow> nat \<Rightarrow> (bytes \<times> io_error option) \<times> source" where
  "ReadAtLeast s n =
     (if n \<le> length (src_left s) then ((take n (src_left s), None), s\<lparr>src_left := drop n (src_left s)\<rparr>)
      else ((src_left s, Some (if src_end s = EOF \<and> src_left s \<noteq> [] then ErrUnexpectedEOF else src_end s)),
            s\<lparr>src_left := []\<rparr>))"

definition MinioReader_Read :: "source \<Rightarrow> nat \<Rightarrow> (bytes \<times> io_error option) \<times> source" where
  "MinioReader_Read s n =
     (case ReadAtLeast s n of
        ((bs, err), s') \<Rightarrow> ((bs, if err = Some ErrUnexpectedEOF then Some EOF else err), s'))"

definition getTimeOut :: "int \<Rightarrow> int" where
  "getTimeOut sz =
     (if sz \<ge> oneGB then 30 else if sz \<ge> 500 * oneMB then 10 else if sz \<ge> hundredMB then 5 else 2)"

fun hasStringSuffixInSlice :: "string \<Rightarrow> string list \<Rightarrow> bool" where
  "hasStringSuffixInSlice str [] = False"
| "hasStringSuffixInSlice str (v # vs) =
     (HasSuffix (ToLower str) (ToLower v) \<or> hasStringSuffixInSlice str vs)"

fun hasPattern :: "'w zenv \<Rightarrow> string list \<Rightarrow> string \<Rightarrow> bool" where
  "hasPattern env [] matchStr = False"
| "hasPattern env (p # ps) matchStr = (MatchSimple env p matchStr \<or> hasPattern env ps matchStr)"

text \<open>The memory file: the queue of chunks with the flag that it is closed, and the errors offered on
  the unbuffered error channel. Where both channels are ready the run time picks one, which is the
  first argument of \<open>Read\<close>; \<open>None\<close> is a read that waits.\<close>

record memFileData =
  mfd_buf :: bytes
  mfd_err :: "io_error option"

record memFile =
  mf_data :: "memFileData list"
  mf_closed :: bool
  mf_errs :: "go_error list"

definition memFile_Read_data :: "memFile \<Rightarrow> nat \<Rightarrow> ((bytes \<times> io_error option) \<times> memFile) option" where
  "memFile_Read_data mf n =
     (case mf_data mf of
        [] \<Rightarrow> if mf_closed mf then Some (([], Some EOF), mf) else None
      | d # ds \<Rightarrow>
          (let mf' = mf\<lparr>mf_data := ds\<rparr> in
           if mfd_err d \<noteq> None \<and> mfd_err d \<noteq> Some EOF then Some (([], mfd_err d), mf')
           else if length (mfd_buf d) > n then Some (([], Some ErrShortBuffer), mf')
           else Some ((mfd_buf d, mfd_err d), mf')))"

definition memFile_Read :: "bool \<Rightarrow> memFile \<Rightarrow> nat \<Rightarrow> ((bytes \<times> io_error option) \<times> memFile) option" where
  "memFile_Read prefer_err mf n =
     (case mf_errs mf of
        [] \<Rightarrow> memFile_Read_data mf n
      | e # es \<Rightarrow>
          if prefer_err \<or> memFile_Read_data mf n = None
          then Some (([], Some (IoError e)), mf\<lparr>mf_errs := es\<rparr>)
          else memFile_Read_data mf n)"

section \<open>Reading a range\<close>

text \<open>What a reader handed to the S3 layer delivers: the bytes, then end of file or an error.\<close>

record reader =
  rd_data :: bytes
  rd_err :: "go_error option"

text \<open>The blocks to download and the number of bytes to deliver, for blocks of \<open>ecs\<close> bytes that are
  counted from 1; an end block 0 stands for the last one.\<close>

definition start_block :: "int \<Rightarrow> int \<Rightarrow> int" where
  "start_block ecs rangeStart = (let s = go_div rangeStart ecs in if s = 0 then 1 else s)"

definition block_range :: "int \<Rightarrow> int \<Rightarrow> int \<Rightarrow> int \<Rightarrow> int \<times> int \<times> int" where
  "block_range ecs objSize rangeStart rangeEnd =
     (let fileRangeSize = (if rangeEnd < rangeStart then objSize else wrap64 (rangeEnd - rangeStart + 1));
          (startBlock, endBlock) =
            (if rangeEnd \<ge> rangeStart
             then (start_block ecs rangeStart,
                   if rangeEnd < fileRangeSize then go_div (wrap64 (fileRangeSize + ecs - 1)) ecs
                   else go_div (wrap64 (rangeEnd + ecs - 1)) ecs)
             else (1, 0))
      in if rangeEnd = -1 then (start_block ecs rangeStart, 0, wrap64 (objSize - rangeStart))
         else (startBlock, endBlock, fileRangeSize))"

definition piped_reader :: "download \<Rightarrow> reader" where
  "piped_reader d =
     (case d of
        DownloadRefused e \<Rightarrow> \<lparr>rd_data = [], rd_err = Some e\<rparr>
      | DownloadDone bs \<Rightarrow> \<lparr>rd_data = bs, rd_err = None\<rparr>
      | DownloadFailed e bs \<Rightarrow> \<lparr>rd_data = bs, rd_err = Some e\<rparr>
      | DownloadTimedOut bs \<Rightarrow> \<lparr>rd_data = bs, rd_err = Some (ErrorText ''exceeded timeout'')\<rparr>)"

definition effective_chunk_size :: "'w zenv \<Rightarrow> bool \<Rightarrow> int" where
  "effective_chunk_size env isEncrypted =
     (let effectiveBlockSize = (if isEncrypted
            then defaultChunkSize - (EncryptionHeaderSize env + EncryptedDataPaddingSize env)
            else defaultChunkSize)
      in wrap64 (effectiveBlockSize * DataShards env))"

definition getFileReader ::
  "'w zenv \<Rightarrow> string \<Rightarrow> string \<Rightarrow> string \<Rightarrow> int \<Rightarrow> int \<Rightarrow> 'w \<Rightarrow>
     (go_error, reader \<times> ObjectInfo \<times> string) result \<times> 'w" where
  "getFileReader env bucket object remotePath rangeStart rangeEnd w =
     (let localFilePath = Join [cfgTempDir env, newUUID env w] in
      case getObjectRef env bucket object remotePath w of
        (Inl err, w1) \<Rightarrow> (Inl err, w1)
      | (Inr (objectInfo, isEncrypted), w1) \<Rightarrow>
          (let size0 = (if rangeEnd < rangeStart then oiSize objectInfo else wrap64 (rangeEnd - rangeStart + 1));
               timeout = (if oiContentType objectInfo = lz4MimeType then 30 else getTimeOut (to_uint64 size0));
               ecs = effective_chunk_size env isEncrypted
           in if ecs = 0 \<and> (rangeEnd \<ge> rangeStart \<or> rangeEnd = -1)
              then (Inl (Panic ''integer divide by zero''), w1)
              else let (startBlock, endBlock, fileRangeSize) =
                         block_range ecs (oiSize objectInfo) rangeStart rangeEnd
                   in if startBlock = 1 \<and> endBlock = 0
                      then (case DownloadByBlocks env remotePath startBlock endBlock numBlocks timeout w1 of
                              (d, w2) \<Rightarrow> (Inr (piped_reader d, objectInfo, localFilePath), w2))
                      else let createErr = (if fileRangeSize > maxSizeForMemoryFile
                                            then osCreate env localFilePath w1 else None);
                               localFilePath = (if fileRangeSize > maxSizeForMemoryFile
                                                then localFilePath else [])
                           in case createErr of
                                Some err \<Rightarrow> (Inl err, w1)
                              | None \<Rightarrow>
                                  (case DownloadByBlocks env remotePath startBlock endBlock numBlocks timeout w1 of
                                     (DownloadRefused err, w2) \<Rightarrow> (Inl err, w2)
                                   | (DownloadFailed err _, w2) \<Rightarrow> (Inl err, w2)
                                   | (DownloadTimedOut _, w2) \<Rightarrow> (Inl (ErrorText ''exceeded timeout''), w2)
                                   | (DownloadDone bs, w2) \<Rightarrow>
                                       (let startOffset = wrap64 (rangeStart - (startBlock - 1) * ecs);
                                            startOffset = (if startOffset < 0 then 0 else startOffset)
                                        in case fileSeek env localFilePath bs startOffset of
                                             Some err \<Rightarrow> (Inl err, w2)
                                           | None \<Rightarrow>
                                               (Inr (\<lparr>rd_data = take (nat fileRangeSize) (drop (nat startOffset) bs),
                                                      rd_err = None\<rparr>, objectInfo, localFilePath), w2)))))"

section \<open>Uploading\<close>

text \<open>How the wait of \<open>putFile\<close> for its batch ends: a worker has run the batch, or the request's own
  context is done. Cancelling with a nil cause records \<open>context.Canceled\<close>.\<close>

datatype batch_outcome = WorkerDone "go_error option" | RequestDone go_error

definition cause_of :: "batch_outcome \<Rightarrow> go_error" where
  "cause_of out = (case out of
     WorkerDone None \<Rightarrow> ContextCanceled | WorkerDone (Some e) \<Rightarrow> e | RequestDone e \<Rightarrow> e)"

definition put_request ::
  "'w zenv \<Rightarrow> string \<Rightarrow> string \<Rightarrow> bytes \<Rightarrow> int \<Rightarrow> bool \<Rightarrow> meta \<Rightarrow> OperationRequest" where
  "put_request env remotePath contentType r sz isUpdate userDefined =
     \<lparr>OperationType = (if isUpdate then FileOperationUpdate else FileOperationInsert),
      opRemotePath = remotePath, opDestPath = [],
      opFileMeta = \<lparr>fmRemotePath = remotePath, fmActualSize = (if sz = -1 then 0 else sz),
        fmMimeType = contentType, fmRemoteName = Base remotePath,
        fmCustomMeta = (if userDefined = [] then [] else jsonMarshal env userDefined)\<rparr>,
      opReader = r, opWorkdir = cfgWorkDir env, opChunkNumber = 120, opEncrypt = cfgEncrypt env,
      opStreamUpload = (sz = -1)\<rparr>"

text \<open>Without an outcome the request waits for ever, for room in \<open>batchUploadChan\<close> or for its batch.\<close>

definition putFile ::
  "'w zenv \<Rightarrow> batch_outcome option \<Rightarrow> string \<Rightarrow> string \<Rightarrow> bytes \<Rightarrow> int \<Rightarrow> bool \<Rightarrow> meta \<Rightarrow> 'w
     \<Rightarrow> (go_error option \<times> 'w) option" where
  "putFile env out remotePath contentType r sz isUpdate userDefined w =
     (let op = put_request env remotePath contentType r sz isUpdate userDefined in
      if opStreamUpload op then
        (case DoMultiOperation env [op] w of
           (Some err, w1) \<Rightarrow> Some (if isSameRootError env err then None else Some err, w1)
         | (None, w1) \<Rightarrow> Some (None, w1))
      else map_option (\<lambda>o1. (if cause_of o1 \<noteq> ContextCanceled then Some (cause_of o1) else None, w)) out)"

section \<open>The batches\<close>

text \<open>One run of the body of a worker: the outcome every operation of the batch is told.\<close>

definition worker_error :: "'w zenv \<Rightarrow> go_error option \<Rightarrow> go_error option" where
  "worker_error env err =
     (case err of
        None \<Rightarrow> None
      | Some e \<Rightarrow>
          if isSameRootError env e then None
          else if e = ContextCanceled then Some (ErrorText ''operation canceled'')
          else Some e)"

definition batchUploadWorker ::
  "'w zenv \<Rightarrow> OperationRequest list \<Rightarrow> 'w \<Rightarrow> (OperationRequest \<times> batch_outcome) list \<times> 'w" where
  "batchUploadWorker env ops w =
     (case DoMultiOperation env ops w of
        (err, w1) \<Rightarrow> (map (\<lambda>op. (op, WorkerDone (worker_error env err))) ops, w1))"

text \<open>The batching goroutine: the buffer of \<open>batchUploadChan\<close>, the batch being collected, the counter
  of waits, what it does next, and the batches it has handed to the workers.\<close>

datatype phase = Receiving | Sleeping | Stopped

record 'op batcher =
  b_chan :: "'op list"
  b_pending :: "'op list"
  b_iterations :: nat
  b_phase :: phase
  b_sent :: "'op list list"

definition batcher_init :: "'op batcher" where
  "batcher_init = \<lparr>b_chan = [], b_pending = [], b_iterations = 0, b_phase = Receiving, b_sent = []\<rparr>"

definition batch_flush :: "'op batcher \<Rightarrow> 'op batcher" where
  "batch_flush b = b\<lparr>b_sent := b_sent b @ [b_pending b], b_pending := [], b_iterations := 0\<rparr>"

definition batch_receive :: "nat \<Rightarrow> 'op batcher \<Rightarrow> 'op batcher" where
  "batch_receive maxOperations b =
     (case b_chan b of
        [] \<Rightarrow> b
      | op # rest \<Rightarrow>
          (let b1 = b\<lparr>b_chan := rest, b_pending := b_pending b @ [op]\<rparr> in
           if length (b_pending b1) = maxOperations \<or> b_iterations b1 > 2 then batch_flush b1
           else if rest = [] then b1\<lparr>b_iterations := Suc (b_iterations b1), b_phase := Sleeping\<rparr>
           else b1))"

definition batch_wake :: "'op batcher \<Rightarrow> 'op batcher" where
  "batch_wake b =
     (let b1 = b\<lparr>b_phase := Receiving\<rparr> in if b_chan b = [] then batch_flush b1 else b1)"

datatype 'op batch_event = Submit 'op | Receive | Wake | Stop

inductive batch_step ::
  "nat \<Rightarrow> nat \<Rightarrow> 'op batcher \<Rightarrow> 'op batch_event \<Rightarrow> 'op batcher \<Rightarrow> bool" for maxOperations maxWorkers where
  submit: "length (b_chan b) < maxOperations * maxWorkers \<Longrightarrow>
     batch_step maxOperations maxWorkers b (Submit op) (b\<lparr>b_chan := b_chan b @ [op]\<rparr>)"
| receive: "b_phase b = Receiving \<Longrightarrow> b_chan b \<noteq> [] \<Longrightarrow>
     batch_step maxOperations maxWorkers b Receive (batch_receive maxOperations b)"
| wake: "b_phase b = Sleeping \<Longrightarrow> batch_step maxOperations maxWorkers b Wake (batch_wake b)"
| stop: "b_phase b = Receiving \<Longrightarrow>
     batch_step maxOperations maxWorkers b Stop (b\<lparr>b_phase := Stopped\<rparr>)"

inductive batch_run :: "nat \<Rightarrow> nat \<Rightarrow> 'op batch_event list \<Rightarrow> 'op batcher \<Rightarrow> bool"
  for maxOperations maxWorkers where
  batch_start: "batch_run maxOperations maxWorkers [] batcher_init"
| batch_next: "batch_run maxOperations maxWorkers es b \<Longrightarrow>
     batch_step maxOperations maxWorkers b e b' \<Longrightarrow> batch_run maxOperations maxWorkers (es @ [e]) b'"

fun submitted :: "'op batch_event list \<Rightarrow> 'op list" where
  "submitted [] = []"
| "submitted (Submit op # es) = op # submitted es"
| "submitted (_ # es) = submitted es"

section \<open>Which blocks cover a range\<close>

lemma start_block_le:
  assumes "0 < ecs" and "0 \<le> rs"
  shows "1 \<le> start_block ecs rs \<and> (start_block ecs rs - 1) * ecs \<le> rs"
proof -
  have "0 \<le> rs mod ecs" using assms by simp
  then have "rs div ecs * ecs \<le> rs" using div_mult_mod_eq [of rs ecs] by linarith
  moreover have "0 \<le> rs div ecs" using assms by (simp add: pos_imp_zdiv_nonneg_iff)
  ultimately show ?thesis
    using assms by (auto simp: start_block_def Let_def algebra_simps)
qed

lemma ceil_div_mult: "0 < ecs \<Longrightarrow> (n + ecs - 1) div ecs * ecs \<ge> (n::int)"
proof -
  assume "0 < ecs"
  then have "(n + ecs - 1) mod ecs < ecs" by simp
  moreover have "(n + ecs - 1) div ecs * ecs = n + ecs - 1 - (n + ecs - 1) mod ecs"
    by (simp add: minus_mod_eq_div_mult)
  ultimately show ?thesis by linarith
qed

lemma ceil_div_mult_less:
  assumes "0 < ecs" and "\<not> ecs dvd (n::int)"
  shows "n + 1 \<le> (n + ecs - 1) div ecs * ecs"
proof -
  have "n \<noteq> (n + ecs - 1) div ecs * ecs" using assms(2) by (metis dvd_triv_right)
  with ceil_div_mult [OF assms(1), of n] show ?thesis by linarith
qed

lemma ceil_div_mult_dvd: "0 < ecs \<Longrightarrow> ecs dvd n \<Longrightarrow> (n + ecs - 1) div ecs * ecs = (n::int)"
proof -
  assume "0 < ecs" "ecs dvd n"
  then obtain k where "n = ecs * k" by blast
  then have "n + ecs - 1 = (ecs - 1) + k * ecs" by (simp add: algebra_simps)
  moreover have "((ecs - 1) + k * ecs) div ecs = k + (ecs - 1) div ecs"
    using \<open>0 < ecs\<close> by (intro div_mult_self1) simp
  moreover have "(ecs - 1) div ecs = 0" using \<open>0 < ecs\<close> by (intro div_pos_pos_trivial) auto
  ultimately have "(n + ecs - 1) div ecs = k" by (simp only: add_0_right)
  with \<open>n = ecs * k\<close> show ?thesis by simp
qed

lemma two_blocks: "0 < ecs \<Longrightarrow> rs div ecs < 2 \<longleftrightarrow> rs < 2 * (ecs::int)"
proof -
  assume ecs: "0 < ecs"
  have "(2 * ecs) div ecs \<le> rs div ecs" if "2 * ecs \<le> rs" using zdiv_mono1 [OF that ecs] .
  moreover have "rs div ecs \<le> (ecs - 1 + 1 * ecs) div ecs" if "rs < 2 * ecs"
    using that ecs by (intro zdiv_mono1) auto
  ultimately show ?thesis using ecs div_mult_self1 [of ecs "ecs - 1" 1] by (cases "rs < 2 * ecs") auto
qed

lemma block_range_bounded:
  assumes "0 < ecs" "0 \<le> rs" "rs \<le> re" "re + ecs < 2 ^ 63"
  shows "block_range ecs sz rs re =
    (start_block ecs rs, if rs = 0 then (re + 1 + ecs - 1) div ecs else (re + ecs - 1) div ecs, re - rs + 1)"
proof -
  have size: "wrap64 (re - rs + 1) = re - rs + 1" using assms by (intro wrap64_small) auto
  have "wrap64 (re + ecs - 1) = re + ecs - 1" "wrap64 (re - rs + 1 + ecs - 1) = re - rs + 1 + ecs - 1"
    using assms by (auto intro!: wrap64_small)
  with size show ?thesis using assms by (auto simp: block_range_def Let_def)
qed

lemma block_range_open:
  assumes "0 < ecs" "0 \<le> rs" "rs \<le> sz" "sz < 2 ^ 63"
  shows "block_range ecs sz rs (-1) = (start_block ecs rs, 0, sz - rs)"
  using assms by (simp add: block_range_def Let_def)

lemma slice_of_slice:
  "take n (drop off (take m (drop b xs))) = take (min n (m - off)) (drop (b + off) xs)"
  by (simp add: drop_take add.commute)

section \<open>Reading under the SDK's contract\<close>

text \<open>What the SDK documents about a download by blocks: blocks are counted from 1, both ends are
  included, and end block 0 means to the end of the file.\<close>

definition blocks_of :: "int \<Rightarrow> bytes \<Rightarrow> int \<Rightarrow> int \<Rightarrow> bytes" where
  "blocks_of ecs content s e =
     (let rest = drop (nat ((s - 1) * ecs)) content in
      if e = 0 then rest else take (nat ((e - s + 1) * ecs)) rest)"

definition serves_file :: "'w zenv \<Rightarrow> string \<Rightarrow> int \<Rightarrow> bytes \<Rightarrow> bool" where
  "serves_file env remotePath ecs content \<longleftrightarrow>
     (\<forall>s e n t w. \<exists>w'. DownloadByBlocks env remotePath s e n t w =
        (DownloadDone (blocks_of ecs content s e), w'))"

text \<open>The file that a lookup finds, and the space to store a long range in.\<close>

definition object_at ::
  "'w zenv \<Rightarrow> string \<Rightarrow> string \<Rightarrow> string \<Rightarrow> 'w \<Rightarrow> ObjectInfo \<Rightarrow> int \<Rightarrow> bytes \<Rightarrow> bool" where
  "object_at env bucket object remotePath w info ecs content \<longleftrightarrow>
     (\<exists>enc w1. getObjectRef env bucket object remotePath w = (Inr (info, enc), w1) \<and>
        ecs = effective_chunk_size env enc) \<and>
     0 < ecs \<and> serves_file env remotePath ecs content \<and> oiSize info = int (length content) \<and>
     int (length content) + ecs < 2 ^ 63 \<and> (\<forall>p w. osCreate env p w = None) \<and>
     (\<forall>p bs off. 0 \<le> off \<and> off \<le> int (length bs) \<longrightarrow> fileSeek env p bs off = None)"

lemma getFileReader_blocks:
  assumes obj: "object_at env bucket object remotePath w info ecs content"
    and range: "block_range ecs (int (length content)) rs re = (sb, eb, n)"
    and blocks: "\<not> (sb = 1 \<and> eb = 0)" "1 \<le> sb" "(sb - 1) * ecs \<le> rs" "0 \<le> rs" "rs < 2 ^ 63"
      "rs - (sb - 1) * ecs \<le> int (length (blocks_of ecs content sb eb))"
  shows "\<exists>p w'. getFileReader env bucket object remotePath rs re w =
    (Inr (\<lparr>rd_data = take (nat n) (drop (nat (rs - (sb - 1) * ecs)) (blocks_of ecs content sb eb)),
           rd_err = None\<rparr>, info, p), w')"
proof -
  obtain enc w1 where ref: "getObjectRef env bucket object remotePath w = (Inr (info, enc), w1)"
      "effective_chunk_size env enc = ecs" and ecs: "0 < ecs" and size: "oiSize info = int (length content)"
    and srv: "serves_file env remotePath ecs content" and space: "\<And>p w. osCreate env p w = None"
    and seek: "\<And>p bs off. 0 \<le> off \<Longrightarrow> off \<le> int (length bs) \<Longrightarrow> fileSeek env p bs off = None"
    using obj by (auto simp: object_at_def)
  have dl: "\<exists>w'. DownloadByBlocks env remotePath sb eb numBlocks t w1 =
      (DownloadDone (blocks_of ecs content sb eb), w')" for t
    using srv by (auto simp: serves_file_def)
  have "0 \<le> (sb - 1) * ecs" using blocks(2) ecs by simp
  then have off: "wrap64 (rs - (sb - 1) * ecs) = rs - (sb - 1) * ecs"
    using blocks(3,4,5) by (intro wrap64_small) linarith+
  show ?thesis
    using ref ecs size space blocks range off seek [OF _ blocks(6)] dl [of "if oiContentType info = lz4MimeType then 30
        else getTimeOut (to_uint64 (if re < rs then int (length content) else wrap64 (re - rs + 1)))"]
    by (auto simp: getFileReader_def Let_def)
qed

lemma getFileReader_piped:
  assumes obj: "object_at env bucket object remotePath w info ecs content"
    and range: "block_range ecs (int (length content)) rs re = (1, 0, n)"
  shows "\<exists>p w'. getFileReader env bucket object remotePath rs re w =
    (Inr (\<lparr>rd_data = content, rd_err = None\<rparr>, info, p), w')"
proof -
  obtain enc w1 where ref: "getObjectRef env bucket object remotePath w = (Inr (info, enc), w1)"
      "effective_chunk_size env enc = ecs" and ecs: "0 < ecs" and size: "oiSize info = int (length content)"
    and srv: "serves_file env remotePath ecs content"
    using obj by (auto simp: object_at_def)
  have "blocks_of ecs content 1 0 = content" by (simp add: blocks_of_def)
  then have dl: "\<exists>w'. DownloadByBlocks env remotePath 1 0 numBlocks t w1 = (DownloadDone content, w')" for t
    using srv unfolding serves_file_def by metis
  show ?thesis
    using ref ecs size range dl [of "if oiContentType info = lz4MimeType then 30
        else getTimeOut (to_uint64 (if re < rs then int (length content) else wrap64 (re - rs + 1)))"]
    by (auto simp: getFileReader_def Let_def piped_reader_def)
qed

definition end_block :: "int \<Rightarrow> int \<Rightarrow> int \<Rightarrow> int" where
  "end_block ecs rs re = (if rs = 0 then (re + 1 + ecs - 1) div ecs else (re + ecs - 1) div ecs)"

lemma end_block_pos: "0 < ecs \<Longrightarrow> 0 \<le> rs \<Longrightarrow> rs \<le> re \<Longrightarrow> 1 \<le> end_block ecs rs re"
  using ceil_div_mult [of ecs re] by (auto simp: end_block_def pos_imp_zdiv_pos_iff int_one_le_iff_zero_less)

lemma end_block_covers: "0 < ecs \<Longrightarrow> 0 \<le> rs \<Longrightarrow> rs \<le> re \<Longrightarrow> rs \<le> end_block ecs rs re * ecs"
  using ceil_div_mult [of ecs re] ceil_div_mult [of ecs "re + 1"] by (auto simp: end_block_def)

lemma getFileReader_bounded:
  assumes obj: "object_at env bucket object remotePath w info ecs content"
    and rs: "0 \<le> rs" "rs \<le> re" "re < int (length content)"
  shows "\<exists>p w'. getFileReader env bucket object remotePath rs re w =
    (Inr (\<lparr>rd_data = take (nat (min (re - rs + 1) (end_block ecs rs re * ecs - rs))) (drop (nat rs) content),
           rd_err = None\<rparr>, info, p), w')"
proof -
  define sb where "sb = start_block ecs rs"
  define eb where "eb = end_block ecs rs re"
  have ecs: "0 < ecs" and big: "int (length content) + ecs < 2 ^ 63"
    using obj by (auto simp: object_at_def)
  have sb: "1 \<le> sb" "(sb - 1) * ecs \<le> rs" using start_block_le [OF ecs rs(1)] by (auto simp: sb_def)
  have eb: "1 \<le> eb" using end_block_pos [OF ecs rs(1,2)] by (simp add: eb_def)
  have range: "block_range ecs (int (length content)) rs re = (sb, eb, re - rs + 1)"
    using block_range_bounded [OF ecs rs(1,2)] rs(3) big by (simp add: sb_def eb_def end_block_def)
  have start: "0 \<le> (sb - 1) * ecs" using sb(1) ecs by simp
  have len: "nat ((eb - sb + 1) * ecs) - nat (rs - (sb - 1) * ecs) = nat (eb * ecs - rs)"
    using sb(2) by (simp add: nat_diff_distrib' [symmetric] algebra_simps)
  have off: "nat ((sb - 1) * ecs) + nat (rs - (sb - 1) * ecs) = nat rs"
    using sb(2) start by (simp flip: nat_add_distrib)
  have blk: "blocks_of ecs content sb eb = take (nat ((eb - sb + 1) * ecs)) (drop (nat ((sb - 1) * ecs)) content)"
    using eb by (simp add: blocks_of_def Let_def)
  have "take (nat (re - rs + 1)) (drop (nat (rs - (sb - 1) * ecs)) (blocks_of ecs content sb eb)) =
      take (min (nat (re - rs + 1)) (nat (eb * ecs - rs))) (drop (nat rs) content)"
    by (simp only: blk slice_of_slice len off)
  also have "min (nat (re - rs + 1)) (nat (eb * ecs - rs)) = nat (min (re - rs + 1) (eb * ecs - rs))"
    by linarith
  finally have data: "take (nat (re - rs + 1)) (drop (nat (rs - (sb - 1) * ecs)) (blocks_of ecs content sb eb)) =
      take (nat (min (re - rs + 1) (eb * ecs - rs))) (drop (nat rs) content)" .
  have "rs \<le> eb * ecs" using end_block_covers [OF ecs rs(1,2)] by (simp add: eb_def)
  then have "rs - (sb - 1) * ecs \<le> (eb - sb + 1) * ecs" by (simp add: algebra_simps)
  then have "rs - (sb - 1) * ecs \<le> int (length (blocks_of ecs content sb eb))"
    using rs start by (simp add: blk)
  with data show ?thesis
    using getFileReader_blocks [OF obj range _ sb(1,2) rs(1)] eb rs big ecs by (auto simp: eb_def)
qed

lemma getFileReader_range_data:
  assumes obj: "object_at env bucket object remotePath w info ecs content"
    and range: "0 \<le> rs" "rs \<le> re" "re < int (length content)"
    and aligned: "rs = 0 \<or> \<not> ecs dvd re"
  shows "\<exists>p w'. getFileReader env bucket object remotePath rs re w =
    (Inr (\<lparr>rd_data = take (nat (re - rs + 1)) (drop (nat rs) content), rd_err = None\<rparr>, info, p), w')"
proof -
  have ecs: "0 < ecs" using obj by (auto simp: object_at_def)
  have "re + 1 \<le> end_block ecs rs re * ecs"
    using aligned ceil_div_mult [OF ecs, of "re + 1"] ceil_div_mult_less [OF ecs, of re]
    by (auto simp: end_block_def)
  then have "min (re - rs + 1) (end_block ecs rs re * ecs - rs) = re - rs + 1" by linarith
  with getFileReader_bounded [OF obj range] show ?thesis by simp
qed

section \<open>What the batching goroutine keeps\<close>

definition batch_inv :: "nat \<Rightarrow> 'op list \<Rightarrow> 'op batcher \<Rightarrow> bool" where
  "batch_inv maxOperations ops b \<longleftrightarrow>
     concat (b_sent b) @ b_pending b @ b_chan b = ops \<and>
     (\<forall>batch \<in> set (b_sent b). batch \<noteq> [] \<and> length batch \<le> maxOperations) \<and>
     length (b_pending b) < maxOperations \<and>
     (b_phase b = Sleeping \<longrightarrow> b_pending b \<noteq> []) \<and>
     (b_phase b = Receiving \<longrightarrow> b_pending b \<noteq> [] \<longrightarrow> b_chan b \<noteq> [])"

lemma submitted_append: "submitted (es @ fs) = submitted es @ submitted fs"
  by (induction es rule: submitted.induct) auto

lemma batch_inv_init: "0 < maxOperations \<Longrightarrow> batch_inv maxOperations [] batcher_init"
  by (simp add: batch_inv_def batcher_init_def)

lemma batch_inv_receive:
  "batch_inv m ops b \<Longrightarrow> b_phase b = Receiving \<Longrightarrow> b_chan b \<noteq> [] \<Longrightarrow> batch_inv m ops (batch_receive m b)"
  by (cases "b_chan b") (auto simp: batch_inv_def batch_receive_def batch_flush_def Let_def)

lemma batch_inv_wake: "batch_inv m ops b \<Longrightarrow> b_phase b = Sleeping \<Longrightarrow> batch_inv m ops (batch_wake b)"
  by (auto simp: batch_inv_def batch_wake_def batch_flush_def Let_def)

lemma batch_inv_step:
  "batch_step m k b e b' \<Longrightarrow> batch_inv m ops b \<Longrightarrow> batch_inv m (ops @ submitted [e]) b'"
proof (induction rule: batch_step.induct)
  case (receive b)
  then show ?case using batch_inv_receive by auto
next
  case (wake b)
  then show ?case using batch_inv_wake by auto
qed (auto simp: batch_inv_def)

lemma batch_run_inv: "batch_run m k es b \<Longrightarrow> 0 < m \<Longrightarrow> batch_inv m (submitted es) b"
proof (induction rule: batch_run.induct)
  case batch_start
  then show ?case by (simp add: batch_inv_init)
next
  case (batch_next es b e b')
  then show ?case using batch_inv_step [of m k b e b' "submitted es"] by (simp add: submitted_append)
qed

definition batch_work :: "'op batcher \<Rightarrow> nat" where
  "batch_work b = 2 * length (b_chan b) + (if b_phase b = Sleeping then 1 else 0)"

lemma batch_work_receive: "b_chan b \<noteq> [] \<Longrightarrow> batch_work (batch_receive m b) < batch_work b"
  by (cases "b_chan b") (auto simp: batch_work_def batch_receive_def batch_flush_def Let_def)

lemma batch_work_wake: "b_phase b = Sleeping \<Longrightarrow> batch_work (batch_wake b) < batch_work b"
  by (auto simp: batch_work_def batch_wake_def batch_flush_def Let_def)

lemma batch_running: "b_phase (batch_wake b) = Receiving" "b_phase b \<noteq> Stopped \<Longrightarrow> b_phase (batch_receive m b) \<noteq> Stopped"
  by (auto simp: batch_wake_def batch_receive_def batch_flush_def Let_def split: list.splits)

lemma batch_drain:
  assumes "batch_run m k es b" and "0 < m" and "b_phase b \<noteq> Stopped"
  shows "\<exists>fs b'. submitted fs = [] \<and> batch_run m k (es @ fs) b' \<and> concat (b_sent b') = submitted es"
  using assms
proof (induction "batch_work b" arbitrary: es b rule: less_induct)
  case less
  note inv = batch_run_inv [OF less.prems(1,2)]
  have more: ?case if "batch_step m k b e b1" "batch_work b1 < batch_work b" "b_phase b1 \<noteq> Stopped"
      "submitted [e] = []" for e b1
  proof -
    have "batch_run m k (es @ [e]) b1" using less.prems(1) that(1) by (rule batch_next)
    from less.hyps [OF that(2) this less.prems(2) that(3)] obtain fs b' where
      "submitted fs = []" "batch_run m k (es @ e # fs) b'" "concat (b_sent b') = submitted (es @ [e])"
      by auto
    then show ?thesis using that(4) submitted_append [of "[e]" fs]
      by (intro exI [of _ "e # fs"] exI [of _ b']) (simp add: submitted_append)
  qed
  consider (sleep) "b_phase b = Sleeping" | (recv) "b_phase b = Receiving" "b_chan b \<noteq> []"
    | (idle) "b_phase b = Receiving" "b_chan b = []"
    using less.prems(3) by (cases "b_phase b") auto
  then show ?case
  proof cases
    case sleep
    show ?thesis using more [OF batch_step.wake [OF sleep] batch_work_wake [OF sleep]]
      by (simp add: batch_running)
  next
    case recv
    show ?thesis using more [OF batch_step.receive [OF recv] batch_work_receive [OF recv(2)]] recv(1)
      by (simp add: batch_running)
  next
    case idle
    then have "concat (b_sent b) = submitted es" using inv by (auto simp: batch_inv_def)
    then show ?thesis using less.prems(1) by (intro exI [of _ "[]"] exI [of _ b]) simp
  qed
qed

section \<open>An allocation with one file of 70000 bytes\<close>

definition sample_content :: bytes where
  "sample_content = replicate 70000 7"

definition range_env :: "unit zenv" where
  "range_env = (static_env [sample_ref ''f'' ''/b/a'' 70000])
     \<lparr>DownloadByBlocks := (\<lambda>p s e n t w. (DownloadDone (blocks_of 65536 sample_content s e), w))\<rparr>"

definition sample_info :: ObjectInfo where
  "sample_info = noObjectInfo\<lparr>oiBucket := ''b'', oiName := ''a'', oiModTime := 2, oiSize := 70000,
     oiContentType := ''text/plain'', oiETag := ''h''\<rparr>"

lemma getObjectRef_downloads: "getObjectRef (env\<lparr>DownloadByBlocks := f\<rparr>) = getObjectRef env"
proof -
  have "GetRefs (env\<lparr>DownloadByBlocks := f\<rparr>) = GetRefs env" by simp
  then show ?thesis
    by (intro ext) (simp only: getObjectRef_def getSingleRegularRef_def getRegularRefs_def)
qed

lemma sample_object: "object_at range_env ''b'' ''a'' ''/b/a'' () sample_info 65536 sample_content"
proof -
  have "getObjectRef (static_env [sample_ref ''f'' ''/b/a'' 70000]) ''b'' ''a'' ''/b/a'' () =
      (Inr (sample_info, False), ())" by code_simp
  then have "getObjectRef range_env ''b'' ''a'' ''/b/a'' () = (Inr (sample_info, False), ())"
    by (simp only: range_env_def getObjectRef_downloads)
  moreover have "65536 = effective_chunk_size range_env False"
    by (simp add: effective_chunk_size_def range_env_def static_env_def defaultChunkSize_def)
  ultimately have "\<exists>enc w1. getObjectRef range_env ''b'' ''a'' ''/b/a'' () = (Inr (sample_info, enc), w1) \<and>
      65536 = effective_chunk_size range_env enc" by blast
  moreover have "serves_file range_env ''/b/a'' 65536 sample_content"
    by (simp add: serves_file_def range_env_def)
  moreover have "osCreate range_env p w = None" for p w by (simp add: range_env_def static_env_def)
  moreover have "0 \<le> off \<and> off \<le> int (length bs) \<longrightarrow> fileSeek range_env p bs off = None" for p bs off
    by (simp add: range_env_def static_env_def)
  moreover have "oiSize sample_info = int (length sample_content)" "int (length sample_content) + 65536 < 2 ^ 63"
    by (simp_all add: sample_info_def sample_content_def)
  ultimately show ?thesis unfolding object_at_def by (intro conjI allI zero_less_numeral)
qed

lemma length_sample [simp]: "length sample_content = 70000"
  by (simp add: sample_content_def)

section \<open>Properties\<close>

text \<open>
  C9. A read of bytes \<open>rangeStart\<close> to \<open>rangeEnd\<close> of an object, both inside it, delivers exactly these
  bytes, whenever the range starts at byte 0 or \<open>rangeEnd\<close> is not a multiple of the block size: the
  blocks asked for cover the range and the cut at both ends is right.
\<close>

theorem getFileReader_range:
  assumes obj: "object_at env bucket object remotePath w info ecs content"
    and range: "0 \<le> rs" "rs \<le> re" "re < int (length content)"
    and aligned: "rs = 0 \<or> \<not> ecs dvd re"
  shows "\<exists>p w'. getFileReader env bucket object remotePath rs re w =
    (Inr (\<lparr>rd_data = take (nat (re - rs + 1)) (drop (nat rs) content), rd_err = None\<rparr>, info, p), w')"
  using assms by (rule getFileReader_range_data)

theorem getFileReader_range_witness:
  "\<exists>p w'. getFileReader range_env ''b'' ''a'' ''/b/a'' 65530 65540 () =
    (Inr (\<lparr>rd_data = take (nat (65540 - 65530 + 1)) (drop (nat 65530) sample_content), rd_err = None\<rparr>,
          sample_info, p), w')"
  by (rule getFileReader_range [OF sample_object]) simp_all

text \<open>
  C37. When the range starts after byte 0 and \<open>rangeEnd\<close> is a multiple of the block size, the last
  block is not asked for: the reader ends, without an error, one byte before the end of the range.
\<close>

theorem getFileReader_short:
  assumes obj: "object_at env bucket object remotePath w info ecs content"
    and range: "1 \<le> rs" "rs \<le> re" "re < int (length content)" and aligned: "ecs dvd re"
  shows "\<exists>p w'. getFileReader env bucket object remotePath rs re w =
    (Inr (\<lparr>rd_data = take (nat (re - rs)) (drop (nat rs) content), rd_err = None\<rparr>, info, p), w')"
proof -
  have ecs: "0 < ecs" using obj by (auto simp: object_at_def)
  have "end_block ecs rs re * ecs = re"
    using ceil_div_mult_dvd [OF ecs aligned] range(1) by (simp add: end_block_def)
  then have "min (re - rs + 1) (end_block ecs rs re * ecs - rs) = re - rs" by linarith
  with getFileReader_bounded [OF obj _ range(2,3)] range(1) show ?thesis by simp
qed

theorem getFileReader_short_witness:
  "\<exists>p w'. getFileReader range_env ''b'' ''a'' ''/b/a'' 65530 65536 () =
    (Inr (\<lparr>rd_data = take (nat (65536 - 65530)) (drop (nat 65530) sample_content), rd_err = None\<rparr>,
          sample_info, p), w')"
  by (rule getFileReader_short [OF sample_object]) simp_all

text \<open>
  A read from \<open>rangeStart\<close> to the end (\<open>rangeEnd = -1\<close>) delivers the rest of the object when it
  starts at byte 0 or beyond the second block; when it starts elsewhere in the first two blocks, the
  whole object is delivered from byte 0.
\<close>

theorem getFileReader_open:
  assumes obj: "object_at env bucket object remotePath w info ecs content"
    and range: "0 \<le> rs" "rs \<le> int (length content)"
  shows "\<exists>p w'. getFileReader env bucket object remotePath rs (-1) w =
    (Inr (\<lparr>rd_data = (if rs < 2 * ecs then content else drop (nat rs) content), rd_err = None\<rparr>, info, p), w')"
proof -
  define sb where "sb = start_block ecs rs"
  have ecs: "0 < ecs" and big: "int (length content) + ecs < 2 ^ 63"
    using obj by (auto simp: object_at_def)
  have range': "block_range ecs (int (length content)) rs (-1) = (sb, 0, int (length content) - rs)"
    using block_range_open [OF ecs range(1,2)] big ecs by (simp add: sb_def)
  show ?thesis
  proof (cases "rs < 2 * ecs")
    case True
    then have "rs div ecs < 2" using two_blocks [OF ecs] by simp
    moreover have "0 \<le> rs div ecs" using ecs range(1) by (simp add: pos_imp_zdiv_nonneg_iff)
    ultimately have "sb = 1" using ecs range(1) by (auto simp: sb_def start_block_def Let_def)
    with getFileReader_piped [OF obj] range' True show ?thesis by simp
  next
    case False
    then have "2 \<le> rs div ecs" using two_blocks [OF ecs, of rs] by simp
    then have sb: "2 \<le> sb" using ecs range(1) by (simp add: sb_def start_block_def Let_def)
    have le: "(sb - 1) * ecs \<le> rs" using start_block_le [OF ecs range(1)] by (simp add: sb_def)
    have "0 \<le> (sb - 1) * ecs" using sb ecs by simp
    then have off: "nat (rs - (sb - 1) * ecs) + nat ((sb - 1) * ecs) = nat rs"
      using le by (simp flip: nat_add_distrib)
    have "take (nat (int (length content) - rs))
        (drop (nat (rs - (sb - 1) * ecs)) (blocks_of ecs content sb 0)) = drop (nat rs) content"
      using range by (simp add: blocks_of_def off nat_le_iff)
    moreover have "rs - (sb - 1) * ecs \<le> int (length (blocks_of ecs content sb 0))"
      using range \<open>0 \<le> (sb - 1) * ecs\<close> by (simp add: blocks_of_def)
    ultimately show ?thesis
      using getFileReader_blocks [OF obj range' _ _ le range(1)] sb range big ecs False by simp
  qed
qed

theorem getFileReader_open_witness:
  "\<exists>p w'. getFileReader range_env ''b'' ''a'' ''/b/a'' 10 (-1) () =
    (Inr (\<lparr>rd_data = sample_content, rd_err = None\<rparr>, sample_info, p), w')"
  using getFileReader_open [OF sample_object, of 10] by simp

text \<open>
  C16. Every upload submitted to the batching goroutine is handed to the workers at most once and in
  the order of submission, in batches that are never empty and never larger than \<open>maxOperations\<close>;
  while the goroutine waits for another operation nothing it has received is held back, and from
  every state in which it is not stopped it can hand over all of them without any further upload.
\<close>

theorem batches_complete:
  assumes run: "batch_run maxOperations maxWorkers es b" and pos: "0 < maxOperations"
  shows "concat (b_sent b) @ b_pending b @ b_chan b = submitted es \<and>
    (\<forall>batch \<in> set (b_sent b). batch \<noteq> [] \<and> length batch \<le> maxOperations) \<and>
    (b_phase b = Receiving \<and> b_chan b = [] \<longrightarrow> concat (b_sent b) = submitted es) \<and>
    (b_phase b \<noteq> Stopped \<longrightarrow> (\<exists>fs b'. submitted fs = [] \<and>
       batch_run maxOperations maxWorkers (es @ fs) b' \<and> concat (b_sent b') = submitted es))"
proof -
  have "batch_inv maxOperations (submitted es) b" using batch_run_inv [OF run pos] .
  then show ?thesis using batch_drain [OF run pos] by (auto simp: batch_inv_def)
qed

theorem batches_complete_witness:
  "\<exists>b. batch_run 2 1 [Submit ''x'', Submit ''y'', Receive] b \<and> concat (b_sent b) @ b_pending b @ b_chan b = [''x'', ''y'']"
proof -
  define b1 where "b1 = batcher_init\<lparr>b_chan := [''x'']\<rparr>"
  define b2 where "b2 = batcher_init\<lparr>b_chan := [''x'', ''y'']\<rparr>"
  have "batch_step 2 1 batcher_init (Submit ''x'') b1" "batch_step 2 1 b1 (Submit ''y'') b2"
    using batch_step.submit [of batcher_init 2 1 "''x''"] batch_step.submit [of b1 2 1 "''y''"]
    by (simp_all add: b1_def b2_def batcher_init_def)
  moreover have "batch_step 2 1 b2 Receive (batch_receive 2 b2)"
    by (rule batch_step.receive) (simp_all add: b2_def batcher_init_def)
  ultimately have run: "batch_run 2 1 ([] @ [Submit ''x''] @ [Submit ''y''] @ [Receive]) (batch_receive 2 b2)"
    using batch_next [OF batch_next [OF batch_next [OF batch_start]]] by simp
  show ?thesis using batches_complete [OF run] run by auto
qed

text \<open>
  An upload that waits for its batch reports success exactly when the SDK ran the batch without
  an error, or failed it because nothing changed: no other error of the SDK is lost between the
  worker and the request, a cancelled SDK call included.
\<close>

lemma putFile_batch_outcome:
  assumes "batchUploadWorker env ops w = (outs, w1)" and "(op, out) \<in> set outs" and "sz \<noteq> -1"
  shows "map_option fst (putFile env (Some out) remotePath contentType r sz isUpdate userDefined w1) = Some None \<longleftrightarrow>
    (case fst (DoMultiOperation env ops w) of None \<Rightarrow> True | Some e \<Rightarrow> isSameRootError env e)"
  using assms
  by (cases "DoMultiOperation env ops w")
     (auto simp: batchUploadWorker_def worker_error_def putFile_def put_request_def cause_of_def Let_def
           split: option.splits if_splits)

lemma putFile_batch_sample:
  "map_option fst (putFile range_env (Some (WorkerDone None)) ''/b/a'' ''text/plain'' [1] 1 False [] ()) = Some None"
proof -
  define op where "op = opRequest0 FileOperationInsert ''/b/a''"
  have "batchUploadWorker range_env [op] () = ([(op, WorkerDone None)], ())"
    by (simp add: batchUploadWorker_def worker_error_def range_env_def static_env_def)
  moreover have "fst (DoMultiOperation range_env [op] ()) = None"
    by (simp add: range_env_def static_env_def)
  ultimately show ?thesis
    using putFile_batch_outcome [of range_env "[op]" "()" _ "()" op "WorkerDone None" 1
        "''/b/a''" "''text/plain''" "[1]" False "[]"] by simp
qed

text \<open>A request that is cancelled while it waits for its batch is told it succeeded: cancelling
  leaves the cause \<open>context.Canceled\<close>, which is also the mark of a batch without error.\<close>

lemma putFile_cancelled_succeeds:
  assumes "sz \<noteq> -1"
  shows "putFile env (Some (RequestDone ContextCanceled)) remotePath contentType r sz isUpdate userDefined w = Some (None, w)"
  using assms by (simp add: putFile_def put_request_def cause_of_def Let_def)

end
