(* ===== verification/Zcn_PathLock.thy ===== *)
theory Zcn_PathLock
  imports Prelude
begin

text \<open>
  The locks on paths (\<open>lockPath\<close> and \<open>unlockPath\<close> of \<open>gateway-zcn.go\<close>) under concurrency: a step
  relation over the mutex \<open>contentLock\<close>, the map \<open>contentMap\<close> of semaphores and the requests that use
  them.
\<close>

section \<open>The state and the steps\<close>

text \<open>Where a request stands. \<open>Acquiring\<close> is inside \<open>lockPath\<close>, at \<open>Acquire\<close>, with \<open>contentLock\<close> held by
  the deferred unlock; \<open>Unlocking\<close> is at the entry of \<open>unlockPath\<close>.\<close>

datatype lock_pc = Idle | Locking string | Acquiring string | Holding string | Unlocking string

record path_locks =
  pl_mutex :: "nat option"
  pl_content :: "(string \<times> bool) list"
  pl_pc :: "nat \<Rightarrow> lock_pc"

definition path_locks_init :: path_locks where
  "path_locks_init = \<lparr>pl_mutex = None, pl_content = [], pl_pc = (\<lambda>_. Idle)\<rparr>"

text \<open>A semaphore of weight one is the flag that it is taken; \<open>lockPath\<close> adds a free one for a path
  that has none.\<close>

definition add_semaphore :: "string \<Rightarrow> (string \<times> bool) list \<Rightarrow> (string \<times> bool) list" where
  "add_semaphore p content = (if map_of content p = None then (p, False) # content else content)"

definition take_semaphore :: "string \<Rightarrow> (string \<times> bool) list \<Rightarrow> (string \<times> bool) list" where
  "take_semaphore p content = map (\<lambda>(q, taken). (q, if q = p then True else taken)) content"

definition drop_semaphore :: "string \<Rightarrow> (string \<times> bool) list \<Rightarrow> (string \<times> bool) list" where
  "drop_semaphore p content = filter (\<lambda>(q, taken). q \<noteq> p) content"

datatype lock_event = Request nat string | Enter nat | Acquire nat | Cancel nat | Finish nat | Release nat

inductive lock_step :: "path_locks \<Rightarrow> lock_event \<Rightarrow> path_locks \<Rightarrow> bool" where
  request: "pl_pc s t = Idle \<Longrightarrow> lock_step s (Request t p) (s\<lparr>pl_pc := (pl_pc s)(t := Locking p)\<rparr>)"
| enter: "pl_pc s t = Locking p \<Longrightarrow> pl_mutex s = None \<Longrightarrow>
    lock_step s (Enter t) (s\<lparr>pl_mutex := Some t, pl_content := add_semaphore p (pl_content s),
      pl_pc := (pl_pc s)(t := Acquiring p)\<rparr>)"
| acquire: "pl_pc s t = Acquiring p \<Longrightarrow> map_of (pl_content s) p = Some False \<Longrightarrow>
    lock_step s (Acquire t) (s\<lparr>pl_mutex := None, pl_content := take_semaphore p (pl_content s),
      pl_pc := (pl_pc s)(t := Holding p)\<rparr>)"
| cancel: "pl_pc s t = Acquiring p \<Longrightarrow>
    lock_step s (Cancel t) (s\<lparr>pl_mutex := None, pl_pc := (pl_pc s)(t := Idle)\<rparr>)"
| finish: "pl_pc s t = Holding p \<Longrightarrow> lock_step s (Finish t) (s\<lparr>pl_pc := (pl_pc s)(t := Unlocking p)\<rparr>)"
| release: "pl_pc s t = Unlocking p \<Longrightarrow> pl_mutex s = None \<Longrightarrow>
    lock_step s (Release t) (s\<lparr>pl_content := drop_semaphore p (pl_content s),
      pl_pc := (pl_pc s)(t := Idle)\<rparr>)"

inductive lock_run :: "path_locks \<Rightarrow> lock_event list \<Rightarrow> path_locks \<Rightarrow> bool" where
  lock_nil: "lock_run s [] s"
| lock_snoc: "lock_run s es s' \<Longrightarrow> lock_step s' e s'' \<Longrightarrow> lock_run s (es @ [e]) s''"

section \<open>The invariant\<close>

fun owned :: "lock_pc \<Rightarrow> string option" where
  "owned (Holding p) = Some p"
| "owned (Unlocking p) = Some p"
| "owned _ = None"

fun acquiring :: "lock_pc \<Rightarrow> string option" where
  "acquiring (Acquiring p) = Some p"
| "acquiring _ = None"

abbreviation owns :: "path_locks \<Rightarrow> nat \<Rightarrow> string \<Rightarrow> bool" where
  "owns s t p \<equiv> owned (pl_pc s t) = Some p"

definition locks_inv :: "path_locks \<Rightarrow> bool" where
  "locks_inv s \<longleftrightarrow>
     (\<forall>t. acquiring (pl_pc s t) \<noteq> None \<longleftrightarrow> pl_mutex s = Some t) \<and>
     (\<forall>t p. owns s t p \<longrightarrow> map_of (pl_content s) p = Some True) \<and>
     (\<forall>t t' p. owns s t p \<longrightarrow> owns s t' p \<longrightarrow> t = t')"

lemma acquiring_iff [simp]: "acquiring pc = Some p \<longleftrightarrow> pc = Acquiring p"
  by (cases pc) auto

lemma locks_invD:
  assumes "locks_inv s"
  shows "pl_pc s t = Acquiring p \<Longrightarrow> pl_mutex s = Some t"
    and "owns s t p \<Longrightarrow> map_of (pl_content s) p = Some True"
    and "owns s t p \<Longrightarrow> owns s t' p \<Longrightarrow> t = t'"
    and "pl_mutex s = Some t \<Longrightarrow> \<exists>p. pl_pc s t = Acquiring p"
  using assms unfolding locks_inv_def by (metis acquiring.simps(1) option.distinct(1), blast, blast, auto)

lemma map_of_add_semaphore: "map_of (add_semaphore p c) q =
    (if q = p \<and> map_of c p = None then Some False else map_of c q)"
  by (auto simp: add_semaphore_def)

lemma map_of_take_semaphore: "map_of (take_semaphore p c) q =
    (if q = p then map_option (\<lambda>_. True) (map_of c p) else map_of c q)"
  by (induction c) (auto simp: take_semaphore_def)

lemma map_of_drop_semaphore: "map_of (drop_semaphore p c) q = (if q = p then None else map_of c q)"
  by (induction c) (auto simp: drop_semaphore_def)

lemmas semaphore_simps = map_of_add_semaphore map_of_take_semaphore map_of_drop_semaphore

lemma locks_inv_init: "locks_inv path_locks_init"
  by (simp add: locks_inv_def path_locks_init_def)

lemma locks_inv_step: "lock_step s e s' \<Longrightarrow> locks_inv s \<Longrightarrow> locks_inv s'"
proof (induction rule: lock_step.induct)
  case (request s t p)
  then have "pl_mutex s \<noteq> Some t" by (auto dest: locks_invD(4))
  with request show ?case by (simp add: locks_inv_def)
next
  case (enter s t p)
  then show ?case by (auto simp: locks_inv_def semaphore_simps)
next
  case (acquire s t p)
  have "pl_mutex s = Some t" using acquire by (blast dest: locks_invD)
  moreover have "\<not> owns s t' p" for t' using acquire locks_invD(2) by fastforce
  moreover have "t' \<noteq> t \<Longrightarrow> pl_pc s t' \<noteq> Acquiring q" for t' q
    using locks_invD(1) [OF acquire(3)] calculation(1) by fastforce
  ultimately show ?case using acquire by (auto simp: locks_inv_def semaphore_simps)
next
  case (cancel s t p)
  then have "pl_mutex s = Some t" by (blast dest: locks_invD)
  then have "t' \<noteq> t \<Longrightarrow> pl_pc s t' \<noteq> Acquiring q" for t' q
    using locks_invD(1) [OF cancel(2)] by fastforce
  with cancel show ?case by (auto simp: locks_inv_def)
next
  case (finish s t p)
  then have "pl_mutex s \<noteq> Some t" by (auto dest: locks_invD(4))
  moreover have "owns s t p" using finish by simp
  then have "map_of (pl_content s) p = Some True" "owns s t' p \<Longrightarrow> t' = t" for t'
    using locks_invD(2,3) [OF finish(2)] by blast+
  ultimately show ?case using finish by (auto simp: locks_inv_def)
next
  case (release s t p)
  have "owns s t p" using release by simp
  then have "t' \<noteq> t \<Longrightarrow> \<not> owns s t' p" for t' using release locks_invD(3) by blast
  with release show ?case by (auto simp: locks_inv_def semaphore_simps)
qed

lemma locks_inv_run: "lock_run s es s' \<Longrightarrow> locks_inv s \<Longrightarrow> locks_inv s'"
  by (induction rule: lock_run.induct) (auto dest: locks_inv_step)

text \<open>A request that waits for a taken semaphore keeps the mutex that the owner needs to release it.\<close>

definition deadlocked :: "path_locks \<Rightarrow> nat \<Rightarrow> nat \<Rightarrow> string \<Rightarrow> bool" where
  "deadlocked s t t' p \<longleftrightarrow> owns s t p \<and> pl_pc s t' = Acquiring p"

fun lock_progress :: "lock_event \<Rightarrow> bool" where
  "lock_progress (Enter t) = True"
| "lock_progress (Acquire t) = True"
| "lock_progress (Release t) = True"
| "lock_progress _ = False"

lemma deadlocked_step:
  assumes step: "lock_step s e s'" and inv: "locks_inv s" and dead: "deadlocked s t t' p" and e: "e \<noteq> Cancel t'"
  shows "deadlocked s' t t' p \<and> \<not> lock_progress e"
proof -
  have own: "owns s t p" and wait: "pl_pc s t' = Acquiring p" using dead by (auto simp: deadlocked_def)
  have mutex: "pl_mutex s = Some t'" using locks_invD(1) [OF inv wait] .
  have taken: "map_of (pl_content s) p = Some True" using locks_invD(2) [OF inv own] .
  have only: "u = t'" if "pl_pc s u = Acquiring q" for u q
    using locks_invD(1) [OF inv that] mutex by simp
  from step show ?thesis
  proof cases
    case (acquire u q)
    then have "u = t'" using only by blast
    then show ?thesis using acquire wait taken by simp
  next
    case (cancel u q)
    then show ?thesis using only e by blast
  qed (use own wait mutex in \<open>auto simp: deadlocked_def\<close>)
qed

lemma deadlocked_run:
  "lock_run s es s' \<Longrightarrow> locks_inv s \<Longrightarrow> deadlocked s t t' p \<Longrightarrow> Cancel t' \<notin> set es \<Longrightarrow>
   deadlocked s' t t' p \<and> (\<forall>e \<in> set es. \<not> lock_progress e)"
proof (induction rule: lock_run.induct)
  case (lock_snoc s es s' e s'')
  then show ?case using deadlocked_step [OF lock_snoc(2)] locks_inv_run [OF lock_snoc(1)] by auto
qed simp

section \<open>One request, and a second one for the same path\<close>

definition one_holds :: path_locks where
  "one_holds = \<lparr>pl_mutex = None, pl_content = [(''/b/a'', True)], pl_pc = (\<lambda>_. Idle)(0 := Holding ''/b/a'')\<rparr>"

lemma one_holds_run: "lock_run path_locks_init [Request 0 ''/b/a'', Enter 0, Acquire 0] one_holds"
proof -
  let ?s1 = "path_locks_init\<lparr>pl_pc := (\<lambda>_. Idle)(0 := Locking ''/b/a'')\<rparr>"
  let ?s2 = "\<lparr>pl_mutex = Some 0, pl_content = [(''/b/a'', False)], pl_pc = (\<lambda>_. Idle)(0 := Acquiring ''/b/a'')\<rparr>"
  have "lock_step path_locks_init (Request 0 ''/b/a'') ?s1"
    using request [of path_locks_init 0 "''/b/a''"] by (simp add: path_locks_init_def)
  moreover have "lock_step ?s1 (Enter 0) ?s2"
    using enter [of ?s1 0 "''/b/a''"] by (simp add: path_locks_init_def add_semaphore_def)
  moreover have "lock_step ?s2 (Acquire 0) one_holds"
    using acquire [of ?s2 0 "''/b/a''"] by (simp add: take_semaphore_def one_holds_def)
  ultimately show ?thesis using lock_snoc [OF lock_snoc [OF lock_snoc [OF lock_nil]]] by simp
qed

definition one_waits :: path_locks where
  "one_waits = one_holds\<lparr>pl_mutex := Some 1, pl_pc := (pl_pc one_holds)(1 := Acquiring ''/b/a'')\<rparr>"

lemma one_waits_run:
  "lock_run path_locks_init [Request 0 ''/b/a'', Enter 0, Acquire 0, Request 1 ''/b/a'', Enter 1] one_waits"
proof -
  let ?s = "one_holds\<lparr>pl_pc := (pl_pc one_holds)(1 := Locking ''/b/a'')\<rparr>"
  have "lock_step one_holds (Request 1 ''/b/a'') ?s" by (rule request) (simp add: one_holds_def)
  moreover have "lock_step ?s (Enter 1) one_waits"
    using enter [of ?s 1 "''/b/a''"] by (simp add: one_waits_def one_holds_def add_semaphore_def)
  ultimately show ?thesis using lock_snoc [OF lock_snoc [OF one_holds_run]] by simp
qed

section \<open>Properties\<close>

text \<open>
  C23. No two requests hold the lock of the same path at the same time, in every interleaving of any
  number of requests.
\<close>

theorem path_lock_exclusive:
  assumes "lock_run path_locks_init es s" and "owns s t p" and "owns s t' p"
  shows "t = t'"
  using locks_inv_run [OF assms(1) locks_inv_init] assms(2,3) by (auto simp: locks_inv_def)

theorem path_lock_exclusive_witness:
  "\<forall>t. owns one_holds t ''/b/a'' = (t = 0)"
proof
  fix t
  have "owns one_holds 0 ''/b/a''" by (simp add: one_holds_def)
  then show "owns one_holds t ''/b/a'' = (t = 0)"
    using path_lock_exclusive [OF one_holds_run, of t "''/b/a''" 0] by blast
qed

text \<open>
  C38. A request that finds the path taken waits for it with the global mutex held, which the owner
  needs to give the path back: from then on, until the waiting request is cancelled, no request
  enters, acquires or releases any path's lock, and the owner keeps the path.
\<close>

theorem path_lock_deadlock:
  assumes "lock_run path_locks_init es s" and "owns s t p" and "pl_pc s t' = Acquiring p"
    and "lock_run s fs s'" and "Cancel t' \<notin> set fs"
  shows "owns s' t p \<and> pl_pc s' t' = Acquiring p \<and> (\<forall>e \<in> set fs. \<not> lock_progress e)"
  using deadlocked_run [OF assms(4) locks_inv_run [OF assms(1) locks_inv_init], of t t' p] assms(2,3,5)
  by (simp add: deadlocked_def)

theorem path_lock_deadlock_witness:
  "\<exists>s'. lock_run one_waits [Finish 0] s' \<and> owns s' 0 ''/b/a'' \<and> pl_pc s' 1 = Acquiring ''/b/a''"
proof -
  let ?s = "one_waits\<lparr>pl_pc := (pl_pc one_waits)(0 := Unlocking ''/b/a'')\<rparr>"
  have "lock_step one_waits (Finish 0) ?s" by (rule finish) (simp add: one_waits_def one_holds_def)
  then have run: "lock_run one_waits [Finish 0] ?s" using lock_snoc [OF lock_nil] by fastforce
  have own: "owns one_waits 0 ''/b/a''" and wait: "pl_pc one_waits 1 = Acquiring ''/b/a''"
    by (simp_all add: one_waits_def one_holds_def)
  show ?thesis using path_lock_deadlock [OF one_waits_run own wait run] run by auto
qed

end
