(* ===== verification/Go_Strings.thy ===== *)
theory Go_Strings
  imports Prelude
begin

text \<open>
  Numbers and white space in Go strings: what the sources use of \<open>strconv\<close> and of
  \<open>strings.TrimSpace\<close>, with the lemmas that the parsers share.
\<close>

section \<open>Numbers\<close>

definition digit_val :: "char \<Rightarrow> nat option" where
  "digit_val c = (let n = (of_char c :: nat) in if 48 \<le> n \<and> n \<le> 57 then Some (n - 48) else None)"

fun parse_digits :: "nat \<Rightarrow> string \<Rightarrow> nat option" where
  "parse_digits acc [] = Some acc"
| "parse_digits acc (c # cs) =
     (case digit_val c of None \<Rightarrow> None | Some d \<Rightarrow> parse_digits (10 * acc + d) cs)"

text \<open>\<open>strconv.ParseInt(s, 10, 64)\<close>: an optional sign, digits, and a value that fits.\<close>

definition ParseInt64 :: "string \<Rightarrow> int option" where
  "ParseInt64 s =
     (let (neg, ds) =
        (case s of
           [] \<Rightarrow> (False, [])
         | c # cs \<Rightarrow> if c = CHR ''+'' then (False, cs) else if c = CHR ''-'' then (True, cs) else (False, s))
      in if ds = [] then None
         else case parse_digits 0 ds of
                None \<Rightarrow> None
              | Some n \<Rightarrow>
                  let v = (if neg then - int n else int n) in
                  if - (2 ^ 63) \<le> v \<and> v < 2 ^ 63 then Some v else None)"

definition show_int :: "int \<Rightarrow> string" where
  "show_int i = (if i < 0 then CHR ''-'' # Itoa (nat (- i)) else Itoa (nat i))"

lemma digit_val_digit_char: "d < 10 \<Longrightarrow> digit_val (digit_char d) = Some d"
  by (simp add: digit_val_def digit_char_def Let_def)

lemma parse_digits_append:
  "parse_digits acc (xs @ ys) =
     (case parse_digits acc xs of None \<Rightarrow> None | Some n \<Rightarrow> parse_digits n ys)"
  by (induction acc xs rule: parse_digits.induct) (auto split: option.splits)

lemma parse_digits_Itoa: "parse_digits 0 (Itoa n) = Some n"
proof (induction n rule: Itoa.induct)
  case (1 n)
  then show ?case
    by (cases "n < 10") (simp_all add: Itoa.simps [of n] digit_val_digit_char parse_digits_append)
qed

lemma digit_char_neq: "d < 10 \<Longrightarrow> digit_char d \<noteq> c" if "digit_val c = None"
  using digit_val_digit_char that by force

lemma Itoa_no_sep: "digit_val c = None \<Longrightarrow> c \<notin> set (Itoa n)"
proof (induction n rule: Itoa.induct)
  case (1 n)
  then show ?case
    using digit_char_neq [OF 1(2), of n] digit_char_neq [OF 1(2), of "n mod 10"]
    by (cases "n < 10") (auto simp: Itoa.simps [of n])
qed

lemma no_digits [simp]: "digit_val (CHR ''-'') = None" "digit_val (CHR ''+'') = None"
  by (simp_all add: digit_val_def Let_def)

lemma Itoa_Cons: "\<exists>c cs. Itoa n = c # cs \<and> c \<noteq> CHR ''+'' \<and> c \<noteq> CHR ''-''"
  using Itoa_no_sep [of "CHR ''+''" n] Itoa_no_sep [of "CHR ''-''" n] by (cases "Itoa n") auto

lemma ParseInt64_Itoa: "int n < 2 ^ 63 \<Longrightarrow> ParseInt64 (Itoa n) = Some (int n)"
  using Itoa_Cons [of n] parse_digits_Itoa [of n] by (auto simp: ParseInt64_def Let_def)

lemma ParseInt64_range: "ParseInt64 s = Some v \<Longrightarrow> - (2 ^ 63) \<le> v \<and> v < 2 ^ 63"
  unfolding ParseInt64_def Let_def by (auto split: prod.splits option.splits if_splits)

section \<open>White space\<close>

text \<open>The encodings of the runes that \<open>unicode.IsSpace\<close> accepts.\<close>

definition spaces :: "string list" where
  "spaces = map (\<lambda>n. [char_of (n :: nat)]) [9, 10, 11, 12, 13, 32] @
     map (map char_of) ([[194, 133], [194, 160], [225, 154, 128], [226, 128, 168], [226, 128, 169], [226, 128, 175],
       [226, 129, 159], [227, 128, 128]] @ map (\<lambda>k. [226, 128, k :: nat]) [128..<139])"

fun trim_left :: "string list \<Rightarrow> nat \<Rightarrow> string \<Rightarrow> string" where
  "trim_left sps 0 s = s"
| "trim_left sps (Suc k) s =
     (case find (\<lambda>sp. HasPrefix s sp) sps of None \<Rightarrow> s | Some sp \<Rightarrow> trim_left sps k (drop (length sp) s))"

text \<open>Each round removes at least one byte, so that as many rounds as bytes are enough. From the right the same
  is done on the reversed string.\<close>

definition TrimSpace :: "string \<Rightarrow> string" where
  "TrimSpace s =
     (let t = trim_left spaces (length s) s in rev (trim_left (map rev spaces) (length t) (rev t)))"

lemma trim_left_prefix:
  "\<exists>a. s = a @ trim_left sps k s \<and> set a \<subseteq> \<Union> (set ` set sps)"
proof (induction sps k s rule: trim_left.induct)
  case (2 sps k s)
  show ?case
  proof (cases "find (\<lambda>sp. HasPrefix s sp) sps")
    case (Some sp)
    then have sp: "sp \<in> set sps" "HasPrefix s sp" by (auto simp: find_Some_iff)
    then obtain t where t: "s = sp @ t" by (auto simp: HasPrefix_iff)
    then obtain a where a: "t = a @ trim_left sps k t" "set a \<subseteq> \<Union> (set ` set sps)" using 2 [OF Some] by auto
    have "s = (sp @ a) @ trim_left sps (Suc k) s" using Some t a(1) by simp
    then show ?thesis using a(2) sp(1) by (intro exI [of _ "sp @ a"]) auto
  qed simp
qed simp

lemma TrimSpace_inner:
  "\<exists>a b. s = a @ TrimSpace s @ b \<and> set a \<subseteq> \<Union> (set ` set spaces) \<and> set b \<subseteq> \<Union> (set ` set spaces)"
proof -
  let ?t = "trim_left spaces (length s) s"
  obtain a where a: "s = a @ ?t" "set a \<subseteq> \<Union> (set ` set spaces)" using trim_left_prefix by blast
  obtain b where b: "rev ?t = b @ trim_left (map rev spaces) (length ?t) (rev ?t)" "set b \<subseteq> \<Union> (set ` set (map rev spaces))"
    using trim_left_prefix by blast
  have "?t = rev (rev ?t)" by simp
  also have "\<dots> = TrimSpace s @ rev b" by (subst b(1)) (simp add: TrimSpace_def Let_def)
  finally have "s = a @ TrimSpace s @ rev b" using a(1) by simp
  moreover have "set (rev b) \<subseteq> \<Union> (set ` set spaces)" using b(2) by simp
  ultimately show ?thesis using a(2) by blast
qed

end
