(* ===== verification/Http_Range.thy ===== *)
theory Http_Range
  imports Go_Strings
begin

text \<open>
  \<open>cmd/httprange.go\<close>: the range of a GET request, how it is parsed from the header and what part of
  an object of a given size it denotes. A nil \<open>*HTTPRangeSpec\<close> is \<open>None\<close>. Offsets are \<open>int64\<close> in the
  source: the parser rejects numbers that do not fit, and the sums below stay in range for sizes
  that do.
\<close>

section \<open>The range specification\<close>

definition byteRangePrefix :: string where
  "byteRangePrefix = ''bytes=''"

datatype range_error = ErrInvalidRange | RangeErr string

record HTTPRangeSpec =
  IsSuffixLength :: bool
  Start :: int
  End :: int

definition GetLength :: "HTTPRangeSpec option \<Rightarrow> int \<Rightarrow> (range_error, int) result" where
  "GetLength h resourceSize =
     (if resourceSize < 0 then Inl (RangeErr ''Resource size cannot be negative'')
      else case h of
        None \<Rightarrow> Inr resourceSize
      | Some r \<Rightarrow>
          if IsSuffixLength r then
            (let specifiedLen = - Start r in
             Inr (if specifiedLen > resourceSize then resourceSize else specifiedLen))
          else if Start r \<ge> resourceSize then Inl ErrInvalidRange
          else if End r > -1 then
            (let end = (if resourceSize \<le> End r then resourceSize - 1 else End r) in Inr (end - Start r + 1))
          else if End r = -1 then Inr (resourceSize - Start r)
          else Inl (RangeErr ''Unexpected range specification case''))"

definition GetOffsetLength :: "HTTPRangeSpec option \<Rightarrow> int \<Rightarrow> (range_error, int \<times> int) result" where
  "GetOffsetLength h resourceSize =
     (case h of
        None \<Rightarrow> Inr (0, resourceSize)
      | Some r \<Rightarrow>
          (case GetLength h resourceSize of
             Inl err \<Rightarrow> Inl err
           | Inr len \<Rightarrow>
               (let start = (if IsSuffixLength r
                             then (let s = resourceSize + Start r in if s < 0 then 0 else s)
                             else Start r)
                in Inr (start, len))))"

text \<open>One of the two numbers of the header; an absent one is -1.\<close>

definition parse_position :: "string \<Rightarrow> string \<Rightarrow> string \<Rightarrow> (range_error, int) result" where
  "parse_position what rangeString s =
     (if s = [] then Inr (-1)
      else if hd s = CHR ''+'' then Inl (RangeErr (''Byte position ('' @ s @ '') must not have a sign''))
      else case ParseInt64 s of
             None \<Rightarrow> Inl (RangeErr (rangeString @ '' does not have a valid '' @ what @ '' byte position value''))
           | Some v \<Rightarrow> if v < 0 then Inl (RangeErr (what @ '' byte position is negative'')) else Inr v)"

definition parseRequestRangeSpec :: "string \<Rightarrow> (range_error, HTTPRangeSpec) result" where
  "parseRequestRangeSpec rangeString =
     (if \<not> HasPrefix rangeString byteRangePrefix
      then Inl (RangeErr (rangeString @ '' does not start with '' @ byteRangePrefix))
      else let byteRangeString = TrimPrefix rangeString byteRangePrefix in
        if CHR ''-'' \<notin> set byteRangeString
        then Inl (RangeErr (rangeString @ '' does not have a valid range value''))
        else let offsetBeginString = takeWhile (\<lambda>c. c \<noteq> CHR ''-'') byteRangeString;
                 offsetEndString = tl (dropWhile (\<lambda>c. c \<noteq> CHR ''-'') byteRangeString)
             in case parse_position ''first'' rangeString offsetBeginString of
                  Inl err \<Rightarrow> Inl err
                | Inr offsetBegin \<Rightarrow>
                    (case parse_position ''last'' rangeString offsetEndString of
                       Inl err \<Rightarrow> Inl err
                     | Inr offsetEnd \<Rightarrow>
                         if offsetBegin > -1 \<and> offsetEnd > -1 then
                           (if offsetBegin > offsetEnd then Inl ErrInvalidRange
                            else Inr \<lparr>IsSuffixLength = False, Start = offsetBegin, End = offsetEnd\<rparr>)
                         else if offsetBegin > -1 then
                           Inr \<lparr>IsSuffixLength = False, Start = offsetBegin, End = -1\<rparr>
                         else if offsetEnd > -1 then
                           (if offsetEnd = 0 then Inl ErrInvalidRange
                            else Inr \<lparr>IsSuffixLength = True, Start = - offsetEnd, End = -1\<rparr>)
                         else Inl (RangeErr (rangeString @ '' does not have valid range value''))))"

definition range_String :: "HTTPRangeSpec option \<Rightarrow> int \<Rightarrow> string" where
  "range_String h resourceSize =
     (case h of
        None \<Rightarrow> []
      | Some _ \<Rightarrow>
          (case GetOffsetLength h resourceSize of
             Inl _ \<Rightarrow> []
           | Inr (off, len) \<Rightarrow> show_int off @ ''-'' @ show_int (off + len - 1)))"

section \<open>Reading back positions\<close>

lemma parse_position_Itoa: "int n < 2 ^ 63 \<Longrightarrow> parse_position what s (Itoa n) = Inr (int n)"
  using Itoa_Cons [of n] ParseInt64_Itoa [of n] by (auto simp: parse_position_def)

lemma parse_position_range: "parse_position what s t = Inr v \<Longrightarrow> -1 \<le> v \<and> v < 2 ^ 63"
  by (auto simp: parse_position_def dest: ParseInt64_range split: if_splits option.splits)

lemma parse_header:
  assumes "CHR ''-'' \<notin> set a"
  shows "takeWhile (\<lambda>c. c \<noteq> CHR ''-'') (a @ CHR ''-'' # b) = a \<and>
         tl (dropWhile (\<lambda>c. c \<noteq> CHR ''-'') (a @ CHR ''-'' # b)) = b"
  using assms by (induction a) auto

section \<open>Properties\<close>

text \<open>A range that the parser can produce.\<close>

definition range_ok :: "HTTPRangeSpec \<Rightarrow> bool" where
  "range_ok r \<longleftrightarrow>
     (if IsSuffixLength r then - (2 ^ 63) < Start r \<and> Start r < 0 \<and> End r = -1
      else 0 \<le> Start r \<and> Start r < 2 ^ 63 \<and> (End r = -1 \<or> Start r \<le> End r \<and> End r < 2 ^ 63))"

text \<open>The header a client writes for a range.\<close>

definition show_range :: "HTTPRangeSpec \<Rightarrow> string" where
  "show_range r =
     byteRangePrefix @
     (if IsSuffixLength r then ''-'' @ Itoa (nat (- Start r))
      else Itoa (nat (Start r)) @ ''-'' @ (if End r = -1 then [] else Itoa (nat (End r))))"

text \<open>
  C33. Parsing a range header gives back the range it was written for, in each of the three forms
  (both ends, open end, suffix), up to the largest \<open>int64\<close>.
\<close>

theorem parse_show_range:
  assumes "range_ok r"
  shows "parseRequestRangeSpec (show_range r) = Inr r"
proof (cases "IsSuffixLength r")
  case True
  then have r: "r = \<lparr>IsSuffixLength = True, Start = Start r, End = -1\<rparr>" "Start r < 0" "- Start r < 2 ^ 63"
    using assms by (auto simp: range_ok_def)
  define n where "n = nat (- Start r)"
  have n: "Start r = - int n" "int n < 2 ^ 63" "0 < n" using r by (auto simp: n_def)
  show ?thesis
    using parse_header [of "[]" "Itoa n"] parse_position_Itoa [OF n(2)] n True
    by (subst r(1)) (simp add: parseRequestRangeSpec_def show_range_def Let_def parse_position_def)
next
  case False
  define n where "n = nat (Start r)"
  have n: "Start r = int n" "int n < 2 ^ 63" using assms False by (auto simp: n_def range_ok_def)
  have sep: "CHR ''-'' \<notin> set (Itoa n)" by (simp add: Itoa_no_sep)
  show ?thesis
  proof (cases "End r = -1")
    case True
    then have r: "r = \<lparr>IsSuffixLength = False, Start = int n, End = -1\<rparr>" using False n by simp
    show ?thesis
      using parse_header [OF sep, of "[]"] parse_position_Itoa [OF n(2)]
      by (subst (1 2) r) (simp add: parseRequestRangeSpec_def show_range_def Let_def parse_position_def)
  next
    case bounded: False
    define m where "m = nat (End r)"
    have m: "End r = int m" "int m < 2 ^ 63" "n \<le> m"
      using assms False bounded n by (auto simp: m_def range_ok_def)
    have r: "r = \<lparr>IsSuffixLength = False, Start = int n, End = int m\<rparr>" using False n m by simp
    show ?thesis
      using parse_header [OF sep, of "Itoa m"] parse_position_Itoa [OF n(2)] parse_position_Itoa [OF m(2)] m(3)
      by (subst (1 2) r) (simp add: parseRequestRangeSpec_def show_range_def Let_def)
  qed
qed

theorem parse_show_range_witness:
  "parseRequestRangeSpec (show_range \<lparr>IsSuffixLength = False, Start = 1, End = 10\<rparr>) =
     Inr \<lparr>IsSuffixLength = False, Start = 1, End = 10\<rparr>"
  using parse_show_range [of "\<lparr>IsSuffixLength = False, Start = 1, End = 10\<rparr>"]
  by (simp add: range_ok_def)

text \<open>
  For a range the parser accepted and an object of any size, \<open>GetOffsetLength\<close> either reports an
  invalid range, which happens exactly when the range starts at or after the end of the object, or
  denotes a part that lies within the object; it is the suffix of the requested length, the bytes
  from the start to the end of the range, or all bytes from the start on.
\<close>

theorem GetOffsetLength_within:
  assumes "parseRequestRangeSpec s = Inr r" and "0 \<le> sz"
  shows "case GetOffsetLength (Some r) sz of
           Inl e \<Rightarrow> e = ErrInvalidRange \<and> \<not> IsSuffixLength r \<and> sz \<le> Start r
         | Inr (off, len) \<Rightarrow>
             0 \<le> off \<and> 0 \<le> len \<and> off + len \<le> sz \<and>
             (if IsSuffixLength r then off + len = sz \<and> len = min sz (- Start r)
              else off = Start r \<and> off < sz \<and>
                   off + len = (if End r = -1 then sz else min sz (End r + 1)))"
proof -
  have "range_ok r"
    using assms(1) by (auto simp: parseRequestRangeSpec_def range_ok_def Let_def
        dest!: parse_position_range split: if_splits sum.splits)
  then show ?thesis using assms(2)
    by (cases "IsSuffixLength r") (auto simp: GetOffsetLength_def GetLength_def range_ok_def Let_def)
qed

theorem GetOffsetLength_within_witness:
  "parseRequestRangeSpec ''bytes=-30'' = Inr \<lparr>IsSuffixLength = True, Start = -30, End = -1\<rparr> \<and>
   GetOffsetLength (Some \<lparr>IsSuffixLength = True, Start = -30, End = -1\<rparr>) 100 = Inr (70, 30)"
proof -
  have p: "parseRequestRangeSpec ''bytes=-30'' = Inr \<lparr>IsSuffixLength = True, Start = -30, End = -1\<rparr>"
    by code_simp
  have "case GetOffsetLength (Some \<lparr>IsSuffixLength = True, Start = -30, End = -1\<rparr>) 100 of
      Inl e \<Rightarrow> False | Inr (off, len) \<Rightarrow> off + len = 100 \<and> len = 30"
    using GetOffsetLength_within [OF p, of 100] by (auto split: sum.splits)
  then have "GetOffsetLength (Some \<lparr>IsSuffixLength = True, Start = -30, End = -1\<rparr>) 100 = Inr (70, 30)"
    by (auto split: sum.splits)
  with p show ?thesis by simp
qed

end
