(* ===== verification/Zcn_Gateway.thy ===== *)
theory Zcn_Gateway
  imports Zcn_Transfer Zcn_PathLock Http_Range
begin

text \<open>
  The S3 handlers of the gateway (\<open>gateway-zcn.go\<close>): how a bucket and an object name become a path of
  the allocation and back, and one function per handler. Each takes the environment of SDK calls and
  threads the allocation's state; an error is the left value of the result, a loop or a lock that
  never comes back is \<open>None\<close>. Times are in nanoseconds.
\<close>

section \<open>Paths and names\<close>

definition remotePathOf :: "string \<Rightarrow> string \<Rightarrow> string" where
  "remotePathOf bucket object =
     (if bucket = rootBucketName then Join [rootPath, object] else Join [rootPath, bucket, object])"

definition getRelativePathOfObj :: "string \<Rightarrow> string \<Rightarrow> string" where
  "getRelativePathOfObj refPath bucketName =
     (if bucketName = rootPath \<or> bucketName = rootBucketName then TrimPrefix refPath rootPath
      else getCommonPrefix refPath)"

text \<open>A directory is presented as an empty object.\<close>

definition dir_as_object :: "ORef \<Rightarrow> ORef" where
  "dir_as_object ref =
     (if RefType ref = dirType
      then ref\<lparr>MimeType := s3DirectoryContentType, ActualFileHash := s3ContentHash, ActualFileSize := 0\<rparr>
      else ref)"

definition user_defined :: "'w zenv \<Rightarrow> ORef \<Rightarrow> meta" where
  "user_defined env ref = (if CustomMeta ref \<noteq> [] then jsonUnmarshal env (CustomMeta ref) else [])"

section \<open>Deleting\<close>

definition DeleteBucket :: "'w zenv \<Rightarrow> string \<Rightarrow> bool \<Rightarrow> 'w \<Rightarrow> go_error option \<times> 'w" where
  "DeleteBucket env bucketName force w =
     (if bucketName = rootBucketName then (Some (ErrorText ''cannot remove root path''), w)
      else let remotePath = Join [rootPath, bucketName] in
           case getSingleRegularRef env remotePath w of
             (Inl err, w1) \<Rightarrow> (Some err, w1)
           | (Inr ref, w1) \<Rightarrow>
               if RefType ref \<noteq> dirType then (Some (ErrorText (bucketName @ '' is object not bucket'')), w1)
               else if force \<or> RefSize ref = 0
                    then DoMultiOperation env [opRequest0 FileOperationDelete remotePath] w1
                    else (Some (BucketNotEmpty bucketName), w1))"

definition DeleteObject ::
  "'w zenv \<Rightarrow> string \<Rightarrow> string \<Rightarrow> 'w \<Rightarrow> (ObjectInfo \<times> go_error option) \<times> 'w" where
  "DeleteObject env bucket object w =
     (let remotePath = remotePathOf bucket object in
      case getSingleRegularRef env remotePath w of
        (Inl err, w1) \<Rightarrow>
          ((noObjectInfo, if remotePathNotExistError env err then None else Some err), w1)
      | (Inr ref, w1) \<Rightarrow>
          (case DoMultiOperation env [opRequest0 FileOperationDelete remotePath] w1 of
             (Some err, w2) \<Rightarrow> ((noObjectInfo, Some err), w2)
           | (None, w2) \<Rightarrow>
               ((noObjectInfo\<lparr>oiBucket := bucket, oiName := RefName ref, oiModTime := TimeNow env w2,
                   oiSize := ActualFileSize ref, oiIsDir := (RefType ref = dirType)\<rparr>, None), w2)))"

text \<open>A deleted object is its name, empty for an entry that was not deleted.\<close>

definition DeleteObjects ::
  "'w zenv \<Rightarrow> string \<Rightarrow> string list \<Rightarrow> 'w \<Rightarrow> (string list \<times> go_error option list) \<times> 'w" where
  "DeleteObjects env bucket objects w =
     (let basePath = (if bucket = rootBucketName then rootPath else Join [rootPath, bucket]);
          ops = map (\<lambda>object. opRequest0 FileOperationDelete (Join [basePath, object])) objects
      in case DoMultiOperation env ops w of
           (Some err, w1) \<Rightarrow> ((map (\<lambda>_. []) objects, map (\<lambda>_. Some err) objects), w1)
         | (None, w1) \<Rightarrow> ((objects, map (\<lambda>_. None) objects), w1))"

section \<open>Metadata\<close>

definition GetBucketInfo :: "'w zenv \<Rightarrow> string \<Rightarrow> 'w \<Rightarrow> (go_error, BucketInfo) result \<times> 'w" where
  "GetBucketInfo env bucket w =
     (let remotePath = (if bucket = rootBucketName then rootPath else Join [rootPath, bucket]) in
      case getSingleRegularRef env remotePath w of
        (Inl err, w1) \<Rightarrow>
          (if isPathNoExistError err
           then if remotePath = rootPath then Inr \<lparr>biName = rootBucketName, biCreated = 0\<rparr>
                else Inl (BucketNotFound bucket)
           else Inl err, w1)
      | (Inr ref, w1) \<Rightarrow>
          (if RefType ref \<noteq> dirType then Inl (BucketNotFound bucket)
           else Inr \<lparr>biName = RefName ref, biCreated = CreatedAt ref\<rparr>, w1))"

definition GetObjectInfo :: "'w zenv \<Rightarrow> string \<Rightarrow> string \<Rightarrow> 'w \<Rightarrow> (go_error, ObjectInfo) result \<times> 'w" where
  "GetObjectInfo env bucket object w =
     (let remotePath = remotePathOf bucket object in
      case getSingleRegularRef env (Clean remotePath) w of
        (Inl err, w1) \<Rightarrow>
          (if isPathNoExistError err then Inl (ObjectNotFound bucket object) else Inl err, w1)
      | (Inr ref, w1) \<Rightarrow>
          if RefType ref = dirType \<and> object \<noteq> [] \<and> last object \<noteq> slash
          then (Inl (ObjectNotFound bucket object), w1)
          else let ref = dir_as_object ref in
               (Inr (noObjectInfo\<lparr>oiBucket := bucket, oiName := getRelativePathOfObj (RefPath ref) bucket,
                  oiModTime := UpdatedAt ref, oiSize := ActualFileSize ref,
                  oiIsDir := (RefType ref = dirType), oiAccTime := TimeNow env w1,
                  oiContentType := MimeType ref, oiETag := ActualFileHash ref,
                  oiUserDefined := user_defined env ref\<rparr>), w1))"

section \<open>Reading\<close>

text \<open>The first and last byte that \<open>GetObjectNInfo\<close> asks \<open>getFileReader\<close> for; 1 to 0 without a range.\<close>

definition range_bounds :: "HTTPRangeSpec option \<Rightarrow> int \<times> int" where
  "range_bounds rs =
     (case rs of
        None \<Rightarrow> (1, 0)
      | Some r \<Rightarrow>
          if IsSuffixLength r
          then let rangeStart = wrap64 (- Start r) in
               if wrap64 (End r - Start r) > 0
               then (rangeStart, wrap64 (rangeStart + wrap64 (End r - Start r)))
               else (rangeStart, wrap64 (rangeStart + wrap64 (Start r - End r)))
          else (Start r, End r))"

text \<open>Wrapping the reader for the response checks the request's preconditions on the object's
  information.\<close>

definition NewGetObjectReaderFromReader ::
  "(ObjectInfo \<Rightarrow> bool) option \<Rightarrow> reader \<Rightarrow> ObjectInfo \<Rightarrow> (go_error, reader \<times> ObjectInfo) result" where
  "NewGetObjectReaderFromReader checkPrecond r oi =
     (case checkPrecond of
        Some fails \<Rightarrow> if fails oi then Inl PreConditionFailed else Inr (r, oi)
      | None \<Rightarrow> Inr (r, oi))"

definition GetObjectNInfo ::
  "'w zenv \<Rightarrow> (ObjectInfo \<Rightarrow> bool) option \<Rightarrow> string \<Rightarrow> string \<Rightarrow> HTTPRangeSpec option \<Rightarrow> 'w \<Rightarrow>
     (go_error, reader \<times> ObjectInfo) result \<times> 'w" where
  "GetObjectNInfo env checkPrecond bucket object rs w =
     (let (rangeStart, rangeEnd) = range_bounds rs in
      case getFileReader env bucket object (remotePathOf bucket object) rangeStart rangeEnd w of
        (Inl err, w1) \<Rightarrow> (Inl err, w1)
      | (Inr (f, objectInfo, _), w1) \<Rightarrow> (NewGetObjectReaderFromReader checkPrecond f objectInfo, w1))"

section \<open>Listing\<close>

definition ListBuckets :: "'w zenv \<Rightarrow> 'w \<Rightarrow> ((go_error, BucketInfo list) result \<times> 'w) option" where
  "ListBuckets env w =
     (case getSingleRegularRef env rootPath w of
        (Inl err, w1) \<Rightarrow>
          Some (if isPathNoExistError err
                then Inr [\<lparr>biName = rootBucketName, biCreated = TimeNow env w1 - 30 * 3600 * 10 ^ 9\<rparr>]
                else Inl err, w1)
      | (Inr rootRef, w1) \<Rightarrow>
          (case listRootDir env ''d'' w1 of
             None \<Rightarrow> None
           | Some (Inl err, w2) \<Rightarrow> Some (Inl err, w2)
           | Some (Inr dirRefs, w2) \<Rightarrow>
               Some (Inr (\<lparr>biName = rootBucketName, biCreated = CreatedAt rootRef\<rparr> #
                          map (\<lambda>d. \<lparr>biName = RefName d, biCreated = CreatedAt d\<rparr>) dirRefs), w2)))"

record ListObjectsInfo =
  loIsTruncated :: bool
  loNextMarker :: string
  loObjects :: "ObjectInfo list"
  loPrefixes :: "string list"

definition noListObjects :: ListObjectsInfo where
  "noListObjects = \<lparr>loIsTruncated = False, loNextMarker = [], loObjects = [], loPrefixes = []\<rparr>"

definition listed_file :: "'w zenv \<Rightarrow> string \<Rightarrow> ORef \<Rightarrow> ObjectInfo" where
  "listed_file env bucket ref =
     noObjectInfo\<lparr>oiBucket := bucket, oiName := getRelativePathOfObj (RefPath ref) bucket,
       oiModTime := UpdatedAt ref, oiSize := ActualFileSize ref, oiContentType := MimeType ref,
       oiETag := ActualFileHash ref, oiStorageClass := ''STANDARD'', oiUserDefined := user_defined env ref\<rparr>"

definition ListObjects ::
  "'w zenv \<Rightarrow> string \<Rightarrow> string \<Rightarrow> string \<Rightarrow> string \<Rightarrow> int \<Rightarrow> 'w \<Rightarrow>
     ((go_error, ListObjectsInfo) result \<times> 'w) option" where
  "ListObjects env bucket prefix marker delimiter maxKeys w =
     (let remotePath = remotePathOf bucket prefix;
          objFileType = (if bucket = rootBucketName then fileType else [])
      in case getSingleRegularRef env remotePath w of
           (Inl err, w1) \<Rightarrow> Some (if isPathNoExistError err then Inr noListObjects else Inl err, w1)
         | (Inr ref, w1) \<Rightarrow>
             if RefType ref = fileType
             then Some (Inr (if HasSuffix prefix ''/'' then noListObjects
                        else noListObjects\<lparr>loObjects := [noObjectInfo\<lparr>oiBucket := bucket,
                          oiName := getRelativePathOfObj (RefPath ref) bucket, oiSize := ActualFileSize ref,
                          oiModTime := UpdatedAt ref, oiETag := ActualFileHash ref,
                          oiContentType := MimeType ref, oiAccTime := TimeNow env w1,
                          oiStorageClass := ''STANDARD''\<rparr>]\<rparr>), w1)
             else let isDelimited = (delimiter \<noteq> []);
                      objFileType = (if isDelimited then objFileType else fileType)
                  in case listRegularRefs env remotePath marker objFileType maxKeys isDelimited w1 of
                       None \<Rightarrow> None
                     | Some (Inl err, w2) \<Rightarrow>
                         Some (if remotePath = rootPath \<and> isPathNoExistError err then Inr noListObjects
                               else Inl err, w2)
                     | Some (Inr (refs, isTruncated, nextMarker, prefixes), w2) \<Rightarrow>
                         Some (Inr \<lparr>loIsTruncated = isTruncated, loNextMarker = nextMarker,
                           loObjects = map (listed_file env bucket) (filter (\<lambda>r. RefType r \<noteq> dirType) refs),
                           loPrefixes = prefixes\<rparr>, w2))"

record ListObjectsV2Info =
  lv2Objects :: "ObjectInfo list"
  lv2Prefixes :: "string list"
  lv2ContinuationToken :: string
  lv2NextContinuationToken :: string
  lv2IsTruncated :: bool

definition ListObjectsV2 ::
  "'w zenv \<Rightarrow> string \<Rightarrow> string \<Rightarrow> string \<Rightarrow> string \<Rightarrow> int \<Rightarrow> string \<Rightarrow> 'w \<Rightarrow>
     ((go_error, ListObjectsV2Info) result \<times> 'w) option" where
  "ListObjectsV2 env bucket prefix continuationToken delimiter maxKeys startAfter w =
     (let marker = (if continuationToken = [] then startAfter else continuationToken) in
      case ListObjects env bucket prefix marker delimiter maxKeys w of
        None \<Rightarrow> None
      | Some (Inl err, w1) \<Rightarrow> Some (Inl err, w1)
      | Some (Inr r, w1) \<Rightarrow>
          Some (Inr \<lparr>lv2Objects = loObjects r, lv2Prefixes = loPrefixes r,
            lv2ContinuationToken = continuationToken, lv2NextContinuationToken = loNextMarker r,
            lv2IsTruncated = loIsTruncated r\<rparr>, w1))"

section \<open>Writing\<close>

definition MakeBucketWithLocation :: "'w zenv \<Rightarrow> string \<Rightarrow> 'w \<Rightarrow> go_error option \<times> 'w" where
  "MakeBucketWithLocation env bucket w =
     (if bucket = rootBucketName then (None, w)
      else DoMultiOperation env [opRequest0 FileOperationCreateDir (Join [rootPath, bucket])] w)"

text \<open>The path locks as one request sees them. Both operations first wait for \<open>contentLock\<close>, while other requests
  go on: the argument \<open>entry\<close> is \<open>contentMap\<close> as it is when the mutex is obtained, and \<open>None\<close> when it never is.
  While \<open>lockPath\<close> holds the mutex nobody can release the semaphore, so a taken one is waited for until the
  context of the request ends. \<open>Acquire\<close> refuses a context that has ended before.\<close>

type_synonym path_content = "(string \<times> bool) list"

datatype ctx_fate = NeverEnds | EndsLater go_error | EndedBefore go_error

definition lockPath :: "path_content option \<Rightarrow> ctx_fate \<Rightarrow> string \<Rightarrow> (go_error option \<times> path_content) option" where
  "lockPath entry ctx path =
     (case entry of
        None \<Rightarrow> None
      | Some content \<Rightarrow>
          let content = add_semaphore path content in
          case ctx of
            EndedBefore err \<Rightarrow> Some (Some err, content)
          | EndsLater err \<Rightarrow>
              if map_of content path = Some False then Some (None, take_semaphore path content) else Some (Some err, content)
          | NeverEnds \<Rightarrow>
              if map_of content path = Some False then Some (None, take_semaphore path content) else None)"

definition unlockPath :: "path_content option \<Rightarrow> string \<Rightarrow> path_content option" where
  "unlockPath entry path =
     map_option (\<lambda>content. if map_of content path \<noteq> None then drop_semaphore path content else content) entry"

definition content_type_of :: "'w zenv \<Rightarrow> string \<Rightarrow> meta \<Rightarrow> string" where
  "content_type_of env object userDefined =
     (case map_of userDefined ''content-type'' of
        None \<Rightarrow> TypeByExtension env (Ext object)
      | Some contentType \<Rightarrow> if contentType = [] then TypeByExtension env (Ext object) else contentType)"

text \<open>What \<open>PutObject\<close> does between the lookup and the deferred unlock.\<close>

definition put_locked ::
  "'w zenv \<Rightarrow> batch_outcome option \<Rightarrow> string \<Rightarrow> string \<Rightarrow> bytes \<Rightarrow> int \<Rightarrow> meta \<Rightarrow> bool \<Rightarrow> 'w \<Rightarrow>
     ((go_error, ObjectInfo) result \<times> 'w) option" where
  "put_locked env out bucket object r sz userDefined isUpdate w =
     (let remotePath = remotePathOf bucket object in
      if object = [] then Some (Inl (Panic ''index out of range''), w)
      else if last object = slash
      then (case DoMultiOperation env [(opRequest0 FileOperationCreateDir remotePath)
                  \<lparr>opFileMeta := noFileMeta\<lparr>fmCustomMeta := jsonMarshal env userDefined\<rparr>\<rparr>] w of
              (Some err, w1) \<Rightarrow> Some (Inl err, w1)
            | (None, w1) \<Rightarrow>
                Some (Inr (noObjectInfo\<lparr>oiBucket := bucket, oiName := object, oiModTime := TimeNow env w1,
                   oiIsDir := True, oiContentType := s3DirectoryContentType, oiETag := s3ContentHash,
                   oiUserDefined := userDefined\<rparr>), w1))
      else (case putFile env out remotePath (content_type_of env object userDefined) r sz isUpdate userDefined w of
              None \<Rightarrow> None
            | Some (Some err, w1) \<Rightarrow> Some (Inl err, w1)
            | Some (None, w1) \<Rightarrow>
                Some (Inr (noObjectInfo\<lparr>oiBucket := bucket, oiName := object, oiSize := sz,
                   oiModTime := TimeNow env w1, oiUserDefined := userDefined\<rparr>), w1)))"

text \<open>\<open>enter\<close> and \<open>leave\<close> are \<open>contentMap\<close> when \<open>lockPath\<close> and \<open>unlockPath\<close> get the mutex. The result has \<open>contentMap\<close> as
  the last of the two leaves it. An existing object is unlocked before the upload, a new one when the handler
  returns or panics.\<close>

definition PutObject ::
  "'w zenv \<Rightarrow> path_content option \<Rightarrow> path_content option \<Rightarrow> ctx_fate \<Rightarrow> batch_outcome option \<Rightarrow> string \<Rightarrow> string
     \<Rightarrow> bytes \<Rightarrow> int \<Rightarrow> meta \<Rightarrow> 'w \<Rightarrow> ((go_error, ObjectInfo) result \<times> path_content \<times> 'w) option" where
  "PutObject env enter leave ctx out bucket object r sz userDefined w =
     (let remotePath = remotePathOf bucket object in
      case lockPath enter ctx remotePath of
        None \<Rightarrow> None
      | Some (Some err, content) \<Rightarrow> Some (Inl err, content, w)
      | Some (None, _) \<Rightarrow>
          (case getSingleRegularRef env remotePath w of
             (Inl err, w1) \<Rightarrow>
               if \<not> isPathNoExistError err
               then map_option (\<lambda>content. (Inl err, content, w1)) (unlockPath leave remotePath)
               else (case put_locked env out bucket object r sz userDefined False w1 of
                       None \<Rightarrow> None
                     | Some (res, w2) \<Rightarrow> map_option (\<lambda>content. (res, content, w2)) (unlockPath leave remotePath))
           | (Inr ref, w1) \<Rightarrow>
               (case unlockPath leave remotePath of
                  None \<Rightarrow> None
                | Some content \<Rightarrow>
                    map_option (\<lambda>(res, w2). (res, content, w2)) (put_locked env out bucket object r sz userDefined True w1))))"

definition copied_info :: "string \<Rightarrow> string \<Rightarrow> ORef \<Rightarrow> ObjectInfo" where
  "copied_info destBucket destObject ref =
     (let ref = dir_as_object ref in
      noObjectInfo\<lparr>oiBucket := destBucket, oiName := destObject, oiModTime := UpdatedAt ref,
        oiSize := ActualFileSize ref, oiIsDir := (RefType ref = dirType), oiContentType := MimeType ref,
        oiETag := ActualFileHash ref\<rparr>)"

definition CopyObject ::
  "'w zenv \<Rightarrow> string \<Rightarrow> string \<Rightarrow> string \<Rightarrow> string \<Rightarrow> 'w \<Rightarrow> (go_error, ObjectInfo) result \<times> 'w" where
  "CopyObject env srcBucket srcObject destBucket destObject w =
     (let srcRemotePath = remotePathOf srcBucket srcObject;
          dstRemotePath = remotePathOf destBucket destObject
      in if srcRemotePath = dstRemotePath
         then (case getSingleRegularRef env dstRemotePath w of
                 (Inl err, w1) \<Rightarrow> (Inl err, w1)
               | (Inr ref, w1) \<Rightarrow> (Inr (copied_info destBucket destObject ref), w1))
         else (case DoMultiOperation env
                      [(opRequest0 FileOperationCopy srcRemotePath)\<lparr>opDestPath := dstRemotePath\<rparr>] w of
                 (Some err, w1) \<Rightarrow> (Inl err, w1)
               | (None, w1) \<Rightarrow>
                   (case getSingleRegularRef env dstRemotePath w1 of
                      (Inl err, w2) \<Rightarrow> (Inl err, w2)
                    | (Inr ref, w2) \<Rightarrow> (Inr (copied_info destBucket destObject ref), w2))))"

section \<open>Names and paths\<close>

text \<open>The directory of a bucket, as names under the root.\<close>

definition bucket_dir :: "string \<Rightarrow> string list" where
  "bucket_dir bucket = (if bucket = rootBucketName then [] else [bucket])"

lemma bucket_dir_ok: "name_ok bucket \<Longrightarrow> list_all name_ok (bucket_dir bucket)"
  by (simp add: bucket_dir_def)

lemma split_name: "name_ok n \<Longrightarrow> split_on slash n = [n]"
  by (rule split_on_no_sep) (simp add: name_ok_def)

lemma remotePathOf_no_dotdot:
  assumes "name_ok bucket" and "''..'' \<notin> set (split_on slash object)"
  shows "remotePathOf bucket object = abs_path (bucket_dir bucket @ norm_elems (split_on slash object))"
proof (cases "bucket = rootBucketName")
  case True
  then show ?thesis by (simp add: remotePathOf_def rootPath_def Join_root bucket_dir_def)
next
  case False
  then have "remotePathOf bucket object = abs_path (norm_elems ([bucket] @ split_on slash object))"
    by (simp add: remotePathOf_def rootPath_def Join_root split_name [OF assms(1)])
  with False show ?thesis
    using norm_elems_append_names [of "[bucket]"] assms by (simp add: bucket_dir_def)
qed

lemma names_no_dotdot: "list_all name_ok ns \<Longrightarrow> ''..'' \<notin> set ns"
  by (auto simp: list_all_iff name_ok_def)

lemma remotePathOf_names:
  assumes "name_ok bucket" and "list_all name_ok ns" and "ns \<noteq> []"
  shows "remotePathOf bucket (join_with [slash] ns) = abs_path (bucket_dir bucket @ ns)"
  using remotePathOf_no_dotdot [OF assms(1), of "join_with [slash] ns"] assms names_no_dotdot [OF assms(2)]
  by (simp add: split_abs_path)

lemma abs_path_last: "list_all name_ok ns \<Longrightarrow> ns \<noteq> [] \<Longrightarrow> last (abs_path ns) \<noteq> slash"
proof -
  assume ns: "list_all name_ok ns" "ns \<noteq> []"
  have "last (join_with [slash] ns) \<noteq> slash \<and> join_with [slash] ns \<noteq> []"
    using ns
  proof (induction ns)
    case (Cons n ns)
    have "last n \<noteq> slash" "n \<noteq> []" using Cons.prems by (auto simp: name_ok_def dest: last_in_set)
    then show ?case using Cons by (cases "ns = []") (auto simp: join_with_Cons)
  qed simp
  then show ?thesis by (simp add: abs_path_def)
qed

lemma getCommonPrefix_names:
  assumes "list_all name_ok (n # ns)"
  shows "getCommonPrefix (abs_path (n # ns)) = join_with [slash] ns"
proof -
  have "\<not> HasSuffix (abs_path (n # ns)) ''/''" using abs_path_last [OF assms] by (simp add: HasSuffix_single)
  then have "TrimSuffix (abs_path (n # ns)) ''/'' = abs_path (n # ns)" by (rule TrimSuffix_no_suffix)
  moreover have "split_on slash (abs_path (n # ns)) = [] # n # ns"
    using split_abs_path [OF assms] by (simp add: abs_path_def)
  ultimately show ?thesis by (simp add: getCommonPrefix_def)
qed

lemma getRelativePathOfObj_names:
  assumes "name_ok bucket" and "list_all name_ok ns" and "ns \<noteq> []"
  shows "getRelativePathOfObj (abs_path (bucket_dir bucket @ ns)) bucket = join_with [slash] ns"
proof (cases "bucket = rootBucketName")
  case True
  then show ?thesis
    using TrimPrefix_append [of "''/''"]
    by (simp add: getRelativePathOfObj_def bucket_dir_def rootPath_def abs_path_def)
next
  case False
  moreover have "bucket \<noteq> ''/''" using assms(1) by (auto simp: name_ok_def)
  ultimately show ?thesis
    using getCommonPrefix_names [of bucket ns] assms
    by (simp add: getRelativePathOfObj_def bucket_dir_def rootPath_def)
qed

text \<open>A listed file is found again under the name it is listed with.\<close>

lemma listed_file_found:
  assumes "name_ok bucket" and "list_all name_ok ns" and "ns \<noteq> []"
    and "RefPath ref = abs_path (bucket_dir bucket @ ns)"
  shows "remotePathOf bucket (oiName (listed_file env bucket ref)) = RefPath ref"
  using assms by (simp add: listed_file_def getRelativePathOfObj_names remotePathOf_names)

lemma remotePathOf_clean: "Clean (remotePathOf bucket object) = remotePathOf bucket object"
proof -
  have "list_all name_ok (norm_elems (concat (map (split_on slash) es)))" for es
    by (rule norm_elems_name_ok) (auto dest: split_on_parts)
  then show ?thesis by (simp only: remotePathOf_def rootPath_def Join_root Clean_abs_path simp_thms split: if_split)
qed

lemma files_of_objects:
  "filter (\<lambda>r. RefType r \<noteq> dirType) (map (as_object cur) (files_of rs)) = map (as_object cur) (files_of rs)"
  by (induction rs) (auto simp: as_object_def)

section \<open>Reads\<close>

lemma GetObjectNInfo_reader:
  assumes "range_bounds rs = (a, b)"
    and "getFileReader env bucket object (remotePathOf bucket object) a b w = (Inr (f, info, p), w')"
  shows "GetObjectNInfo env None bucket object rs w = (Inr (f, info), w')"
  using assms by (simp add: GetObjectNInfo_def NewGetObjectReaderFromReader_def)

lemma block_range_whole: "0 < ecs \<Longrightarrow> block_range ecs sz 1 0 = (1, 0, sz)"
  by (simp add: block_range_def)

lemma range_bounds_suffix:
  "0 < n \<Longrightarrow> n < 2 ^ 62 \<Longrightarrow>
   range_bounds (Some \<lparr>IsSuffixLength = True, Start = - n, End = -1\<rparr>) = (n, 2 * n - 1)"
  by (cases "n = 1") (auto simp: range_bounds_def Let_def)

section \<open>An allocation with one bucket\<close>

definition dir_env :: "unit zenv" where
  "dir_env = (static_env sample_refs)\<lparr>GetRefs := (\<lambda>p off _ _ _ _ level limit w.
     (Inr (if off = [] then \<lparr>TreeRefs = [sample_ref ''d'' ''/b'' 0], TreeOffsetPath = ''/b''\<rparr>
           else page_answer sample_refs off limit), w))\<rparr>"

lemma dir_env_page:
  "off \<noteq> [] \<Longrightarrow> getRegularRefs dir_env cur off ft limit w = (Inr (page_answer sample_refs off limit), w)"
  by (simp add: getRegularRefs_def dir_env_def Let_def)

lemma dir_env_serves: "serves dir_env ''/b'' [] ''/b'' sample_refs"
  unfolding serves_def
proof (intro conjI ballI allI impI)
  show "refs_sorted sample_refs" by (simp add: sample_refs_def sample_ref_def)
  fix off and limit :: int and w
  assume "off \<in> insert ''/b'' (RefPath ` set sample_refs)"
  moreover have "\<forall>off \<in> insert ''/b'' (RefPath ` set sample_refs). off \<noteq> []"
    by (simp add: sample_refs_def sample_ref_def)
  ultimately have "off \<noteq> []" by (rule bspec [rotated])
  then show "\<exists>w'. getRegularRefs dir_env ''/b'' off [] limit w = (Inr (page_answer sample_refs off limit), w')"
    by (intro exI) (rule dir_env_page)
qed

section \<open>Properties\<close>

text \<open>Every path is made of names, and what is presented for it are the names below its bucket.\<close>

lemma remotePathOf_abs: "\<exists>es. list_all name_ok es \<and> remotePathOf bucket object = abs_path es"
proof -
  let ?es = "\<lambda>xs. norm_elems (concat (map (split_on slash) xs))"
  have ok: "list_all name_ok (?es xs)" for xs by (rule norm_elems_name_ok) (auto dest: split_on_parts)
  have "remotePathOf bucket object = abs_path (?es (if bucket = rootBucketName then [object] else [bucket, object]))"
    unfolding remotePathOf_def rootPath_def Join_root by simp
  with ok show ?thesis by blast
qed

lemma getRelativePathOfObj_abs:
  assumes "name_ok bucket" and "list_all name_ok es"
  shows "getRelativePathOfObj (abs_path es) bucket = join_with [slash] (if bucket = rootBucketName then es else tl es)"
proof (cases "bucket = rootBucketName")
  case True
  then show ?thesis
    using TrimPrefix_append [of "''/''"] by (simp add: getRelativePathOfObj_def rootPath_def abs_path_def)
next
  case False
  moreover have "bucket \<noteq> ''/''" using assms(1) by (auto simp: name_ok_def)
  moreover have "getCommonPrefix (abs_path es) = join_with [slash] (tl es)"
  proof (cases es)
    case Nil
    have "getCommonPrefix ''/'' = []" by code_simp
    then show ?thesis using Nil by (simp add: abs_path_def)
  next
    case (Cons n ns)
    then show ?thesis using getCommonPrefix_names [of n ns] assms(2) by simp
  qed
  ultimately show ?thesis by (simp add: getRelativePathOfObj_def rootPath_def)
qed

text \<open>
  C15. Which names survive the way to a path and back: in every bucket, the root bucket included, the name
  under which an object's path is presented is the name it was stored under exactly when the elements
  of the name are proper names, without empty, \<open>.\<close> and \<open>..\<close> elements. Other names that the gateway takes,
  such as \<open>a//b\<close> and \<open>dir/\<close>, are presented under a different name.
\<close>

theorem object_name_roundtrip:
  assumes "name_ok bucket" and "object \<noteq> []"
  shows "getRelativePathOfObj (remotePathOf bucket object) bucket = object \<longleftrightarrow> list_all name_ok (split_on slash object)"
proof
  have join: "join_with [slash] (split_on slash object) = object" by (rule join_split)
  assume "list_all name_ok (split_on slash object)"
  with remotePathOf_names [OF assms(1)] getRelativePathOfObj_names [OF assms(1)] join
  show "getRelativePathOfObj (remotePathOf bucket object) bucket = object" by (metis split_on_nonempty)
next
  assume eq: "getRelativePathOfObj (remotePathOf bucket object) bucket = object"
  obtain es where es: "list_all name_ok es" "remotePathOf bucket object = abs_path es" using remotePathOf_abs by blast
  define ns where "ns = (if bucket = rootBucketName then es else tl es)"
  have ns: "list_all name_ok ns" using es(1) by (cases es) (auto simp: ns_def)
  have "object = join_with [slash] ns" using eq getRelativePathOfObj_abs [OF assms(1) es(1)] es(2) by (simp add: ns_def)
  moreover from this have "ns \<noteq> []" using assms(2) by auto
  ultimately show "list_all name_ok (split_on slash object)" using ns by (simp add: split_abs_path)
qed

theorem object_name_roundtrip_witness:
  "getRelativePathOfObj (remotePathOf ''photos'' ''2024/cat.png'') ''photos'' = ''2024/cat.png'' \<and>
   getRelativePathOfObj (remotePathOf ''photos'' ''a//b'') ''photos'' \<noteq> ''a//b''"
proof -
  have "name_ok ''photos''" "list_all name_ok (split_on slash ''2024/cat.png'')"
    "\<not> list_all name_ok (split_on slash ''a//b'')" by code_simp+
  then show ?thesis
    using object_name_roundtrip [of "''photos''" "''2024/cat.png''"] object_name_roundtrip [of "''photos''" "''a//b''"] by simp
qed

text \<open>
  C24. An object name without a \<open>..\<close> element never leaves its bucket: the path is the bucket's
  directory or lies below it, and it is already clean. Two such names in two different buckets, none
  of them the root bucket, never share a path.
\<close>

theorem object_path_in_bucket:
  assumes "name_ok bucket" and "bucket \<noteq> rootBucketName" and "''..'' \<notin> set (split_on slash object)"
  shows "(remotePathOf bucket object = ''/'' @ bucket \<or>
          HasPrefix (remotePathOf bucket object) (''/'' @ bucket @ ''/'')) \<and>
    Clean (remotePathOf bucket object) = remotePathOf bucket object \<and>
    (\<forall>bucket' object'. name_ok bucket' \<and> bucket' \<noteq> rootBucketName \<and> bucket' \<noteq> bucket \<and>
       ''..'' \<notin> set (split_on slash object') \<longrightarrow> remotePathOf bucket' object' \<noteq> remotePathOf bucket object)"
proof -
  let ?ns = "norm_elems (split_on slash object)"
  have path: "remotePathOf bucket object = abs_path (bucket # ?ns)"
    using remotePathOf_no_dotdot [OF assms(1,3)] assms(2) by (simp add: bucket_dir_def)
  have ok: "list_all name_ok (bucket # ?ns)" using assms(1) norm_split_name_ok by simp
  have "remotePathOf bucket object = ''/'' @ bucket \<or>
      HasPrefix (remotePathOf bucket object) (''/'' @ bucket @ ''/'')"
    by (cases "?ns = []") (auto simp: path abs_path_def join_with_Cons HasPrefix_iff)
  moreover have "remotePathOf bucket' object' \<noteq> remotePathOf bucket object"
    if "name_ok bucket'" "bucket' \<noteq> rootBucketName" "bucket' \<noteq> bucket"
      "''..'' \<notin> set (split_on slash object')" for bucket' object'
  proof
    assume eq: "remotePathOf bucket' object' = remotePathOf bucket object"
    have "remotePathOf bucket' object' = abs_path (bucket' # norm_elems (split_on slash object'))"
      using remotePathOf_no_dotdot [OF that(1,4)] that(2) by (simp add: bucket_dir_def)
    moreover have "list_all name_ok (bucket' # norm_elems (split_on slash object'))"
      using that(1) norm_split_name_ok by simp
    ultimately show False using abs_path_inj [OF _ ok] eq path that(3) by fastforce
  qed
  ultimately show ?thesis using Clean_abs_path [OF ok] path by simp
qed

theorem object_path_in_bucket_witness:
  "remotePathOf ''photos'' ''a//./b'' = ''/'' @ ''photos'' \<or>
   HasPrefix (remotePathOf ''photos'' ''a//./b'') (''/'' @ ''photos'' @ ''/'')"
proof -
  have "name_ok ''photos''" "''photos'' \<noteq> rootBucketName" "''..'' \<notin> set (split_on slash ''a//./b'')"
    by code_simp+
  from object_path_in_bucket [OF this] show ?thesis by (rule conjunct1)
qed

text \<open>
  C19. A GET without a range delivers the whole object, and a GET of a range that lies inside the
  object delivers the bytes that the S3 layer announces for it: those of \<open>GetOffsetLength\<close>, for every
  bounded range that starts at byte 0 or does not end on the first byte of a block.
\<close>

theorem GetObjectNInfo_range:
  assumes obj: "object_at env bucket object (remotePathOf bucket object) w info ecs content"
    and rs: "case rs of None \<Rightarrow> True
             | Some r \<Rightarrow> \<not> IsSuffixLength r \<and> 0 \<le> Start r \<and> Start r \<le> End r \<and>
                 End r < int (length content) \<and> (Start r = 0 \<or> \<not> ecs dvd End r)"
    and resolved: "GetOffsetLength rs (int (length content)) = Inr (off, n)"
  shows "\<exists>w'. GetObjectNInfo env None bucket object rs w =
    (Inr (\<lparr>rd_data = take (nat n) (drop (nat off) content), rd_err = None\<rparr>, info), w')"
proof (cases rs)
  case None
  have "0 < ecs" using obj by (auto simp: object_at_def)
  from getFileReader_piped [OF obj block_range_whole [OF this]] obtain p w' where
    get: "getFileReader env bucket object (remotePathOf bucket object) 1 0 w =
      (Inr (\<lparr>rd_data = content, rd_err = None\<rparr>, info, p), w')" by blast
  have bounds: "range_bounds rs = (1, 0)" using None by (simp add: range_bounds_def)
  have "off = 0" "n = int (length content)" using None resolved by (simp_all add: GetOffsetLength_def)
  then show ?thesis using GetObjectNInfo_reader [OF bounds get] by simp
next
  case (Some r)
  then have r: "0 \<le> Start r" "Start r \<le> End r" "End r < int (length content)"
    "Start r = 0 \<or> \<not> ecs dvd End r" "\<not> IsSuffixLength r" using rs by auto
  have bounds: "range_bounds rs = (Start r, End r)" using Some r(5) by (simp add: range_bounds_def)
  have res: "off = Start r" "n = End r - Start r + 1"
    using resolved Some r by (auto simp: GetOffsetLength_def GetLength_def Let_def)
  show ?thesis
    using getFileReader_range_data [OF obj r(1-4)] GetObjectNInfo_reader [OF bounds] res by metis
qed

theorem GetObjectNInfo_range_witness:
  "\<exists>w'. GetObjectNInfo range_env None ''b'' ''a''
      (Some \<lparr>IsSuffixLength = False, Start = 10, End = 69999\<rparr>) () =
    (Inr (\<lparr>rd_data = take (nat 69990) (drop (nat 10) sample_content), rd_err = None\<rparr>, sample_info), w')"
proof (rule GetObjectNInfo_range)
  have "remotePathOf ''b'' ''a'' = ''/b/a''" by code_simp
  then show "object_at range_env ''b'' ''a'' (remotePathOf ''b'' ''a'') () sample_info 65536 sample_content"
    using sample_object by simp
qed (simp_all add: GetOffsetLength_def GetLength_def Let_def)

text \<open>
  A GET of the last \<open>n\<close> bytes is answered with \<open>n\<close> other bytes: the range is resolved to start at
  offset \<open>length - n\<close>, but the gateway reads from offset \<open>n\<close>.
\<close>

theorem GetObjectNInfo_suffix:
  assumes obj: "object_at env bucket object (remotePathOf bucket object) w info ecs content"
    and n: "0 < n" "2 * n \<le> int (length content)" "\<not> ecs dvd 2 * n - 1"
    and rs: "rs = Some \<lparr>IsSuffixLength = True, Start = - n, End = -1\<rparr>"
  shows "GetOffsetLength rs (int (length content)) = Inr (int (length content) - n, n) \<and>
    (\<exists>w'. GetObjectNInfo env None bucket object rs w =
       (Inr (\<lparr>rd_data = take (nat n) (drop (nat n) content), rd_err = None\<rparr>, info), w'))"
proof -
  have big: "int (length content) < 2 ^ 63" using obj by (auto simp: object_at_def)
  have bounds: "range_bounds rs = (n, 2 * n - 1)"
    using n(1,2) big unfolding rs by (intro range_bounds_suffix) auto
  have "\<exists>p w'. getFileReader env bucket object (remotePathOf bucket object) n (2 * n - 1) w =
      (Inr (\<lparr>rd_data = take (nat (2 * n - 1 - n + 1)) (drop (nat n) content), rd_err = None\<rparr>, info, p), w')"
    using n by (intro getFileReader_range_data [OF obj]) auto
  moreover have "GetOffsetLength rs (int (length content)) = Inr (int (length content) - n, n)"
    using n(1,2) by (simp add: rs GetOffsetLength_def GetLength_def Let_def)
  ultimately show ?thesis using GetObjectNInfo_reader [OF bounds] by fastforce
qed

theorem GetObjectNInfo_suffix_witness:
  "\<exists>w'. GetObjectNInfo range_env None ''b'' ''a'' (Some \<lparr>IsSuffixLength = True, Start = - 30, End = -1\<rparr>) () =
    (Inr (\<lparr>rd_data = take (nat 30) (drop (nat 30) sample_content), rd_err = None\<rparr>, sample_info), w')"
proof -
  have "remotePathOf ''b'' ''a'' = ''/b/a''" by code_simp
  then have "object_at range_env ''b'' ''a'' (remotePathOf ''b'' ''a'') () sample_info 65536 sample_content"
    using sample_object by simp
  from GetObjectNInfo_suffix [OF this _ _ _ refl, of 30] show ?thesis by simp
qed

text \<open>
  A bucket is deleted only when it is an empty directory or deletion is forced: in every other
  case, and for the root bucket always, \<open>DeleteBucket\<close> fails and has done nothing but the lookup.
\<close>

theorem DeleteBucket_guarded:
  assumes look: "getSingleRegularRef env (Join [rootPath, bucket]) w = (res, w1)"
    and guard: "bucket = rootBucketName \<or>
      (case res of Inl _ \<Rightarrow> True | Inr ref \<Rightarrow> RefType ref \<noteq> dirType \<or> \<not> force \<and> RefSize ref \<noteq> 0)"
  shows "fst (DeleteBucket env bucket force w) \<noteq> None \<and> snd (DeleteBucket env bucket force w) \<in> {w, w1}"
  using assms by (auto simp: DeleteBucket_def split: sum.splits)

theorem DeleteBucket_guarded_witness:
  "fst (DeleteBucket (static_env [sample_ref ''d'' ''/b'' 12]) ''b'' False ()) \<noteq> None"
proof -
  have "getSingleRegularRef (static_env [sample_ref ''d'' ''/b'' 12]) (Join [rootPath, ''b'']) () =
      (Inr (sample_ref ''d'' ''/b'' 12), ())" by code_simp
  from DeleteBucket_guarded [OF this, of False] show ?thesis by (simp add: sample_ref_def)
qed

text \<open>The operations are the critical sections of the step relation for any number of requests.\<close>

lemma lockPath_steps:
  assumes "lock_step s (Enter t) s1" "lock_step s1 (Acquire t) s2" "pl_pc s t = Locking p"
  shows "lockPath (Some (pl_content s)) NeverEnds p = Some (None, pl_content s2)"
proof -
  have s1: "s1 = s\<lparr>pl_mutex := Some t, pl_content := add_semaphore p (pl_content s), pl_pc := (pl_pc s)(t := Acquiring p)\<rparr>"
    using assms(1,3) by cases auto
  from assms(2) have "map_of (pl_content s1) p = Some False \<and> pl_content s2 = take_semaphore p (pl_content s1)"
    by cases (auto simp: s1)
  then show ?thesis by (simp add: lockPath_def s1)
qed

lemma unlockPath_step:
  assumes "lock_step s (Release t) s1" "pl_pc s t = Unlocking p" "locks_inv s"
  shows "unlockPath (Some (pl_content s)) p = Some (pl_content s1)"
proof -
  have "map_of (pl_content s) p = Some True" using locks_invD(2) [OF assms(3), of t p] assms(2) by simp
  moreover have "pl_content s1 = drop_semaphore p (pl_content s)" using assms(1,2) by cases auto
  ultimately show ?thesis by (auto simp: unlockPath_def)
qed

lemma map_of_unlockPath:
  "unlockPath leave p = Some content \<Longrightarrow> \<exists>c. leave = Some c \<and> map_of content = (map_of c)(p := None)"
  by (auto simp: unlockPath_def map_of_drop_semaphore fun_eq_iff)

lemma lockPath_cases:
  "lockPath enter ctx p =
     (case enter of None \<Rightarrow> None
      | Some c \<Rightarrow>
          if (\<exists>err. ctx = EndedBefore err) \<or> (\<exists>err. ctx = EndsLater err) \<and> map_of c p = Some True
          then Some (Some (case ctx of EndedBefore err \<Rightarrow> err | EndsLater err \<Rightarrow> err), add_semaphore p c)
          else if map_of c p = Some True then None else Some (None, take_semaphore p (add_semaphore p c)))"
  by (cases ctx; cases enter; cases "map_of (the enter) p") (auto simp: lockPath_def map_of_add_semaphore Let_def)

text \<open>
  C34. A PUT gives its path back on every way out, errors and panics included. If it returns, either its
  context had ended before it got the path, and it changed nothing but for a free semaphore of the path;
  or it got the path, and the path has no semaphore when it is done, while all others are as other
  requests left them. It fails to return only if it never gets \<open>contentLock\<close> on one of its two visits, or
  another request has the path and the context never ends, or the upload is never answered.
\<close>

theorem PutObject_releases:
  "case PutObject env enter leave ctx out bucket object r sz userDefined w of
     None \<Rightarrow> enter = None \<or> leave = None \<or> out = None
       \<or> ctx = NeverEnds \<and> (\<exists>c. enter = Some c \<and> map_of c (remotePathOf bucket object) = Some True)
   | Some (res, content, w') \<Rightarrow>
       (\<exists>c err. enter = Some c \<and> ctx \<noteq> NeverEnds \<and> res = Inl err \<and> w' = w \<and> content = add_semaphore (remotePathOf bucket object) c)
       \<or> (\<exists>c. leave = Some c \<and> map_of content = (map_of c)(remotePathOf bucket object := None))"
proof -
  let ?p = "remotePathOf bucket object"
  have up: "put_locked env out bucket object r sz userDefined u w1 \<noteq> None" if "out \<noteq> None" for u w1
    using that by (auto simp: put_locked_def putFile_def Let_def split: prod.splits option.splits if_splits)
  have un: "unlockPath leave ?p \<noteq> None" if "leave \<noteq> None" using that by (auto simp: unlockPath_def)
  note rel = map_of_unlockPath [of leave ?p]
  show ?thesis
  proof (cases "lockPath enter ctx ?p")
    case None
    then show ?thesis by (cases ctx) (auto simp: PutObject_def Let_def lockPath_cases split: option.splits if_splits)
  next
    case (Some x)
    obtain e content where x: "x = (e, content)" by (cases x)
    show ?thesis
    proof (cases e)
      case None
      obtain ref w1 where ref: "getSingleRegularRef env ?p w = (ref, w1)" by (cases "getSingleRegularRef env ?p w")
      show ?thesis
      proof (cases "out = None \<or> leave = None")
        case True
        then show ?thesis using rel by (auto simp: PutObject_def Let_def Some x None ref split: sum.splits option.splits)
      next
        case False
        obtain r0 w2 r1 w3 c where "put_locked env out bucket object r sz userDefined False w1 = Some (r0, w2)"
            "put_locked env out bucket object r sz userDefined True w1 = Some (r1, w3)" "unlockPath leave ?p = Some c"
          using up [of False w1] up [of True w1] un False by auto
        then show ?thesis using rel [of c]
          by (auto simp: PutObject_def Let_def Some x None ref split: sum.splits)
      qed
    next
      case (Some err)
      then show ?thesis using \<open>lockPath enter ctx ?p = Some x\<close> x
        by (auto simp: PutObject_def Let_def lockPath_cases split: option.splits if_splits)
    qed
  qed
qed

text \<open>
  C10. Listing a directory with a delimiter, or files only, returns in order the first \<open>maxKeys\<close> files
  after the marker, each under the name by which the other handlers find it again, with its size,
  and the directories among them as common prefixes; it is truncated when \<open>maxKeys\<close> files were found.
\<close>

theorem ListObjects_listing:
  assumes ok: "name_ok bucket"
    and cur: "cur = remotePathOf bucket prefix" "getSingleRegularRef env cur w = (Inr dref, w1)"
      "RefType dref = dirType"
    and ft: "ft = (if delimiter \<noteq> [] \<and> bucket \<noteq> rootBucketName then [] else fileType)"
    and srv: "serves env cur ft start all" "flat (delimiter \<noteq> []) all" "0 < maxKeys"
    and start: "start = (if marker = [] then cur else Join [cur, marker])"
    and paths: "\<forall>r \<in> set all. \<exists>ns. ns \<noteq> [] \<and> list_all name_ok ns \<and>
      RefPath r = abs_path (bucket_dir bucket @ ns)"
    and front: "front = take_files (nat maxKeys) (page_after all start)"
  shows "\<exists>lo w'. ListObjects env bucket prefix marker delimiter maxKeys w = Some (Inr lo, w') \<and>
    map (\<lambda>obj. (remotePathOf bucket (oiName obj), oiSize obj)) (loObjects lo) =
      map (\<lambda>r. (RefPath r, ActualFileSize r)) (files_of front) \<and>
    loPrefixes lo = map (as_prefix cur) (dirs_of front) \<and>
    loIsTruncated lo = (nat maxKeys \<le> length (files_of (page_after all start)))"
proof -
  have neq: "dirType \<noteq> fileType" by code_simp
  have clean: "cur = Clean cur" using cur(1) remotePathOf_clean by simp
  obtain w2 where list: "listRegularRefs env cur marker ft maxKeys (delimiter \<noteq> []) w1 =
      Some (Inr (map (as_object cur) (files_of front),
        nat maxKeys \<le> length (files_of (page_after all start)),
        if nat maxKeys \<le> length (files_of (page_after all start))
        then TrimPrefix (RefPath (last front)) (cur @ ''/'') else [],
        map (as_prefix cur) (dirs_of front)), w2)"
    using listRegularRefs_page [OF srv clean start, of w1] front by (auto simp: Let_def)
  have sub: "set front \<subseteq> set all"
    using take_files_subset [of "nat maxKeys" "page_after all start"] unfolding front page_after_def by auto
  have name: "remotePathOf bucket (oiName (listed_file env bucket (as_object cur r))) = RefPath r"
      "oiSize (listed_file env bucket (as_object cur r)) = ActualFileSize r" if "r \<in> set front" for r
  proof -
    have "r \<in> set all" using sub that by (rule subsetD)
    from bspec [OF paths this] obtain ns where ns: "ns \<noteq> []" "list_all name_ok ns"
      "RefPath r = abs_path (bucket_dir bucket @ ns)" by (elim exE conjE)
    have same: "RefPath (as_object cur r) = RefPath r" by (simp add: as_object_def)
    show "remotePathOf bucket (oiName (listed_file env bucket (as_object cur r))) = RefPath r"
      using listed_file_found [OF ok ns(2,1), of "as_object cur r" env] ns(3) by (simp only: same)
    show "oiSize (listed_file env bucket (as_object cur r)) = ActualFileSize r"
      by (simp add: listed_file_def as_object_def)
  qed
  have ft': "(if delimiter \<noteq> [] then if bucket = rootBucketName then fileType else [] else fileType) = ft"
    using ft by simp
  have "ListObjects env bucket prefix marker delimiter maxKeys w =
      Some (Inr \<lparr>loIsTruncated = (nat maxKeys \<le> length (files_of (page_after all start))),
        loNextMarker = (if nat maxKeys \<le> length (files_of (page_after all start))
          then TrimPrefix (RefPath (last front)) (cur @ ''/'') else []),
        loObjects = map (listed_file env bucket) (map (as_object cur) (files_of front)),
        loPrefixes = map (as_prefix cur) (dirs_of front)\<rparr>, w2)"
    unfolding ListObjects_def Let_def cur(1) [symmetric] cur(2) ft'
    using list neq cur(3) by (simp add: files_of_objects)
  moreover have "map (\<lambda>obj. (remotePathOf bucket (oiName obj), oiSize obj))
      (map (listed_file env bucket) (map (as_object cur) (files_of front))) =
    map (\<lambda>r. (RefPath r, ActualFileSize r)) (files_of front)"
    using name by simp
  ultimately show ?thesis by (intro exI conjI) (assumption, simp_all only: ListObjectsInfo.simps)
qed

theorem ListObjects_listing_witness:
  "\<exists>lo w'. ListObjects dir_env ''b'' [] [] ''/'' 2 () = Some (Inr lo, w') \<and>
     map (\<lambda>obj. (remotePathOf ''b'' (oiName obj), oiSize obj)) (loObjects lo) = [(''/b/a'', 3), (''/b/d'', 5)]"
proof -
  have ok: "name_ok ''b''" and cur: "''/b'' = remotePathOf ''b'' []"
    and ft: "[] = (if ''/'' \<noteq> [] \<and> ''b'' \<noteq> rootBucketName then [] else fileType)" by code_simp+
  have look: "getSingleRegularRef dir_env ''/b'' () = (Inr (sample_ref ''d'' ''/b'' 0), ())" by code_simp
  have dir: "RefType (sample_ref ''d'' ''/b'' 0) = dirType" by code_simp
  have srv: "serves dir_env ''/b'' [] ''/b'' sample_refs"
    by (rule dir_env_serves)
  have fl: "flat (''/'' \<noteq> []) sample_refs" by (simp add: flat_def)
  have two: "0 < (2::int)" by simp
  have "\<forall>(r, n) \<in> set (zip sample_refs [''a'', ''c'', ''d'']).
      RefPath r = abs_path (bucket_dir ''b'' @ [n]) \<and> list_all name_ok [n]" by code_simp
  moreover have "\<exists>n. (r, n) \<in> set (zip sample_refs [''a'', ''c'', ''d''])" if "r \<in> set sample_refs" for r
    using that by (auto simp: sample_refs_def)
  ultimately have paths: "\<forall>r \<in> set sample_refs. \<exists>ns. ns \<noteq> [] \<and> list_all name_ok ns \<and>
      RefPath r = abs_path (bucket_dir ''b'' @ ns)" by blast
  have start: "''/b'' = (if [] = ([]::string) then ''/b'' else Join [''/b'', []])" by simp
  have front: "map (\<lambda>r. (RefPath r, ActualFileSize r)) (files_of (take_files (nat 2) (page_after sample_refs ''/b''))) =
      [(''/b/a'', 3), (''/b/d'', 5)]" by code_simp
  show ?thesis
    using ListObjects_listing [OF ok cur look dir ft srv fl two start paths refl]
    unfolding front by (elim exE conjE) (intro exI conjI; assumption)
qed

end
