(* ===== verification/Seq_Priority_Queue.thy ===== *)
theory Seq_Priority_Queue
  imports Go_Heap
begin

text \<open>
  \<open>cmd/gateway/zcn/seqpriorityqueue\<close>: the queue through which the parts of a multipart upload reach
  the uploader in the order 1, 2, 3, ... whatever the order in which they arrive. Every method runs
  under the queue's mutex, so a method is one atomic step; \<open>Popup\<close> waits on the condition variable
  while its loop condition holds, which is the value \<open>None\<close> here. A wait can only end after another
  method has changed the state, so a run is a sequence of the enabled method calls.
\<close>

section \<open>The heap of part numbers\<close>

type_synonym queue = "int list"

definition queue_Len :: "queue \<Rightarrow> nat" where
  "queue_Len pq = length pq"

definition queue_Less :: "queue \<Rightarrow> nat \<Rightarrow> nat \<Rightarrow> bool" where
  "queue_Less pq i j \<longleftrightarrow> pq ! i < pq ! j"

definition queue_Swap :: "queue \<Rightarrow> nat \<Rightarrow> nat \<Rightarrow> queue" where
  "queue_Swap pq i j = pq[i := pq ! j, j := pq ! i]"

definition queue_Push :: "queue \<Rightarrow> int \<Rightarrow> queue" where
  "queue_Push pq x = pq @ [x]"

text \<open>\<open>old[n-1]\<close> panics on the empty slice.\<close>

definition queue_Pop :: "queue \<Rightarrow> (int \<times> queue) option" where
  "queue_Pop pq = (let n = length pq in if n = 0 then None else Some (pq ! (n - 1), take (n - 1) pq))"

definition queue_iface :: "(queue, int) heap_iface" where
  "queue_iface = \<lparr>hLen = queue_Len, hLess = queue_Less, hSwap = queue_Swap,
     hPush = queue_Push, hPop = queue_Pop\<rparr>"

section \<open>The sequential queue\<close>

record SeqPriorityQueue =
  pq_queue :: queue
  pq_start :: bool
  pq_next :: int
  pq_done :: bool

definition NewSeqPriorityQueue :: SeqPriorityQueue where
  "NewSeqPriorityQueue =
     \<lparr>pq_queue = heap_init queue_iface [], pq_start = False, pq_next = 1, pq_done = False\<rparr>"

definition pq_Push :: "SeqPriorityQueue \<Rightarrow> int \<Rightarrow> SeqPriorityQueue" where
  "pq_Push pq v =
     (let pq' = pq\<lparr>pq_queue := heap_push queue_iface (pq_queue pq) v\<rparr> in
      if v = 1 then pq'\<lparr>pq_start := True\<rparr> else pq')"

definition pq_Done :: "SeqPriorityQueue \<Rightarrow> SeqPriorityQueue" where
  "pq_Done pq = pq\<lparr>pq_done := True\<rparr>"

text \<open>The condition of the wait loop of \<open>Popup\<close>.\<close>

definition pq_waits :: "SeqPriorityQueue \<Rightarrow> bool" where
  "pq_waits pq \<longleftrightarrow>
     queue_Len (pq_queue pq) = 0 \<and> \<not> pq_done pq \<or> \<not> pq_start pq \<or>
     (queue_Len (pq_queue pq) > 0 \<and> pq_queue pq ! 0 \<noteq> pq_next pq)"

definition pq_Popup :: "SeqPriorityQueue \<Rightarrow> (int \<times> SeqPriorityQueue) option" where
  "pq_Popup pq =
     (if pq_waits pq then None
      else if queue_Len (pq_queue pq) = 0 \<and> pq_done pq then Some (-1, pq)
      else case heap_pop queue_iface (pq_queue pq) of
             None \<Rightarrow> None
           | Some (item, q) \<Rightarrow> Some (item, pq\<lparr>pq_queue := q, pq_next := pq_next pq + 1\<rparr>))"

text \<open>The calls of the other threads, as one step each.\<close>

datatype pq_event = EvPush int | EvDone | EvPopup int

inductive pq_step :: "SeqPriorityQueue \<Rightarrow> pq_event \<Rightarrow> SeqPriorityQueue \<Rightarrow> bool" where
  pq_push: "pq_step pq (EvPush v) (pq_Push pq v)"
| pq_close: "pq_step pq EvDone (pq_Done pq)"
| pq_pop: "pq_Popup pq = Some (v, pq') \<Longrightarrow> pq_step pq (EvPopup v) pq'"

inductive pq_run :: "SeqPriorityQueue \<Rightarrow> pq_event list \<Rightarrow> SeqPriorityQueue \<Rightarrow> bool" where
  pq_nil: "pq_run pq [] pq"
| pq_snoc: "pq_run pq evs pq' \<Longrightarrow> pq_step pq' e pq'' \<Longrightarrow> pq_run pq (evs @ [e]) pq''"

inductive_cases pq_pushE: "pq_step pq (EvPush v) pq'"
inductive_cases pq_doneE: "pq_step pq EvDone pq'"
inductive_cases pq_popupE: "pq_step pq (EvPopup v) pq'"

text \<open>The part numbers a run has handed out; \<open>-1\<close> is the end mark.\<close>

fun popped :: "pq_event list \<Rightarrow> int list" where
  "popped [] = []"
| "popped (EvPopup v # es) = (if v = -1 then popped es else v # popped es)"
| "popped (_ # es) = popped es"

fun pq_push_all :: "SeqPriorityQueue \<Rightarrow> int list \<Rightarrow> SeqPriorityQueue" where
  "pq_push_all pq [] = pq"
| "pq_push_all pq (v # vs) = pq_push_all (pq_Push pq v) vs"

text \<open>The consumer: \<open>k\<close> calls of \<open>Popup\<close> in a row, \<open>None\<close> when one of them waits.\<close>

fun pq_drain :: "nat \<Rightarrow> SeqPriorityQueue \<Rightarrow> (int list \<times> SeqPriorityQueue) option" where
  "pq_drain 0 pq = Some ([], pq)"
| "pq_drain (Suc k) pq =
     (case pq_Popup pq of
        None \<Rightarrow> None
      | Some (v, pq') \<Rightarrow>
          (case pq_drain k pq' of None \<Rightarrow> None | Some (vs, pq'') \<Rightarrow> Some (v # vs, pq'')))"

section \<open>The heap of part numbers is a slice heap\<close>

interpretation part_heap: slice_heap queue_iface
proof unfold_locales
  show "h \<noteq> [] \<Longrightarrow> hPop queue_iface h = Some (last h, butlast h)" for h
    by (simp add: queue_iface_def queue_Pop_def last_conv_nth butlast_conv_take Let_def)
qed (simp_all add: queue_iface_def queue_Len_def queue_Less_def queue_Swap_def queue_Push_def)

section \<open>The abstract sequencer\<close>

text \<open>
  What the uploader relies on: a state with a multiset of pending part numbers, the next number
  and two flags. \<open>pop\<close> hands out exactly the next number when it is the least pending one, reports
  the end when nothing is pending after \<open>close\<close>, and otherwise waits.
\<close>

locale sequencer =
  fixes push :: "'s \<Rightarrow> int \<Rightarrow> 's"
    and close :: "'s \<Rightarrow> 's"
    and pop :: "'s \<Rightarrow> (int \<times> 's) option"
    and pending :: "'s \<Rightarrow> int multiset"
    and nxt :: "'s \<Rightarrow> int"
    and started :: "'s \<Rightarrow> bool"
    and closed :: "'s \<Rightarrow> bool"
    and ok :: "'s \<Rightarrow> bool"
  assumes ok_push: "ok s \<Longrightarrow> ok (push s v)"
    and ok_close: "ok s \<Longrightarrow> ok (close s)"
    and push_view: "ok s \<Longrightarrow> pending (push s v) = add_mset v (pending s) \<and> nxt (push s v) = nxt s \<and>
          started (push s v) = (started s \<or> v = 1) \<and> closed (push s v) = closed s"
    and close_view: "ok s \<Longrightarrow> pending (close s) = pending s \<and> nxt (close s) = nxt s \<and>
          started (close s) = started s \<and> closed (close s)"
    and pop_end: "ok s \<Longrightarrow> pending s = {#} \<Longrightarrow>
          pop s = (if started s \<and> closed s then Some (-1, s) else None)"
    and pop_next: "ok s \<Longrightarrow> started s \<Longrightarrow> nxt s \<in># pending s \<Longrightarrow> (\<forall>y \<in># pending s. nxt s \<le> y) \<Longrightarrow>
          \<exists>s'. pop s = Some (nxt s, s') \<and> ok s' \<and> nxt s' = nxt s + 1 \<and>
               pending s = add_mset (nxt s) (pending s') \<and> started s' \<and> closed s' = closed s"
    and pop_waits: "ok s \<Longrightarrow> pending s \<noteq> {#} \<Longrightarrow>
          \<not> (started s \<and> nxt s \<in># pending s \<and> (\<forall>y \<in># pending s. nxt s \<le> y)) \<Longrightarrow> pop s = None"
begin

lemma pop_cases:
  assumes "ok s" and "pop s = Some (v, s')"
  shows "(v = -1 \<and> s' = s \<and> pending s = {#} \<and> closed s \<and> started s) \<or>
         (v = nxt s \<and> nxt s' = nxt s + 1 \<and> pending s = add_mset v (pending s') \<and> started s \<and>
          started s' \<and> closed s' = closed s \<and> ok s' \<and> (\<forall>y \<in># pending s. v \<le> y))"
proof (cases "pending s = {#}")
  case True
  with assms show ?thesis by (auto simp: pop_end split: if_splits)
next
  case False
  with assms have *: "started s" "nxt s \<in># pending s" "\<forall>y \<in># pending s. nxt s \<le> y"
    using pop_waits [of s] by auto
  with pop_next [OF assms(1)] assms(2) show ?thesis by fastforce
qed

text \<open>A pending number below the next one blocks \<open>pop\<close>, now and after any further step.\<close>

lemma stale_waits: "ok s \<Longrightarrow> x \<in># pending s \<Longrightarrow> x < nxt s \<Longrightarrow> pop s = None"
  using pop_waits [of s] by force

lemma stale_push: "ok s \<Longrightarrow> x \<in># pending s \<Longrightarrow> x < nxt s \<Longrightarrow>
   ok (push s v) \<and> x \<in># pending (push s v) \<and> x < nxt (push s v)"
  using ok_push push_view [of s v] by simp

lemma stale_close: "ok s \<Longrightarrow> x \<in># pending s \<Longrightarrow> x < nxt s \<Longrightarrow>
   ok (close s) \<and> x \<in># pending (close s) \<and> x < nxt (close s)"
  using ok_close close_view [of s] by simp

end

section \<open>The queue implements the sequencer\<close>

definition pq_ok :: "SeqPriorityQueue \<Rightarrow> bool" where
  "pq_ok pq \<longleftrightarrow> is_heap (pq_queue pq)"

definition pq_pending :: "SeqPriorityQueue \<Rightarrow> int multiset" where
  "pq_pending pq = mset (pq_queue pq)"

lemma pq_ok_New [simp]: "pq_ok NewSeqPriorityQueue"
  using part_heap.heap_init_correct [of "[]"] by (auto simp: pq_ok_def NewSeqPriorityQueue_def heap_from_def)

lemma pq_New_view [simp]:
  "pq_pending NewSeqPriorityQueue = {#}" "pq_next NewSeqPriorityQueue = 1"
  "pq_start NewSeqPriorityQueue = False" "pq_done NewSeqPriorityQueue = False"
  using part_heap.heap_init_correct [of "[]"] by (simp_all add: pq_pending_def NewSeqPriorityQueue_def)

lemma pq_Popup_next:
  assumes "pq_ok pq" "pq_start pq" "pq_queue pq \<noteq> []" "pq_queue pq ! 0 = pq_next pq"
  obtains pq' where "pq_Popup pq = Some (pq_next pq, pq')" "pq_ok pq'" "pq_next pq' = pq_next pq + 1"
    "pq_pending pq = add_mset (pq_next pq) (pq_pending pq')" "pq_start pq'" "pq_done pq' = pq_done pq"
proof -
  obtain q where q: "heap_pop queue_iface (pq_queue pq) = Some (pq_queue pq ! 0, q)" "is_heap q"
      "mset (pq_queue pq) = add_mset (pq_queue pq ! 0) (mset q)"
    using part_heap.heap_pop_Some assms(1,3) by (auto simp: pq_ok_def)
  show ?thesis
    by (rule that [of "pq\<lparr>pq_queue := q, pq_next := pq_next pq + 1\<rparr>"])
      (use q assms in \<open>auto simp: pq_Popup_def pq_waits_def queue_Len_def pq_ok_def pq_pending_def\<close>)
qed

lemma pq_head_iff:
  assumes "pq_ok pq" "pq_queue pq \<noteq> []"
  shows "pq_queue pq ! 0 = x \<longleftrightarrow> x \<in># pq_pending pq \<and> (\<forall>y \<in># pq_pending pq. x \<le> y)"
proof -
  have "pq_queue pq ! 0 \<in> set (pq_queue pq)" using assms(2) by simp
  moreover have "pq_queue pq ! 0 \<le> y" if "y \<in> set (pq_queue pq)" for y
    using that part_heap.heap_head_least assms(1) by (auto simp: pq_ok_def)
  ultimately show ?thesis by (auto simp: pq_pending_def intro: order_antisym)
qed

interpretation seqpq: sequencer pq_Push pq_Done pq_Popup pq_pending pq_next pq_start pq_done pq_ok
proof unfold_locales
  fix s v
  assume ok: "pq_ok s"
  note * = part_heap.heap_push_correct [of "pq_queue s" v]
  show "pq_ok (pq_Push s v)" using ok * by (auto simp: pq_ok_def pq_Push_def Let_def)
  show "pq_ok (pq_Done s)" using ok by (simp add: pq_ok_def pq_Done_def)
  show "pq_pending (pq_Push s v) = add_mset v (pq_pending s) \<and> pq_next (pq_Push s v) = pq_next s \<and>
      pq_start (pq_Push s v) = (pq_start s \<or> v = 1) \<and> pq_done (pq_Push s v) = pq_done s"
    using ok * by (auto simp: pq_ok_def pq_pending_def pq_Push_def Let_def)
  show "pq_pending (pq_Done s) = pq_pending s \<and> pq_next (pq_Done s) = pq_next s \<and>
      pq_start (pq_Done s) = pq_start s \<and> pq_done (pq_Done s)"
    by (simp add: pq_Done_def pq_pending_def)
  show "pq_pending s = {#} \<Longrightarrow>
      pq_Popup s = (if pq_start s \<and> pq_done s then Some (-1, s) else None)"
    by (auto simp: pq_Popup_def pq_waits_def queue_Len_def pq_pending_def)
  show "\<exists>s'. pq_Popup s = Some (pq_next s, s') \<and> pq_ok s' \<and> pq_next s' = pq_next s + 1 \<and>
      pq_pending s = add_mset (pq_next s) (pq_pending s') \<and> pq_start s' \<and> pq_done s' = pq_done s"
    if "pq_start s" "pq_next s \<in># pq_pending s" "\<forall>y \<in># pq_pending s. pq_next s \<le> y"
  proof -
    have "pq_queue s \<noteq> []" using that by (auto simp: pq_pending_def)
    then show ?thesis using pq_Popup_next [OF ok that(1)] pq_head_iff [OF ok] that by metis
  qed
  show "pq_Popup s = None"
    if "pq_pending s \<noteq> {#}"
      "\<not> (pq_start s \<and> pq_next s \<in># pq_pending s \<and> (\<forall>y \<in># pq_pending s. pq_next s \<le> y))"
  proof -
    have "pq_queue s \<noteq> []" using that by (auto simp: pq_pending_def)
    then have "pq_waits s" using pq_head_iff [OF ok] that by (auto simp: pq_waits_def queue_Len_def)
    then show ?thesis by (simp add: pq_Popup_def)
  qed
qed

section \<open>Runs of the queue\<close>

lemma popped_append: "popped (es @ fs) = popped es @ popped fs"
  by (induction es rule: popped.induct) auto

lemma pq_step_ok: "pq_step pq e pq' \<Longrightarrow> pq_ok pq \<Longrightarrow> pq_ok pq'"
  by (induction rule: pq_step.induct)
    (auto intro: seqpq.ok_push seqpq.ok_close dest: seqpq.pop_cases)

lemma pq_run_ok: "pq_run pq evs pq' \<Longrightarrow> pq_ok pq \<Longrightarrow> pq_ok pq'"
  by (induction rule: pq_run.induct) (auto intro: pq_step_ok)

lemma pq_run_inv:
  "pq_run pq evs pq' \<Longrightarrow> pq = NewSeqPriorityQueue \<Longrightarrow>
   pq_ok pq' \<and> 1 \<le> pq_next pq' \<and> popped evs = [1..pq_next pq' - 1]"
proof (induction rule: pq_run.induct)
  case (pq_nil pq)
  then show ?case by simp
next
  case (pq_snoc pq evs pq' e pq'')
  then have inv: "pq_ok pq'" "1 \<le> pq_next pq'" "popped evs = [1..pq_next pq' - 1]" by auto
  from pq_snoc.hyps(2) show ?case
  proof (cases rule: pq_step.cases)
    case (pq_push v)
    then show ?thesis using inv seqpq.ok_push seqpq.push_view [of pq' v] by (simp add: popped_append)
  next
    case pq_close
    then show ?thesis using inv seqpq.ok_close seqpq.close_view [of pq'] by (simp add: popped_append)
  next
    case (pq_pop v)
    with seqpq.pop_cases [OF inv(1), of v pq''] inv show ?thesis
      by (auto simp: popped_append upto_rec2)
  qed
qed

lemma pq_push_all_view:
  "pq_ok pq \<Longrightarrow> pq_ok (pq_push_all pq vs) \<and> pq_pending (pq_push_all pq vs) = pq_pending pq + mset vs \<and>
   pq_next (pq_push_all pq vs) = pq_next pq \<and> pq_start (pq_push_all pq vs) = (pq_start pq \<or> 1 \<in> set vs) \<and>
   pq_done (pq_push_all pq vs) = pq_done pq"
proof (induction vs arbitrary: pq)
  case (Cons v vs)
  then show ?case using seqpq.push_view [of pq v] seqpq.ok_push [of pq v] by auto
qed simp

lemma pq_drain_range:
  "pq_ok pq \<Longrightarrow> pq_start pq \<Longrightarrow> pq_pending pq = mset [pq_next pq..pq_next pq + int k - 1] \<Longrightarrow>
   \<exists>pq'. pq_drain k pq = Some ([pq_next pq..pq_next pq + int k - 1], pq') \<and> pq_ok pq' \<and>
         pq_pending pq' = {#} \<and> pq_start pq' \<and> pq_done pq' = pq_done pq"
proof (induction k arbitrary: pq)
  case 0
  then show ?case by simp
next
  case (Suc k)
  let ?n = "pq_next pq"
  have split: "[?n..?n + int (Suc k) - 1] = ?n # [?n + 1..?n + 1 + int k - 1]"
    by (subst upto_rec1) auto
  then have "?n \<in># pq_pending pq" "\<forall>y \<in># pq_pending pq. ?n \<le> y"
    using Suc.prems(3) by auto
  with seqpq.pop_next [OF Suc.prems(1,2)] obtain pq' where
    pop: "pq_Popup pq = Some (?n, pq')" "pq_ok pq'" "pq_next pq' = ?n + 1" "pq_start pq'"
      "pq_pending pq = add_mset ?n (pq_pending pq')" "pq_done pq' = pq_done pq" by blast
  have "pq_pending pq' = mset [pq_next pq'..pq_next pq' + int k - 1]"
    using pop(3,5) Suc.prems(3) split by simp
  from Suc.IH [OF pop(2,4) this] obtain pq'' where
    "pq_drain k pq' = Some ([?n + 1..?n + 1 + int k - 1], pq'')" "pq_ok pq''"
    "pq_pending pq'' = {#}" "pq_start pq''" "pq_done pq'' = pq_done pq'" using pop(3) by auto
  with pop split show ?case by simp
qed

lemma pq_run_stale:
  "pq_run pq evs pq' \<Longrightarrow> pq_ok pq \<Longrightarrow> x \<in># pq_pending pq \<Longrightarrow> x < pq_next pq \<Longrightarrow>
   pq_ok pq' \<and> x \<in># pq_pending pq' \<and> x < pq_next pq' \<and> popped evs = []"
proof (induction rule: pq_run.induct)
  case (pq_snoc pq evs pq' e pq'')
  then have inv: "pq_ok pq'" "x \<in># pq_pending pq'" "x < pq_next pq'" "popped evs = []" by auto
  from pq_snoc.hyps(2) show ?case
  proof (cases rule: pq_step.cases)
    case (pq_push v)
    then show ?thesis using inv seqpq.stale_push [of pq' x v] by (simp add: popped_append)
  next
    case pq_close
    then show ?thesis using inv seqpq.stale_close [of pq' x] by (simp add: popped_append)
  next
    case (pq_pop v)
    then show ?thesis using inv seqpq.stale_waits [of pq' x] by simp
  qed
qed simp

section \<open>Properties\<close>

text \<open>
  C13. Whatever the order in which parts are pushed and the calls interleave, the part numbers that
  \<open>Popup\<close> has handed out are 1, 2, 3, ... without a gap or a repetition, up to the number before
  \<open>next\<close>.
\<close>

theorem popup_sequential:
  assumes "pq_run NewSeqPriorityQueue evs pq"
  shows "popped evs = [1..pq_next pq - 1]"
  using pq_run_inv [OF assms refl] by simp

theorem popup_sequential_witness:
  "popped [EvPush 2, EvPush 1, EvPopup 1, EvPopup 2] = [1..2]"
proof -
  note r = pq_snoc [OF pq_snoc [OF pq_snoc [OF pq_snoc [OF pq_nil pq_push [of _ 2]] pq_push [of _ 1]]
        pq_pop] pq_pop [of _ 2], of NewSeqPriorityQueue 1]
  have "pq_Popup (pq_Push (pq_Push NewSeqPriorityQueue 2) 1) =
      Some (1, \<lparr>pq_queue = [2], pq_start = True, pq_next = 2, pq_done = False\<rparr>)" by code_simp
  moreover have "pq_Popup \<lparr>pq_queue = [2], pq_start = True, pq_next = 2, pq_done = False\<rparr> =
      Some (2, \<lparr>pq_queue = [], pq_start = True, pq_next = 3, pq_done = False\<rparr>)" by code_simp
  ultimately show ?thesis using popup_sequential [OF r] by simp
qed

text \<open>
  When the parts 1 to n have been pushed, once each and in any order, n calls of \<open>Popup\<close> return
  without waiting and hand out all of them in ascending order; after \<open>Done\<close> the next call reports
  the end with -1.
\<close>

theorem drain_complete_upload:
  assumes "mset ps = mset [1..int n]" and "0 < n"
  shows "\<exists>pq'. pq_drain n (pq_push_all NewSeqPriorityQueue ps) = Some ([1..int n], pq') \<and>
               pq_Popup (pq_Done pq') = Some (-1, pq_Done pq')"
proof -
  let ?pq = "pq_push_all NewSeqPriorityQueue ps"
  have "set ps = {1..int n}" using assms(1) by (metis set_mset_mset set_upto)
  then have "1 \<in> set ps" using assms(2) by simp
  then have "pq_ok ?pq" "pq_start ?pq" "pq_next ?pq = 1" "pq_pending ?pq = mset [1..1 + int n - 1]"
    using pq_push_all_view [OF pq_ok_New, of ps] assms(1) by auto
  with pq_drain_range [of ?pq n] obtain pq' where
    pq': "pq_drain n ?pq = Some ([1..int n], pq')" "pq_ok pq'" "pq_pending pq' = {#}" "pq_start pq'"
    by auto
  have "pq_Popup (pq_Done pq') = Some (-1, pq_Done pq')"
    using seqpq.pop_end [OF seqpq.ok_close [OF pq'(2)]] seqpq.close_view [OF pq'(2)] pq'(3,4) by simp
  with pq'(1) show ?thesis by blast
qed

theorem drain_complete_upload_witness:
  "\<exists>pq'. pq_drain 3 (pq_push_all NewSeqPriorityQueue [3, 1, 2]) = Some ([1, 2, 3], pq') \<and>
         pq_Popup (pq_Done pq') = Some (-1, pq_Done pq')"
proof -
  have u: "[1..3::int] = [1, 2, 3]" by (simp add: upto.simps)
  then have "mset [3, 1, 2 :: int] = mset [1..int 3]" by simp
  from drain_complete_upload [OF this] u show ?thesis by simp
qed

text \<open>
  A part number that is pushed again after it has been handed out (a client may upload the same
  part twice) stops the queue for good: whatever is pushed or signalled afterwards, no further call
  of \<open>Popup\<close> returns.
\<close>

theorem repeated_part_blocks:
  assumes "pq_run NewSeqPriorityQueue evs pq" and "x < pq_next pq"
    and "pq_run (pq_Push pq x) evs' pq'"
  shows "pq_Popup pq' = None \<and> popped evs' = []"
proof -
  have ok: "pq_ok pq" using pq_run_inv [OF assms(1) refl] by simp
  have "pq_ok (pq_Push pq x)" "x \<in># pq_pending (pq_Push pq x)" "x < pq_next (pq_Push pq x)"
    using seqpq.push_view [OF ok, of x] seqpq.ok_push [OF ok, of x] assms(2) by auto
  with pq_run_stale [OF assms(3)] show ?thesis using seqpq.stale_waits by blast
qed

theorem repeated_part_blocks_witness:
  "pq_Popup (pq_Done (pq_Push (pq_Push \<lparr>pq_queue = [], pq_start = True, pq_next = 2, pq_done = False\<rparr> 1) 2))
     = None"
proof -
  let ?pq = "\<lparr>pq_queue = [], pq_start = True, pq_next = 2, pq_done = False\<rparr>"
  have "pq_Popup (pq_Push NewSeqPriorityQueue 1) = Some (1, ?pq)" by code_simp
  note run = pq_snoc [OF pq_snoc [OF pq_nil pq_push] pq_pop [OF this]]
  note later = pq_snoc [OF pq_snoc [OF pq_nil pq_push [of "pq_Push ?pq 1" 2]] pq_close]
  from repeated_part_blocks [OF run _ later] show ?thesis by simp
qed

end
