(* ===== verification/Host_Files.thy ===== *)
theory Host_Files
  imports Go_Path Zcn_Types
begin

text \<open>
  What the gateway uses of the host's file system (package \<open>os\<close>): files with their contents and the
  directories that exist. The only failures are those of missing files and directories.
\<close>

section \<open>Operations\<close>

record file_system =
  fs_files :: "(string \<times> bytes) list"
  fs_dirs :: "string list"

definition DirOf :: "string \<Rightarrow> string" where
  "DirOf path = Clean (join_with [slash] (butlast (split_on slash path)))"

definition no_such_file :: "string \<Rightarrow> go_error" where
  "no_such_file path = ErrorText (path @ '': no such file or directory'')"

definition os_MkdirAll :: "string \<Rightarrow> file_system \<Rightarrow> file_system" where
  "os_MkdirAll path fs = fs\<lparr>fs_dirs := path # fs_dirs fs\<rparr>"

definition os_WriteFile :: "string \<Rightarrow> bytes \<Rightarrow> file_system \<Rightarrow> (go_error, file_system) result" where
  "os_WriteFile path bs fs =
     (if DirOf path \<in> set (fs_dirs fs) then Inr (fs\<lparr>fs_files := (path, bs) # filter (\<lambda>(p, _). p \<noteq> path) (fs_files fs)\<rparr>)
      else Inl (no_such_file path))"

definition os_ReadFile :: "string \<Rightarrow> file_system \<Rightarrow> (go_error, bytes) result" where
  "os_ReadFile path fs =
     (case map_of (fs_files fs) path of None \<Rightarrow> Inl (no_such_file path) | Some bs \<Rightarrow> Inr bs)"

definition os_Remove :: "string \<Rightarrow> file_system \<Rightarrow> file_system" where
  "os_Remove path fs = fs\<lparr>fs_files := filter (\<lambda>(p, _). p \<noteq> path) (fs_files fs)\<rparr>"

definition below :: "string \<Rightarrow> string \<Rightarrow> bool" where
  "below dir path \<longleftrightarrow> path = dir \<or> HasPrefix path (dir @ ''/'')"

definition os_RemoveAll :: "string \<Rightarrow> file_system \<Rightarrow> file_system" where
  "os_RemoveAll path fs =
     \<lparr>fs_files = filter (\<lambda>(p, _). \<not> below path p) (fs_files fs),
      fs_dirs = filter (\<lambda>p. \<not> below path p) (fs_dirs fs)\<rparr>"

text \<open>A string as the bytes of a file.\<close>

definition to_bytes :: "string \<Rightarrow> bytes" where
  "to_bytes s = map (\<lambda>c. word_of_nat (of_char c)) s"

definition of_bytes :: "bytes \<Rightarrow> string" where
  "of_bytes bs = map (\<lambda>b. char_of (unat b)) bs"

section \<open>Laws\<close>

lemma map_of_filter_neq: "map_of (filter (\<lambda>(p, _). p \<noteq> q) xs) p = (if p = q then None else map_of xs p)"
  by (induction xs) auto

lemma of_bytes_to_bytes [simp]: "of_bytes (to_bytes s) = s"
proof -
  have "char_of (unat (word_of_nat (of_char c) :: 8 word)) = c" for c :: char
    by (simp add: unat_of_nat)
  then show ?thesis by (simp add: of_bytes_def to_bytes_def comp_def)
qed

lemma ReadFile_WriteFile:
  assumes "os_WriteFile path bs fs = Inr fs'"
  shows "os_ReadFile q fs' = (if q = path then Inr bs else os_ReadFile q fs)" and "fs_dirs fs' = fs_dirs fs"
  using assms by (auto simp: os_WriteFile_def os_ReadFile_def map_of_filter_neq split: if_splits)

lemma ReadFile_Remove:
  "os_ReadFile q (os_Remove path fs) = (if q = path then Inl (no_such_file path) else os_ReadFile q fs)"
  "fs_dirs (os_Remove path fs) = fs_dirs fs"
  by (auto simp: os_Remove_def os_ReadFile_def map_of_filter_neq)

lemma map_of_filter_below:
  "map_of (filter (\<lambda>(p, _). \<not> below d p) xs) p = (if below d p then None else map_of xs p)"
  by (induction xs) auto

lemma ReadFile_RemoveAll:
  "os_ReadFile q (os_RemoveAll path fs) = (if below path q then Inl (no_such_file q) else os_ReadFile q fs)"
  by (simp add: os_RemoveAll_def os_ReadFile_def map_of_filter_below)

end
