(* ===== verification/Zcn_Multipart.thy ===== *)
theory Zcn_Multipart
  imports Zcn_Gateway Seq_Priority_Queue Host_Files
begin

text \<open>
  Multipart uploads (\<open>multipart.go\<close>): the size of the object from the sizes of its parts, the goroutine
  that cuts the data into the chunks the SDK reads, and the handlers on the part files.
\<close>

section \<open>The size of the object\<close>

record part_sizes =
  fileSize :: int
  lastPartSize :: int
  lastPartID :: int
  lastPartUpdated :: bool

definition no_parts :: part_sizes where
  "no_parts = \<lparr>fileSize = 0, lastPartSize = 0, lastPartID = 0, lastPartUpdated = False\<rparr>"

definition UpdateFileSize :: "int \<Rightarrow> int \<Rightarrow> part_sizes \<Rightarrow> part_sizes" where
  "UpdateFileSize partID sz s =
     (if lastPartUpdated s then s
      else if lastPartSize s = 0
      then s\<lparr>lastPartSize := sz, lastPartID := partID, fileSize := wrap64 (fileSize s + sz)\<rparr>
      else if sz > lastPartSize s
      then s\<lparr>fileSize := wrap64 ((lastPartID s - 1) * sz + lastPartSize s), lastPartSize := sz\<rparr>
      else if sz = lastPartSize s then s\<lparr>fileSize := wrap64 (fileSize s + sz)\<rparr>
      else s\<lparr>fileSize := wrap64 ((partID - 1) * lastPartSize s + sz), lastPartUpdated := True\<rparr>)"

definition UpdateFileSizes :: "(int \<times> int) list \<Rightarrow> part_sizes \<Rightarrow> part_sizes" where
  "UpdateFileSizes arrivals s = foldl (\<lambda>s (partID, sz). UpdateFileSize partID sz s) s arrivals"

section \<open>Cutting the data into chunks\<close>

text \<open>The compressor (\<open>lz4.Writer\<close>): what each call appends to the buffer, or its error.\<close>

record 'z lz4 =
  lzInit :: 'z
  lzWrite :: "bytes \<Rightarrow> 'z \<Rightarrow> (go_error, bytes) result \<times> 'z"
  lzClose :: "'z \<Rightarrow> (go_error, bytes) result \<times> 'z"

fun chunks :: "nat \<Rightarrow> bytes \<Rightarrow> bytes list" where
  "chunks n bs = (if n = 0 \<or> bs = [] then [] else take n bs # chunks n (drop n bs))"

declare chunks.simps [simp del]

text \<open>How much of the buffer is cut after a write: all whole chunks, except that a last one which
  would empty the buffer stays, unless it is the only one.\<close>

definition cut_length :: "nat \<Rightarrow> bytes \<Rightarrow> nat" where
  "cut_length chunkWriteSize buf =
     (let n = length buf div chunkWriteSize in
      (if length buf mod chunkWriteSize = 0 \<and> n > 1 then n - 1 else n) * chunkWriteSize)"

definition data_chunk :: "bytes \<Rightarrow> memFileData" where
  "data_chunk b = \<lparr>mfd_buf = b, mfd_err = None\<rparr>"

definition mark_last :: "bytes list \<Rightarrow> memFileData list" where
  "mark_last bs =
     (case bs of [] \<Rightarrow> [] | _ \<Rightarrow> map data_chunk (butlast bs) @ [\<lparr>mfd_buf = last bs, mfd_err = Some EOF\<rparr>])"

text \<open>One block of data, and the end of the data: the chunks sent on and the buffer left, or the error
  of the compressor, after which the upload is cancelled.\<close>

definition chunk_data ::
  "'z lz4 \<Rightarrow> bool \<Rightarrow> nat \<Rightarrow> bytes \<Rightarrow> bytes \<times> 'z \<Rightarrow> (go_error, memFileData list) result \<times> bytes \<times> 'z" where
  "chunk_data lz toCompress chunkWriteSize data = (\<lambda>(buf, z).
     (case (if toCompress then lzWrite lz data z else (Inr data, z)) of
        (Inl err, z1) \<Rightarrow> (Inl err, buf, z1)
      | (Inr out, z1) \<Rightarrow>
          (let buf1 = buf @ out; k = cut_length chunkWriteSize buf1 in
           (Inr (map data_chunk (chunks chunkWriteSize (take k buf1))), drop k buf1, z1))))"

definition chunk_end ::
  "'z lz4 \<Rightarrow> bool \<Rightarrow> nat \<Rightarrow> bytes \<times> 'z \<Rightarrow> (go_error, memFileData list) result \<times> bytes \<times> 'z" where
  "chunk_end lz toCompress chunkWriteSize = (\<lambda>(buf, z).
     (case (if toCompress then lzClose lz z else (Inr [], z)) of
        (Inl err, z1) \<Rightarrow> (Inl err, buf, z1)
      | (Inr out, z1) \<Rightarrow> (Inr (mark_last (chunks chunkWriteSize (buf @ out))), [], z1)))"

text \<open>All blocks and then the end, as long as the compressor does not fail.\<close>

fun chunk_all ::
  "'z lz4 \<Rightarrow> bool \<Rightarrow> nat \<Rightarrow> bytes list \<Rightarrow> bytes \<times> 'z \<Rightarrow> (go_error, memFileData list) result" where
  "chunk_all lz toCompress n [] st = fst (chunk_end lz toCompress n st)"
| "chunk_all lz toCompress n (d # ds) st =
     (case chunk_data lz toCompress n d st of
        (Inl err, _) \<Rightarrow> Inl err
      | (Inr out, st') \<Rightarrow>
          (case chunk_all lz toCompress n ds st' of
             Inl err \<Rightarrow> Inl err
           | Inr outs \<Rightarrow> Inr (out @ outs)))"

text \<open>What the SDK reads from the memory file: reads with a buffer of \<open>n\<close> bytes until end of file;
  \<open>Inl\<close> is an error, \<open>None\<close> a read that waits.\<close>

fun read_chunks :: "nat \<Rightarrow> memFileData list \<Rightarrow> (io_error, bytes) result" where
  "read_chunks n [] = Inr []"
| "read_chunks n (d # ds) =
     (case memFile_Read False \<lparr>mf_data = d # ds, mf_closed = True, mf_errs = []\<rparr> n of
        Some ((bs, None), _) \<Rightarrow> (case read_chunks n ds of Inl e \<Rightarrow> Inl e | Inr rest \<Rightarrow> Inr (bs @ rest))
      | Some ((bs, Some EOF), _) \<Rightarrow> Inr bs
      | Some ((bs, Some e), _) \<Rightarrow> Inl e
      | None \<Rightarrow> Inl EOF)"

section \<open>Uploads and their part files\<close>

definition localStorageDir :: string where "localStorageDir = ''store''"

definition partFilename :: "string \<Rightarrow> string \<Rightarrow> string \<Rightarrow> int \<Rightarrow> string" where
  "partFilename bucket uploadID object k =
     Join [localStorageDir, bucket, uploadID, object, ''part'' @ show_int k]"

definition partETagFilename :: "string \<Rightarrow> string \<Rightarrow> string \<Rightarrow> int \<Rightarrow> string" where
  "partETagFilename bucket uploadID object k = partFilename bucket uploadID object k @ ''.etag''"

definition cleanupPartFilesAndDirs :: "string \<Rightarrow> string \<Rightarrow> file_system \<Rightarrow> file_system" where
  "cleanupPartFilesAndDirs bucket uploadID fs = os_RemoveAll (Join [localStorageDir, bucket, uploadID]) fs"

text \<open>Where a goroutine of an upload stands: at its select, waiting for the next part number, sending the
  chunks it has cut, the same after the end of the data, waiting for the SDK to take an error, done, or in
  the panic that ends the process.\<close>

datatype goroutine = GSelect | GPopup | GSend | GSendLast | GError | GStopped | GPanic

text \<open>The capacity of the channel of chunks.\<close>

definition memFileDataChan_cap :: nat where "memFileDataChan_cap = 240"

text \<open>A \<open>MultiPartFile\<close> with the channels it holds and the variables of its two goroutines: the feeder,
  which reads the part files in order, and the chunker. \<open>up_cancelMsg\<close> is the buffered message of
  \<open>cancelC\<close>, \<open>up_cancelClosed\<close> that it is closed; \<open>up_out\<close> are the chunks that the chunker has cut and not
  yet sent.\<close>

record 'z upload =
  up_request :: OperationRequest
  up_compress :: bool
  up_seq :: SeqPriorityQueue
  up_sizes :: part_sizes
  up_cancelMsg :: bool
  up_cancelClosed :: bool
  up_dataC :: "bytes list"
  up_dataClosed :: bool
  up_buf :: bytes
  up_lz :: 'z
  up_out :: "memFileData list"
  up_mem :: memFile
  up_sent :: int
  up_feeder :: goroutine
  up_chunker :: goroutine

record 'z uploads =
  FileMap :: "(string \<times> 'z upload) list"
  up_fs :: file_system

definition multipart_request ::
  "'w zenv \<Rightarrow> string \<Rightarrow> string \<Rightarrow> bool \<Rightarrow> meta \<Rightarrow> OperationRequest" where
  "multipart_request env remotePath contentType isUpdate userDefined =
     \<lparr>OperationType = (if isUpdate then FileOperationUpdate else FileOperationInsert),
      opRemotePath = remotePath, opDestPath = [],
      opFileMeta = \<lparr>fmRemotePath = remotePath, fmActualSize = 0, fmMimeType = contentType,
        fmRemoteName = Base remotePath,
        fmCustomMeta = (if userDefined = [] then [] else jsonMarshal env userDefined)\<rparr>,
      opReader = [], opWorkdir = cfgWorkDir env, opChunkNumber = 80, opEncrypt = cfgEncrypt env,
      opStreamUpload = True\<rparr>"

definition new_upload :: "'z lz4 \<Rightarrow> OperationRequest \<Rightarrow> bool \<Rightarrow> 'z upload" where
  "new_upload lz request toCompress =
     \<lparr>up_request = request, up_compress = toCompress, up_seq = NewSeqPriorityQueue, up_sizes = no_parts,
      up_cancelMsg = False, up_cancelClosed = False, up_dataC = [], up_dataClosed = False,
      up_buf = [], up_lz = lzInit lz, up_out = [], up_mem = \<lparr>mf_data = [], mf_closed = False, mf_errs = []\<rparr>,
      up_sent = 0, up_feeder = GSelect, up_chunker = GSelect\<rparr>"

definition newMultiPartUpload ::
  "'w zenv \<Rightarrow> 'z lz4 \<Rightarrow> string \<Rightarrow> string \<Rightarrow> string \<Rightarrow> bool \<Rightarrow> meta \<Rightarrow> 'z uploads \<times> 'w \<Rightarrow>
     (go_error, string) result \<times> 'z uploads \<times> 'w" where
  "newMultiPartUpload env lz bucket object contentType toCompress userDefined = (\<lambda>(us, w).
     (let remotePath = remotePathOf bucket object in
      case getSingleRegularRef env remotePath w of
        (res, w1) \<Rightarrow>
          if (case res of Inl err \<Rightarrow> \<not> isPathNoExistError err | Inr _ \<Rightarrow> False)
          then (case res of Inl err \<Rightarrow> (Inl err, us, w1) | Inr _ \<Rightarrow> (Inr [], us, w1))
          else let isUpdate = (case res of Inl _ \<Rightarrow> False | Inr _ \<Rightarrow> True);
                   uploadID = newUUID env w1;
                   up = new_upload lz (multipart_request env remotePath contentType isUpdate userDefined) toCompress
               in (Inr uploadID,
                   us\<lparr>FileMap := (uploadID, up) # FileMap us,
                      up_fs := os_MkdirAll (Join [localStorageDir, bucket, uploadID, object]) (up_fs us)\<rparr>, w1)))"

text \<open>The two lists are \<open>StandardExcludeCompressExtensions\<close> and
  \<open>StandardExcludeCompressContentTypes\<close> of the S3 layer.\<close>

definition NewMultipartUpload ::
  "'w zenv \<Rightarrow> 'z lz4 \<Rightarrow> string list \<Rightarrow> string list \<Rightarrow> string \<Rightarrow> string \<Rightarrow> meta \<Rightarrow> 'z uploads \<times> 'w \<Rightarrow>
     (go_error, string) result \<times> 'z uploads \<times> 'w" where
  "NewMultipartUpload env lz excludeExt excludeTypes bucket object userDefined st =
     (let contentType = content_type_of env object userDefined;
          toCompress = (cfgCompress env \<and> \<not> hasStringSuffixInSlice object excludeExt \<and>
            \<not> hasPattern env excludeTypes contentType)
      in newMultiPartUpload env lz bucket object (if toCompress then lz4MimeType else contentType)
           toCompress userDefined st)"

record PartInfo =
  PartNumber :: int
  LastModified :: int
  PartETag :: string
  PartInfoSize :: int
  ActualSize :: int

definition put_upload :: "string \<Rightarrow> 'z upload \<Rightarrow> (string \<times> 'z upload) list \<Rightarrow> (string \<times> 'z upload) list" where
  "put_upload uploadID up m = map (\<lambda>(k, u). (k, if k = uploadID then up else u)) m"

definition uploadNotFound :: "string \<Rightarrow> go_error" where
  "uploadNotFound uploadID = ErrorText (''uploadID: '' @ uploadID @ '' not found'')"

text \<open>The part's data are the bytes its reader delivers and the error it ends with, if any; \<open>eTag\<close> is
  the hash that the reader has computed.\<close>

definition wrap_error :: "'w zenv \<Rightarrow> string \<Rightarrow> go_error \<Rightarrow> go_error" where
  "wrap_error env msg err = ErrorText (msg @ ErrorString env err)"

definition PutObjectPart ::
  "'w zenv \<Rightarrow> string \<Rightarrow> string \<Rightarrow> string \<Rightarrow> int \<Rightarrow> bytes \<Rightarrow> go_error option \<Rightarrow> string \<Rightarrow> 'z uploads \<Rightarrow>
     (go_error, PartInfo) result \<times> 'z uploads" where
  "PutObjectPart env bucket object uploadID partID data readErr eTag us =
     (let file = partFilename bucket uploadID object partID in
      case os_WriteFile file [] (up_fs us) of
        Inl err \<Rightarrow> (Inl (wrap_error env ''error creating part file: '' err), us)
      | Inr fs0 \<Rightarrow>
          (case map_of (FileMap us) uploadID of
             None \<Rightarrow> (Inl (uploadNotFound uploadID), us\<lparr>up_fs := fs0\<rparr>)
           | Some up \<Rightarrow>
               (case os_WriteFile file data fs0 of
                  Inl err \<Rightarrow> (Inl (wrap_error env ''error writing part data: '' err), us\<lparr>up_fs := fs0\<rparr>)
                | Inr fs1 \<Rightarrow>
                    (case readErr of
                       Some err \<Rightarrow> (Inl (wrap_error env ''error writing part data: '' err), us\<lparr>up_fs := fs1\<rparr>)
                     | None \<Rightarrow>
                         let up1 = up\<lparr>up_seq := pq_Push (up_seq up) partID\<rparr> in
                         (case os_WriteFile (partETagFilename bucket uploadID object partID) (to_bytes eTag) fs1 of
                            Inl err \<Rightarrow>
                              (Inl (wrap_error env ''error saving ETag file: '' err),
                               us\<lparr>up_fs := fs1, FileMap := put_upload uploadID up1 (FileMap us)\<rparr>)
                          | Inr fs2 \<Rightarrow>
                              (Inr \<lparr>PartNumber = partID, LastModified = 0, PartETag = eTag,
                                 PartInfoSize = int (length data), ActualSize = int (length data)\<rparr>,
                               us\<lparr>up_fs := fs2, FileMap := put_upload uploadID
                                 (up1\<lparr>up_sizes := UpdateFileSize partID (int (length data)) (up_sizes up1)\<rparr>)
                                 (FileMap us)\<rparr>))))))"

section \<open>Completing, listing and aborting\<close>

partial_function (option) etags_from ::
  "string \<Rightarrow> string \<Rightarrow> string \<Rightarrow> file_system \<Rightarrow> int \<Rightarrow> string list \<Rightarrow> string list option" where
  "etags_from bucket uploadID object fs partNumber partETags =
     (case os_ReadFile (partETagFilename bucket uploadID object partNumber) fs of
        Inl _ \<Rightarrow> Some partETags
      | Inr etag \<Rightarrow> etags_from bucket uploadID object fs (partNumber + 1) (partETags @ [of_bytes etag]))"

definition constructCompleteObject ::
  "string \<Rightarrow> string \<Rightarrow> string \<Rightarrow> file_system \<Rightarrow> string option" where
  "constructCompleteObject bucket uploadID object fs =
     map_option concat (etags_from bucket uploadID object fs 1 [])"

text \<open>\<open>CompleteMultipartUpload\<close> up to its wait for the upload, and after it with the SDK's outcome.\<close>

definition complete_begin :: "string \<Rightarrow> 'z uploads \<Rightarrow> (go_error, 'z upload) result \<times> 'z uploads" where
  "complete_begin uploadID us =
     (case map_of (FileMap us) uploadID of
        None \<Rightarrow> (Inl (uploadNotFound uploadID), us)
      | Some up \<Rightarrow>
          let up1 = up\<lparr>up_seq := pq_Done (up_seq up)\<rparr> in
          (Inr up1, us\<lparr>FileMap := put_upload uploadID up1 (FileMap us)\<rparr>))"

definition complete_end ::
  "'w zenv \<Rightarrow> string \<Rightarrow> string \<Rightarrow> string \<Rightarrow> go_error option \<Rightarrow> 'z upload \<Rightarrow> 'z uploads \<times> 'w \<Rightarrow>
     ((go_error, ObjectInfo) result \<times> 'z uploads) option" where
  "complete_end env bucket object uploadID uploadErr up = (\<lambda>(us, w).
     (case (case uploadErr of
              Some err \<Rightarrow> if isSameRootError env err then None else Some err
            | None \<Rightarrow> None) of
        Some err \<Rightarrow> Some (Inl (wrap_error env ''error uploading to Zus storage: '' err), us)
      | None \<Rightarrow>
          (case constructCompleteObject bucket uploadID object (up_fs us) of
             None \<Rightarrow> None
           | Some eTag \<Rightarrow>
               Some (Inr (noObjectInfo\<lparr>oiBucket := bucket, oiName := object, oiETag := eTag,
                       oiSize := fileSize (up_sizes up), oiModTime := TimeNow env w\<rparr>),
                     us\<lparr>up_fs := cleanupPartFilesAndDirs bucket uploadID (up_fs us)\<rparr>))))"

definition GetMultipartInfo :: "string \<Rightarrow> string \<Rightarrow> string \<Rightarrow> string \<times> string \<times> string" where
  "GetMultipartInfo bucket object uploadID = (bucket, object, uploadID)"

definition hex_digit :: "nat \<Rightarrow> char" where
  "hex_digit n = ''0123456789abcdef'' ! (n mod 16)"

definition hex_encode :: "bytes \<Rightarrow> string" where
  "hex_encode bs = concat (map (\<lambda>b. [hex_digit (unat b div 16), hex_digit (unat b)]) bs)"

text \<open>The loop over part numbers \<open>i\<close> to \<open>maxParts\<close>. The modification time of a file is not part of the
  model of the file system: \<open>mtime\<close> gives it.\<close>

function list_parts ::
  "(string \<Rightarrow> int) \<Rightarrow> string \<Rightarrow> string \<Rightarrow> string \<Rightarrow> file_system \<Rightarrow> int \<Rightarrow> int \<Rightarrow> PartInfo list" where
  "list_parts mtime bucket uploadID object fs maxParts i =
     (if i > maxParts then []
      else case os_ReadFile (partETagFilename bucket uploadID object i) fs of
             Inl _ \<Rightarrow> []
           | Inr etag \<Rightarrow>
               \<lparr>PartNumber = i, LastModified = mtime (partETagFilename bucket uploadID object i),
                PartETag = hex_encode etag, PartInfoSize = int (length etag), ActualSize = int (length etag)\<rparr> #
               list_parts mtime bucket uploadID object fs maxParts (i + 1))"
  by pat_completeness auto

termination
  by (relation "measure (\<lambda>(_, _, _, _, _, maxParts, i). nat (maxParts + 1 - i))") auto

declare list_parts.simps [simp del]

definition ListObjectParts ::
  "'w zenv \<Rightarrow> (string \<Rightarrow> int) \<Rightarrow> string \<Rightarrow> string \<Rightarrow> string \<Rightarrow> int \<Rightarrow> int \<Rightarrow> 'z uploads \<Rightarrow> (go_error, PartInfo list) result" where
  "ListObjectParts env mtime bucket object uploadID partNumberMarker maxParts us =
     (let partsInfoPath = Join [localStorageDir, bucket, uploadID, object] in
      if partsInfoPath \<notin> set (fs_dirs (up_fs us)) \<and> map_of (fs_files (up_fs us)) partsInfoPath = None
      then Inl (wrap_error env ''Unable to list object parts: '' (no_such_file partsInfoPath))
      else Inr (list_parts mtime bucket uploadID object (up_fs us) maxParts partNumberMarker))"

text \<open>Closing a channel that is closed already panics.\<close>

definition AbortMultipartUpload :: "string \<Rightarrow> string \<Rightarrow> 'z uploads \<Rightarrow> go_error option \<times> 'z uploads" where
  "AbortMultipartUpload bucket uploadID us =
     (case map_of (FileMap us) uploadID of
        None \<Rightarrow> (Some (ErrorText (''abort - uploadID: '' @ uploadID @ '' not found'')), us)
      | Some up \<Rightarrow>
          if up_cancelClosed up then (Some (Panic ''close of closed channel''), us)
          else (None, us\<lparr>FileMap := put_upload uploadID (up\<lparr>up_cancelClosed := True\<rparr>) (FileMap us),
                         up_fs := cleanupPartFilesAndDirs bucket uploadID (up_fs us)\<rparr>))"

section \<open>Sizes: what the arrivals leave\<close>

lemma UpdateFileSizes_simps [simp]:
  "UpdateFileSizes [] s = s"
  "UpdateFileSizes ((k, sz) # xs) s = UpdateFileSizes xs (UpdateFileSize k sz s)"
  by (simp_all add: UpdateFileSizes_def)

lemma UpdateFileSizes_updated: "lastPartUpdated s \<Longrightarrow> UpdateFileSizes xs s = s"
  by (induction xs) (auto simp: UpdateFileSize_def)

lemma wrap64_sum:
  assumes "0 \<le> (a::int)" and "0 < f" and "a + int (Suc k) * f < 2 ^ 63"
  shows "wrap64 (a + f) = a + f"
proof -
  have "0 \<le> int k * f" "a + f + int k * f < 2 ^ 63" using assms by (simp_all add: algebra_simps)
  then show ?thesis using assms(1,2) by (intro wrap64_small) linarith+
qed

lemma wrap64_last:
  assumes "1 \<le> n" and "0 < short" and "short < full" and "n * full < (2 ^ 63 :: int)"
  shows "wrap64 ((n - 1) * full + short) = (n - 1) * full + short"
proof -
  have "0 \<le> (n - 1) * full" "(n - 1) * full = n * full - full" using assms by (auto simp: algebra_simps)
  then show ?thesis using assms by (intro wrap64_small) linarith+
qed

text \<open>After a full part has come, full parts add up.\<close>

lemma UpdateFileSizes_full:
  assumes "\<forall>(k, sz) \<in> set xs. sz = full" and "0 < full" and "lastPartSize s = full" and "\<not> lastPartUpdated s"
    and "0 \<le> fileSize s" and "fileSize s + int (length xs) * full < 2 ^ 63"
  shows "fileSize (UpdateFileSizes xs s) = fileSize s + int (length xs) * full"
  using assms
proof (induction xs arbitrary: s)
  case (Cons x xs)
  obtain k where x: "x = (k, full)" using Cons.prems(1) by auto
  have "wrap64 (fileSize s + full) = fileSize s + full"
    using wrap64_sum [of "fileSize s" full "length xs"] Cons.prems(2,5,6) by simp
  then have step: "UpdateFileSize k full s = s\<lparr>fileSize := fileSize s + full\<rparr>"
    using Cons.prems(2-4) by (simp add: UpdateFileSize_def)
  show ?case
    using Cons.IH [of "s\<lparr>fileSize := fileSize s + full\<rparr>"] Cons.prems
    by (simp add: x step algebra_simps)
qed simp

text \<open>The short last part fixes the size, whatever comes before or after it.\<close>

lemma UpdateFileSizes_last:
  assumes "\<forall>(k, sz) \<in> set xs. sz = full" and "0 < full" and "0 < short" and "short < full"
    and "lastPartSize s = full" and "\<not> lastPartUpdated s"
    and "0 \<le> fileSize s" and "fileSize s + int (length xs) * full < 2 ^ 63"
    and "1 \<le> n" and "n * full < 2 ^ 63"
  shows "fileSize (UpdateFileSizes (xs @ (n, short) # ys) s) = (n - 1) * full + short"
  using assms
proof (induction xs arbitrary: s)
  case Nil
  have "wrap64 ((n - 1) * full + short) = (n - 1) * full + short"
    using Nil by (intro wrap64_last) auto
  then have "UpdateFileSize n short s = s\<lparr>fileSize := (n - 1) * full + short, lastPartUpdated := True\<rparr>"
    using Nil by (simp add: UpdateFileSize_def)
  then show ?case by (simp add: UpdateFileSizes_updated)
next
  case (Cons x xs)
  obtain k where x: "x = (k, full)" using Cons.prems(1) by auto
  have "wrap64 (fileSize s + full) = fileSize s + full"
    using wrap64_sum [of "fileSize s" full "length xs"] Cons.prems(2,7,8) by simp
  then have step: "UpdateFileSize k full s = s\<lparr>fileSize := fileSize s + full\<rparr>"
    using Cons.prems by (simp add: UpdateFileSize_def)
  show ?case
    using Cons.IH [of "s\<lparr>fileSize := fileSize s + full\<rparr>"] Cons.prems
    by (simp add: x step algebra_simps)
qed

text \<open>The arrivals of an object of \<open>n\<close> parts, all of them full except the last.\<close>

definition part_arrivals :: "int \<Rightarrow> int \<Rightarrow> int \<Rightarrow> (int \<times> int) list" where
  "part_arrivals n full short = map (\<lambda>k. (k, full)) [1..n - 1] @ [(n, short)]"

lemma length_part_arrivals: "1 \<le> n \<Longrightarrow> int (length (part_arrivals n full short)) = n"
  by (simp add: part_arrivals_def)

lemma part_arrivals_in: "x \<in> set (part_arrivals n full short) \<Longrightarrow> snd x = full \<or> x = (n, short)"
  by (auto simp: part_arrivals_def)

lemma part_arrivals_short:
  assumes "mset arrivals = mset (part_arrivals n full short)" and "short \<noteq> full"
  obtains xs ys where "arrivals = xs @ (n, short) # ys" "\<forall>(k, sz) \<in> set (xs @ ys). sz = full"
proof -
  have "(n, short) \<in> set arrivals"
    using assms(1) by (metis in_set_conv_decomp part_arrivals_def set_mset_mset)
  then obtain xs ys where split: "arrivals = xs @ (n, short) # ys" by (meson split_list)
  with assms(1) have "mset (xs @ ys) = mset (map (\<lambda>k. (k, full)) [1..n - 1])"
    by (simp add: part_arrivals_def)
  then have "set (xs @ ys) = set (map (\<lambda>k. (k, full)) [1..n - 1])" by (rule mset_eq_setD)
  then have "\<forall>(k, sz) \<in> set (xs @ ys). sz = full" by auto
  with split show ?thesis by (rule that)
qed

section \<open>Chunks\<close>

lemma concat_chunks: "0 < n \<Longrightarrow> concat (chunks n bs) = bs"
  by (induction n bs rule: chunks.induct) (subst chunks.simps, auto)

lemma chunks_Nil [simp]: "chunks n [] = []"
  by (simp add: chunks.simps)

lemma length_chunks: "b \<in> set (chunks n bs) \<Longrightarrow> b \<noteq> [] \<and> length b \<le> n"
proof (induction n bs rule: chunks.induct)
  case (1 n bs)
  show ?case
  proof (cases "n = 0 \<or> bs = []")
    case True
    then show ?thesis using 1(2) by (subst (asm) chunks.simps) auto
  next
    case False
    then have "b = take n bs \<or> b \<in> set (chunks n (drop n bs))"
      using 1(2) by (subst (asm) chunks.simps) auto
    then show ?thesis using 1(1) False by auto
  qed
qed

lemma full_chunks: "b \<in> set (chunks n bs) \<Longrightarrow> n dvd length bs \<Longrightarrow> length b = n"
proof (induction n bs rule: chunks.induct)
  case (1 n bs)
  show ?case
  proof (cases "n = 0 \<or> bs = []")
    case True
    then show ?thesis using 1(2) by (subst (asm) chunks.simps) auto
  next
    case False
    then have le: "n \<le> length bs" using 1(3) by (simp add: dvd_imp_le)
    have "b = take n bs \<or> b \<in> set (chunks n (drop n bs))"
      using 1(2) False by (subst (asm) chunks.simps) auto
    then show ?thesis using 1(1,3) False le by auto
  qed
qed

lemma cut_length_dvd: "n dvd cut_length n bs" and cut_length_le: "cut_length n bs \<le> length bs"
proof -
  show "n dvd cut_length n bs" by (simp add: cut_length_def Let_def)
  have "(length bs div n - 1) * n \<le> length bs div n * n" by simp
  moreover have "length bs div n * n \<le> length bs" by simp
  ultimately show "cut_length n bs \<le> length bs" unfolding cut_length_def Let_def by (auto intro: order_trans)
qed

lemma mark_last_bufs: "map mfd_buf (mark_last bs) = bs"
  by (cases bs rule: rev_cases) (auto simp: mark_last_def data_chunk_def comp_def split: list.splits)

text \<open>What goes through the buffer: the data themselves, or what the compressor makes of them.\<close>

fun stream_of :: "'z lz4 \<Rightarrow> bool \<Rightarrow> bytes list \<Rightarrow> 'z \<Rightarrow> (go_error, bytes) result" where
  "stream_of lz toCompress [] z = (if toCompress then fst (lzClose lz z) else Inr [])"
| "stream_of lz toCompress (d # ds) z =
     (case (if toCompress then lzWrite lz d z else (Inr d, z)) of
        (Inl err, _) \<Rightarrow> Inl err
      | (Inr out, z1) \<Rightarrow>
          (case stream_of lz toCompress ds z1 of Inl err \<Rightarrow> Inl err | Inr rest \<Rightarrow> Inr (out @ rest)))"

lemma stream_of_plain: "stream_of lz False ds z = Inr (concat ds)"
  by (induction ds) auto

definition full_chunk :: "nat \<Rightarrow> memFileData \<Rightarrow> bool" where
  "full_chunk n d \<longleftrightarrow> length (mfd_buf d) = n \<and> mfd_err d = None"

definition well_cut :: "nat \<Rightarrow> memFileData list \<Rightarrow> bool" where
  "well_cut n ds \<longleftrightarrow> list_all (full_chunk n) (butlast ds) \<and>
     (ds \<noteq> [] \<longrightarrow> mfd_buf (last ds) \<noteq> [] \<and> length (mfd_buf (last ds)) \<le> n \<and>
        mfd_err (last ds) \<in> {None, Some EOF})"

lemma full_chunk_butlast: "b \<in> set (butlast (chunks n bs)) \<Longrightarrow> length b = n"
proof (induction n bs rule: chunks.induct)
  case (1 n bs)
  have ne: "n \<noteq> 0 \<and> bs \<noteq> []" using 1(2) by (subst (asm) chunks.simps) (auto split: if_splits)
  then have eq: "chunks n bs = take n bs # chunks n (drop n bs)" by (subst chunks.simps) auto
  have more: "chunks n (drop n bs) \<noteq> []" using 1(2) eq by auto
  then have "n < length bs" by (metis chunks_Nil drop_all not_le)
  moreover have "b = take n bs \<or> b \<in> set (butlast (chunks n (drop n bs)))" using 1(2) eq more by auto
  ultimately show ?case using 1(1) ne by auto
qed

lemma well_cut_mark_last: "well_cut n (mark_last (chunks n bs))"
proof (cases "chunks n bs = []")
  case False
  then have "mark_last (chunks n bs) =
      map data_chunk (butlast (chunks n bs)) @ [\<lparr>mfd_buf = last (chunks n bs), mfd_err = Some EOF\<rparr>]"
    by (auto simp: mark_last_def split: list.splits)
  moreover have "last (chunks n bs) \<noteq> [] \<and> length (last (chunks n bs)) \<le> n"
    using False length_chunks last_in_set by blast
  ultimately show ?thesis
    by (auto simp: well_cut_def list_all_iff full_chunk_def data_chunk_def full_chunk_butlast)
qed (simp add: mark_last_def well_cut_def)

lemma well_cut_append:
  assumes "0 < n" and "list_all (full_chunk n) xs" and "well_cut n ys"
  shows "well_cut n (xs @ ys)"
proof (cases "ys = []")
  case True
  then show ?thesis using assms(1,2)
    by (cases xs rule: rev_cases) (auto simp: well_cut_def full_chunk_def)
next
  case False
  then show ?thesis using assms(2,3) by (simp add: well_cut_def butlast_append)
qed

lemma data_chunks:
  "list_all (full_chunk n) (map data_chunk (chunks n (take (cut_length n bs) bs)))"
proof -
  have "n dvd length (take (cut_length n bs) bs)"
    using cut_length_dvd cut_length_le by (metis length_take min.absorb2)
  then show ?thesis by (auto simp: list_all_iff full_chunk_def data_chunk_def full_chunks)
qed

lemma concat_data_chunks: "0 < n \<Longrightarrow> concat (map mfd_buf (map data_chunk (chunks n bs))) = bs"
  by (simp add: data_chunk_def comp_def concat_chunks)

lemma chunk_all_correct:
  assumes "0 < n" and "stream_of lz toCompress ds z = Inr bs"
  shows "\<exists>out. chunk_all lz toCompress n ds (buf, z) = Inr out \<and> well_cut n out \<and>
    concat (map mfd_buf out) = buf @ bs"
  using assms(2)
proof (induction ds arbitrary: buf z bs)
  case Nil
  obtain z1 where "(if toCompress then lzClose lz z else (Inr [], z)) = (Inr bs, z1)"
    using Nil by (cases "lzClose lz z") (auto split: if_splits)
  then show ?case
    using well_cut_mark_last [of n "buf @ bs"] assms(1)
    by (simp add: chunk_end_def mark_last_bufs concat_chunks)
next
  case (Cons d ds)
  obtain o1 z1 rest where wr: "(if toCompress then lzWrite lz d z else (Inr d, z)) = (Inr o1, z1)"
    and rest: "stream_of lz toCompress ds z1 = Inr rest" and bs: "bs = o1 @ rest"
    using Cons.prems by (auto split: prod.splits sum.splits)
  define k where "k = cut_length n (buf @ o1)"
  define cut where "cut = map data_chunk (chunks n (take k (buf @ o1)))"
  have data: "chunk_data lz toCompress n d (buf, z) = (Inr cut, drop k (buf @ o1), z1)"
    by (simp add: chunk_data_def wr Let_def k_def cut_def)
  obtain out where out: "chunk_all lz toCompress n ds (drop k (buf @ o1), z1) = Inr out" "well_cut n out"
      "concat (map mfd_buf out) = drop k (buf @ o1) @ rest"
    using Cons.IH [OF rest] by blast
  have "list_all (full_chunk n) cut" unfolding cut_def k_def by (rule data_chunks)
  then have "well_cut n (cut @ out)" using well_cut_append [OF assms(1)] out(2) by blast
  moreover have "concat (map mfd_buf cut) = take k (buf @ o1)"
    unfolding cut_def using assms(1) by (rule concat_data_chunks)
  then have "concat (map mfd_buf (cut @ out)) = take k (buf @ o1) @ drop k (buf @ o1) @ rest"
    using out(3) by simp
  moreover have "take k (buf @ o1) @ drop k (buf @ o1) @ rest = buf @ bs"
    unfolding bs by (metis append_assoc append_take_drop_id)
  ultimately show ?case using data out(1) by auto
qed

lemma read_chunks_cut:
  assumes "n \<le> m" and "well_cut n ds"
  shows "read_chunks m ds = Inr (concat (map mfd_buf ds))"
  using assms(2)
proof (induction ds)
  case (Cons d ds)
  show ?case
  proof (cases "ds = []")
    case True
    then show ?thesis using Cons.prems assms(1)
      by (auto simp: well_cut_def memFile_Read_def memFile_Read_data_def Let_def)
  next
    case False
    then have "full_chunk n d" "well_cut n ds" using Cons.prems by (auto simp: well_cut_def)
    then show ?thesis using Cons.IH assms(1)
      by (simp add: full_chunk_def memFile_Read_def memFile_Read_data_def Let_def)
  qed
qed simp

section \<open>Part files are distinct\<close>

lemma show_int_no: "c \<noteq> CHR ''-'' \<Longrightarrow> digit_val c = None \<Longrightarrow> c \<notin> set (show_int k)"
  by (simp add: show_int_def Itoa_no_sep)

lemma show_int_inj: "show_int a = show_int b \<Longrightarrow> a = b"
proof -
  assume eq: "show_int a = show_int b"
  have no: "CHR ''-'' \<notin> set (Itoa n)" for n by (simp add: Itoa_no_sep digit_val_def)
  show ?thesis
  proof (cases "a < 0")
    case True
    with eq have "b < 0" using no [of "nat b"] by (cases "b < 0") (auto simp: show_int_def dest: sym)
    with True eq have "Itoa (nat (- a)) = Itoa (nat (- b))" by (simp add: show_int_def)
    from Itoa_inj [OF this] show ?thesis using True \<open>b < 0\<close> by simp
  next
    case False
    with eq have "\<not> b < 0" using no [of "nat a"] by (cases "b < 0") (auto simp: show_int_def)
    with False eq have "Itoa (nat a) = Itoa (nat b)" by (simp add: show_int_def)
    from Itoa_inj [OF this] show ?thesis using False \<open>\<not> b < 0\<close> by simp
  qed
qed

lemma part_name_ok: "name_ok (''part'' @ show_int k)"
  using show_int_no [of slash k] by (auto simp: name_ok_def digit_val_def)

text \<open>Up to the last name, which is \<open>part\<close> and the number, the path does not depend on the number.\<close>

definition part_dir :: "string \<Rightarrow> string \<Rightarrow> string \<Rightarrow> string" where
  "part_dir bucket uploadID object =
     (let ds = rev (foldl (clean_step False) [] (concat (map (split_on slash) [localStorageDir, bucket, uploadID, object])))
      in if ds = [] then [] else join_with [slash] ds @ [slash])"

lemma partFilename_eq: "partFilename bucket uploadID object k = part_dir bucket uploadID object @ ''part'' @ show_int k"
proof -
  let ?ns = "[localStorageDir, bucket, uploadID, object]" and ?x = "''part'' @ show_int k"
  let ?path = "join_with [slash] (?ns @ [?x])"
  have split: "split_on slash ?path = concat (map (split_on slash) ?ns) @ [?x]"
    using split_on_join [of "?ns @ [?x]"] split_name [OF part_name_ok] by simp
  have hd: "?path \<noteq> []" "hd ?path \<noteq> slash" by (simp_all add: localStorageDir_def)
  have "partFilename bucket uploadID object k = Clean ?path"
    by (simp add: partFilename_def Join_def localStorageDir_def)
  also have "\<dots> = join_with [slash] (rev (foldl (clean_step False) [] (concat (map (split_on slash) ?ns))) @ [?x])"
    unfolding Clean_def clean_elems_def split using hd part_name_ok [of k] by (simp split: list.split)
  finally show ?thesis by (simp add: part_dir_def Let_def join_with_append)
qed

lemma partFilename_inj: "partFilename bucket uploadID object j = partFilename bucket uploadID object k \<Longrightarrow> j = k"
  by (simp add: partFilename_eq show_int_inj)

lemma partETagFilename_inj:
  "partETagFilename bucket uploadID object j = partETagFilename bucket uploadID object k \<Longrightarrow> j = k"
  by (simp add: partETagFilename_def partFilename_inj)

lemma partETagFilename_part: "partETagFilename bucket uploadID object j \<noteq> partFilename bucket uploadID object k"
proof
  assume "partETagFilename bucket uploadID object j = partFilename bucket uploadID object k"
  then have "show_int j @ ''.etag'' = show_int k" by (simp add: partETagFilename_def partFilename_eq)
  then have "CHR ''.'' \<in> set (show_int k)" by (metis in_set_conv_decomp)
  then show False using show_int_no [of "CHR ''.''" k] by (simp add: digit_val_def)
qed

lemmas part_names = partFilename_inj partETagFilename_inj partETagFilename_part partETagFilename_part [symmetric]

section \<open>ETag files\<close>

text \<open>The etag files of the parts 1 to \<open>n\<close>, and no others, exist.\<close>

definition etag_files :: "string \<Rightarrow> string \<Rightarrow> string \<Rightarrow> file_system \<Rightarrow> (int \<Rightarrow> string) \<Rightarrow> int \<Rightarrow> bool" where
  "etag_files bucket uploadID object fs etag n \<longleftrightarrow>
     (\<forall>k. map_of (fs_files fs) (partETagFilename bucket uploadID object k) =
        (if 1 \<le> k \<and> k \<le> n then Some (to_bytes (etag k)) else None))"

lemma etag_files_read:
  "etag_files bucket uploadID object fs etag n \<Longrightarrow>
   os_ReadFile (partETagFilename bucket uploadID object k) fs =
     (if 1 \<le> k \<and> k \<le> n then Inr (to_bytes (etag k))
      else Inl (no_such_file (partETagFilename bucket uploadID object k)))"
  by (simp add: etag_files_def os_ReadFile_def)

lemma etags_from_files:
  assumes "etag_files bucket uploadID object fs etag n" and "1 \<le> k"
  shows "etags_from bucket uploadID object fs k acc = Some (acc @ map etag [k..n])"
  using assms(2)
proof (induction "nat (n + 1 - k)" arbitrary: k acc)
  case 0
  then show ?case
    by (subst etags_from.simps) (simp add: etag_files_read [OF assms(1)])
next
  case (Suc m)
  then have "k \<le> n" by simp
  then have "etags_from bucket uploadID object fs k acc =
      etags_from bucket uploadID object fs (k + 1) (acc @ [etag k])"
    using Suc.prems by (subst etags_from.simps) (simp add: etag_files_read [OF assms(1)])
  then show ?case
    using Suc.hyps(1) [of "k + 1" "acc @ [etag k]"] Suc.hyps(2) Suc.prems \<open>k \<le> n\<close>
    by (simp add: upto_rec1)
qed

lemma list_parts_numbers:
  assumes "etag_files bucket uploadID object fs etag n" and "1 \<le> k"
  shows "map PartNumber (list_parts mtime bucket uploadID object fs maxParts k) = [k..min n maxParts]"
  using assms(2)
proof (induction "nat (min n maxParts + 1 - k)" arbitrary: k)
  case 0
  then show ?case
    by (subst list_parts.simps) (auto simp: etag_files_read [OF assms(1)])
next
  case (Suc m)
  then have "k \<le> min n maxParts" by linarith
  then show ?case
    using Suc.hyps(1) [of "k + 1"] Suc.hyps(2) Suc.prems
    by (subst list_parts.simps) (simp add: etag_files_read [OF assms(1)] upto_rec1)
qed

section \<open>Properties\<close>

text \<open>
  C35. When the parts of an object are uploaded, all of one size except a last one that may be
  shorter, the size reported on completion is the size of the object in whatever order the parts
  arrive, provided that the first to arrive is a full one.
\<close>

theorem UpdateFileSize_any_order:
  assumes arr: "mset arrivals = mset (part_arrivals n full short)"
    and sizes: "1 \<le> n" "0 < short" "short \<le> full" "n * full < 2 ^ 63"
    and first: "snd (hd arrivals) = full"
  shows "fileSize (UpdateFileSizes arrivals no_parts) = (n - 1) * full + short"
proof -
  have len: "int (length arrivals) = n"
    using length_part_arrivals [OF sizes(1), of full short] mset_eq_length [OF arr] by simp
  then obtain k as where as: "arrivals = (k, full) # as" using first sizes(1) by (cases arrivals) auto
  have tail: "full + int (length as) * full = n * full"
    using len by (simp add: as algebra_simps flip: len)
  have "0 \<le> int (length as) * full" using sizes by simp
  then have "wrap64 full = full" using tail sizes by (intro wrap64_small) linarith+
  then have start: "UpdateFileSize k full no_parts =
      \<lparr>fileSize = full, lastPartSize = full, lastPartID = k, lastPartUpdated = False\<rparr>"
    by (simp add: UpdateFileSize_def no_parts_def)
  show ?thesis
  proof (cases "short = full")
    case True
    have "\<forall>(k, sz) \<in> set as. sz = full"
      using part_arrivals_in [of _ n full short] mset_eq_setD [OF arr] as True by fastforce
    then have "fileSize (UpdateFileSizes arrivals no_parts) = full + int (length as) * full"
      using UpdateFileSizes_full [of as full] sizes tail by (simp add: as start)
    then show ?thesis using tail True by (simp add: algebra_simps)
  next
    case False
    obtain zs ys where zs: "arrivals = zs @ (n, short) # ys" "\<forall>(k, sz) \<in> set (zs @ ys). sz = full"
      using part_arrivals_short [OF arr False] by blast
    then obtain xs where "zs = (k, full) # xs" using False as by (cases zs) auto
    then have "as = xs @ (n, short) # ys" "\<forall>(k, sz) \<in> set xs. sz = full" using zs as by auto
    moreover have "int (length xs) * full \<le> int (length as) * full"
      using calculation(1) sizes by (intro mult_right_mono) auto
    then have "full + int (length xs) * full < 2 ^ 63" using tail sizes(4) by linarith
    ultimately show ?thesis
      using UpdateFileSizes_last [of xs full short "UpdateFileSize k full no_parts" n ys] sizes False
      by (simp add: as start)
  qed
qed

theorem UpdateFileSize_any_order_witness:
  "fileSize (UpdateFileSizes [(2, 10), (3, 4), (1, 10)] no_parts) = 24"
proof -
  have u: "[1..2::int] = [1, 2]" by (simp add: upto.simps)
  have "mset [(2, 10), (3, 4), (1, 10)] = mset (part_arrivals 3 10 (4::int))"
    by (simp add: part_arrivals_def u)
  from UpdateFileSize_any_order [OF this] show ?thesis by simp
qed

text \<open>
  When the shorter last part of at least three arrives first, the size is counted wrong: each of
  the full parts that arrive after the second is counted once more.
\<close>

theorem UpdateFileSize_last_first:
  assumes arr: "mset ((n, short) # arrivals) = mset (part_arrivals n full short)"
    and sizes: "3 \<le> n" "0 < short" "short < full" "2 * n * full < 2 ^ 63"
  shows "fileSize (UpdateFileSizes ((n, short) # arrivals) no_parts) =
    (n - 1) * full + short + (n - 2) * full"
proof -
  have eq: "mset arrivals = mset (map (\<lambda>k. (k, full)) [1..n - 1])"
    using arr by (simp add: part_arrivals_def)
  then have "length arrivals = nat (n - 1)" using mset_eq_length [OF eq] by simp
  then obtain x as where as: "arrivals = x # as" and len: "int (length as) = n - 2"
    using sizes(1) by (cases arrivals) auto
  have all: "\<forall>(k, sz) \<in> set arrivals. sz = full" using mset_eq_setD [OF eq] by auto
  then obtain k where x: "x = (k, full)" using as by auto
  have nf: "n * full < 2 ^ 63" and pos: "0 \<le> (n - 2) * full" "0 < full"
    using sizes mult_right_mono [of n "2 * n" full] by (auto simp: algebra_simps)
  have "full \<le> n * full" using mult_right_mono [of 1 n full] sizes pos(2) by simp
  then have small: "wrap64 short = short"
    using sizes nf by (intro wrap64_small) linarith+
  have wr: "wrap64 ((n - 1) * full + short) = (n - 1) * full + short"
    using sizes nf by (intro wrap64_last) auto
  let ?s = "\<lparr>fileSize = (n - 1) * full + short, lastPartSize = full, lastPartID = n, lastPartUpdated = False\<rparr>"
  have start: "UpdateFileSizes ((n, short) # arrivals) no_parts = UpdateFileSizes as ?s"
    using sizes wr small by (simp add: as x UpdateFileSize_def no_parts_def)
  have "(n - 1) * full + short + (n - 2) * full < 2 ^ 63"
    using sizes by (simp add: algebra_simps)
  moreover have "0 \<le> (n - 1) * full + short" using sizes by simp
  ultimately have "fileSize (UpdateFileSizes as ?s) = (n - 1) * full + short + int (length as) * full"
    using UpdateFileSizes_full [of as full ?s] all pos(2) as len by simp
  then show ?thesis unfolding start using len by simp
qed

theorem UpdateFileSize_last_first_witness:
  "fileSize (UpdateFileSizes [(3, 4), (1, 10), (2, 10)] no_parts) = 34"
proof -
  have u: "[1..2::int] = [1, 2]" by (simp add: upto.simps)
  have "mset ((3, 4) # [(1, 10), (2, 10)]) = mset (part_arrivals 3 10 (4::int))"
    by (simp add: part_arrivals_def u)
  from UpdateFileSize_last_first [OF this] show ?thesis by simp
qed

text \<open>
  C22. The chunks that the SDK reads carry exactly the data of the upload, however these are divided
  into blocks: all chunks but the last have the full chunk size and no error, the last one has at
  most that size, and a reader with a buffer of at least the chunk size gets the whole stream and
  then end of file. For a compressed upload the stream is what the compressor produced.
\<close>

theorem chunker_preserves:
  assumes "0 < n" and "n \<le> m" and "stream_of lz toCompress ds (lzInit lz) = Inr bs"
  shows "\<exists>out. chunk_all lz toCompress n ds ([], lzInit lz) = Inr out \<and> well_cut n out \<and>
    read_chunks m out = Inr bs"
proof -
  obtain out where out: "chunk_all lz toCompress n ds ([], lzInit lz) = Inr out" "well_cut n out"
      "concat (map mfd_buf out) = [] @ bs"
    using chunk_all_correct [OF assms(1,3), of "[]"] by blast
  with read_chunks_cut [OF assms(2)] show ?thesis by auto
qed

definition plain_lz4 :: "unit lz4" where
  "plain_lz4 = \<lparr>lzInit = (), lzWrite = (\<lambda>bs z. (Inr bs, z)), lzClose = (\<lambda>z. (Inr [], z))\<rparr>"

theorem chunker_preserves_witness:
  "\<exists>out. chunk_all plain_lz4 False 2 [[1, 2, 3], [4, 5]] ([], ()) = Inr out \<and> well_cut 2 out \<and>
     read_chunks 2 out = Inr [1, 2, 3, 4, 5]"
  using chunker_preserves [of 2 2 plain_lz4 False "[[1, 2, 3], [4, 5]]" "[1, 2, 3, 4, 5]"]
  by (simp add: stream_of_plain plain_lz4_def)

text \<open>
  C36. Completing an upload whose parts 1 to \<open>n\<close> have their etag files ends, and the object's etag is
  the concatenation of theirs in the order of the part numbers.
\<close>

theorem constructCompleteObject_etags:
  assumes "etag_files bucket uploadID object fs etag n"
  shows "constructCompleteObject bucket uploadID object fs = Some (concat (map etag [1..n]))"
  using etags_from_files [OF assms, of 1 "[]"] by (simp add: constructCompleteObject_def)

definition two_etags :: file_system where
  "two_etags = \<lparr>fs_files = [(partETagFilename ''b'' ''u'' ''o'' 2, to_bytes ''22''),
     (partETagFilename ''b'' ''u'' ''o'' 1, to_bytes ''11'')],
     fs_dirs = [Join [localStorageDir, ''b'', ''u'', ''o'']]\<rparr>"

lemma two_etags_files: "etag_files ''b'' ''u'' ''o'' two_etags (\<lambda>k. if k = 1 then ''11'' else ''22'') 2"
  unfolding etag_files_def
proof
  fix k :: int
  have eq: "(partETagFilename ''b'' ''u'' ''o'' k = partETagFilename ''b'' ''u'' ''o'' j) = (k = j)" for j
    using partETagFilename_inj [of "''b''" "''u''" "''o''" k j] by blast
  show "map_of (fs_files two_etags) (partETagFilename ''b'' ''u'' ''o'' k) =
      (if 1 \<le> k \<and> k \<le> 2 then Some (to_bytes (if k = 1 then ''11'' else ''22'')) else None)"
    by (simp only: two_etags_def file_system.simps map_of.simps fst_conv snd_conv fun_upd_apply eq) auto
qed

theorem constructCompleteObject_etags_witness:
  "constructCompleteObject ''b'' ''u'' ''o'' two_etags = Some ''1122''"
proof -
  have u: "[1..2::int] = [1, 2]" by (simp add: upto.simps)
  show ?thesis using constructCompleteObject_etags [OF two_etags_files] by (simp add: u)
qed

text \<open>
  Listing the parts of an upload from part number \<open>m\<close> on gives the parts \<open>m\<close> to \<open>maxParts\<close> that
  exist, part \<open>m\<close> itself included; with the marker 0, which a client sends to list from the start, it
  gives none at all.
\<close>

theorem ListObjectParts_marker:
  assumes "etag_files bucket uploadID object (up_fs us) etag n" and "0 \<le> m" and "0 \<le> maxParts"
    and "Join [localStorageDir, bucket, uploadID, object] \<in> set (fs_dirs (up_fs us))"
  shows "\<exists>parts. ListObjectParts env mtime bucket object uploadID m maxParts us = Inr parts \<and>
    map PartNumber parts = (if m = 0 then [] else [m..min n maxParts])"
proof (cases "m = 0")
  case True
  then have "list_parts mtime bucket uploadID object (up_fs us) maxParts m = []"
    by (subst list_parts.simps) (simp add: etag_files_read [OF assms(1)])
  then show ?thesis using True assms(4) by (simp add: ListObjectParts_def)
next
  case False
  then show ?thesis
    using list_parts_numbers [OF assms(1), of m mtime maxParts] assms(2,4) by (simp add: ListObjectParts_def)
qed

theorem ListObjectParts_marker_witness:
  "\<exists>parts. ListObjectParts range_env (\<lambda>_. 0) ''b'' ''o'' ''u'' 0 1000 (\<lparr>FileMap = [], up_fs = two_etags\<rparr> :: unit uploads) =
     Inr parts \<and> parts = []"
  using ListObjectParts_marker [of "''b''" "''u''" "''o''" "\<lparr>FileMap = [], up_fs = two_etags\<rparr>" _ 2 0 1000 range_env "\<lambda>_. 0"]
    two_etags_files by (simp add: two_etags_def)

end
