(* ===== verification/Zcn_MultipartFlow.thy ===== *)
theory Zcn_MultipartFlow
  imports Zcn_Multipart
begin

text \<open>
  One multipart upload from end to end: the handlers that clients call, the feeder goroutine that
  reads the part files in the order of the sequence queue, and the chunker goroutine that hands
  chunks to the memory file which the SDK reads, in every interleaving.
\<close>

section \<open>The goroutines\<close>

definition offer_error :: "string \<Rightarrow> 'z upload \<Rightarrow> 'z upload" where
  "offer_error msg up = up\<lparr>up_mem := (up_mem up)\<lparr>mf_errs := mf_errs (up_mem up) @ [ErrorText msg]\<rparr>\<rparr>"

text \<open>Sending on \<open>cancelC\<close>, which buffers one message: \<open>None\<close> is a send that waits, and a send on the
  closed channel panics.\<close>

definition send_cancel :: "'z upload \<Rightarrow> 'z upload option" where
  "send_cancel up =
     (if up_cancelClosed up then Some (up\<lparr>up_feeder := GPanic, up_chunker := GPanic\<rparr>)
      else if up_cancelMsg up then None
      else Some (up\<lparr>up_cancelMsg := True\<rparr>))"

definition cancel_ready :: "'z upload \<Rightarrow> bool" where
  "cancel_ready up \<longleftrightarrow> up_cancelMsg up \<or> up_cancelClosed up"

definition feeder_select :: "'z upload \<Rightarrow> 'z upload option" where
  "feeder_select up =
     (if up_feeder up \<noteq> GSelect then None
      else if cancel_ready up
      then Some (offer_error ''upload is canceled'' (up\<lparr>up_cancelMsg := False, up_feeder := GError\<rparr>))
      else Some (up\<lparr>up_feeder := GPopup\<rparr>))"

definition feeder_pop ::
  "string \<Rightarrow> string \<Rightarrow> string \<Rightarrow> 'z upload \<times> file_system \<Rightarrow> ('z upload \<times> file_system) option" where
  "feeder_pop bucket uploadID object = (\<lambda>(up, fs).
     (if up_feeder up \<noteq> GPopup then None
      else case pq_Popup (up_seq up) of
             None \<Rightarrow> None
           | Some (partNumber, pq) \<Rightarrow>
               let up1 = up\<lparr>up_seq := pq, up_feeder := GSelect\<rparr>;
                   file = partFilename bucket uploadID object partNumber
               in if partNumber = -1 then Some (up1\<lparr>up_dataClosed := True, up_feeder := GStopped\<rparr>, fs)
                  else case os_ReadFile file fs of
                         Inl _ \<Rightarrow> map_option (\<lambda>up2. (up2, fs)) (send_cancel up1)
                       | Inr data \<Rightarrow>
                           if length (up_dataC up) < 20
                           then Some (up1\<lparr>up_dataC := up_dataC up @ [data]\<rparr>, os_Remove file fs)
                           else None))"

text \<open>The chunker takes a block of data, or the end of the data, and cuts it. The bytes are counted when they are
  cut; the count is read only at the end.\<close>

definition cut_out :: "memFileData list \<Rightarrow> 'z upload \<Rightarrow> 'z upload" where
  "cut_out ds up = up\<lparr>up_out := ds, up_sent := up_sent up + int (length (concat (map mfd_buf ds)))\<rparr>"

definition chunker_recv :: "'z lz4 \<Rightarrow> nat \<Rightarrow> 'z upload \<Rightarrow> 'z upload option" where
  "chunker_recv lz n up =
     (if up_chunker up \<noteq> GSelect then None
      else case up_dataC up of
             data # rest \<Rightarrow>
               (case chunk_data lz (up_compress up) n data (up_buf up, up_lz up) of
                  (Inl err, buf, z) \<Rightarrow> send_cancel (up\<lparr>up_dataC := rest, up_lz := z\<rparr>)
                | (Inr ds, buf, z) \<Rightarrow>
                    Some (cut_out ds (up\<lparr>up_dataC := rest, up_buf := buf, up_lz := z, up_chunker := GSend\<rparr>)))
           | [] \<Rightarrow>
               if \<not> up_dataClosed up then None
               else (case chunk_end lz (up_compress up) n (up_buf up, up_lz up) of
                  (Inl err, buf, z) \<Rightarrow> send_cancel (up\<lparr>up_lz := z\<rparr>)
                | (Inr ds, buf, z) \<Rightarrow> Some (cut_out ds (up\<lparr>up_buf := buf, up_lz := z, up_chunker := GSendLast\<rparr>))))"

text \<open>One turn of the loop that sends the chunks: a send waits while the channel is full. After the last chunk
  the chunker goes back to its select, or, at the end of the data, closes the channel.\<close>

definition chunker_send :: "'z upload \<Rightarrow> 'z upload option" where
  "chunker_send up =
     (if up_chunker up \<noteq> GSend \<and> up_chunker up \<noteq> GSendLast then None
      else case up_out up of
             d # ds \<Rightarrow>
               if length (mf_data (up_mem up)) < memFileDataChan_cap
               then Some (up\<lparr>up_out := ds, up_mem := (up_mem up)\<lparr>mf_data := mf_data (up_mem up) @ [d]\<rparr>\<rparr>)
               else None
           | [] \<Rightarrow>
               if up_chunker up = GSend then Some (up\<lparr>up_chunker := GSelect\<rparr>)
               else Some (up\<lparr>up_chunker := GStopped, up_mem := (up_mem up)\<lparr>mf_closed := True\<rparr>,
                      up_sizes := (if up_compress up then (up_sizes up)\<lparr>fileSize := up_sent up\<rparr> else up_sizes up)\<rparr>))"

definition chunker_stop :: "string \<Rightarrow> 'z upload \<Rightarrow> 'z upload" where
  "chunker_stop msg up = offer_error msg (up\<lparr>up_cancelMsg := False, up_chunker := GError\<rparr>)"

section \<open>The steps of an upload\<close>

datatype flow_event =
    PartIn int bytes string
  | Complete
  | Abort
  | FeederSelect
  | FeederPop
  | ChunkerRecv
  | ChunkerSend
  | SdkRead nat bytes "io_error option"
  | ChunkerCancel
  | ChunkerTimeout
  | FeederErrorTaken
  | ChunkerErrorTaken
  | UploadFailed

text \<open>\<open>SdkRead m bs e\<close> is a call of \<open>Read\<close> by the SDK, with a buffer of \<open>m\<close> bytes, that takes a chunk or finds the channel
  closed, and its answer; a \<open>Read\<close> that takes an error is \<open>FeederErrorTaken\<close> or \<open>ChunkerErrorTaken\<close>.
  The handlers change no entry of \<open>FileMap\<close> but that of the upload.\<close>

abbreviation alone :: "string \<Rightarrow> 'z upload \<times> file_system \<Rightarrow> 'z uploads" where
  "alone uploadID st \<equiv> \<lparr>FileMap = [(uploadID, fst st)], up_fs = snd st\<rparr>"

inductive flow_step ::
  "'w zenv \<Rightarrow> 'z lz4 \<Rightarrow> nat \<Rightarrow> string \<Rightarrow> string \<Rightarrow> string \<Rightarrow>
     'z upload \<times> file_system \<Rightarrow> flow_event \<Rightarrow> 'z upload \<times> file_system \<Rightarrow> bool"
  for env lz n bucket object uploadID where
  part_in: "PutObjectPart env bucket object uploadID k data None eTag (alone uploadID st) =
      (Inr info, alone uploadID st') \<Longrightarrow>
    flow_step env lz n bucket object uploadID st (PartIn k data eTag) st'"
| complete: "complete_begin uploadID (alone uploadID st) = (Inr up, alone uploadID st') \<Longrightarrow>
    flow_step env lz n bucket object uploadID st Complete st'"
| abort: "AbortMultipartUpload bucket uploadID (alone uploadID st) = (None, alone uploadID st') \<Longrightarrow>
    flow_step env lz n bucket object uploadID st Abort st'"
| feeder_sel: "feeder_select up = Some up' \<Longrightarrow>
    flow_step env lz n bucket object uploadID (up, fs) FeederSelect (up', fs)"
| feeder_part: "feeder_pop bucket uploadID object st = Some st' \<Longrightarrow>
    flow_step env lz n bucket object uploadID st FeederPop st'"
| chunker_data: "chunker_recv lz n up = Some up' \<Longrightarrow>
    flow_step env lz n bucket object uploadID (up, fs) ChunkerRecv (up', fs)"
| chunker_chunk: "chunker_send up = Some up' \<Longrightarrow>
    flow_step env lz n bucket object uploadID (up, fs) ChunkerSend (up', fs)"
| sdk_read: "memFile_Read_data (up_mem up) m = Some ((bs, e), mf) \<Longrightarrow>
    flow_step env lz n bucket object uploadID (up, fs) (SdkRead m bs e) (up\<lparr>up_mem := mf\<rparr>, fs)"
| chunker_cancel: "up_chunker up = GSelect \<Longrightarrow> cancel_ready up \<Longrightarrow>
    flow_step env lz n bucket object uploadID (up, fs) ChunkerCancel
      (chunker_stop ''upload is canceled'' up, fs)"
| chunker_timeout: "up_chunker up = GSelect \<Longrightarrow>
    flow_step env lz n bucket object uploadID (up, fs) ChunkerTimeout
      (chunker_stop ''upload is timed out'' up, fs)"
| feeder_error: "up_feeder up = GError \<Longrightarrow>
    flow_step env lz n bucket object uploadID (up, fs) FeederErrorTaken
      (up\<lparr>up_feeder := GStopped, up_mem := (up_mem up)\<lparr>mf_errs := tl (mf_errs (up_mem up))\<rparr>\<rparr>,
       cleanupPartFilesAndDirs bucket uploadID fs)"
| chunker_error: "up_chunker up = GError \<Longrightarrow>
    flow_step env lz n bucket object uploadID (up, fs) ChunkerErrorTaken
      (up\<lparr>up_chunker := GStopped, up_mem := (up_mem up)\<lparr>mf_errs := tl (mf_errs (up_mem up))\<rparr>\<rparr>,
       cleanupPartFilesAndDirs bucket uploadID fs)"
| upload_failed: "flow_step env lz n bucket object uploadID (up, fs) UploadFailed
      (up, cleanupPartFilesAndDirs bucket uploadID fs)"

inductive flow_run ::
  "'w zenv \<Rightarrow> 'z lz4 \<Rightarrow> nat \<Rightarrow> string \<Rightarrow> string \<Rightarrow> string \<Rightarrow>
     'z upload \<times> file_system \<Rightarrow> flow_event list \<Rightarrow> 'z upload \<times> file_system \<Rightarrow> bool"
  for env lz n bucket object uploadID where
  flow_nil: "flow_run env lz n bucket object uploadID st [] st"
| flow_snoc: "flow_run env lz n bucket object uploadID st es st' \<Longrightarrow>
    flow_step env lz n bucket object uploadID st' e st'' \<Longrightarrow>
    flow_run env lz n bucket object uploadID st (es @ [e]) st''"

inductive_cases flow_partE: "flow_step env lz n bucket object uploadID st (PartIn k data eTag) st'"
inductive_cases flow_completeE: "flow_step env lz n bucket object uploadID st Complete st'"
inductive_cases flow_selectE: "flow_step env lz n bucket object uploadID st FeederSelect st'"
inductive_cases flow_popE: "flow_step env lz n bucket object uploadID st FeederPop st'"
inductive_cases flow_recvE: "flow_step env lz n bucket object uploadID st ChunkerRecv st'"
inductive_cases flow_sendE: "flow_step env lz n bucket object uploadID st ChunkerSend st'"
inductive_cases flow_readE: "flow_step env lz n bucket object uploadID st (SdkRead m bs e) st'"
inductive_cases flow_cancelE: "flow_step env lz n bucket object uploadID st ChunkerCancel st'"
inductive_cases flow_ferrE: "flow_step env lz n bucket object uploadID st FeederErrorTaken st'"
inductive_cases flow_cerrE: "flow_step env lz n bucket object uploadID st ChunkerErrorTaken st'"

section \<open>The store of parts\<close>

text \<open>What the upload needs of the part files: a stored part is found until it is discarded, and
  storing or discarding one part leaves the others alone.\<close>

locale part_store =
  fixes put :: "int \<Rightarrow> bytes \<Rightarrow> string \<Rightarrow> 's \<Rightarrow> 's option"
    and fetch :: "'s \<Rightarrow> int \<Rightarrow> bytes option"
    and discard :: "int \<Rightarrow> 's \<Rightarrow> 's"
  assumes fetch_put: "put k data tag s = Some s' \<Longrightarrow> fetch s' j = (if j = k then Some data else fetch s j)"
    and fetch_discard: "fetch (discard k s) j = (if j = k then None else fetch s j)"
begin

text \<open>The parts from \<open>k\<close> on are in the store.\<close>

definition holds_from :: "'s \<Rightarrow> (int \<times> bytes) list \<Rightarrow> int \<Rightarrow> bool" where
  "holds_from s parts k \<longleftrightarrow> (\<forall>j data. map_of parts j = Some data \<longrightarrow> k \<le> j \<longrightarrow> fetch s j = Some data)"

lemma holds_put:
  assumes "put j data tag s = Some s'" and "holds_from s parts k" and "j \<notin> fst ` set parts"
  shows "holds_from s' (parts @ [(j, data)]) k"
proof -
  have "map_of parts j = None" using assms(3) by (simp add: map_of_eq_None_iff)
  then show ?thesis using assms(2) by (auto simp: holds_from_def fetch_put [OF assms(1)] map_add_def split: option.splits)
qed

lemma holds_discard: "holds_from s parts k \<Longrightarrow> holds_from (discard k s) parts (k + 1)"
  by (auto simp: holds_from_def fetch_discard)

end

definition part_put ::
  "string \<Rightarrow> string \<Rightarrow> string \<Rightarrow> int \<Rightarrow> bytes \<Rightarrow> string \<Rightarrow> file_system \<Rightarrow> file_system option" where
  "part_put bucket uploadID object k data eTag fs =
     (case os_WriteFile (partFilename bucket uploadID object k) [] fs of
        Inl _ \<Rightarrow> None
      | Inr fs0 \<Rightarrow>
          (case os_WriteFile (partFilename bucket uploadID object k) data fs0 of
             Inl _ \<Rightarrow> None
           | Inr fs1 \<Rightarrow>
               (case os_WriteFile (partETagFilename bucket uploadID object k) (to_bytes eTag) fs1 of
                  Inl _ \<Rightarrow> None | Inr fs2 \<Rightarrow> Some fs2)))"

definition part_fetch :: "string \<Rightarrow> string \<Rightarrow> string \<Rightarrow> file_system \<Rightarrow> int \<Rightarrow> bytes option" where
  "part_fetch bucket uploadID object fs k =
     (case os_ReadFile (partFilename bucket uploadID object k) fs of Inl _ \<Rightarrow> None | Inr data \<Rightarrow> Some data)"

definition part_discard :: "string \<Rightarrow> string \<Rightarrow> string \<Rightarrow> int \<Rightarrow> file_system \<Rightarrow> file_system" where
  "part_discard bucket uploadID object k fs = os_Remove (partFilename bucket uploadID object k) fs"

interpretation part_files: part_store "part_put bucket uploadID object" "part_fetch bucket uploadID object"
  "part_discard bucket uploadID object" for bucket uploadID object
proof unfold_locales
  fix k data tag s s' j
  let ?file = "partFilename bucket uploadID object" and ?tag = "partETagFilename bucket uploadID object"
  assume "part_put bucket uploadID object k data tag s = Some s'"
  then obtain s0 s1 where w: "os_WriteFile (?file k) [] s = Inr s0" "os_WriteFile (?file k) data s0 = Inr s1"
      "os_WriteFile (?tag k) (to_bytes tag) s1 = Inr s'"
    by (auto simp: part_put_def split: sum.splits)
  have same: "(?file j = ?file k) = (j = k)" "(?file j = ?tag k) = False"
    using partFilename_inj partETagFilename_part by metis+
  show "part_fetch bucket uploadID object s' j =
      (if j = k then Some data else part_fetch bucket uploadID object s j)"
    by (simp add: part_fetch_def ReadFile_WriteFile(1) [OF w(3)] ReadFile_WriteFile(1) [OF w(2)]
        ReadFile_WriteFile(1) [OF w(1)] same)
next
  show "part_fetch bucket uploadID object (part_discard bucket uploadID object k s) j =
      (if j = k then None else part_fetch bucket uploadID object s j)" for k s j
    using partFilename_inj [of bucket uploadID object j k]
    by (auto simp: part_discard_def part_fetch_def ReadFile_Remove(1))
qed

section \<open>The invariant of an upload that is not cancelled\<close>

fun parts_in :: "flow_event list \<Rightarrow> (int \<times> bytes) list" where
  "parts_in [] = []"
| "parts_in (PartIn k data eTag # es) = (k, data) # parts_in es"
| "parts_in (_ # es) = parts_in es"

lemma parts_in_append: "parts_in (es @ fs) = parts_in es @ parts_in fs"
  by (induction es rule: parts_in.induct) auto

text \<open>The answers that the SDK got.\<close>

fun sdk_reads :: "flow_event list \<Rightarrow> (bytes \<times> io_error option) list" where
  "sdk_reads [] = []"
| "sdk_reads (SdkRead m bs e # es) = (bs, e) # sdk_reads es"
| "sdk_reads (_ # es) = sdk_reads es"

lemma sdk_reads_append: "sdk_reads (es @ fs) = sdk_reads es @ sdk_reads fs"
  by (induction es rule: sdk_reads.induct) auto

definition content :: "(int \<times> bytes) list \<Rightarrow> int \<Rightarrow> bytes" where
  "content parts k = (case map_of parts k of None \<Rightarrow> [] | Some data \<Rightarrow> data)"

text \<open>The queue: the numbers uploaded are those handed out and those pending.\<close>

definition queue_inv :: "(int \<times> bytes) list \<Rightarrow> bool \<Rightarrow> SeqPriorityQueue \<Rightarrow> bool" where
  "queue_inv parts completed pq \<longleftrightarrow> pq_ok pq \<and> 1 \<le> pq_next pq \<and> pq_done pq = completed \<and>
     pq_start pq = (1 \<in> fst ` set parts) \<and>
     mset (map fst parts) = mset [1..pq_next pq - 1] + pq_pending pq"

text \<open>How the chunks are cut, while the chunker receives data and after their end.\<close>

definition cut_ok :: "nat \<Rightarrow> goroutine \<Rightarrow> memFileData list \<Rightarrow> memFileData list \<Rightarrow> bytes \<Rightarrow> bytes list \<Rightarrow> bool" where
  "cut_ok n ph chan out buf dataC \<longleftrightarrow>
     (if ph = GSelect \<or> ph = GSend then list_all (full_chunk n) (chan @ out)
      else well_cut n (chan @ out) \<and> buf = [] \<and> dataC = []) \<and>
     (ph = GSelect \<or> ph = GStopped \<longrightarrow> out = [])"

text \<open>The data: what the SDK has read, what is in the channel, what the chunker has cut, what it buffers and what
  waits for it are the parts handed out, in order; no read has failed.\<close>

definition data_inv :: "nat \<Rightarrow> (int \<times> bytes) list \<Rightarrow> (bytes \<times> io_error option) list \<Rightarrow> 'z upload \<Rightarrow> bool" where
  "data_inv n parts rds up \<longleftrightarrow>
     concat (map fst rds) @ concat (map mfd_buf (mf_data (up_mem up) @ up_out up)) @ up_buf up @ concat (up_dataC up) =
       concat (map (content parts) [1..pq_next (up_seq up) - 1]) \<and>
     list_all (\<lambda>r. snd r \<in> {None, Some EOF}) rds \<and>
     cut_ok n (up_chunker up) (mf_data (up_mem up)) (up_out up) (up_buf up) (up_dataC up)"

definition control_inv :: "bool \<Rightarrow> 'z upload \<Rightarrow> bool" where
  "control_inv completed up \<longleftrightarrow>
     \<not> up_compress up \<and> \<not> up_cancelMsg up \<and> \<not> up_cancelClosed up \<and>
     up_feeder up \<in> {GSelect, GPopup, GStopped} \<and> up_chunker up \<in> {GSelect, GSend, GSendLast, GStopped} \<and>
     (up_feeder up = GStopped \<longleftrightarrow> up_dataClosed up) \<and>
     (up_chunker up = GStopped \<longleftrightarrow> mf_closed (up_mem up)) \<and>
     (up_dataClosed up \<longrightarrow> completed \<and> pq_pending (up_seq up) = {#}) \<and>
     (up_chunker up \<in> {GSendLast, GStopped} \<longrightarrow> up_dataClosed up)"

definition flow_inv ::
  "nat \<Rightarrow> string \<Rightarrow> string \<Rightarrow> string \<Rightarrow> (int \<times> bytes) list \<Rightarrow> (bytes \<times> io_error option) list \<Rightarrow> bool
     \<Rightarrow> 'z upload \<times> file_system \<Rightarrow> bool" where
  "flow_inv n bucket uploadID object parts rds completed st \<longleftrightarrow>
     distinct (map fst parts) \<and> queue_inv parts completed (up_seq (fst st)) \<and> data_inv n parts rds (fst st) \<and>
     control_inv completed (fst st) \<and>
     part_files.holds_from bucket uploadID object (snd st) parts (pq_next (up_seq (fst st)))"

lemmas flow_inv_defs = flow_inv_def queue_inv_def data_inv_def control_inv_def

lemma flow_inv_new:
  "flow_inv n bucket uploadID object [] [] False (new_upload lz request False, fs)"
  by (simp add: flow_inv_defs cut_ok_def new_upload_def part_files.holds_from_def pq_ok_New pq_New_view)

text \<open>A new part leaves the data of the parts handed out alone.\<close>

lemma content_append:
  assumes "\<forall>k \<in> set ks. k \<in> fst ` set parts"
  shows "map (content (parts @ extra)) ks = map (content parts) ks"
proof -
  have "map_of (parts @ extra) k = map_of parts k" if "k \<in> fst ` set parts" for k
    using that by (auto simp: map_add_def split: option.splits) (metis domIff dom_map_of_conv_image_fst imageI fst_conv option.distinct(1))
  then show ?thesis using assms by (simp add: content_def)
qed

lemma queue_inv_handed: "queue_inv parts completed pq \<Longrightarrow> \<forall>k \<in> set [1..pq_next pq - 1]. k \<in> fst ` set parts"
proof
  fix k
  assume inv: "queue_inv parts completed pq" and k: "k \<in> set [1..pq_next pq - 1]"
  then have "k \<in># mset (map fst parts)" unfolding queue_inv_def by (metis in_multiset_in_set union_iff)
  then show "k \<in> fst ` set parts" by simp
qed

lemma queue_inv_push:
  assumes "queue_inv parts completed pq"
  shows "queue_inv (parts @ [(k, data)]) completed (pq_Push pq k)"
    and "pq_next (pq_Push pq k) = pq_next pq" and "pq_pending (pq_Push pq k) = add_mset k (pq_pending pq)"
  using assms seqpq.push_view [of pq k] seqpq.ok_push [of pq k] by (auto simp: queue_inv_def)

lemma flow_inv_part:
  assumes inv: "flow_inv n bucket uploadID object parts rds False (up, fs)" and new: "k \<notin> fst ` set parts"
    and put: "PutObjectPart env bucket object uploadID k data None eTag (alone uploadID (up, fs)) =
      (Inr info, alone uploadID (up', fs'))"
  shows "flow_inv n bucket uploadID object (parts @ [(k, data)]) rds False (up', fs')"
proof -
  have stored: "part_put bucket uploadID object k data eTag fs = Some fs'"
    and up': "up' = up\<lparr>up_seq := pq_Push (up_seq up) k,
      up_sizes := UpdateFileSize k (int (length data)) (up_sizes up)\<rparr>"
    using put by (auto simp: PutObjectPart_def part_put_def put_upload_def Let_def split: sum.splits)
  have q: "queue_inv parts False (up_seq up)" using inv by (simp add: flow_inv_def)
  have handed: "map (content (parts @ [(k, data)])) [1..pq_next (up_seq up) - 1] =
      map (content parts) [1..pq_next (up_seq up) - 1]"
    using queue_inv_handed [OF q] by (rule content_append)
  have "queue_inv (parts @ [(k, data)]) False (up_seq up')" using queue_inv_push(1) [OF q] up' by simp
  moreover have "data_inv n (parts @ [(k, data)]) rds up'"
    using inv queue_inv_push(2) [OF q] by (simp add: flow_inv_def data_inv_def up' handed)
  moreover have "control_inv False up'" using inv by (auto simp: flow_inv_def control_inv_def up')
  moreover have "part_files.holds_from bucket uploadID object fs' (parts @ [(k, data)]) (pq_next (up_seq up'))"
    using part_files.holds_put [OF stored _ new] inv queue_inv_push(2) [OF q] by (simp add: flow_inv_def up')
  ultimately show ?thesis using inv new by (simp add: flow_inv_def)
qed

lemma flow_inv_complete:
  assumes inv: "flow_inv n bucket uploadID object parts rds completed (up, fs)"
    and "complete_begin uploadID (alone uploadID (up, fs)) = (Inr u, alone uploadID (up', fs'))"
  shows "flow_inv n bucket uploadID object parts rds True (up', fs')"
proof -
  have up': "up' = up\<lparr>up_seq := pq_Done (up_seq up)\<rparr>" "fs' = fs"
    using assms(2) by (auto simp: complete_begin_def put_upload_def Let_def)
  have "pq_ok (up_seq up)" using inv by (simp add: flow_inv_defs)
  from seqpq.close_view [OF this] seqpq.ok_close [OF this] show ?thesis
    using inv by (auto simp: flow_inv_defs up')
qed

lemma flow_inv_select:
  assumes "flow_inv n bucket uploadID object parts rds completed (up, fs)" and "feeder_select up = Some up'"
  shows "flow_inv n bucket uploadID object parts rds completed (up', fs)"
  using assms by (auto simp: flow_inv_defs feeder_select_def cancel_ready_def split: if_splits)

lemma flow_inv_pop:
  assumes inv: "flow_inv n bucket uploadID object parts rds completed (up, fs)"
    and pop: "feeder_pop bucket uploadID object (up, fs) = Some (up', fs')"
  shows "flow_inv n bucket uploadID object parts rds completed (up', fs')"
proof -
  have phase: "up_feeder up = GPopup" using pop by (auto simp: feeder_pop_def split: if_splits)
  obtain v pq where v: "pq_Popup (up_seq up) = Some (v, pq)"
    using pop phase by (auto simp: feeder_pop_def split: option.splits)
  have q: "queue_inv parts completed (up_seq up)" and ok: "pq_ok (up_seq up)" and pos: "1 \<le> pq_next (up_seq up)"
    using inv by (auto simp: flow_inv_defs)
  from seqpq.pop_cases [OF ok v] show ?thesis
  proof (elim disjE)
    assume "v = -1 \<and> pq = up_seq up \<and> pq_pending (up_seq up) = {#} \<and> pq_done (up_seq up) \<and> pq_start (up_seq up)"
    then have closed: "v = -1" "pq = up_seq up" "pq_pending (up_seq up) = {#}" "pq_done (up_seq up)" by auto
    then have "up' = up\<lparr>up_dataClosed := True, up_feeder := GStopped\<rparr>" "fs' = fs"
      using pop phase v by (auto simp: feeder_pop_def Let_def)
    then show ?thesis using inv closed by (auto simp: flow_inv_defs)
  next
    assume nxt: "v = pq_next (up_seq up) \<and> pq_next pq = pq_next (up_seq up) + 1 \<and>
      pq_pending (up_seq up) = add_mset v (pq_pending pq) \<and> pq_start (up_seq up) \<and>
      pq_start pq \<and> pq_done pq = pq_done (up_seq up) \<and> pq_ok pq \<and> (\<forall>y \<in># pq_pending (up_seq up). v \<le> y)"
    have "v \<in># mset (map fst parts)" using q nxt by (simp add: queue_inv_def)
    then obtain data where data: "map_of parts v = Some data"
      by (metis domD dom_map_of_conv_image_fst list.set_map set_mset_mset)
    then have "part_fetch bucket uploadID object fs v = Some data"
      using inv nxt by (simp add: flow_inv_def part_files.holds_from_def)
    then have read: "os_ReadFile (partFilename bucket uploadID object v) fs = Inr data"
      by (auto simp: part_fetch_def split: sum.splits)
    have "v \<noteq> -1" using nxt pos by simp
    then have up': "up' = up\<lparr>up_seq := pq, up_feeder := GSelect, up_dataC := up_dataC up @ [data]\<rparr>"
        and fs': "fs' = part_discard bucket uploadID object v fs"
      using pop phase v read by (auto simp: feeder_pop_def part_discard_def Let_def split: if_splits)
    have upto: "[1..pq_next pq - 1] = [1..pq_next (up_seq up) - 1] @ [v]"
      using nxt pos upto_rec2 [of 1 "pq_next (up_seq up)"] by simp
    have live: "\<not> up_dataClosed up" "\<not> mf_closed (up_mem up)" using inv phase by (auto simp: flow_inv_defs)
    have "queue_inv parts completed (up_seq up')"
      using q nxt pos upto by (simp add: queue_inv_def up')
    moreover have "data_inv n parts rds up'"
      using inv live data by (auto simp: flow_inv_def data_inv_def cut_ok_def control_inv_def up' upto content_def)
    moreover have "control_inv completed up'"
      using inv live by (auto simp: flow_inv_def control_inv_def up')
    moreover have "part_files.holds_from bucket uploadID object fs' parts (pq_next (up_seq up'))"
      using part_files.holds_discard inv nxt by (simp add: flow_inv_def fs' up')
    ultimately show ?thesis using inv by (simp add: flow_inv_def)
  qed
qed

lemma chunk_data_plain:
  assumes "0 < n" and "chunk_data lz False n data (buf, z) = (res, buf', z')"
  obtains ds where "res = Inr ds" "list_all (full_chunk n) ds" "z' = z"
    "concat (map mfd_buf ds) @ buf' = buf @ data"
proof -
  let ?k = "cut_length n (buf @ data)"
  let ?ds = "map data_chunk (chunks n (take ?k (buf @ data)))"
  have "res = Inr ?ds" "buf' = drop ?k (buf @ data)" "z' = z"
    using assms(2) by (auto simp: chunk_data_def Let_def)
  moreover have "concat (map mfd_buf ?ds) = take ?k (buf @ data)" using assms(1) by (rule concat_data_chunks)
  ultimately show ?thesis using data_chunks that by (metis append_take_drop_id)
qed

lemma flow_inv_recv:
  assumes n: "0 < n" and inv: "flow_inv n bucket uploadID object parts rds completed (up, fs)"
    and recv: "chunker_recv lz n up = Some up'"
  shows "flow_inv n bucket uploadID object parts rds completed (up', fs)"
proof -
  have sel: "up_chunker up = GSelect" using recv by (simp add: chunker_recv_def split: if_splits)
  then have out: "up_out up = []" "\<not> mf_closed (up_mem up)" "\<not> up_compress up"
      "list_all (full_chunk n) (mf_data (up_mem up))" using inv by (auto simp: flow_inv_defs cut_ok_def)
  show ?thesis
  proof (cases "up_dataC up")
    case (Cons data rest)
    obtain res buf z where step: "chunk_data lz False n data (up_buf up, up_lz up) = (res, buf, z)"
      by (metis prod_cases3)
    then obtain ds where ds: "res = Inr ds" "list_all (full_chunk n) ds" "z = up_lz up"
        "concat (map mfd_buf ds) @ buf = up_buf up @ data"
      using chunk_data_plain [OF n step] by blast
    have up': "up' = cut_out ds (up\<lparr>up_dataC := rest, up_buf := buf, up_lz := z, up_chunker := GSend\<rparr>)"
      using recv out(3) step ds(1) Cons sel by (simp add: chunker_recv_def)
    have "concat (map mfd_buf ds) @ buf @ concat rest = up_buf up @ concat (up_dataC up)"
      using ds(4) Cons by (metis append_assoc concat.simps(2))
    then show ?thesis using inv ds(2) out sel by (auto simp: flow_inv_defs cut_ok_def up' cut_out_def)
  next
    case Nil
    let ?ds = "mark_last (chunks n (up_buf up))"
    have closed: "up_dataClosed up" using recv Nil sel by (auto simp: chunker_recv_def split: if_splits)
    have up': "up' = cut_out ?ds (up\<lparr>up_buf := [], up_chunker := GSendLast\<rparr>)"
      using recv Nil out(3) closed sel by (auto simp: chunker_recv_def chunk_end_def Let_def cut_out_def)
    have "well_cut n (mf_data (up_mem up) @ ?ds)" using well_cut_append [OF n out(4) well_cut_mark_last] .
    moreover have "concat (map mfd_buf ?ds) = up_buf up" using n by (simp add: mark_last_bufs concat_chunks)
    ultimately show ?thesis using inv closed out sel Nil by (auto simp: flow_inv_defs cut_ok_def up' cut_out_def)
  qed
qed

lemma flow_inv_send:
  assumes inv: "flow_inv n bucket uploadID object parts rds completed (up, fs)" and send: "chunker_send up = Some up'"
  shows "flow_inv n bucket uploadID object parts rds completed (up', fs)"
proof -
  have ph: "up_chunker up = GSend \<or> up_chunker up = GSendLast" using send by (auto simp: chunker_send_def split: if_splits)
  have comp: "\<not> up_compress up" using inv by (simp add: flow_inv_def control_inv_def)
  have data: "data_inv n parts rds up" and ctl: "control_inv completed up" using inv by (simp_all add: flow_inv_def)
  have up': "up_seq up' = up_seq up"
      and d': "data_inv n parts rds up'" and c': "control_inv completed up'"
  proof -
    have "up_seq up' = up_seq up \<and> data_inv n parts rds up' \<and> control_inv completed up'"
    proof (cases "up_out up")
      case (Cons d ds)
      then have up': "up' = up\<lparr>up_out := ds, up_mem := (up_mem up)\<lparr>mf_data := mf_data (up_mem up) @ [d]\<rparr>\<rparr>"
        using send ph by (auto simp: chunker_send_def split: if_splits)
      have "cut_ok n (up_chunker up) (mf_data (up_mem up) @ [d]) ds (up_buf up) (up_dataC up)"
        using data Cons ph by (auto simp: data_inv_def cut_ok_def)
      then have "data_inv n parts rds up'" using data Cons by (simp add: up' data_inv_def)
      moreover have "control_inv completed up'" using ctl by (auto simp: up' control_inv_def)
      ultimately show ?thesis by (simp add: up')
    next
      case Nil
      show ?thesis
      proof (cases "up_chunker up = GSend")
        case True
        then have up': "up' = up\<lparr>up_chunker := GSelect\<rparr>" using send Nil by (simp add: chunker_send_def)
        have "cut_ok n GSelect (mf_data (up_mem up)) (up_out up) (up_buf up) (up_dataC up)"
          using data Nil True by (simp add: data_inv_def cut_ok_def)
        then have "data_inv n parts rds up'" using data by (simp add: up' data_inv_def)
        moreover have "control_inv completed up'" using ctl True by (auto simp: up' control_inv_def)
        ultimately show ?thesis by (simp add: up')
      next
        case False
        then have last: "up_chunker up = GSendLast" using ph by simp
        then have up': "up' = up\<lparr>up_chunker := GStopped, up_mem := (up_mem up)\<lparr>mf_closed := True\<rparr>\<rparr>"
          using send Nil comp by (simp add: chunker_send_def)
        have "cut_ok n GStopped (mf_data (up_mem up)) (up_out up) (up_buf up) (up_dataC up)"
          using data Nil last by (simp add: data_inv_def cut_ok_def)
        then have "data_inv n parts rds up'" using data by (simp add: up' data_inv_def)
        moreover have "control_inv completed up'" using ctl last by (auto simp: up' control_inv_def)
        ultimately show ?thesis by (simp add: up')
      qed
    qed
    then show "up_seq up' = up_seq up" "data_inv n parts rds up'" "control_inv completed up'" by simp_all
  qed
  then show ?thesis using inv by (simp add: flow_inv_def)
qed

text \<open>A read whose buffer is as large as a chunk takes the first chunk whole.\<close>

lemma well_cut_Cons: "well_cut n (d # ds) \<Longrightarrow> well_cut n ds \<and> length (mfd_buf d) \<le> n \<and> mfd_err d \<in> {None, Some EOF}"
  by (cases ds) (auto simp: well_cut_def full_chunk_def)

lemma read_chunk:
  assumes "memFile_Read_data mf m = Some ((bs, e), mf')" "n \<le> m"
    and "list_all (full_chunk n) (mf_data mf @ out) \<or> well_cut n (mf_data mf @ out)"
  shows "e \<in> {None, Some EOF}" and "mf_closed mf' = mf_closed mf"
    and "bs @ concat (map mfd_buf (mf_data mf')) = concat (map mfd_buf (mf_data mf))"
    and "list_all (full_chunk n) (mf_data mf @ out) \<Longrightarrow> list_all (full_chunk n) (mf_data mf' @ out)"
    and "well_cut n (mf_data mf @ out) \<Longrightarrow> well_cut n (mf_data mf' @ out)"
proof -
  have *: "e \<in> {None, Some EOF} \<and> mf_closed mf' = mf_closed mf \<and>
      bs @ concat (map mfd_buf (mf_data mf')) = concat (map mfd_buf (mf_data mf)) \<and>
      (list_all (full_chunk n) (mf_data mf @ out) \<longrightarrow> list_all (full_chunk n) (mf_data mf' @ out)) \<and>
      (well_cut n (mf_data mf @ out) \<longrightarrow> well_cut n (mf_data mf' @ out))"
  proof (cases "mf_data mf")
    case Nil
    then show ?thesis using assms(1) by (auto simp: memFile_Read_data_def split: if_splits)
  next
    case (Cons d ds)
    have d: "length (mfd_buf d) \<le> m" "mfd_err d \<in> {None, Some EOF}"
      using assms(2,3) Cons well_cut_Cons [of n d "ds @ out"] by (auto simp: full_chunk_def)
    then have "bs = mfd_buf d" "e = mfd_err d" "mf' = mf\<lparr>mf_data := ds\<rparr>"
      using assms(1) Cons by (auto simp: memFile_Read_data_def Let_def)
    then show ?thesis using d Cons well_cut_Cons [of n d "ds @ out"] by auto
  qed
  then show "e \<in> {None, Some EOF}" "mf_closed mf' = mf_closed mf"
    "bs @ concat (map mfd_buf (mf_data mf')) = concat (map mfd_buf (mf_data mf))"
    "list_all (full_chunk n) (mf_data mf @ out) \<Longrightarrow> list_all (full_chunk n) (mf_data mf' @ out)"
    "well_cut n (mf_data mf @ out) \<Longrightarrow> well_cut n (mf_data mf' @ out)" by blast+
qed

lemma flow_inv_read:
  assumes inv: "flow_inv n bucket uploadID object parts rds completed (up, fs)" and m: "n \<le> m"
    and read: "memFile_Read_data (up_mem up) m = Some ((bs, e), mf)"
  shows "flow_inv n bucket uploadID object parts (rds @ [(bs, e)]) completed (up\<lparr>up_mem := mf\<rparr>, fs)"
proof -
  have cut: "list_all (full_chunk n) (mf_data (up_mem up) @ up_out up) \<or> well_cut n (mf_data (up_mem up) @ up_out up)"
    using inv by (auto simp: flow_inv_def data_inv_def cut_ok_def split: if_splits)
  note r = read_chunk [OF read m cut]
  have "data_inv n parts (rds @ [(bs, e)]) (up\<lparr>up_mem := mf\<rparr>)"
    using inv r(1,4,5) r(3) [symmetric] by (auto simp: flow_inv_def data_inv_def cut_ok_def)
  then show ?thesis using inv r(2) by (auto simp: flow_inv_def control_inv_def)
qed

section \<open>Orderly uploads\<close>

text \<open>Each part is uploaded once and before completion, and the upload is neither aborted nor timed
  out nor failed by the SDK.\<close>

definition orderly :: "flow_event list \<Rightarrow> bool" where
  "orderly es \<longleftrightarrow> distinct (map fst (parts_in es)) \<and> Abort \<notin> set es \<and> ChunkerTimeout \<notin> set es \<and> UploadFailed \<notin> set es \<and>
     parts_in (dropWhile (\<lambda>e. e \<noteq> Complete) es) = []"

lemma from_complete:
  "dropWhile (\<lambda>e. e \<noteq> Complete) (es @ [e]) =
     (if Complete \<in> set es then dropWhile (\<lambda>e. e \<noteq> Complete) es @ [e] else if e = Complete then [e] else [])"
  "Complete \<notin> set es \<Longrightarrow> dropWhile (\<lambda>e. e \<noteq> Complete) es = []"
  by (induction es) auto

lemma orderly_snoc:
  "orderly (es @ [e]) \<Longrightarrow> orderly es"
  "orderly (es @ [PartIn k data eTag]) \<Longrightarrow> Complete \<notin> set es \<and> k \<notin> fst ` set (parts_in es)"
  by (auto simp: orderly_def parts_in_append from_complete split: if_splits)

text \<open>The moves of the two goroutines, and reads of the SDK with a buffer of at least \<open>n\<close> bytes.\<close>

fun flow_move :: "nat \<Rightarrow> flow_event \<Rightarrow> bool" where
  "flow_move n FeederSelect = True"
| "flow_move n FeederPop = True"
| "flow_move n ChunkerRecv = True"
| "flow_move n ChunkerSend = True"
| "flow_move n (SdkRead m bs e) = (n \<le> m)"
| "flow_move n _ = False"

fun large_read :: "nat \<Rightarrow> flow_event \<Rightarrow> bool" where
  "large_read n (SdkRead m bs e) = (n \<le> m)"
| "large_read n _ = True"

lemma orderly_move:
  "orderly es \<Longrightarrow> flow_move n e \<Longrightarrow> orderly (es @ [e]) \<and> parts_in (es @ [e]) = parts_in es \<and> large_read n e"
  by (cases "(n, e)" rule: flow_move.cases) (auto simp: orderly_def parts_in_append from_complete(1))

lemma orderly_moves:
  "orderly es \<Longrightarrow> list_all (flow_move n) gs \<Longrightarrow>
     orderly (es @ gs) \<and> parts_in (es @ gs) = parts_in es \<and> list_all (large_read n) gs"
proof (induction gs arbitrary: es)
  case (Cons e gs)
  then have "flow_move n e" "list_all (flow_move n) gs" by simp_all
  then show ?case using orderly_move [OF Cons.prems(1)] Cons.IH [of "es @ [e]"] by simp
qed simp

lemma flow_inv_step:
  assumes n: "0 < n" and step: "flow_step env lz n bucket object uploadID st e st'"
    and ord: "orderly (es @ [e])" "large_read n e"
    and inv: "flow_inv n bucket uploadID object (parts_in es) (sdk_reads es) (Complete \<in> set es) st"
  shows "flow_inv n bucket uploadID object (parts_in (es @ [e])) (sdk_reads (es @ [e])) (Complete \<in> set (es @ [e])) st'"
proof -
  obtain up fs where st: "st = (up, fs)" by (cases st)
  obtain up' fs' where st': "st' = (up', fs')" by (cases st')
  note inv' = inv [unfolded st]
  have calm: "\<not> cancel_ready up" "up_feeder up \<noteq> GError" "up_chunker up \<noteq> GError"
    using inv' by (auto simp: flow_inv_defs cancel_ready_def)
  note app = parts_in_append sdk_reads_append
  from step show ?thesis
  proof cases
    case (part_in k data eTag info)
    have *: "Complete \<notin> set es" "k \<notin> fst ` set (parts_in es)" using orderly_snoc(2) ord(1) part_in(1) by blast+
    with flow_inv_part [of n bucket uploadID object "parts_in es" "sdk_reads es" up fs k env data eTag info up' fs'] inv' part_in
    show ?thesis by (simp add: st st' app)
  next
    case (complete u)
    then show ?thesis
      using flow_inv_complete [OF inv', of u up' fs'] by (simp add: st st' app)
  next
    case abort
    then show ?thesis using ord(1) by (simp add: orderly_def)
  next
    case (feeder_sel u u' f)
    then show ?thesis using flow_inv_select [OF inv'] by (simp add: st app)
  next
    case feeder_part
    then show ?thesis using flow_inv_pop [OF inv', of up' fs'] by (simp add: st st' app)
  next
    case (chunker_data u u' f)
    then show ?thesis using flow_inv_recv [OF n inv'] by (simp add: st app)
  next
    case (chunker_chunk u u' f)
    then show ?thesis using flow_inv_send [OF inv'] by (simp add: st app)
  next
    case (sdk_read u m bs er mf f)
    then show ?thesis using flow_inv_read [OF inv', of m bs er mf] ord(2) by (simp add: st app)
  next
    case (chunker_timeout u f)
    then show ?thesis using ord(1) by (simp add: orderly_def)
  next
    case (upload_failed u f)
    then show ?thesis using ord(1) by (simp add: orderly_def)
  qed (use calm st in auto)
qed

lemma flow_run_inv:
  assumes "flow_run env lz n bucket object uploadID st0 es st" and "0 < n" and "orderly es" and "list_all (large_read n) es"
    and "flow_inv n bucket uploadID object [] [] False st0"
  shows "flow_inv n bucket uploadID object (parts_in es) (sdk_reads es) (Complete \<in> set es) st"
  using assms
proof (induction rule: flow_run.induct)
  case (flow_snoc st es st' e st'')
  then show ?case using flow_inv_step [OF _ flow_snoc(2)] orderly_snoc(1) by simp
qed simp

lemma flow_run_append:
  "flow_run env lz n bucket object uploadID st1 gs st2 \<Longrightarrow> flow_run env lz n bucket object uploadID st0 es st1 \<Longrightarrow>
     flow_run env lz n bucket object uploadID st0 (es @ gs) st2"
proof (induction rule: flow_run.induct)
  case (flow_snoc st es' st' e st'')
  then show ?case using flow_run.flow_snoc [of env lz n bucket object uploadID st0 "es @ es'" st' e st''] by simp
qed simp

section \<open>Progress\<close>

text \<open>What is left to do. Bytes that are not cut yet count twice, for the two moves that a chunk of them needs.\<close>

definition uncut :: "(int \<times> bytes) list \<Rightarrow> 'z upload \<Rightarrow> nat" where
  "uncut parts up = length (up_buf up) + length (concat (up_dataC up)) +
     sum_mset (image_mset (\<lambda>k. length (content parts k)) (pq_pending (up_seq up)))"

definition flow_work :: "(int \<times> bytes) list \<Rightarrow> 'z upload \<Rightarrow> nat" where
  "flow_work parts up = 2 * uncut parts up + 4 * size (pq_pending (up_seq up)) + 2 * length (up_dataC up) +
     (case up_feeder up of GSelect \<Rightarrow> 2 | GPopup \<Rightarrow> 1 | _ \<Rightarrow> 0) +
     (case up_chunker up of GSend \<Rightarrow> 3 | GSelect \<Rightarrow> 2 | GSendLast \<Rightarrow> 1 | _ \<Rightarrow> 0) +
     2 * length (up_out up) + length (mf_data (up_mem up))"

lemma length_chunks_le: "0 < n \<Longrightarrow> length (chunks n bs) \<le> length bs"
proof (induction n bs rule: chunks.induct)
  case (1 n bs)
  show ?case
  proof (cases "bs = []")
    case False
    then have "length (chunks n (drop n bs)) \<le> length bs - n" using 1 by simp
    then show ?thesis using False 1(2) by (subst chunks.simps) (cases bs; simp)
  qed simp
qed

lemma work_recv:
  assumes n: "0 < n" and inv: "flow_inv n bucket uploadID object parts rds completed (up, fs)"
    and recv: "chunker_recv lz n up = Some up'"
  shows "flow_work parts up' < flow_work parts up"
proof -
  have sel: "up_chunker up = GSelect" using recv by (simp add: chunker_recv_def split: if_splits)
  then have out: "up_out up = []" "\<not> up_compress up" using inv by (auto simp: flow_inv_defs cut_ok_def)
  show ?thesis
  proof (cases "up_dataC up")
    case (Cons data rest)
    define buf where "buf = up_buf up @ data"
    define k where "k = cut_length n buf"
    define ds where "ds = map data_chunk (chunks n (take k buf))"
    have up': "up' = cut_out ds (up\<lparr>up_dataC := rest, up_buf := drop k buf, up_chunker := GSend\<rparr>)"
      using recv out(2) Cons sel by (auto simp: chunker_recv_def chunk_data_def Let_def ds_def k_def buf_def)
    have "length ds + length (drop k buf) \<le> length (up_buf up) + length data"
      using length_chunks_le [OF n, of "take k buf"] by (simp add: ds_def buf_def)
    then show ?thesis using sel out Cons by (simp add: flow_work_def uncut_def up' cut_out_def)
  next
    case Nil
    then have "up' = cut_out (mark_last (chunks n (up_buf up))) (up\<lparr>up_buf := [], up_chunker := GSendLast\<rparr>)"
      using recv out(2) sel by (auto simp: chunker_recv_def chunk_end_def Let_def cut_out_def split: if_splits)
    moreover have "length (mark_last (chunks n (up_buf up))) \<le> length (up_buf up)"
      using length_chunks_le [OF n, of "up_buf up"] mark_last_bufs [of "chunks n (up_buf up)"] by (metis length_map)
    ultimately show ?thesis using sel out Nil by (simp add: flow_work_def uncut_def cut_out_def)
  qed
qed

lemma work_send: "chunker_send up = Some up' \<Longrightarrow> flow_work parts up' < flow_work parts up"
  by (auto simp: chunker_send_def flow_work_def uncut_def split: if_splits list.splits)

lemma work_pop:
  assumes inv: "flow_inv n bucket uploadID object parts rds completed (up, fs)"
    and pop: "feeder_pop bucket uploadID object (up, fs) = Some (up', fs')"
  shows "flow_work parts up' < flow_work parts up"
proof -
  have phase: "up_feeder up = GPopup" using pop by (auto simp: feeder_pop_def split: if_splits)
  obtain v pq where v: "pq_Popup (up_seq up) = Some (v, pq)"
    using pop phase by (auto simp: feeder_pop_def split: option.splits)
  have ok: "pq_ok (up_seq up)" and q: "queue_inv parts completed (up_seq up)" and pos: "1 \<le> pq_next (up_seq up)"
    using inv by (auto simp: flow_inv_defs)
  from seqpq.pop_cases [OF ok v] show ?thesis
  proof (elim disjE)
    assume "v = -1 \<and> pq = up_seq up \<and> pq_pending (up_seq up) = {#} \<and> pq_done (up_seq up) \<and> pq_start (up_seq up)"
    then have "up' = up\<lparr>up_dataClosed := True, up_feeder := GStopped\<rparr>" using pop phase v by (auto simp: feeder_pop_def Let_def)
    then show ?thesis using phase by (simp add: flow_work_def uncut_def)
  next
    assume nxt: "v = pq_next (up_seq up) \<and> pq_next pq = pq_next (up_seq up) + 1 \<and>
      pq_pending (up_seq up) = add_mset v (pq_pending pq) \<and> pq_start (up_seq up) \<and>
      pq_start pq \<and> pq_done pq = pq_done (up_seq up) \<and> pq_ok pq \<and> (\<forall>y \<in># pq_pending (up_seq up). v \<le> y)"
    have "v \<in># mset (map fst parts)" using q nxt by (simp add: queue_inv_def)
    then obtain data where data: "map_of parts v = Some data"
      by (metis domD dom_map_of_conv_image_fst list.set_map set_mset_mset)
    then have "part_fetch bucket uploadID object fs v = Some data"
      using inv nxt by (simp add: flow_inv_def part_files.holds_from_def)
    then have read: "os_ReadFile (partFilename bucket uploadID object v) fs = Inr data"
      by (auto simp: part_fetch_def split: sum.splits)
    have "v \<noteq> -1" using nxt pos by simp
    then have "up' = up\<lparr>up_seq := pq, up_feeder := GSelect, up_dataC := up_dataC up @ [data]\<rparr>"
      using pop phase v read by (auto simp: feeder_pop_def Let_def split: if_splits)
    then show ?thesis using nxt phase data by (simp add: flow_work_def uncut_def content_def)
  qed
qed

text \<open>Every move leaves less to do, until the chunker has stopped.\<close>

lemma flow_work_step:
  assumes n: "0 < n" and step: "flow_step env lz n bucket object uploadID (up, fs) e (up', fs')" and move: "flow_move n e"
    and inv: "flow_inv n bucket uploadID object parts rds completed (up, fs)" and live: "up_chunker up \<noteq> GStopped"
  shows "flow_work parts up' < flow_work parts up"
proof -
  have calm: "\<not> cancel_ready up" "\<not> mf_closed (up_mem up)" using inv live by (auto simp: flow_inv_defs cancel_ready_def)
  from step move show ?thesis
  proof cases
    case feeder_sel
    then show ?thesis using calm by (auto simp: feeder_select_def flow_work_def uncut_def split: if_splits)
  next
    case feeder_part
    then show ?thesis using work_pop [OF inv] by simp
  next
    case chunker_data
    then show ?thesis using work_recv [OF n inv] by simp
  next
    case chunker_chunk
    then show ?thesis using work_send by blast
  next
    case (sdk_read m bs er mf)
    then show ?thesis using calm
      by (auto simp: memFile_Read_data_def Let_def flow_work_def uncut_def split: list.splits if_splits)
  qed auto
qed

text \<open>With all parts up to the last one there and the upload completed, the queue is ready.\<close>

lemma queue_ready:
  assumes q: "queue_inv parts True pq" and all: "mset (map fst parts) = mset [1..int k]" and "0 < k"
  obtains (last_part) "pq_Popup pq = Some (-1, pq)" "pq_pending pq = {#}"
  | (next_part) pq' where "pq_Popup pq = Some (pq_next pq, pq')" "pq_pending pq = add_mset (pq_next pq) (pq_pending pq')"
      "pq_next pq \<noteq> -1" "pq_next pq \<in> fst ` set parts"
proof -
  have ok: "pq_ok pq" and closed: "pq_done pq" and pos: "1 \<le> pq_next pq" using q by (auto simp: queue_inv_def)
  have ids: "fst ` set parts = {1..int k}" using mset_eq_setD [OF all] by simp
  then have start: "pq_start pq" using q \<open>0 < k\<close> by (auto simp: queue_inv_def)
  have split: "mset [1..int k] = mset [1..pq_next pq - 1] + pq_pending pq" using q all by (simp add: queue_inv_def)
  show ?thesis
  proof (cases "pq_next pq \<le> int k")
    case True
    then have "mset [1..int k] = mset [1..pq_next pq - 1] + mset [pq_next pq..int k]"
      using pos upto_split1 [of 1 "pq_next pq" "int k"] by simp
    with split have pend: "pq_pending pq = mset [pq_next pq..int k]" by simp
    then have "pq_next pq \<in># pq_pending pq" "\<forall>y \<in># pq_pending pq. pq_next pq \<le> y" using True by auto
    from seqpq.pop_next [OF ok start this] obtain pq' where
      "pq_Popup pq = Some (pq_next pq, pq')" "pq_pending pq = add_mset (pq_next pq) (pq_pending pq')" by blast
    then show ?thesis using True pos ids by (intro next_part) auto
  next
    case False
    have "size (mset [1..int k]) = size (mset [1..pq_next pq - 1]) + size (pq_pending pq)"
      using split by (metis size_union)
    then have "k = nat (pq_next pq - 1) + size (pq_pending pq)" by simp
    then have "size (pq_pending pq) = 0" using False pos by linarith
    then have "pq_pending pq = {#}" by simp
    then show ?thesis using last_part seqpq.pop_end [OF ok] start closed by simp
  qed
qed

lemma flow_progress:
  assumes inv: "flow_inv n bucket uploadID object parts rds True (up, fs)"
    and all: "mset (map fst parts) = mset [1..int k]" "0 < k" and live: "up_chunker up \<noteq> GStopped"
  shows "\<exists>e up' fs'. flow_move n e \<and> flow_step env lz n bucket object uploadID (up, fs) e (up', fs')"
proof -
  have plain: "\<not> up_compress up" "\<not> cancel_ready up"
    and feeder: "up_feeder up \<in> {GSelect, GPopup, GStopped}"
    and stopped: "up_feeder up = GStopped \<Longrightarrow> up_dataClosed up"
    and q: "queue_inv parts True (up_seq up)"
    and chunker: "up_chunker up \<in> {GSelect, GSend, GSendLast}"
    using inv live by (auto simp: flow_inv_defs cancel_ready_def)
  consider (sending) "up_chunker up \<in> {GSend, GSendLast}" | (data) "up_chunker up = GSelect" "up_dataC up \<noteq> [] \<or> up_dataClosed up"
    | (sel) "up_feeder up = GSelect" | (pop) "up_feeder up = GPopup" "up_dataC up = []"
    using feeder stopped chunker by blast
  then show ?thesis
  proof cases
    case sending
    show ?thesis
    proof (cases "up_out up = [] \<or> length (mf_data (up_mem up)) < memFileDataChan_cap")
      case True
      then have "\<exists>up'. chunker_send up = Some up'" using sending by (auto simp: chunker_send_def split: list.splits)
      then show ?thesis using chunker_chunk flow_move.simps(4) by blast
    next
      case False
      then obtain d ds where "mf_data (up_mem up) = d # ds"
        by (cases "mf_data (up_mem up)") (auto simp: memFileDataChan_cap_def)
      then have "\<exists>bs e mf. memFile_Read_data (up_mem up) n = Some ((bs, e), mf)" by (simp add: memFile_Read_data_def Let_def)
      then show ?thesis using sdk_read flow_move.simps(5) by blast
    qed
  next
    case data
    then have "\<exists>up'. chunker_recv lz n up = Some up'" using plain
      by (cases "up_dataC up") (auto simp: chunker_recv_def chunk_data_def chunk_end_def Let_def)
    then show ?thesis using chunker_data flow_move.simps(3) by blast
  next
    case sel
    then have "feeder_select up = Some (up\<lparr>up_feeder := GPopup\<rparr>)" using plain by (simp add: feeder_select_def)
    then show ?thesis using feeder_sel flow_move.simps(1) by blast
  next
    case pop
    have "\<exists>up' fs'. feeder_pop bucket uploadID object (up, fs) = Some (up', fs')"
      using q all
    proof (cases rule: queue_ready)
      case last_part
      then show ?thesis using pop by (simp add: feeder_pop_def Let_def)
    next
      case (next_part pq')
      obtain data where "map_of parts (pq_next (up_seq up)) = Some data"
        using next_part(4) by (metis domD dom_map_of_conv_image_fst)
      then have "part_fetch bucket uploadID object fs (pq_next (up_seq up)) = Some data"
        using inv by (simp add: flow_inv_def part_files.holds_from_def)
      then have "os_ReadFile (partFilename bucket uploadID object (pq_next (up_seq up))) fs = Inr data"
        by (auto simp: part_fetch_def split: sum.splits)
      then show ?thesis using pop next_part by (simp add: feeder_pop_def Let_def)
    qed
    then show ?thesis using feeder_part flow_move.simps(2) by blast
  qed
qed


lemma flow_finishes:
  assumes "flow_run env lz n bucket object uploadID st0 es (up, fs)" and "0 < n" and "orderly es" and "list_all (large_read n) es"
    and "Complete \<in> set es" and "mset (map fst (parts_in es)) = mset [1..int k]" and "0 < k"
    and "flow_inv n bucket uploadID object [] [] False st0"
  shows "\<exists>gs up' fs'. list_all (flow_move n) gs \<and> flow_run env lz n bucket object uploadID (up, fs) gs (up', fs') \<and>
    up_chunker up' = GStopped"
  using assms
proof (induction "flow_work (parts_in es) up" arbitrary: es up fs rule: less_induct)
  case less
  show ?case
  proof (cases "up_chunker up = GStopped")
    case True
    then show ?thesis using flow_nil by (intro exI [of _ "[]"] exI [of _ up] exI [of _ fs]) simp
  next
    case False
    have inv: "flow_inv n bucket uploadID object (parts_in es) (sdk_reads es) True (up, fs)"
      using flow_run_inv [OF less.prems(1-4,8)] less.prems(5) by simp
    from flow_progress [OF inv less.prems(6,7) False] obtain e up1 fs1 where
      e: "flow_move n e" and step: "flow_step env lz n bucket object uploadID (up, fs) e (up1, fs1)" by blast
    have run: "flow_run env lz n bucket object uploadID st0 (es @ [e]) (up1, fs1)"
      using less.prems(1) step by (rule flow_snoc)
    have ord: "orderly (es @ [e])" "parts_in (es @ [e]) = parts_in es" "large_read n e"
      using orderly_move [OF less.prems(3) e] by auto
    have "flow_work (parts_in (es @ [e])) up1 < flow_work (parts_in es) up"
      using flow_work_step [OF less.prems(2) step e inv False] ord(2) by simp
    from less.hyps [OF this run less.prems(2) ord(1)] obtain gs up' fs' where
      gs: "list_all (flow_move n) gs" "flow_run env lz n bucket object uploadID (up1, fs1) gs (up', fs')" "up_chunker up' = GStopped"
      using less.prems(4-8) ord(2,3) by auto
    have "flow_run env lz n bucket object uploadID (up, fs) ([] @ [e]) (up1, fs1)" using flow_snoc [OF flow_nil step] .
    then have "flow_run env lz n bucket object uploadID (up, fs) (([] @ [e]) @ gs) (up', fs')" by (rule flow_run_append [OF gs(2)])
    then show ?thesis using e gs by (intro exI [of _ "e # gs"] exI [of _ up'] exI [of _ fs']) auto
  qed
qed

section \<open>An upload of one part\<close>

lemma part_in_possible:
  assumes "DirOf (partFilename bucket uploadID object k) \<in> set (fs_dirs fs)"
    and "DirOf (partETagFilename bucket uploadID object k) \<in> set (fs_dirs fs)"
  shows "\<exists>st'. flow_step env lz n bucket object uploadID (up, fs) (PartIn k data eTag) st'"
proof -
  have "\<exists>info up' fs'. PutObjectPart env bucket object uploadID k data None eTag (alone uploadID (up, fs)) =
      (Inr info, alone uploadID (up', fs'))"
    using assms by (simp add: PutObjectPart_def os_WriteFile_def put_upload_def Let_def)
  then obtain info up' fs' where "PutObjectPart env bucket object uploadID k data None eTag (alone uploadID (up, fs)) =
      (Inr info, alone uploadID (up', fs'))" by blast
  then have "flow_step env lz n bucket object uploadID (up, fs) (PartIn k data eTag) (up', fs')"
    by (intro part_in [where info = info]) simp
  then show ?thesis by blast
qed

lemma complete_possible: "\<exists>st'. flow_step env lz n bucket object uploadID st Complete st'"
proof -
  let ?up = "(fst st)\<lparr>up_seq := pq_Done (up_seq (fst st))\<rparr>"
  have "complete_begin uploadID (alone uploadID st) = (Inr ?up, alone uploadID (?up, snd st))"
    by (simp add: complete_begin_def put_upload_def Let_def)
  from complete [OF this] show ?thesis by blast
qed

definition one_part_fs :: file_system where
  "one_part_fs = \<lparr>fs_files = [], fs_dirs = [''store/b/u/o'']\<rparr>"

definition one_part :: "flow_event list" where
  "one_part = [PartIn 1 [7, 8, 9] ''e'', Complete]"

lemma one_part_run:
  "\<exists>st. flow_run range_env plain_lz4 2 ''b'' ''o'' ''u''
     (new_upload plain_lz4 (opRequest0 FileOperationInsert ''/b/o'') False, one_part_fs) one_part st"
proof -
  have "DirOf (partFilename ''b'' ''u'' ''o'' 1) \<in> set (fs_dirs one_part_fs)"
    "DirOf (partETagFilename ''b'' ''u'' ''o'' 1) \<in> set (fs_dirs one_part_fs)" by code_simp+
  from part_in_possible [OF this] obtain st where
    step: "flow_step range_env plain_lz4 2 ''b'' ''o'' ''u''
      (new_upload plain_lz4 (opRequest0 FileOperationInsert ''/b/o'') False, one_part_fs) (PartIn 1 [7, 8, 9] ''e'') st"
    by blast
  obtain st' where "flow_step range_env plain_lz4 2 ''b'' ''o'' ''u'' st Complete st'"
    using complete_possible by blast
  from flow_snoc [OF flow_snoc [OF flow_nil step] this] show ?thesis
    unfolding one_part_def by (intro exI [of _ st']) simp
qed

lemma one_part_orderly: "orderly one_part" "parts_in one_part = [(1, [7, 8, 9])]" "Complete \<in> set one_part"
  by (simp_all add: one_part_def orderly_def)

lemma one_part_reads: "list_all (large_read n) one_part" "sdk_reads one_part = []"
  by (simp_all add: one_part_def)

section \<open>Properties\<close>

text \<open>
  C2. What the SDK uploads is the object: in every interleaving of the clients' part uploads, in any
  order, with the goroutines and the reads of the SDK, once the chunker has finished, what the SDK has
  read and what it still finds in the memory file are together the parts 1, 2, ... in the order of their
  numbers, none missing and none repeated, and no read has failed. This is for an upload without
  compression whose parts are uploaded once each and before completion, which is neither aborted nor timed
  out nor failed by the SDK, and reads whose buffer holds a chunk.
\<close>

theorem multipart_content:
  assumes run: "flow_run env lz n bucket object uploadID (new_upload lz request False, fs0) es (up, fs)"
    and "0 < n" and "n \<le> m" and "orderly es" and "list_all (large_read n) es" and stop: "up_chunker up = GStopped"
  shows "\<exists>rest. read_chunks m (mf_data (up_mem up)) = Inr rest \<and>
    concat (map fst (sdk_reads es)) @ rest = concat (map (content (parts_in es)) [1..int (length (parts_in es))]) \<and>
    list_all (\<lambda>r. snd r \<in> {None, Some EOF}) (sdk_reads es)"
proof -
  let ?parts = "parts_in es"
  have inv: "flow_inv n bucket uploadID object ?parts (sdk_reads es) (Complete \<in> set es) (up, fs)"
    using flow_run_inv [OF run assms(2,4,5) flow_inv_new] .
  then have closed: "mf_closed (up_mem up)" "pq_pending (up_seq up) = {#}" "up_out up = []"
    using stop by (auto simp: flow_inv_defs cut_ok_def)
  have q: "mset (map fst ?parts) = mset [1..pq_next (up_seq up) - 1]" "1 \<le> pq_next (up_seq up)"
    using inv closed(2) by (auto simp: flow_inv_defs)
  have "length (map fst ?parts) = length [1..pq_next (up_seq up) - 1]" using mset_eq_length [OF q(1)] .
  then have "pq_next (up_seq up) - 1 = int (length ?parts)" using q(2) by simp
  moreover have "well_cut n (mf_data (up_mem up))" "list_all (\<lambda>r. snd r \<in> {None, Some EOF}) (sdk_reads es)"
      "concat (map fst (sdk_reads es)) @ concat (map mfd_buf (mf_data (up_mem up))) =
         concat (map (content ?parts) [1..pq_next (up_seq up) - 1])"
    using inv closed(3) stop by (auto simp: flow_inv_def data_inv_def cut_ok_def)
  ultimately show ?thesis using read_chunks_cut [OF assms(3)] by simp
qed

theorem multipart_content_witness:
  "\<exists>es up fs rest. flow_run range_env plain_lz4 2 ''b'' ''o'' ''u''
      (new_upload plain_lz4 (opRequest0 FileOperationInsert ''/b/o'') False, one_part_fs) es (up, fs) \<and>
    up_chunker up = GStopped \<and> read_chunks 2 (mf_data (up_mem up)) = Inr rest \<and>
    concat (map fst (sdk_reads es)) @ rest = [7, 8, 9]"
proof -
  obtain up0 fs0 where run0: "flow_run range_env plain_lz4 2 ''b'' ''o'' ''u''
      (new_upload plain_lz4 (opRequest0 FileOperationInsert ''/b/o'') False, one_part_fs) one_part (up0, fs0)"
    using one_part_run by auto
  have all: "mset (map fst (parts_in one_part)) = mset [1..int 1]" by (simp add: one_part_orderly upto.simps)
  obtain gs up fs where gs: "list_all (flow_move 2) gs"
      "flow_run range_env plain_lz4 2 ''b'' ''o'' ''u'' (up0, fs0) gs (up, fs)" "up_chunker up = GStopped"
    using flow_finishes [OF run0 _ one_part_orderly(1) one_part_reads(1) one_part_orderly(3) all _ flow_inv_new] by auto
  note ord = orderly_moves [OF one_part_orderly(1) gs(1)]
  have run: "flow_run range_env plain_lz4 2 ''b'' ''o'' ''u''
      (new_upload plain_lz4 (opRequest0 FileOperationInsert ''/b/o'') False, one_part_fs) (one_part @ gs) (up, fs)"
    using flow_run_append [OF gs(2) run0] .
  have "content [(1, [7, 8, 9])] 1 = [7, 8, 9]" by (simp add: content_def)
  then have "\<exists>rest. read_chunks 2 (mf_data (up_mem up)) = Inr rest \<and> concat (map fst (sdk_reads (one_part @ gs))) @ rest = [7, 8, 9]"
    using multipart_content [OF run _ _ _ _ gs(3), of 2] ord one_part_reads(1) [of 2] by (auto simp: one_part_orderly upto.simps)
  with run gs(3) show ?thesis by blast
qed



end
