(* ===== verification/Zcn_MultiPut.thy ===== *)
theory Zcn_MultiPut
  imports Zcn_Gateway
begin

text \<open>
  Storing several objects in one request (\<open>PutMultipleObjects\<close> of \<open>gateway-zcn.go\<close>): one goroutine per
  object looks the path up and prepares an operation, errors come over an unbuffered channel that the
  main loop polls once after each start, and the prepared operations go to the SDK in one call. The
  goroutines and the main loop are a step relation.
\<close>

section \<open>The state and the steps\<close>

text \<open>One object to store: its name, what its reader delivers and the size the reader announces.\<close>

record put_item =
  piName :: string
  piData :: bytes
  piSize :: int

definition multi_check :: "nat \<Rightarrow> nat \<Rightarrow> nat \<Rightarrow> go_error option" where
  "multi_check objects readers options =
     (if objects = 0 then Some (ErrorText ''no files to upload'')
      else if objects \<noteq> readers \<or> objects \<noteq> options
      then Some (ErrorText ''length mismatch of objects with file readers or with options'')
      else None)"

definition multi_request :: "'w zenv \<Rightarrow> string \<Rightarrow> put_item \<Rightarrow> bool \<Rightarrow> OperationRequest" where
  "multi_request env remotePath item isUpdate =
     (opRequest0 (if isUpdate then FileOperationUpdate else FileOperationInsert) [])
       \<lparr>opFileMeta := noFileMeta\<lparr>fmRemotePath := remotePath, fmActualSize := piSize item,
          fmRemoteName := SplitFile remotePath\<rparr>,
        opReader := piData item, opEncrypt := cfgEncrypt env, opChunkNumber := 120\<rparr>"

definition multi_info :: "'w zenv \<Rightarrow> string \<Rightarrow> put_item \<Rightarrow> 'w \<Rightarrow> ObjectInfo" where
  "multi_info env bucket item w =
     noObjectInfo\<lparr>oiBucket := bucket, oiName := piName item, oiSize := piSize item, oiModTime := TimeNow env w\<rparr>"

text \<open>A goroutine looks up, or waits to send its error, or is done; the main goroutine is at the head
  of the loop, at the poll, waiting for the group, or has returned.\<close>

datatype put_thread = Looking | Sending go_error | Finished

datatype put_main = AtLoop | AtSelect | AtWait | Returned "(go_error, ObjectInfo list) result"

record 'w multi_put =
  mp_world :: 'w
  mp_threads :: "put_thread list"
  mp_slots :: "(OperationRequest \<times> ObjectInfo) option list"
  mp_main :: put_main
  mp_sent :: "OperationRequest list option"

definition multi_init :: "put_item list \<Rightarrow> 'w \<Rightarrow> 'w multi_put" where
  "multi_init items w = \<lparr>mp_world = w, mp_threads = [], mp_slots = map (\<lambda>_. None) items,
     mp_main = AtLoop, mp_sent = None\<rparr>"

text \<open>The body of goroutine \<open>k\<close>, from its start to its end or to the send.\<close>

definition multi_lookup ::
  "'w zenv \<Rightarrow> string \<Rightarrow> put_item list \<Rightarrow> nat \<Rightarrow> 'w multi_put \<Rightarrow> 'w multi_put" where
  "multi_lookup env bucket items k s =
     (let item = items ! k; remotePath = remotePathOf bucket (piName item) in
      case getSingleRegularRef env remotePath (mp_world s) of
        (Inl err, w1) \<Rightarrow>
          if \<not> isPathNoExistError err
          then s\<lparr>mp_world := w1, mp_threads := (mp_threads s)[k := Sending err]\<rparr>
          else s\<lparr>mp_world := w1, mp_threads := (mp_threads s)[k := Finished],
                 mp_slots := (mp_slots s)[k := Some (multi_request env remotePath item False,
                                                    multi_info env bucket item w1)]\<rparr>
      | (Inr ref, w1) \<Rightarrow>
          s\<lparr>mp_world := w1, mp_threads := (mp_threads s)[k := Finished],
            mp_slots := (mp_slots s)[k := Some (multi_request env remotePath item True,
                                               multi_info env bucket item w1)]\<rparr>)"

definition multi_finish :: "'w zenv \<Rightarrow> (OperationRequest \<times> ObjectInfo) list \<Rightarrow> 'w multi_put \<Rightarrow> 'w multi_put" where
  "multi_finish env slots s =
     (case DoMultiOperation env (map fst slots) (mp_world s) of
        (Some err, w1) \<Rightarrow> s\<lparr>mp_world := w1, mp_sent := Some (map fst slots), mp_main := Returned (Inl err)\<rparr>
      | (None, w1) \<Rightarrow> s\<lparr>mp_world := w1, mp_sent := Some (map fst slots),
                        mp_main := Returned (Inr (map snd slots))\<rparr>)"

inductive multi_step :: "'w zenv \<Rightarrow> string \<Rightarrow> put_item list \<Rightarrow> 'w multi_put \<Rightarrow> 'w multi_put \<Rightarrow> bool"
  for env bucket items where
  spawn: "mp_main s = AtLoop \<Longrightarrow> length (mp_threads s) < length items \<Longrightarrow>
    multi_step env bucket items s (s\<lparr>mp_threads := mp_threads s @ [Looking], mp_main := AtSelect\<rparr>)"
| poll_error: "mp_main s = AtSelect \<Longrightarrow> k < length (mp_threads s) \<Longrightarrow> mp_threads s ! k = Sending err \<Longrightarrow>
    multi_step env bucket items s
      (s\<lparr>mp_threads := (mp_threads s)[k := Finished], mp_main := Returned (Inl err)\<rparr>)"
| poll_default: "mp_main s = AtSelect \<Longrightarrow> \<forall>err. Sending err \<notin> set (mp_threads s) \<Longrightarrow>
    multi_step env bucket items s (s\<lparr>mp_main := AtLoop\<rparr>)"
| lookup: "k < length (mp_threads s) \<Longrightarrow> mp_threads s ! k = Looking \<Longrightarrow>
    multi_step env bucket items s (multi_lookup env bucket items k s)"
| leave: "mp_main s = AtLoop \<Longrightarrow> length (mp_threads s) = length items \<Longrightarrow>
    multi_step env bucket items s (s\<lparr>mp_main := AtWait\<rparr>)"
| all_done: "mp_main s = AtWait \<Longrightarrow> set (mp_threads s) \<subseteq> {Finished} \<Longrightarrow> mp_slots s = map Some slots \<Longrightarrow>
    multi_step env bucket items s (multi_finish env slots s)"

inductive multi_run :: "'w zenv \<Rightarrow> string \<Rightarrow> put_item list \<Rightarrow> 'w multi_put \<Rightarrow> 'w multi_put \<Rightarrow> bool"
  for env bucket items where
  multi_nil: "multi_run env bucket items s s"
| multi_snoc: "multi_run env bucket items s s' \<Longrightarrow> multi_step env bucket items s' s'' \<Longrightarrow>
    multi_run env bucket items s s''"

section \<open>The invariant\<close>

text \<open>A slot holds the request and the answer of its own item.\<close>

definition slot_ok :: "'w zenv \<Rightarrow> string \<Rightarrow> put_item \<Rightarrow> OperationRequest \<times> ObjectInfo \<Rightarrow> bool" where
  "slot_ok env bucket item = (\<lambda>(op, info).
     (\<exists>isUpdate. op = multi_request env (remotePathOf bucket (piName item)) item isUpdate) \<and>
     oiName info = piName item \<and> oiSize info = piSize item)"

definition multi_inv :: "'w zenv \<Rightarrow> string \<Rightarrow> put_item list \<Rightarrow> 'w multi_put \<Rightarrow> bool" where
  "multi_inv env bucket items s \<longleftrightarrow>
     length (mp_slots s) = length items \<and> length (mp_threads s) \<le> length items \<and>
     (\<forall>k < length items. \<forall>slot. mp_slots s ! k = Some slot \<longrightarrow> slot_ok env bucket (items ! k) slot) \<and>
     (case mp_main s of
        Returned (Inl _) \<Rightarrow> True
      | Returned (Inr infos) \<Rightarrow>
          \<exists>slots. list_all2 (slot_ok env bucket) items slots \<and>
            mp_sent s = Some (map fst slots) \<and> infos = map snd slots
      | main \<Rightarrow> (\<forall>k < length (mp_threads s). mp_threads s ! k = Finished \<longrightarrow> mp_slots s ! k \<noteq> None) \<and>
          (main = AtWait \<longrightarrow> length (mp_threads s) = length items))"

lemma multi_inv_init: "multi_inv env bucket items (multi_init items w)"
  by (simp add: multi_inv_def multi_init_def)

lemma slot_ok_request:
  "slot_ok env bucket item (multi_request env (remotePathOf bucket (piName item)) item u, multi_info env bucket item w)"
  by (auto simp: slot_ok_def multi_info_def)

text \<open>What a lookup leaves as it is, and what it writes.\<close>

lemma multi_lookup_cases:
  obtains (failed) err w1 where "multi_lookup env bucket items k s =
      s\<lparr>mp_world := w1, mp_threads := (mp_threads s)[k := Sending err]\<rparr>"
  | (ready) slot w1 where "slot_ok env bucket (items ! k) slot" "multi_lookup env bucket items k s =
      s\<lparr>mp_world := w1, mp_threads := (mp_threads s)[k := Finished], mp_slots := (mp_slots s)[k := Some slot]\<rparr>"
proof (cases "getSingleRegularRef env (remotePathOf bucket (piName (items ! k))) (mp_world s)")
  case (Pair res w1)
  show ?thesis
  proof (cases res)
    case (Inl err)
    show ?thesis
    proof (cases "isPathNoExistError err")
      case True
      show ?thesis by (rule ready [OF slot_ok_request [of _ _ _ False w1], of w1]) (simp add: multi_lookup_def Let_def Pair Inl True)
    next
      case False
      show ?thesis by (rule failed [of err w1]) (simp add: multi_lookup_def Let_def Pair Inl False)
    qed
  next
    case (Inr ref)
    show ?thesis by (rule ready [OF slot_ok_request [of _ _ _ True w1], of w1]) (simp add: multi_lookup_def Let_def Pair Inr)
  qed
qed

lemma multi_inv_lookup:
  assumes "multi_inv env bucket items s" and "k < length (mp_threads s)" and "mp_threads s ! k = Looking"
  shows "multi_inv env bucket items (multi_lookup env bucket items k s)"
proof (cases rule: multi_lookup_cases [of env bucket items k s])
  case (failed err w1)
  then show ?thesis using assms
    by (auto simp: multi_inv_def nth_list_update split: put_main.splits sum.splits)
next
  case (ready slot w1)
  then show ?thesis using assms
    by (auto simp: multi_inv_def nth_list_update split: put_main.splits sum.splits)
qed

lemma multi_inv_done:
  assumes inv: "multi_inv env bucket items s" and slots: "mp_slots s = map Some slots"
  shows "multi_inv env bucket items (multi_finish env slots s)"
proof -
  have len: "length slots = length items" using inv slots by (simp add: multi_inv_def)
  have "slot_ok env bucket (items ! k) (slots ! k)" if "k < length items" for k
    using inv that len by (simp add: multi_inv_def slots)
  then have "list_all2 (slot_ok env bucket) items slots"
    using len by (simp add: list_all2_conv_all_nth)
  then show ?thesis using inv
    by (auto simp: multi_inv_def multi_finish_def split: prod.splits option.splits)
qed

lemma multi_inv_step: "multi_step env bucket items s s' \<Longrightarrow> multi_inv env bucket items s \<Longrightarrow> multi_inv env bucket items s'"
proof (induction rule: multi_step.induct)
  case (lookup k s)
  then show ?case by (blast intro: multi_inv_lookup)
next
  case (all_done s slots)
  then show ?case by (blast intro: multi_inv_done)
qed (auto simp: multi_inv_def nth_append split: put_main.splits sum.splits)

lemma multi_inv_run:
  "multi_run env bucket items s s' \<Longrightarrow> multi_inv env bucket items s \<Longrightarrow> multi_inv env bucket items s'"
  by (induction rule: multi_run.induct) (auto dest: multi_inv_step)

text \<open>A goroutine that sends while the main goroutine waits for the group is never received.\<close>

definition multi_stuck :: "'w multi_put \<Rightarrow> nat \<Rightarrow> go_error \<Rightarrow> bool" where
  "multi_stuck s k err \<longleftrightarrow> mp_main s = AtWait \<and> k < length (mp_threads s) \<and> mp_threads s ! k = Sending err"

lemma multi_stuck_step:
  assumes "multi_step env bucket items s s'" and "multi_stuck s k err"
  shows "multi_stuck s' k err"
  using assms
proof (induction rule: multi_step.induct)
  case (lookup j s)
  have "j \<noteq> k" using lookup by (auto simp: multi_stuck_def)
  then show ?case using lookup(3)
    by (cases rule: multi_lookup_cases [of env bucket items j s]) (auto simp: multi_stuck_def)
next
  case (all_done s slots)
  then have "Sending err \<in> set (mp_threads s)" by (metis multi_stuck_def nth_mem)
  with all_done show ?case by auto
qed (auto simp: multi_stuck_def)

lemma multi_stuck_run:
  "multi_run env bucket items s s' \<Longrightarrow> multi_stuck s k err \<Longrightarrow> multi_stuck s' k err"
  by (induction rule: multi_run.induct) (auto dest: multi_stuck_step)

text \<open>The run in which the poll comes before the lookup: one object, in a given environment.\<close>

definition one_item :: put_item where
  "one_item = \<lparr>piName = ''a'', piData = [1, 2, 3], piSize = 3\<rparr>"

definition one_waiting :: "unit multi_put" where
  "one_waiting = \<lparr>mp_world = (), mp_threads = [Looking], mp_slots = [None], mp_main = AtWait, mp_sent = None\<rparr>"

lemma one_waiting_run: "multi_run env ''b'' [one_item] (multi_init [one_item] ()) one_waiting"
proof -
  let ?s = "\<lambda>main. \<lparr>mp_world = (), mp_threads = [Looking], mp_slots = [None], mp_main = main, mp_sent = None\<rparr>"
  have "multi_step env ''b'' [one_item] (multi_init [one_item] ()) (?s AtSelect)"
    using spawn [of "multi_init [one_item] ()" "[one_item]" env "''b''"] by (simp add: multi_init_def)
  moreover have "multi_step env ''b'' [one_item] (?s AtSelect) (?s AtLoop)"
    using poll_default [of "?s AtSelect" env "''b''" "[one_item]"] by simp
  moreover have "multi_step env ''b'' [one_item] (?s AtLoop) one_waiting"
    using leave [of "?s AtLoop" "[one_item]" env "''b''"] by (simp add: one_waiting_def)
  ultimately show ?thesis using multi_snoc [OF multi_snoc [OF multi_snoc [OF multi_nil]]] by blast
qed

definition found_env :: "unit zenv" where
  "found_env = static_env [sample_ref ''f'' ''/b/a'' 3]"

definition down_env :: "unit zenv" where
  "down_env = (static_env [])\<lparr>GetRefs := (\<lambda>_ _ _ _ _ _ _ _ w. (Inl (ErrorText ''down''), w))\<rparr>"

lemma found_lookup: "getSingleRegularRef found_env (remotePathOf ''b'' ''a'') () = (Inr (sample_ref ''f'' ''/b/a'' 3), ())"
  by code_simp

lemma down_lookup: "getSingleRegularRef down_env (remotePathOf ''b'' ''a'') () = (Inl (ErrorText ''down''), ())"
  by code_simp

section \<open>Properties\<close>

text \<open>
  C14. When storing several objects succeeds, in whatever order the goroutines ran, the SDK was given
  one request per object, in the order of the objects, each with the path, the data and the size of
  its own object, and the answers name the objects in the same order.
\<close>

theorem PutMultipleObjects_complete:
  assumes run: "multi_run env bucket items (multi_init items w) s" and ret: "mp_main s = Returned (Inr infos)"
  shows "\<exists>ops. mp_sent s = Some ops \<and>
    map (\<lambda>op. (fmRemotePath (opFileMeta op), opReader op, fmActualSize (opFileMeta op))) ops =
      map (\<lambda>item. (remotePathOf bucket (piName item), piData item, piSize item)) items \<and>
    map (\<lambda>info. (oiName info, oiSize info)) infos = map (\<lambda>item. (piName item, piSize item)) items"
proof -
  obtain slots where slots: "list_all2 (slot_ok env bucket) items slots" "mp_sent s = Some (map fst slots)"
      "infos = map snd slots"
    using multi_inv_run [OF run multi_inv_init] ret by (auto simp: multi_inv_def)
  have "map (\<lambda>op. (fmRemotePath (opFileMeta op), opReader op, fmActualSize (opFileMeta op))) (map fst slots) =
      map (\<lambda>item. (remotePathOf bucket (piName item), piData item, piSize item)) items \<and>
    map (\<lambda>info. (oiName info, oiSize info)) (map snd slots) = map (\<lambda>item. (piName item, piSize item)) items"
    using slots(1) by induction (auto simp: slot_ok_def multi_request_def)
  with slots(2,3) show ?thesis by blast
qed

theorem PutMultipleObjects_complete_witness:
  "\<exists>s ops. multi_run found_env ''b'' [one_item] (multi_init [one_item] ()) s \<and> mp_sent s = Some ops \<and>
     map (\<lambda>op. (fmRemotePath (opFileMeta op), opReader op, fmActualSize (opFileMeta op))) ops =
       [(remotePathOf ''b'' ''a'', [1, 2, 3], 3)]"
proof -
  define s1 where "s1 = multi_lookup found_env ''b'' [one_item] 0 one_waiting"
  have "multi_step found_env ''b'' [one_item] one_waiting s1"
    unfolding s1_def by (rule lookup) (simp_all add: one_waiting_def)
  from multi_snoc [OF one_waiting_run this]
  have run1: "multi_run found_env ''b'' [one_item] (multi_init [one_item] ()) s1" .
  obtain slot where s1: "mp_threads s1 = [Finished]" "mp_slots s1 = [Some slot]" "mp_main s1 = AtWait"
    unfolding s1_def multi_lookup_def one_item_def one_waiting_def by (auto simp: found_lookup Let_def)
  have "multi_step found_env ''b'' [one_item] s1 (multi_finish found_env [slot] s1)"
    by (rule all_done) (simp_all add: s1)
  from multi_snoc [OF run1 this]
  have run: "multi_run found_env ''b'' [one_item] (multi_init [one_item] ()) (multi_finish found_env [slot] s1)" .
  have "mp_main (multi_finish found_env [slot] s1) = Returned (Inr [snd slot])"
    by (simp add: multi_finish_def found_env_def static_env_def)
  from PutMultipleObjects_complete [OF run this] run show ?thesis by (auto simp: one_item_def)
qed

text \<open>
  C39. A lookup that fails after the main goroutine has left its loop hangs the request: once a
  goroutine waits to send its error while the main goroutine waits for the group, no continuation of
  the run ever returns.
\<close>

theorem PutMultipleObjects_hangs:
  assumes "mp_main s = AtWait" and "k < length (mp_threads s)" and "mp_threads s ! k = Sending err"
    and "multi_run env bucket items s s'"
  shows "mp_main s' = AtWait \<and> mp_threads s' ! k = Sending err"
  using multi_stuck_run [OF assms(4), of k err] assms(1-3) by (simp add: multi_stuck_def)

theorem PutMultipleObjects_hangs_witness:
  "\<exists>s. multi_run down_env ''b'' [one_item] (multi_init [one_item] ()) s \<and>
     mp_main s = AtWait \<and> mp_threads s ! 0 = Sending (ErrorText ''down'')"
proof -
  define s where "s = multi_lookup down_env ''b'' [one_item] 0 one_waiting"
  have "multi_step down_env ''b'' [one_item] one_waiting s"
    unfolding s_def by (rule lookup) (simp_all add: one_waiting_def)
  from multi_snoc [OF one_waiting_run this]
  have run: "multi_run down_env ''b'' [one_item] (multi_init [one_item] ()) s" .
  have "mp_main s = AtWait" "mp_threads s = [Sending (ErrorText ''down'')]"
    unfolding s_def multi_lookup_def one_item_def one_waiting_def
    by (simp_all add: down_lookup Let_def isPathNoExistError_def)
  then show ?thesis
    using PutMultipleObjects_hangs [of s 0 "ErrorText ''down''", OF _ _ _ multi_nil] run by auto
qed

end
