(* ===== verification/Zcn_Config.thy ===== *)
theory Zcn_Config
  imports Zcn_Transfer Zcn_PathLock Host_Files
begin

text \<open>
  Starting the gateway: the options file and its defaults (\<open>initSDK.go\<close>) and the construction of the
  gateway's state (\<open>NewGatewayLayer\<close> of \<open>gateway-zcn.go\<close>). The SDK's start-up calls are parameters.
\<close>

section \<open>Options\<close>

record serverOptions =
  Encrypt :: bool
  Compress :: bool
  MaxBatchSize :: int
  BatchWaitTime :: int
  BatchWorkers :: int
  UploadWorkers :: int
  DownloadWorkers :: int
  MaxConcurrentRequests :: int

definition noOptions :: serverOptions where
  "noOptions = \<lparr>Encrypt = False, Compress = False, MaxBatchSize = 0, BatchWaitTime = 0, BatchWorkers = 0,
     UploadWorkers = 0, DownloadWorkers = 0, MaxConcurrentRequests = 0\<rparr>"

definition option_defaults :: "serverOptions \<Rightarrow> serverOptions" where
  "option_defaults c =
     (let c1 = (if MaxBatchSize c = 0 then c\<lparr>MaxBatchSize := 25, BatchWorkers := 5, BatchWaitTime := 500\<rparr>
                else if BatchWorkers c = 0 then c\<lparr>BatchWorkers := 5\<rparr>
                else if BatchWaitTime c = 0 then c\<lparr>BatchWaitTime := 500\<rparr>
                else c)
      in if MaxConcurrentRequests c1 = 0 then c1\<lparr>MaxConcurrentRequests := MaxBatchSize c1\<rparr> else c1)"

section \<open>The SDK at start\<close>

text \<open>\<open>'c\<close> is the SDK's configuration and \<open>'a\<close> an allocation.\<close>

datatype alloc_status = Commit | Repair | Broken | Rollback

record ('c, 'a) boot_env =
  homeDir :: "(go_error, string) result"
  unmarshalOptions :: "bytes \<Rightarrow> serverOptions \<Rightarrow> (go_error, serverOptions) result"
  LoadConfigFile :: "string \<Rightarrow> (go_error, 'c) result"
  InitSDK :: "'c \<Rightarrow> int \<Rightarrow> go_error option"
  SetGeneralWalletInfo :: "string \<Rightarrow> 'c \<Rightarrow> go_error option"
  GetAllocation :: "string \<Rightarrow> (go_error, 'a) result"
  CheckAllocStatus :: "'a \<Rightarrow> alloc_status"

definition getDefaultConfigDir :: "('c, 'a) boot_env \<Rightarrow> (go_error, string) result" where
  "getDefaultConfigDir env =
     (case homeDir env of Inl err \<Rightarrow> Inl err | Inr home \<Rightarrow> Inr (Join [home, ''.zcn'']))"

definition read_allocation :: "string \<Rightarrow> file_system \<Rightarrow> (go_error, string) result" where
  "read_allocation configDir fs =
     (case os_ReadFile (Join [configDir, ''allocation.txt'']) fs of
        Inl err \<Rightarrow> Inl err
      | Inr bs \<Rightarrow>
          (let allocationID = RemoveAll (CHR ''\<newline>'') (RemoveAll (CHR '' '') (of_bytes bs)) in
           if length allocationID \<noteq> 64
           then Inl (ErrorText (''allocation id has length '' @ Itoa (length allocationID) @ '', should be 64''))
           else Inr allocationID))"

definition read_options :: "('c, 'a) boot_env \<Rightarrow> string \<Rightarrow> file_system \<Rightarrow> (go_error, serverOptions) result" where
  "read_options env configDir fs =
     (case os_ReadFile (Join [configDir, ''zs3server.json'']) fs of
        Inl _ \<Rightarrow> Inr noOptions
      | Inr bs \<Rightarrow> unmarshalOptions env bs noOptions)"

definition initializeSDK ::
  "('c, 'a) boot_env \<Rightarrow> file_system \<Rightarrow> string \<Rightarrow> string \<Rightarrow> int \<Rightarrow> string \<Rightarrow>
     (go_error, string \<times> serverOptions \<times> 'c \<times> string) result" where
  "initializeSDK env fs configDir allocid nonce walletDetails =
     (case (if configDir = [] then getDefaultConfigDir env else Inr configDir) of
        Inl err \<Rightarrow> Inl err
      | Inr configDir \<Rightarrow>
          if configDir \<notin> set (fs_dirs fs) \<and> map_of (fs_files fs) configDir = None then Inl (no_such_file configDir)
          else case (if allocid = [] then read_allocation configDir fs else Inr allocid) of
                 Inl err \<Rightarrow> Inl err
               | Inr allocationID \<Rightarrow>
                   (case read_options env configDir fs of
                      Inl err \<Rightarrow> Inl err
                    | Inr options \<Rightarrow>
                        (let options = option_defaults options in
                         case LoadConfigFile env (Join [configDir, ''config.yaml'']) of
                           Inl err \<Rightarrow> Inl err
                         | Inr cfg \<Rightarrow>
                             (case (if walletDetails = []
                                    then map_sum id of_bytes (os_ReadFile (Join [configDir, ''wallet.json'']) fs)
                                    else Inr walletDetails) of
                                Inl err \<Rightarrow> Inl err
                              | Inr walletInfo \<Rightarrow>
                                  (case InitSDK env cfg nonce of
                                     Some err \<Rightarrow> Inl err
                                   | None \<Rightarrow>
                                       (case SetGeneralWalletInfo env walletInfo cfg of
                                          Some err \<Rightarrow> Inl err
                                        | None \<Rightarrow> Inr (allocationID, options, cfg, walletInfo)))))))"

section \<open>The gateway's state\<close>

record 'a gateway_state =
  gwAlloc :: 'a
  gwWorkDir :: string
  gwOptions :: serverOptions
  gwLocks :: path_locks
  gwBatcher :: "OperationRequest batcher"
  gwBatchChanSize :: int
  gwBatchSize :: int
  gwMultiOpBatchSize :: int

text \<open>The channel of uploads has room for \<open>maxOperations * maxWorkers\<close>; a negative room panics.\<close>

definition NewGatewayLayer ::
  "('c, 'a) boot_env \<Rightarrow> file_system \<Rightarrow> string \<Rightarrow> string \<Rightarrow> int \<Rightarrow> string \<Rightarrow> (go_error, 'a gateway_state) result" where
  "NewGatewayLayer env fs configDir allocid nonce walletDetails =
     (case initializeSDK env fs configDir allocid nonce walletDetails of
        Inl err \<Rightarrow> Inl err
      | Inr (allocationID, options, cfg, _) \<Rightarrow>
          (case GetAllocation env allocationID of
             Inl err \<Rightarrow> Inl err
           | Inr alloc \<Rightarrow>
               if CheckAllocStatus env alloc = Broken then Inl (ErrorText ''allocation_broken'')
               else case homeDir env of
                      Inl err \<Rightarrow> Inl err
                    | Inr workDir \<Rightarrow>
                        if MaxBatchSize options * BatchWorkers options < 0 \<or> BatchWorkers options < 0
                        then Inl (Panic ''makechan: size out of range'')
                        else Inr \<lparr>gwAlloc = alloc, gwWorkDir = workDir, gwOptions = options,
                           gwLocks = path_locks_init, gwBatcher = batcher_init,
                           gwBatchChanSize = MaxBatchSize options * BatchWorkers options,
                           gwBatchSize = MaxConcurrentRequests options,
                           gwMultiOpBatchSize = MaxBatchSize options\<rparr>))"

section \<open>Properties\<close>

lemma option_defaults_wait:
  "BatchWaitTime (option_defaults c) = 0 \<longleftrightarrow>
   MaxBatchSize c \<noteq> 0 \<and> BatchWorkers c = 0 \<and> BatchWaitTime c = 0"
  by (auto simp: option_defaults_def Let_def)

lemma option_defaults_idem:
  "BatchWaitTime (option_defaults c) \<noteq> 0 \<Longrightarrow> option_defaults (option_defaults c) = option_defaults c"
  by (auto simp: option_defaults_def Let_def)

lemma initializeSDK_options:
  assumes "initializeSDK env fs configDir allocid nonce walletDetails = Inr (a, options, cfg, wallet)"
  obtains c where "options = option_defaults c"
  using assms by (auto simp: initializeSDK_def Let_def split: sum.splits option.splits if_splits)

text \<open>
  A gateway that starts has room in its upload channel for every batch, at least one worker and
  a positive batch size, whatever the options file says, and an allocation that is not broken: the
  batching goroutine is started within the bounds under which it hands over every upload.
\<close>

lemma NewGatewayLayer_batching:
  assumes "NewGatewayLayer env fs configDir allocid nonce walletDetails = Inr gw"
  shows "0 < MaxBatchSize (gwOptions gw) \<and> 0 < BatchWorkers (gwOptions gw) \<and>
    gwMultiOpBatchSize gw \<le> gwBatchChanSize gw \<and> gwBatchSize gw \<noteq> 0 \<and>
    CheckAllocStatus env (gwAlloc gw) \<noteq> Broken"
proof -
  obtain a c cfg wallet where init: "initializeSDK env fs configDir allocid nonce walletDetails =
      Inr (a, gwOptions gw, cfg, wallet)"
    and room: "0 \<le> MaxBatchSize (gwOptions gw) * BatchWorkers (gwOptions gw)" "0 \<le> BatchWorkers (gwOptions gw)"
    and gw: "gwBatchChanSize gw = MaxBatchSize (gwOptions gw) * BatchWorkers (gwOptions gw)"
      "gwBatchSize gw = MaxConcurrentRequests (gwOptions gw)" "gwMultiOpBatchSize gw = MaxBatchSize (gwOptions gw)"
    and alloc: "CheckAllocStatus env (gwAlloc gw) \<noteq> Broken"
    using assms by (auto simp: NewGatewayLayer_def not_less split: sum.splits if_splits)
  obtain c where c: "gwOptions gw = option_defaults c" using initializeSDK_options [OF init] .
  have nz: "MaxBatchSize (gwOptions gw) \<noteq> 0" "BatchWorkers (gwOptions gw) \<noteq> 0"
      "MaxConcurrentRequests (gwOptions gw) \<noteq> 0"
    unfolding c by (auto simp: option_defaults_def Let_def)
  then have workers: "0 < BatchWorkers (gwOptions gw)" using room(2) by simp
  then have size: "0 < MaxBatchSize (gwOptions gw)" using room(1) nz(1) by (simp add: zero_le_mult_iff)
  have "MaxBatchSize (gwOptions gw) * 1 \<le> MaxBatchSize (gwOptions gw) * BatchWorkers (gwOptions gw)"
    using size workers by (intro mult_left_mono) auto
  then show ?thesis using gw alloc nz workers size by simp
qed

definition sample_boot :: "(unit, unit) boot_env" where
  "sample_boot = \<lparr>homeDir = Inr ''/root'', unmarshalOptions = (\<lambda>bs c. Inr c), LoadConfigFile = (\<lambda>p. Inr ()),
     InitSDK = (\<lambda>c n. None), SetGeneralWalletInfo = (\<lambda>w c. None), GetAllocation = (\<lambda>a. Inr ()),
     CheckAllocStatus = (\<lambda>a. Commit)\<rparr>"

lemma NewGatewayLayer_sample:
  "\<exists>gw. NewGatewayLayer sample_boot \<lparr>fs_files = [], fs_dirs = [''/cfg'']\<rparr> ''/cfg'' ''alloc'' 0 ''wallet'' = Inr gw \<and>
     0 < MaxBatchSize (gwOptions gw)"
proof -
  have "\<exists>gw. NewGatewayLayer sample_boot \<lparr>fs_files = [], fs_dirs = [''/cfg'']\<rparr> ''/cfg'' ''alloc'' 0 ''wallet'' = Inr gw"
    by (simp add: NewGatewayLayer_def initializeSDK_def sample_boot_def read_options_def os_ReadFile_def
        option_defaults_def noOptions_def)
  then obtain gw where "NewGatewayLayer sample_boot \<lparr>fs_files = [], fs_dirs = [''/cfg'']\<rparr> ''/cfg'' ''alloc'' 0 ''wallet'' = Inr gw"
    by blast
  with NewGatewayLayer_batching [OF this] show ?thesis by blast
qed

end
