(* ===== verification/Object_Names.thy ===== *)
theory Object_Names
  imports Zcn_Gateway Go_Strings
begin

text \<open>
  The checks on bucket and object names (\<open>cmd/object-api-utils.go\<close>, \<open>cmd/object-api-input-checks.go\<close> and
  \<open>hasBadPathComponent\<close> of \<open>cmd/generic-handlers.go\<close>) on Unix, and what they give the gateway. Names are byte
  strings; white space and UTF-8 are those of Go's packages \<open>strings\<close> and \<open>unicode/utf8\<close>.
\<close>

section \<open>UTF-8\<close>

definition byte_in :: "nat \<Rightarrow> nat \<Rightarrow> char \<Rightarrow> bool" where
  "byte_in lo hi c \<longleftrightarrow> lo \<le> of_char c \<and> of_char c \<le> (hi :: nat)"

fun ValidString :: "string \<Rightarrow> bool" where
  "ValidString [] = True"
| "ValidString (a # s) =
     (if byte_in 0 127 a then ValidString s
      else case s of
        [] \<Rightarrow> False
      | b # s2 \<Rightarrow>
          if byte_in 194 223 a then byte_in 128 191 b \<and> ValidString s2
          else case s2 of
            [] \<Rightarrow> False
          | c # s3 \<Rightarrow>
              if byte_in 224 239 a
              then byte_in (if byte_in 224 224 a then 160 else 128) (if byte_in 237 237 a then 159 else 191) b \<and>
                   byte_in 128 191 c \<and> ValidString s3
              else case s3 of
                [] \<Rightarrow> False
              | d # s4 \<Rightarrow>
                  byte_in 240 244 a \<and>
                  byte_in (if byte_in 240 240 a then 144 else 128) (if byte_in 244 244 a then 143 else 191) b \<and>
                  byte_in 128 191 c \<and> byte_in 128 191 d \<and> ValidString s4)"

section \<open>The checks\<close>

definition SlashSeparator :: string where "SlashSeparator = ''/''"
definition dnsDelimiter :: char where "dnsDelimiter = CHR ''.''"

definition hasBadPathComponent :: "string \<Rightarrow> bool" where
  "hasBadPathComponent path =
     list_ex (\<lambda>p. TrimSpace p = ''..'' \<or> TrimSpace p = ''.'') (split_on slash (TrimSpace path))"

definition isMinioMetaBucketName :: "string \<Rightarrow> bool" where
  "isMinioMetaBucketName bucket = HasPrefix bucket minioMetaBucket"

definition is_lower :: "char \<Rightarrow> bool" where
  "is_lower c = byte_in 97 122 c"

definition is_digit :: "char \<Rightarrow> bool" where
  "is_digit c = byte_in 48 57 c"

text \<open>One piece of a bucket name: \<open>None\<close> if it is refused, and otherwise whether it is not a number.\<close>

definition check_piece :: "string \<Rightarrow> bool option" where
  "check_piece piece =
     (if length piece = 0 \<or> hd piece = CHR ''-'' \<or> last piece = CHR ''-'' then None
      else if list_all (\<lambda>c. is_lower c \<or> c = CHR ''-'' \<or> is_digit c) piece
      then Some (list_ex (\<lambda>c. is_lower c \<or> c = CHR ''-'') piece)
      else None)"

fun check_pieces :: "string list \<Rightarrow> bool \<Rightarrow> bool option" where
  "check_pieces [] allNumbers = Some allNumbers"
| "check_pieces (piece # ps) allNumbers =
     (case check_piece piece of
        None \<Rightarrow> None
      | Some isNotNumber \<Rightarrow> check_pieces ps (allNumbers \<and> \<not> isNotNumber))"

definition IsValidBucketName :: "string \<Rightarrow> bool" where
  "IsValidBucketName bucket =
     (if isMinioMetaBucketName bucket then True
      else if length bucket < 3 \<or> length bucket > 63 then False
      else let pieces = split_on dnsDelimiter bucket in
           case check_pieces pieces True of
             None \<Rightarrow> False
           | Some allNumbers \<Rightarrow> \<not> (length pieces = 4 \<and> allNumbers))"

definition IsValidObjectPrefix :: "string \<Rightarrow> bool" where
  "IsValidObjectPrefix object =
     (if hasBadPathComponent object then False
      else if \<not> ValidString object then False
      else if Contains object ''//'' then False
      else True)"

definition IsValidObjectName :: "string \<Rightarrow> bool" where
  "IsValidObjectName object =
     (if length object = 0 then False
      else if HasSuffix object SlashSeparator then False
      else IsValidObjectPrefix object)"

datatype name_error = ObjectNameTooLong string string | ObjectNamePrefixAsSlash string string | ObjectNameInvalid string string
  | BucketNameInvalid string | InvalidMarkerPrefixCombination string string | BucketError go_error

definition checkObjectNameForLengthAndSlash :: "string \<Rightarrow> string \<Rightarrow> name_error option" where
  "checkObjectNameForLengthAndSlash bucket object =
     (if length object > 1024 then Some (ObjectNameTooLong bucket object)
      else if HasPrefix object SlashSeparator then Some (ObjectNamePrefixAsSlash bucket object)
      else None)"

text \<open>\<open>CheckValidBucketName\<close> is a function of a package outside the repository.\<close>

definition checkBucketAndObjectNames :: "(string \<Rightarrow> bool) \<Rightarrow> string \<Rightarrow> string \<Rightarrow> name_error option" where
  "checkBucketAndObjectNames CheckValidBucketName bucket object =
     (if \<not> isMinioMetaBucketName bucket \<and> \<not> CheckValidBucketName bucket then Some (BucketNameInvalid bucket)
      else if length object = 0 then Some (ObjectNameInvalid bucket object)
      else if \<not> IsValidObjectPrefix object then Some (ObjectNameInvalid bucket object)
      else None)"

text \<open>The argument \<open>bucketErr\<close> is the error of \<open>GetBucketInfo\<close>.\<close>

definition checkObjectArgs :: "go_error option \<Rightarrow> string \<Rightarrow> string \<Rightarrow> name_error option" where
  "checkObjectArgs bucketErr bucket object =
     (case bucketErr of
        Some err \<Rightarrow> Some (BucketError err)
      | None \<Rightarrow>
          (case checkObjectNameForLengthAndSlash bucket object of
             Some err \<Rightarrow> Some err
           | None \<Rightarrow> if \<not> IsValidObjectName object then Some (ObjectNameInvalid bucket object) else None))"

definition checkPutObjectArgs :: "go_error option \<Rightarrow> string \<Rightarrow> string \<Rightarrow> name_error option" where
  "checkPutObjectArgs bucketErr bucket object =
     (case bucketErr of
        Some err \<Rightarrow> Some (BucketError err)
      | None \<Rightarrow>
          (case checkObjectNameForLengthAndSlash bucket object of
             Some err \<Rightarrow> Some err
           | None \<Rightarrow> if length object = 0 \<or> \<not> IsValidObjectPrefix object then Some (ObjectNameInvalid bucket object) else None))"

definition checkListObjsArgs :: "go_error option \<Rightarrow> string \<Rightarrow> string \<Rightarrow> string \<Rightarrow> name_error option" where
  "checkListObjsArgs bucketErr bucket prefix marker =
     (case bucketErr of
        Some err \<Rightarrow> Some (BucketError err)
      | None \<Rightarrow>
          if \<not> IsValidObjectPrefix prefix then Some (ObjectNameInvalid bucket prefix)
          else if marker \<noteq> [] \<and> \<not> HasPrefix marker prefix then Some (InvalidMarkerPrefixCombination marker prefix)
          else None)"

definition retainSlash :: "string \<Rightarrow> string" where
  "retainSlash s = (if s = [] then s else TrimSuffix s SlashSeparator @ SlashSeparator)"

section \<open>Elements of a path\<close>

lemma join_member:
  "\<exists>u v. join_with [c] (xs @ e # ys) = u @ e @ v \<and> (u = [] \<or> last u = c) \<and> (v = [] \<or> hd v = c)"
proof -
  have tail: "\<exists>v. join_with [c] (e # ys) = e @ v \<and> (v = [] \<or> hd v = c)"
    by (cases ys) (auto simp: join_with_Cons)
  then obtain v where v: "join_with [c] (e # ys) = e @ v" "v = [] \<or> hd v = c" by auto
  show ?thesis
  proof (cases "xs = []")
    case True
    then show ?thesis using v by (intro exI [of _ "[]"] exI [of _ v]) simp
  next
    case False
    then have "join_with [c] (xs @ e # ys) = (join_with [c] xs @ [c]) @ e @ v"
      using join_with_append [of xs "e # ys" "[c]"] v(1) by simp
    then show ?thesis using v(2) by (intro exI [of _ "join_with [c] xs @ [c]"] exI [of _ v]) simp
  qed
qed

lemma split_member_iff:
  "e \<in> set (split_on c s) \<longleftrightarrow> c \<notin> set e \<and> (\<exists>u v. s = u @ e @ v \<and> (u = [] \<or> last u = c) \<and> (v = [] \<or> hd v = c))"
proof
  assume e: "e \<in> set (split_on c s)"
  then obtain xs ys where "split_on c s = xs @ e # ys" by (meson split_list)
  then have "s = join_with [c] (xs @ e # ys)" using join_split [of c s] by simp
  then show "c \<notin> set e \<and> (\<exists>u v. s = u @ e @ v \<and> (u = [] \<or> last u = c) \<and> (v = [] \<or> hd v = c))"
    using join_member [of c xs e ys] split_on_parts [OF e] by simp
next
  assume "c \<notin> set e \<and> (\<exists>u v. s = u @ e @ v \<and> (u = [] \<or> last u = c) \<and> (v = [] \<or> hd v = c))"
  then obtain u v where h: "c \<notin> set e" "s = u @ e @ v" "u = [] \<or> last u = c" "v = [] \<or> hd v = c" by auto
  have ev: "e \<in> set (split_on c (e @ v))"
  proof (cases v)
    case (Cons x xs)
    then show ?thesis using h(1,4) split_on_append_sep [of c e xs] split_on_no_sep by simp
  qed (use h(1) split_on_no_sep in simp)
  show "e \<in> set (split_on c s)"
  proof (cases "u = []")
    case False
    then have "s = butlast u @ c # (e @ v)" using h(2,3) by (metis append.assoc append_Cons append_Nil append_butlast_last_id)
    then show ?thesis using ev split_on_append_sep [of c "butlast u" "e @ v"] by simp
  qed (use ev h(2) in simp)
qed

lemma append_longer: "u @ w = a @ z \<Longrightarrow> length u < length a \<Longrightarrow> \<exists>x. a = u @ x \<and> x \<noteq> [] \<and> w = x @ z"
  by (rule exI [of _ "drop (length u) a"]) (metis append_eq_append_conv_if append_take_drop_id drop_eq_Nil less_imp_le_nat linorder_not_less)

lemma append_shorter: "u @ w = a @ z \<Longrightarrow> length a \<le> length u \<Longrightarrow> \<exists>x. u = a @ x \<and> x @ w = z"
  by (rule exI [of _ "drop (length a) u"]) (metis append_eq_append_conv_if append_take_drop_id)

text \<open>Bytes around a path that occur neither in an element nor as separators do not hide the element.\<close>

lemma split_member_trim:
  assumes p: "p = a @ q @ b" and e: "e \<in> set (split_on c p)" "e \<noteq> []"
    and a: "set a \<inter> set e = {}" and b: "set b \<inter> set e = {}"
  shows "e \<in> set (split_on c q)"
proof -
  obtain u v where uv: "p = u @ e @ v" "u = [] \<or> last u = c" "v = [] \<or> hd v = c" and c: "c \<notin> set e"
    using e(1) unfolding split_member_iff by blast
  have eq: "u @ (e @ v) = a @ (q @ b)" using uv(1) p by simp
  have "\<not> length u < length a"
  proof
    assume "length u < length a"
    then obtain x where x: "a = u @ x" "x \<noteq> []" "e @ v = x @ (q @ b)" using append_longer [OF eq] by blast
    have "hd x = hd e" using arg_cong [OF x(3), of hd] x(2) e(2) by simp
    moreover have "hd x \<in> set a" using x(1,2) by simp
    ultimately show False using a e(2) by (metis disjoint_iff hd_in_set)
  qed
  then obtain u' where u': "u = a @ u'" "u' @ (e @ v) = q @ b" using append_shorter [OF eq] by (meson not_le)
  then have eq2: "q @ b = (u' @ e) @ v" by simp
  have "\<not> length (u' @ e) > length q"
  proof
    assume "length (u' @ e) > length q"
    then obtain x where x: "u' @ e = q @ x" "x \<noteq> []" "b = x @ v" using append_longer [OF eq2] by blast
    have "last x = last e" using arg_cong [OF x(1), of last] x(2) e(2) by simp
    moreover have "last x \<in> set b" using x(2,3) by simp
    ultimately show False using b e(2) by (metis disjoint_iff last_in_set)
  qed
  then obtain v' where v': "q = (u' @ e) @ v'" "v' @ b = v" using append_shorter [OF eq2] by (meson not_le)
  have "u' = [] \<or> last u' = c" using uv(2) u'(1) by (cases "u' = []") auto
  moreover have "v' = [] \<or> hd v' = c" using uv(3) v'(2) by (cases "v' = []") auto
  ultimately show ?thesis using c v'(1) unfolding split_member_iff by auto
qed

section \<open>What the checks give\<close>

lemma space_bytes: "sp \<in> set spaces \<Longrightarrow> CHR ''.'' \<notin> set sp"
proof -
  have "list_all (\<lambda>sp. CHR ''.'' \<notin> set sp) spaces" by code_simp
  then show "sp \<in> set spaces \<Longrightarrow> CHR ''.'' \<notin> set sp" by (simp add: list_all_iff)
qed

lemma no_bad_component:
  assumes "\<not> hasBadPathComponent path"
  shows "''..'' \<notin> set (split_on slash path)" "''.'' \<notin> set (split_on slash path)"
proof -
  obtain a b where ab: "path = a @ TrimSpace path @ b" "set a \<subseteq> \<Union> (set ` set spaces)" "set b \<subseteq> \<Union> (set ` set spaces)"
    using TrimSpace_inner by blast
  have dot: "set a \<inter> {CHR ''.''} = {}" "set b \<inter> {CHR ''.''} = {}" using ab(2,3) space_bytes by auto
  have t: "TrimSpace ''..'' = ''..''" "TrimSpace ''.'' = ''.''" by code_simp+
  have no: "''..'' \<notin> set (split_on slash (TrimSpace path))" "''.'' \<notin> set (split_on slash (TrimSpace path))"
    using assms t by (auto simp: hasBadPathComponent_def list_ex_iff)
  show "''..'' \<notin> set (split_on slash path)"
    using split_member_trim [OF ab(1), of "''..''" slash] no(1) dot by auto
  show "''.'' \<notin> set (split_on slash path)"
    using split_member_trim [OF ab(1), of "''.''" slash] no(2) dot by auto
qed

lemma slash_slash: "u \<noteq> [] \<Longrightarrow> last u = slash \<Longrightarrow> v \<noteq> [] \<Longrightarrow> hd v = slash \<Longrightarrow> Contains (u @ v) ''//''"
proof -
  assume h: "u \<noteq> []" "last u = slash" "v \<noteq> []" "hd v = slash"
  have "u @ v = butlast u @ ''//'' @ tl v" using h
    by (metis append.assoc append_Cons append_Nil append_butlast_last_id list.collapse)
  then show ?thesis unfolding Contains_iff by blast
qed

lemma valid_object_names:
  assumes valid: "IsValidObjectName object" and front: "\<not> HasPrefix object SlashSeparator"
  shows "list_all name_ok (split_on slash object)"
proof -
  have v: "object \<noteq> []" "\<not> HasSuffix object SlashSeparator" "\<not> hasBadPathComponent object" "\<not> Contains object ''//''"
    using valid by (auto simp: IsValidObjectName_def IsValidObjectPrefix_def split: if_splits)
  have sep: "SlashSeparator = [slash]" by (simp add: SlashSeparator_def)
  have "[] \<notin> set (split_on slash object)"
  proof
    assume "[] \<in> set (split_on slash object)"
    then obtain u w where uw: "object = u @ w" "u = [] \<or> last u = slash" "w = [] \<or> hd w = slash"
      unfolding split_member_iff by auto
    then show False using v front slash_slash [of u w]
      by (cases "u = []"; cases "w = []") (auto simp: sep HasPrefix_single HasSuffix_single)
  qed
  then show ?thesis using no_bad_component [OF v(3)] split_on_parts [of _ slash object]
    by (auto simp: list_all_iff name_ok_def)
qed

lemma check_pieces_chars:
  "check_pieces ps b \<noteq> None \<Longrightarrow> p \<in> set ps \<Longrightarrow> p \<noteq> [] \<and> list_all (\<lambda>c. is_lower c \<or> c = CHR ''-'' \<or> is_digit c) p"
proof (induction ps b rule: check_pieces.induct)
  case (2 piece ps allNumbers)
  then show ?case by (auto simp: check_piece_def split: option.splits if_splits)
qed simp

lemma set_join_with: "set (join_with sep ps) \<subseteq> set sep \<union> \<Union> (set ` set ps)"
  by (induction sep ps rule: join_with.induct) auto

lemma valid_bucket_name:
  assumes valid: "IsValidBucketName bucket" and user: "\<not> isMinioMetaBucketName bucket"
  shows "name_ok bucket"
proof -
  have len: "3 \<le> length bucket" and pieces: "check_pieces (split_on dnsDelimiter bucket) True \<noteq> None"
    using valid user by (auto simp: IsValidBucketName_def Let_def split: if_splits option.splits)
  have "\<not> is_lower slash" "\<not> is_digit slash" "slash \<noteq> CHR ''-''" "slash \<noteq> dnsDelimiter"
    by (simp_all add: is_lower_def is_digit_def byte_in_def dnsDelimiter_def)
  then have "slash \<notin> set p" if "p \<in> set (split_on dnsDelimiter bucket)" for p
    using check_pieces_chars [OF pieces that] by (auto simp: list_all_iff)
  then have "slash \<notin> set bucket"
    using set_join_with [of "[dnsDelimiter]" "split_on dnsDelimiter bucket"] join_split [of dnsDelimiter bucket]
      \<open>slash \<noteq> dnsDelimiter\<close> by auto
  then show ?thesis using len by (auto simp: name_ok_def)
qed

lemma split_on_request:
  "''..'' \<notin> set (split_on slash (''/'' @ bucket @ ''/'' @ object)) \<Longrightarrow> ''..'' \<notin> set (split_on slash object)"
  using split_on_append_sep [of slash "''/'' @ bucket" object] by simp

end
