(* ===== verification/Lsync.thy ===== *)
theory Lsync
  imports Prelude
begin

text \<open>
  The in-process reader-writer lock (\<open>internal/lsync/lrwmutex.go\<close>), its abstract specification, and the
  interface that the namespace locks use of it.
\<close>

section \<open>The mutex\<close>

record LRWMutex =
  lmId :: string
  lmSource :: string
  lmIsWriteLock :: bool
  lmRef :: int

definition NewLRWMutex :: LRWMutex where
  "NewLRWMutex = \<lparr>lmId = [], lmSource = [], lmIsWriteLock = False, lmRef = 0\<rparr>"

text \<open>One attempt to take the lock, under the mutex's own lock.\<close>

definition lm_lock :: "string \<Rightarrow> string \<Rightarrow> bool \<Rightarrow> LRWMutex \<Rightarrow> bool \<times> LRWMutex" where
  "lm_lock uid source isWriteLock lm =
     (let lm1 = lm\<lparr>lmId := uid, lmSource := source\<rparr> in
      if isWriteLock
      then (if lmRef lm = 0 \<and> \<not> lmIsWriteLock lm then (True, lm1\<lparr>lmRef := 1, lmIsWriteLock := True\<rparr>)
            else (False, lm1))
      else (if \<not> lmIsWriteLock lm then (True, lm1\<lparr>lmRef := lmRef lm + 1\<rparr>) else (False, lm1)))"

definition lm_unlock :: "bool \<Rightarrow> LRWMutex \<Rightarrow> bool \<times> LRWMutex" where
  "lm_unlock isWriteLock lm =
     (if isWriteLock
      then (if lmIsWriteLock lm \<and> lmRef lm = 1 then (True, lm\<lparr>lmRef := 0, lmIsWriteLock := False\<rparr>) else (False, lm))
      else (if \<not> lmIsWriteLock lm \<and> lmRef lm > 0 then (True, lm\<lparr>lmRef := lmRef lm - 1\<rparr>) else (False, lm)))"

text \<open>\<open>Unlock\<close> and \<open>RUnlock\<close> panic, here \<open>None\<close>, when the lock is not held.\<close>

definition lm_Unlock :: "LRWMutex \<Rightarrow> LRWMutex option" where
  "lm_Unlock lm = (case lm_unlock True lm of (True, lm') \<Rightarrow> Some lm' | (False, _) \<Rightarrow> None)"

definition lm_RUnlock :: "LRWMutex \<Rightarrow> LRWMutex option" where
  "lm_RUnlock lm = (case lm_unlock False lm of (True, lm') \<Rightarrow> Some lm' | (False, _) \<Rightarrow> None)"

definition lm_ForceUnlock :: "LRWMutex \<Rightarrow> LRWMutex" where
  "lm_ForceUnlock lm = lm\<lparr>lmRef := 0, lmIsWriteLock := False\<rparr>"

text \<open>The retry loop, as long as its timeout allows: the list has one entry for each attempt, what the other
  goroutines do to the mutex before it.\<close>

fun lockLoop :: "string \<Rightarrow> string \<Rightarrow> bool \<Rightarrow> (LRWMutex \<Rightarrow> LRWMutex) list \<Rightarrow> LRWMutex \<Rightarrow> bool \<times> LRWMutex" where
  "lockLoop uid source isWriteLock [] lm = (False, lm)"
| "lockLoop uid source isWriteLock (others # rest) lm =
     (case lm_lock uid source isWriteLock (others lm) of
        (True, lm') \<Rightarrow> (True, lm')
      | (False, lm') \<Rightarrow> lockLoop uid source isWriteLock rest lm')"

definition lm_GetLock where "lm_GetLock uid source attempts lm = lockLoop uid source True attempts lm"
definition lm_GetRLock where "lm_GetRLock uid source attempts lm = lockLoop uid source False attempts lm"
definition lm_Lock where "lm_Lock attempts lm = lockLoop (lmId lm) (lmSource lm) True attempts lm"
definition lm_RLock where "lm_RLock attempts lm = lockLoop (lmId lm) (lmSource lm) False attempts lm"
definition drlocker_Lock where "drlocker_Lock attempts lm = lm_RLock attempts lm"
definition drlocker_Unlock where "drlocker_Unlock lm = lm_RUnlock lm"

section \<open>The abstract lock\<close>

datatype rw_state = Readers nat | Writer

fun rw_lock :: "bool \<Rightarrow> rw_state \<Rightarrow> bool \<times> rw_state" where
  "rw_lock True (Readers n) = (if n = 0 then (True, Writer) else (False, Readers n))"
| "rw_lock False (Readers n) = (True, Readers (Suc n))"
| "rw_lock _ Writer = (False, Writer)"

fun rw_unlock :: "bool \<Rightarrow> rw_state \<Rightarrow> bool \<times> rw_state" where
  "rw_unlock True Writer = (True, Readers 0)"
| "rw_unlock False (Readers (Suc n)) = (True, Readers n)"
| "rw_unlock _ s = (False, s)"

definition lm_ok :: "LRWMutex \<Rightarrow> bool" where
  "lm_ok lm \<longleftrightarrow> 0 \<le> lmRef lm \<and> (lmIsWriteLock lm \<longrightarrow> lmRef lm = 1)"

definition lm_abs :: "LRWMutex \<Rightarrow> rw_state" where
  "lm_abs lm = (if lmIsWriteLock lm then Writer else Readers (nat (lmRef lm)))"

lemma lm_ok_ops:
  "lm_ok NewLRWMutex"
  "lm_ok lm \<Longrightarrow> lm_ok (snd (lm_lock uid source w lm))"
  "lm_ok lm \<Longrightarrow> lm_ok (snd (lm_unlock w lm))"
  "lm_ok (lm_ForceUnlock lm)"
  by (auto simp: lm_ok_def NewLRWMutex_def lm_lock_def lm_unlock_def lm_ForceUnlock_def Let_def)

lemma lm_lock_refines:
  "lm_ok lm \<Longrightarrow> map_prod (\<lambda>b. b) lm_abs (lm_lock uid source w lm) = rw_lock w (lm_abs lm)"
  by (cases w) (auto simp: lm_ok_def lm_abs_def lm_lock_def Let_def nat_add_distrib)

lemma rw_unlock_read: "rw_unlock False (Readers n) = (if n = 0 then (False, Readers n) else (True, Readers (n - 1)))"
  by (cases n) auto

lemma lm_unlock_refines:
  "lm_ok lm \<Longrightarrow> map_prod (\<lambda>b. b) lm_abs (lm_unlock w lm) = rw_unlock w (lm_abs lm)"
  by (cases w) (auto simp: lm_ok_def lm_abs_def lm_unlock_def rw_unlock_read nat_diff_distrib)

text \<open>The loop keeps the mutex well-formed, and ends with the lock as soon as it looks at a free mutex.\<close>

lemma lockLoop_ok:
  "lm_ok lm \<Longrightarrow> (\<And>f lm. f \<in> set attempts \<Longrightarrow> lm_ok lm \<Longrightarrow> lm_ok (f lm)) \<Longrightarrow>
   lm_ok (snd (lockLoop uid source w attempts lm))"
proof (induction attempts arbitrary: lm)
  case (Cons f fs)
  have "lm_ok (snd (lm_lock uid source w (f lm)))" using Cons.prems by (intro lm_ok_ops(2)) auto
  then show ?case using Cons by (auto split: prod.splits bool.splits)
qed simp

lemma lockLoop_free:
  assumes "lm_abs (f lm) = Readers 0" "lm_ok (f lm)"
  shows "fst (lockLoop uid source w (f # fs) lm) \<and>
    lm_abs (snd (lockLoop uid source w (f # fs) lm)) = (if w then Writer else Readers 1)"
  using assms by (auto simp: lm_abs_def lm_ok_def lm_lock_def Let_def split: if_splits)

section \<open>The interface\<close>

text \<open>What a client relies on: how many hold the lock and in which mode, who may be added and that a
  holder can always leave.\<close>

locale rw_mutex =
  fixes fresh :: 's
    and attempt :: "string \<Rightarrow> string \<Rightarrow> bool \<Rightarrow> 's \<Rightarrow> bool \<times> 's"
    and leave :: "bool \<Rightarrow> 's \<Rightarrow> 's option"
    and readers :: "'s \<Rightarrow> nat"
    and writers :: "'s \<Rightarrow> nat"
    and ok :: "'s \<Rightarrow> bool"
  assumes fresh_free: "ok fresh \<and> readers fresh = 0 \<and> writers fresh = 0"
    and attempt_write: "ok s \<Longrightarrow> attempt i src True s = (g, s') \<Longrightarrow>
      ok s' \<and> readers s' = readers s \<and> (if g then readers s = 0 \<and> writers s = 0 \<and> writers s' = 1 else writers s' = writers s)"
    and attempt_read: "ok s \<Longrightarrow> attempt i src False s = (g, s') \<Longrightarrow>
      ok s' \<and> writers s' = writers s \<and> (if g then writers s = 0 \<and> readers s' = Suc (readers s) else readers s' = readers s)"
    and leave_write: "ok s \<Longrightarrow> 0 < writers s \<Longrightarrow>
      \<exists>s'. leave True s = Some s' \<and> ok s' \<and> readers s' = readers s \<and> writers s = Suc (writers s')"
    and leave_read: "ok s \<Longrightarrow> 0 < readers s \<Longrightarrow> writers s = 0 \<Longrightarrow>
      \<exists>s'. leave False s = Some s' \<and> ok s' \<and> writers s' = 0 \<and> readers s = Suc (readers s')"
    and grants: "ok s \<Longrightarrow> fst (attempt i src w s) \<longleftrightarrow> writers s = 0 \<and> (w \<longrightarrow> readers s = 0)"
    and exclusive: "ok s \<Longrightarrow> writers s \<le> 1 \<and> (writers s = 1 \<longrightarrow> readers s = 0)"
begin

lemma attempt_counts:
  assumes "ok s" "attempt i src w s = (g, s')"
  shows "ok s' \<and> writers s' = writers s + of_bool (g \<and> w) \<and> readers s' = readers s + of_bool (g \<and> \<not> w)"
  using assms attempt_write [OF assms(1)] attempt_read [OF assms(1)] by (cases w; cases g) fastforce+

lemma leave_counts:
  assumes "ok s" "if w then 0 < writers s else 0 < readers s"
  shows "\<exists>s'. leave w s = Some s' \<and> ok s' \<and> writers s = writers s' + of_bool w \<and> readers s = readers s' + of_bool (\<not> w)"
proof (cases w)
  case True
  then show ?thesis using leave_write [OF assms(1)] assms(2) by auto
next
  case False
  moreover have "writers s = 0" using exclusive [OF assms(1)] False assms(2) by auto
  ultimately show ?thesis using leave_read [OF assms(1)] assms(2) by auto
qed

end

definition lm_leave :: "bool \<Rightarrow> LRWMutex \<Rightarrow> LRWMutex option" where
  "lm_leave isWriteLock = (if isWriteLock then lm_Unlock else lm_RUnlock)"

definition lm_readers :: "LRWMutex \<Rightarrow> nat" where
  "lm_readers lm = (if lmIsWriteLock lm then 0 else nat (lmRef lm))"

definition lm_writers :: "LRWMutex \<Rightarrow> nat" where
  "lm_writers lm = (if lmIsWriteLock lm then 1 else 0)"

interpretation lsync_mutex: rw_mutex NewLRWMutex lm_lock lm_leave lm_readers lm_writers lm_ok
proof unfold_locales
  show "lm_ok NewLRWMutex \<and> lm_readers NewLRWMutex = 0 \<and> lm_writers NewLRWMutex = 0"
    by (simp add: lm_ok_def NewLRWMutex_def lm_readers_def lm_writers_def)
next
  fix s s' :: LRWMutex and i src g
  assume "lm_ok s"
  then show "lm_lock i src True s = (g, s') \<Longrightarrow> lm_ok s' \<and> lm_readers s' = lm_readers s \<and>
      (if g then lm_readers s = 0 \<and> lm_writers s = 0 \<and> lm_writers s' = 1 else lm_writers s' = lm_writers s)"
    by (auto simp: lm_ok_def lm_lock_def lm_readers_def lm_writers_def Let_def split: if_splits)
  show "lm_lock i src False s = (g, s') \<Longrightarrow> lm_ok s' \<and> lm_writers s' = lm_writers s \<and>
      (if g then lm_writers s = 0 \<and> lm_readers s' = Suc (lm_readers s) else lm_readers s' = lm_readers s)"
    using \<open>lm_ok s\<close> by (auto simp: lm_ok_def lm_lock_def lm_readers_def lm_writers_def Let_def split: if_splits)
  show "0 < lm_writers s \<Longrightarrow> \<exists>s'. lm_leave True s = Some s' \<and> lm_ok s' \<and> lm_readers s' = lm_readers s \<and>
      lm_writers s = Suc (lm_writers s')"
    using \<open>lm_ok s\<close> by (auto simp: lm_ok_def lm_leave_def lm_Unlock_def lm_unlock_def lm_readers_def lm_writers_def split: if_splits)
  show "0 < lm_readers s \<Longrightarrow> lm_writers s = 0 \<Longrightarrow> \<exists>s'. lm_leave False s = Some s' \<and> lm_ok s' \<and>
      lm_writers s' = 0 \<and> lm_readers s = Suc (lm_readers s')"
    using \<open>lm_ok s\<close> by (auto simp: lm_ok_def lm_leave_def lm_RUnlock_def lm_unlock_def lm_readers_def lm_writers_def split: if_splits)
  show "fst (lm_lock i src w s) \<longleftrightarrow> lm_writers s = 0 \<and> (w \<longrightarrow> lm_readers s = 0)" for w
    using \<open>lm_ok s\<close> by (auto simp: lm_ok_def lm_lock_def lm_readers_def lm_writers_def Let_def)
  show "lm_writers s \<le> 1 \<and> (lm_writers s = 1 \<longrightarrow> lm_readers s = 0)"
    by (simp add: lm_readers_def lm_writers_def)
qed

section \<open>Properties\<close>

text \<open>
  C31. The mutex implements the abstract reader-writer lock: in every well-formed state each attempt
  to lock and each unlock gives the answer of the abstract lock and leads to its next state, and
  keeps the state well-formed.
\<close>

theorem LRWMutex_refines:
  assumes "lm_ok lm"
  shows "map_prod (\<lambda>b. b) lm_abs (lm_lock uid source w lm) = rw_lock w (lm_abs lm) \<and>
    map_prod (\<lambda>b. b) lm_abs (lm_unlock w lm) = rw_unlock w (lm_abs lm) \<and>
    lm_ok (snd (lm_lock uid source w lm)) \<and> lm_ok (snd (lm_unlock w lm))"
  using assms lm_lock_refines lm_unlock_refines lm_ok_ops by simp

theorem LRWMutex_refines_witness:
  "map_prod (\<lambda>b. b) lm_abs (lm_lock ''u'' ''s'' True NewLRWMutex) = (True, Writer)"
proof -
  have "rw_lock True (lm_abs NewLRWMutex) = (True, Writer)" by code_simp
  with LRWMutex_refines [OF lm_ok_ops(1), of "''u''" "''s''" True] show ?thesis by simp
qed

end
