(* ===== verification/Namespace_Lock.thy ===== *)
theory Namespace_Lock
  imports Lsync Go_Path
begin

text \<open>
  The namespace locks of one server (\<open>cmd/namespace-lock.go\<close>): a map from resources to reference-counted
  mutexes, and the lock instances that take and release the locks of several paths. The map holds
  pointers, so the model has a heap of \<open>nsLock\<close> objects. Requests run concurrently: a step is one
  critical section of the code.
\<close>

section \<open>Paths\<close>

definition pathsJoinPrefix :: "string \<Rightarrow> string list \<Rightarrow> string list" where
  "pathsJoinPrefix prefix elem = map (\<lambda>e. pathJoin [prefix, e]) elem"

section \<open>The lock map\<close>

record nsLock =
  nsRef :: int
  nsMutex :: LRWMutex

record nsLockMap =
  nsHeap :: "nat \<Rightarrow> nsLock"
  nsNext :: nat
  nsMap :: "string \<Rightarrow> nat option"

definition newNSLock :: nsLockMap where
  "newNSLock = \<lparr>nsHeap = (\<lambda>_. \<lparr>nsRef = 0, nsMutex = NewLRWMutex\<rparr>), nsNext = 0, nsMap = (\<lambda>_. None)\<rparr>"

definition heap_update :: "nat \<Rightarrow> (nsLock \<Rightarrow> nsLock) \<Rightarrow> nsLockMap \<Rightarrow> nsLockMap" where
  "heap_update a f n = n\<lparr>nsHeap := (nsHeap n)(a := f (nsHeap n a))\<rparr>"

text \<open>The first critical section of \<open>lock\<close>: find or create the entry and count the reference. The result
  is the pointer that the goroutine goes on with.\<close>

definition ns_enter :: "string \<Rightarrow> nsLockMap \<Rightarrow> nat \<times> nsLockMap" where
  "ns_enter resource n =
     (case nsMap n resource of
        Some a \<Rightarrow> (a, heap_update a (\<lambda>l. l\<lparr>nsRef := nsRef l + 1\<rparr>) n)
      | None \<Rightarrow> (nsNext n, n\<lparr>nsHeap := (nsHeap n)(nsNext n := \<lparr>nsRef = 1, nsMutex = NewLRWMutex\<rparr>),
                            nsNext := Suc (nsNext n), nsMap := (nsMap n)(resource \<mapsto> nsNext n)\<rparr>))"

text \<open>One attempt on the mutex behind the pointer.\<close>

definition ns_attempt :: "nat \<Rightarrow> string \<Rightarrow> string \<Rightarrow> bool \<Rightarrow> nsLockMap \<Rightarrow> bool \<times> nsLockMap" where
  "ns_attempt a opsID lockSource readLock n =
     (case lm_lock opsID lockSource (\<not> readLock) (nsMutex (nsHeap n a)) of
        (locked, m) \<Rightarrow> (locked, heap_update a (\<lambda>l. l\<lparr>nsMutex := m\<rparr>) n))"

text \<open>Giving up a reference, under the mutex of the map: a missing entry is a nil pointer and panics.\<close>

definition ns_drop :: "string \<Rightarrow> nsLockMap \<Rightarrow> nsLockMap option" where
  "ns_drop resource n =
     (case nsMap n resource of
        None \<Rightarrow> None
      | Some a \<Rightarrow>
          (let n1 = heap_update a (\<lambda>l. l\<lparr>nsRef := nsRef l - 1\<rparr>) n in
           Some (if nsRef (nsHeap n1 a) = 0 then n1\<lparr>nsMap := (nsMap n1)(resource := None)\<rparr> else n1)))"

definition ns_unlock :: "string \<Rightarrow> bool \<Rightarrow> nsLockMap \<Rightarrow> nsLockMap option" where
  "ns_unlock resource readLock n =
     (case nsMap n resource of
        None \<Rightarrow> Some n
      | Some a \<Rightarrow>
          (case lm_leave (\<not> readLock) (nsMutex (nsHeap n a)) of
             None \<Rightarrow> None
           | Some m \<Rightarrow> ns_drop resource (heap_update a (\<lambda>l. l\<lparr>nsMutex := m\<rparr>) n)))"

section \<open>Lock instances\<close>

record localLockInstance =
  liVolume :: string
  liPaths :: "string list"
  liOpsID :: string

definition NewNSLock :: "string \<Rightarrow> string \<Rightarrow> string list \<Rightarrow> localLockInstance" where
  "NewNSLock opsID volume paths = \<lparr>liVolume = volume, liPaths = sort paths, liOpsID = opsID\<rparr>"

text \<open>A goroutine with a lock instance. \<open>rqTodo\<close> are the resources of the paths that \<open>GetLock\<close> has still to
  lock, \<open>rqHeld\<close> those it has locked, in order, and \<open>rqWait\<close> the pointer while it waits for the first of
  \<open>rqTodo\<close>. \<open>Returning\<close> is both the roll-back of a \<open>GetLock\<close> that timed out and an \<open>Unlock\<close>.\<close>

datatype rq_phase = Idle | Getting | Got | Returning

record request =
  rqPhase :: rq_phase
  rqRead :: bool
  rqOpsID :: string
  rqTodo :: "string list"
  rqHeld :: "string list"
  rqWait :: "nat option"

definition idle :: request where
  "idle = \<lparr>rqPhase = Idle, rqRead = False, rqOpsID = [], rqTodo = [], rqHeld = [], rqWait = None\<rparr>"

definition li_GetLock :: "bool \<Rightarrow> localLockInstance \<Rightarrow> request" where
  "li_GetLock readLock li = \<lparr>rqPhase = Getting, rqRead = readLock, rqOpsID = liOpsID li,
     rqTodo = pathsJoinPrefix (liVolume li) (liPaths li), rqHeld = [], rqWait = None\<rparr>"

record ns_state =
  nsLocks :: nsLockMap
  nsRequests :: "request list"

definition ns_init :: "nat \<Rightarrow> ns_state" where
  "ns_init k = \<lparr>nsLocks = newNSLock, nsRequests = replicate k idle\<rparr>"

datatype ns_event = Start nat bool localLockInstance | Enter nat | Grant nat | Refuse nat | Timeout nat
  | Locked nat | Finish nat | Release nat | End nat

text \<open>The step of one goroutine, with the lock source as an argument. \<open>None\<close> in the first component of the
  result is a panic.\<close>

fun rq_step :: "string \<Rightarrow> ns_event \<Rightarrow> request \<Rightarrow> nsLockMap \<Rightarrow> (nsLockMap option \<times> request) option" where
  "rq_step src (Start t readLock li) rq n =
     (if rqPhase rq = Idle then Some (Some n, li_GetLock readLock li) else None)"
| "rq_step src (Enter t) rq n =
     (if rqPhase rq = Getting \<and> rqWait rq = None \<and> rqTodo rq \<noteq> []
      then (case ns_enter (hd (rqTodo rq)) n of (a, n') \<Rightarrow> Some (Some n', rq\<lparr>rqWait := Some a\<rparr>))
      else None)"
| "rq_step src (Grant t) rq n =
     (case rqWait rq of
        None \<Rightarrow> None
      | Some a \<Rightarrow>
          (case ns_attempt a (rqOpsID rq) src (rqRead rq) n of
             (True, n') \<Rightarrow> Some (Some n', rq\<lparr>rqWait := None, rqTodo := tl (rqTodo rq), rqHeld := rqHeld rq @ [hd (rqTodo rq)]\<rparr>)
           | (False, _) \<Rightarrow> None))"
| "rq_step src (Refuse t) rq n =
     (case rqWait rq of
        None \<Rightarrow> None
      | Some a \<Rightarrow>
          (case ns_attempt a (rqOpsID rq) src (rqRead rq) n of (True, _) \<Rightarrow> None | (False, n') \<Rightarrow> Some (Some n', rq)))"
| "rq_step src (Timeout t) rq n =
     (case rqWait rq of
        None \<Rightarrow> None
      | Some a \<Rightarrow> Some (ns_drop (hd (rqTodo rq)) n, rq\<lparr>rqPhase := Returning, rqWait := None, rqTodo := []\<rparr>))"
| "rq_step src (Locked t) rq n =
     (if rqPhase rq = Getting \<and> rqTodo rq = [] then Some (Some n, rq\<lparr>rqPhase := Got\<rparr>) else None)"
| "rq_step src (Finish t) rq n =
     (if rqPhase rq = Got then Some (Some n, rq\<lparr>rqPhase := Returning\<rparr>) else None)"
| "rq_step src (Release t) rq n =
     (if rqPhase rq = Returning \<and> rqHeld rq \<noteq> []
      then Some (ns_unlock (hd (rqHeld rq)) (rqRead rq) n, rq\<lparr>rqHeld := tl (rqHeld rq)\<rparr>) else None)"
| "rq_step src (End t) rq n =
     (if rqPhase rq = Returning \<and> rqHeld rq = [] then Some (Some n, idle) else None)"

fun ev_request :: "ns_event \<Rightarrow> nat" where
  "ev_request (Start t _ _) = t" | "ev_request (Enter t) = t" | "ev_request (Grant t) = t"
| "ev_request (Refuse t) = t" | "ev_request (Timeout t) = t" | "ev_request (Locked t) = t"
| "ev_request (Finish t) = t" | "ev_request (Release t) = t" | "ev_request (End t) = t"

definition ns_next :: "string \<Rightarrow> ns_event \<Rightarrow> ns_state \<Rightarrow> ns_state option option" where
  "ns_next src ev s =
     (let t = ev_request ev in
      if t < length (nsRequests s)
      then (case rq_step src ev (nsRequests s ! t) (nsLocks s) of
              None \<Rightarrow> None
            | Some (n, rq) \<Rightarrow> Some (map_option (\<lambda>n. \<lparr>nsLocks = n, nsRequests = (nsRequests s)[t := rq]\<rparr>) n))
      else None)"

inductive ns_run :: "string \<Rightarrow> nat \<Rightarrow> ns_event list \<Rightarrow> ns_state \<Rightarrow> bool" for src k where
  ns_run_init: "ns_run src k [] (ns_init k)"
| ns_run_step: "ns_run src k evs s \<Longrightarrow> ns_next src ev s = Some (Some s') \<Longrightarrow> ns_run src k (evs @ [ev]) s'"

section \<open>The invariant\<close>

text \<open>How often a request holds a resource in each mode, and whether it waits for it.\<close>

definition rq_reads :: "request \<Rightarrow> string \<Rightarrow> nat" where
  "rq_reads rq r = (if rqRead rq then count_list (rqHeld rq) r else 0)"

definition rq_writes :: "request \<Rightarrow> string \<Rightarrow> nat" where
  "rq_writes rq r = (if rqRead rq then 0 else count_list (rqHeld rq) r)"

definition rq_waits :: "request \<Rightarrow> string \<Rightarrow> nat" where
  "rq_waits rq r = of_bool (rqWait rq \<noteq> None \<and> hd (rqTodo rq) = r)"

definition cnt :: "(request \<Rightarrow> string \<Rightarrow> nat) \<Rightarrow> request list \<Rightarrow> string \<Rightarrow> nat" where
  "cnt f rs r = (\<Sum>rq\<leftarrow>rs. f rq r)"

lemma cnt_update: "t < length rs \<Longrightarrow> cnt f (rs[t := q]) r + f (rs ! t) r = cnt f rs r + f q r"
  using sum_list_map_update [of t rs "\<lambda>rq. f rq r"] by (simp add: cnt_def)

lemma cnt_member: "q \<in> set rs \<Longrightarrow> f q r \<le> cnt f rs r"
  using sum_list_map_member [of q rs "\<lambda>rq. f rq r"] by (simp add: cnt_def)

lemma cnt_two: "t < u \<Longrightarrow> u < length rs \<Longrightarrow> f (rs ! t) r + f (rs ! u) r \<le> cnt f rs r"
  using sum_list_map_two [of t u rs "\<lambda>rq. f rq r"] by (simp add: cnt_def)

lemma cnt_init [simp]: "cnt rq_reads (replicate k idle) r = 0" "cnt rq_writes (replicate k idle) r = 0"
    "cnt rq_waits (replicate k idle) r = 0"
  by (auto simp: cnt_def rq_reads_def rq_writes_def rq_waits_def idle_def sum_list_0)

definition entry_ok :: "nsLockMap \<Rightarrow> string \<Rightarrow> nat \<Rightarrow> nat \<Rightarrow> nat \<Rightarrow> bool" where
  "entry_ok n r rd wr wt \<longleftrightarrow>
     (case nsMap n r of
        None \<Rightarrow> rd + wr + wt = 0
      | Some a \<Rightarrow> a < nsNext n \<and> 0 < rd + wr + wt \<and> nsRef (nsHeap n a) = int (rd + wr + wt) \<and>
          lm_ok (nsMutex (nsHeap n a)) \<and> lm_readers (nsMutex (nsHeap n a)) = rd \<and> lm_writers (nsMutex (nsHeap n a)) = wr)"

definition map_inj :: "nsLockMap \<Rightarrow> bool" where
  "map_inj n \<longleftrightarrow> (\<forall>r r' a. nsMap n r = Some a \<longrightarrow> nsMap n r' = Some a \<longrightarrow> r = r')"

text \<open>An operation on one resource leaves the others alone.\<close>

definition elsewhere :: "string \<Rightarrow> nsLockMap \<Rightarrow> nsLockMap \<Rightarrow> bool" where
  "elsewhere res n n' \<longleftrightarrow> nsNext n \<le> nsNext n' \<and>
     (\<forall>r. r \<noteq> res \<longrightarrow> nsMap n' r = nsMap n r \<and> (\<forall>a. nsMap n r = Some a \<longrightarrow> nsHeap n' a = nsHeap n a))"

lemma entry_ok_elsewhere: "elsewhere res n n' \<Longrightarrow> r \<noteq> res \<Longrightarrow> entry_ok n r rd wr wt \<Longrightarrow> entry_ok n' r rd wr wt"
  by (force simp: elsewhere_def entry_ok_def split: option.splits)

lemma elsewhere_trans: "elsewhere r n n' \<Longrightarrow> elsewhere r n' n'' \<Longrightarrow> elsewhere r n n''"
  by (auto simp: elsewhere_def)

lemma elsewhere_heap: "map_inj n \<Longrightarrow> nsMap n r = Some a \<Longrightarrow> elsewhere r n (heap_update a f n)"
  by (auto simp: elsewhere_def heap_update_def map_inj_def)

lemma heap_update_simps [simp]:
  "nsMap (heap_update a f n) = nsMap n" "nsNext (heap_update a f n) = nsNext n"
  "nsHeap (heap_update a f n) b = (if b = a then f (nsHeap n a) else nsHeap n b)"
  "map_inj (heap_update a f n) = map_inj n"
  by (auto simp: heap_update_def map_inj_def)

section \<open>The operations and the invariant\<close>

lemma ns_enter_entry:
  assumes e: "entry_ok n r rd wr wt" and below: "\<And>r a. nsMap n r = Some a \<Longrightarrow> a < nsNext n" and inj: "map_inj n"
    and enter: "ns_enter r n = (a, n')"
  shows "entry_ok n' r rd wr (Suc wt) \<and> elsewhere r n n' \<and> map_inj n' \<and> nsMap n' r = Some a \<and>
    (\<forall>b. nsMap n r = Some b \<longrightarrow> b = a)"
proof (cases "nsMap n r")
  case None
  have "entry_ok n' r rd wr (Suc wt)" using e enter None lsync_mutex.fresh_free
    by (auto simp: ns_enter_def entry_ok_def)
  moreover have "elsewhere r n n'" "map_inj n'" "nsMap n' r = Some a"
    using enter None inj by (auto simp: ns_enter_def elsewhere_def map_inj_def split: if_splits dest: below)
  ultimately show ?thesis using None by simp
next
  case (Some b)
  have "entry_ok n' r rd wr (Suc wt)" using e enter Some by (auto simp: ns_enter_def entry_ok_def)
  moreover have "elsewhere r n n'" "map_inj n'" "nsMap n' r = Some a" "b = a"
    using enter Some inj by (auto simp: ns_enter_def elsewhere_heap)
  ultimately show ?thesis using Some by simp
qed

lemma ns_attempt_entry:
  assumes e: "entry_ok n r rd wr wt" and a: "nsMap n r = Some a" and inj: "map_inj n"
    and attempt: "ns_attempt a opsID src readLock n = (g, n')" and waiting: "0 < wt"
  shows "elsewhere r n n' \<and> map_inj n' \<and> nsMap n' r = Some a \<and>
    entry_ok n' r (rd + of_bool (g \<and> readLock)) (wr + of_bool (g \<and> \<not> readLock)) (wt - of_bool g)"
proof -
  obtain m where m: "lm_lock opsID src (\<not> readLock) (nsMutex (nsHeap n a)) = (g, m)"
    and n': "n' = heap_update a (\<lambda>l. l\<lparr>nsMutex := m\<rparr>) n"
    using attempt by (auto simp: ns_attempt_def split: prod.splits)
  have ok: "lm_ok (nsMutex (nsHeap n a))" using e a by (simp add: entry_ok_def)
  show ?thesis
    using lsync_mutex.attempt_counts [OF ok m] e a waiting inj elsewhere_heap [OF inj a]
    unfolding n' by (auto simp: entry_ok_def)
qed

lemma ns_drop_entry:
  assumes a: "nsMap n r = Some a" "a < nsNext n" and inj: "map_inj n" and ref: "nsRef (nsHeap n a) = int (rd + wr + Suc wt)"
    and m: "lm_ok (nsMutex (nsHeap n a))" "lm_readers (nsMutex (nsHeap n a)) = rd" "lm_writers (nsMutex (nsHeap n a)) = wr"
  shows "\<exists>n'. ns_drop r n = Some n' \<and> elsewhere r n n' \<and> map_inj n' \<and> entry_ok n' r rd wr wt \<and>
    (0 < rd + wr + wt \<longrightarrow> nsMap n' r = Some a)"
proof -
  let ?n1 = "heap_update a (\<lambda>l. l\<lparr>nsRef := nsRef l - 1\<rparr>) n"
  have el: "elsewhere r n ?n1" using elsewhere_heap [OF inj a(1)] .
  show ?thesis
  proof (cases "rd + wr + wt = 0")
    case True
    then show ?thesis using a m inj el ref
      by (auto simp: ns_drop_def Let_def entry_ok_def elsewhere_def map_inj_def)
  next
    case False
    then show ?thesis using a m inj el ref
      by (auto simp: ns_drop_def Let_def entry_ok_def)
  qed
qed

lemma ns_unlock_entry:
  assumes e: "entry_ok n r rd wr wt" and inj: "map_inj n" and held: "if readLock then 0 < rd else 0 < wr"
  shows "\<exists>n'. ns_unlock r readLock n = Some n' \<and> elsewhere r n n' \<and> map_inj n' \<and>
    entry_ok n' r (rd - of_bool readLock) (wr - of_bool (\<not> readLock)) wt \<and> (0 < wt \<longrightarrow> nsMap n' r = nsMap n r)"
proof -
  obtain a where a: "nsMap n r = Some a" "a < nsNext n" and ok: "lm_ok (nsMutex (nsHeap n a))"
    and c: "lm_readers (nsMutex (nsHeap n a)) = rd" "lm_writers (nsMutex (nsHeap n a)) = wr"
    and ref: "nsRef (nsHeap n a) = int (rd + wr + wt)"
    using e held by (auto simp: entry_ok_def split: option.splits if_splits)
  obtain m where m: "lm_leave (\<not> readLock) (nsMutex (nsHeap n a)) = Some m" "lm_ok m"
    "wr = lm_writers m + of_bool (\<not> readLock)" "rd = lm_readers m + of_bool readLock"
    using lsync_mutex.leave_counts [OF ok, of "\<not> readLock"] c held by (auto split: if_splits)
  let ?n1 = "heap_update a (\<lambda>l. l\<lparr>nsMutex := m\<rparr>) n"
  have "nsRef (nsHeap ?n1 a) = int (lm_readers m + lm_writers m + Suc wt)"
    using ref m by (cases readLock) auto
  then obtain n' where "ns_drop r ?n1 = Some n'" "elsewhere r ?n1 n'" "map_inj n'"
    "entry_ok n' r (lm_readers m) (lm_writers m) wt" "0 < lm_readers m + lm_writers m + wt \<longrightarrow> nsMap n' r = Some a"
    using ns_drop_entry [of ?n1 r a "lm_readers m" "lm_writers m" wt] a inj m by auto
  then show ?thesis using m a elsewhere_trans [OF elsewhere_heap [OF inj a(1)]]
    by (auto simp: ns_unlock_def)
qed

definition rq_ok :: "request \<Rightarrow> bool" where
  "rq_ok rq \<longleftrightarrow> (rqWait rq \<noteq> None \<longrightarrow> rqPhase rq = Getting \<and> rqTodo rq \<noteq> []) \<and>
     (rqPhase rq = Idle \<longrightarrow> rqHeld rq = []) \<and> (rqPhase rq \<noteq> Getting \<longrightarrow> rqTodo rq = [])"

definition waits_at :: "nsLockMap \<Rightarrow> request \<Rightarrow> bool" where
  "waits_at n rq \<longleftrightarrow> (\<forall>a. rqWait rq = Some a \<longrightarrow> nsMap n (hd (rqTodo rq)) = Some a)"

definition ns_inv :: "ns_state \<Rightarrow> bool" where
  "ns_inv s \<longleftrightarrow> map_inj (nsLocks s) \<and>
     (\<forall>r. entry_ok (nsLocks s) r (cnt rq_reads (nsRequests s) r) (cnt rq_writes (nsRequests s) r) (cnt rq_waits (nsRequests s) r)) \<and>
     (\<forall>rq \<in> set (nsRequests s). rq_ok rq \<and> waits_at (nsLocks s) rq)"

lemma ns_inv_below: "ns_inv s \<Longrightarrow> nsMap (nsLocks s) r = Some a \<Longrightarrow> a < nsNext (nsLocks s)"
  unfolding ns_inv_def entry_ok_def by (auto split: option.splits)

lemma idle_ok [simp]: "rq_ok idle" "waits_at n idle" "rq_reads idle r = 0" "rq_writes idle r = 0" "rq_waits idle r = 0" "rqWait idle = None" "rqHeld idle = []"
  by (auto simp: rq_ok_def waits_at_def idle_def rq_reads_def rq_writes_def rq_waits_def)

lemma rq_counts_update [simp]:
  "rq_reads (rq\<lparr>rqWait := w\<rparr>) = rq_reads rq" "rq_writes (rq\<lparr>rqWait := w\<rparr>) = rq_writes rq"
  "rq_reads (rq\<lparr>rqPhase := p\<rparr>) = rq_reads rq" "rq_writes (rq\<lparr>rqPhase := p\<rparr>) = rq_writes rq"
  "rq_reads (rq\<lparr>rqTodo := ts\<rparr>) = rq_reads rq" "rq_writes (rq\<lparr>rqTodo := ts\<rparr>) = rq_writes rq"
  "rq_reads (rq\<lparr>rqHeld := rqHeld rq @ [x]\<rparr>) r = rq_reads rq r + of_bool (rqRead rq \<and> x = r)"
  "rq_writes (rq\<lparr>rqHeld := rqHeld rq @ [x]\<rparr>) r = rq_writes rq r + of_bool (\<not> rqRead rq \<and> x = r)"
  by (cases "rqRead rq"; auto simp: rq_reads_def rq_writes_def fun_eq_iff)+

lemma rq_waits_update [simp]:
  "rqWait rq = None \<Longrightarrow> rq_waits rq r = 0"
  "rqWait rq = Some a \<Longrightarrow> rq_waits rq r = of_bool (hd (rqTodo rq) = r)"
  by (auto simp: rq_waits_def)

lemma rq_counts_take:
  "rq_reads (rq\<lparr>rqWait := None, rqTodo := ts, rqHeld := rqHeld rq @ [x]\<rparr>) r = rq_reads rq r + of_bool (rqRead rq \<and> x = r)"
  "rq_writes (rq\<lparr>rqWait := None, rqTodo := ts, rqHeld := rqHeld rq @ [x]\<rparr>) r = rq_writes rq r + of_bool (\<not> rqRead rq \<and> x = r)"
  by (cases "rqRead rq"; auto simp: rq_reads_def rq_writes_def)+

lemma ns_inv_init: "ns_inv (ns_init k)"
  by (auto simp: ns_inv_def ns_init_def map_inj_def newNSLock_def entry_ok_def)

text \<open>One request changes and with it the entry of one resource.\<close>

lemma ns_inv_step:
  assumes inv: "ns_inv s" and t: "t < length (nsRequests s)"
    and el: "elsewhere res (nsLocks s) n'" and inj: "map_inj n'" and ok: "rq_ok rq'" and w: "waits_at n' rq'"
    and here: "entry_ok n' res (cnt rq_reads ((nsRequests s)[t := rq']) res) (cnt rq_writes ((nsRequests s)[t := rq']) res)
      (cnt rq_waits ((nsRequests s)[t := rq']) res)"
    and same: "\<And>r. r \<noteq> res \<Longrightarrow> rq_reads rq' r = rq_reads (nsRequests s ! t) r \<and>
      rq_writes rq' r = rq_writes (nsRequests s ! t) r \<and> rq_waits rq' r = rq_waits (nsRequests s ! t) r"
    and keeps: "\<And>u. u < length (nsRequests s) \<Longrightarrow> u \<noteq> t \<Longrightarrow> rqWait (nsRequests s ! u) \<noteq> None \<Longrightarrow>
      hd (rqTodo (nsRequests s ! u)) = res \<Longrightarrow> nsMap n' res = nsMap (nsLocks s) res"
  shows "ns_inv \<lparr>nsLocks = n', nsRequests = (nsRequests s)[t := rq']\<rparr>"
proof -
  let ?rs = "nsRequests s" let ?rs' = "?rs[t := rq']"
  have entries: "entry_ok n' r (cnt rq_reads ?rs' r) (cnt rq_writes ?rs' r) (cnt rq_waits ?rs' r)" for r
  proof (cases "r = res")
    case False
    have "cnt rq_reads ?rs' r = cnt rq_reads ?rs r" "cnt rq_writes ?rs' r = cnt rq_writes ?rs r"
        "cnt rq_waits ?rs' r = cnt rq_waits ?rs r"
      using same [OF False] cnt_update [OF t, of rq_reads rq' r] cnt_update [OF t, of rq_writes rq' r]
        cnt_update [OF t, of rq_waits rq' r] by simp_all
    then show ?thesis using entry_ok_elsewhere [OF el False] inv by (simp add: ns_inv_def)
  qed (use here in simp)
  have "rq_ok (?rs' ! u) \<and> waits_at n' (?rs' ! u)" if u: "u < length ?rs" for u
  proof (cases "u = t")
    case False
    have "rq_ok (?rs ! u)" "waits_at (nsLocks s) (?rs ! u)" using inv u by (auto simp: ns_inv_def)
    then show ?thesis using False keeps [OF u False] el
      by (cases "hd (rqTodo (?rs ! u)) = res") (auto simp: waits_at_def elsewhere_def)
  qed (use ok w t in simp)
  then show ?thesis using entries inj by (auto simp: ns_inv_def in_set_conv_nth)
qed

lemma other_waits:
  assumes "u < length rs" "u \<noteq> t" "rqWait (rs ! u) \<noteq> None" "hd (rqTodo (rs ! u)) = r"
  shows "0 < cnt rq_waits (rs[t := q]) r"
proof -
  have "rs ! u \<in> set (rs[t := q])" using assms by (metis length_list_update nth_list_update_neq nth_mem)
  then have "rq_waits (rs ! u) r \<le> cnt rq_waits (rs[t := q]) r" by (rule cnt_member)
  then show ?thesis using assms by (simp add: rq_waits_def)
qed

lemma ns_inv_quiet:
  assumes inv: "ns_inv s" and t: "t < length (nsRequests s)" and ok: "rq_ok rq'" and none: "rqWait rq' = None"
    "rqWait (nsRequests s ! t) = None"
    and same: "\<And>r. rq_reads rq' r = rq_reads (nsRequests s ! t) r" "\<And>r. rq_writes rq' r = rq_writes (nsRequests s ! t) r"
  shows "ns_inv \<lparr>nsLocks = nsLocks s, nsRequests = (nsRequests s)[t := rq']\<rparr>"
proof (rule ns_inv_step [OF inv t, where res = "[]"])
  have w: "rq_waits rq' r = rq_waits (nsRequests s ! t) r" for r using none by (simp add: rq_waits_def)
  show "entry_ok (nsLocks s) [] (cnt rq_reads ((nsRequests s)[t := rq']) []) (cnt rq_writes ((nsRequests s)[t := rq']) [])
      (cnt rq_waits ((nsRequests s)[t := rq']) [])"
    using inv same w cnt_update [OF t, of rq_reads rq' "[]"] cnt_update [OF t, of rq_writes rq' "[]"]
        cnt_update [OF t, of rq_waits rq' "[]"] by (simp add: ns_inv_def)
qed (use assms in \<open>auto simp: elsewhere_def ns_inv_def waits_at_def rq_waits_def\<close>)

text \<open>What the invariant says of the request that makes a step, and of the entry of the resource it uses.\<close>

lemma ns_inv_request:
  assumes "ns_inv s" "t < length (nsRequests s)"
  shows "rq_ok (nsRequests s ! t)" "waits_at (nsLocks s) (nsRequests s ! t)" "map_inj (nsLocks s)"
    "entry_ok (nsLocks s) r (cnt rq_reads (nsRequests s) r) (cnt rq_writes (nsRequests s) r) (cnt rq_waits (nsRequests s) r)"
  using assms by (auto simp: ns_inv_def)

lemma ns_inv_Enter:
  assumes inv: "ns_inv s" and t: "t < length (nsRequests s)"
    and rq: "nsRequests s ! t = rq" "rqPhase rq = Getting" "rqWait rq = None" "rqTodo rq \<noteq> []"
    and enter: "ns_enter (hd (rqTodo rq)) (nsLocks s) = (a, n')"
  shows "ns_inv \<lparr>nsLocks = n', nsRequests = (nsRequests s)[t := rq\<lparr>rqWait := Some a\<rparr>]\<rparr>"
proof -
  let ?r = "hd (rqTodo rq)" let ?q = "rq\<lparr>rqWait := Some a\<rparr>" let ?rs = "nsRequests s"
  note i = ns_inv_request [OF inv t]
  have e: "entry_ok n' ?r (cnt rq_reads ?rs ?r) (cnt rq_writes ?rs ?r) (Suc (cnt rq_waits ?rs ?r))"
    "elsewhere ?r (nsLocks s) n'" "map_inj n'" "nsMap n' ?r = Some a" "nsMap (nsLocks s) ?r = Some b \<Longrightarrow> b = a" for b
    using ns_enter_entry [OF i(4) ns_inv_below [OF inv] i(3) enter] by auto
  have c: "cnt rq_reads (?rs[t := ?q]) ?r = cnt rq_reads ?rs ?r" "cnt rq_writes (?rs[t := ?q]) ?r = cnt rq_writes ?rs ?r"
    "cnt rq_waits (?rs[t := ?q]) ?r = Suc (cnt rq_waits ?rs ?r)"
    using cnt_update [OF t, of rq_reads ?q ?r] cnt_update [OF t, of rq_writes ?q ?r] cnt_update [OF t, of rq_waits ?q ?r] rq
    by simp_all
  show ?thesis
  proof (rule ns_inv_step [OF inv t e(2,3)])
    fix u assume u: "u < length ?rs" "u \<noteq> t" "rqWait (?rs ! u) \<noteq> None" "hd (rqTodo (?rs ! u)) = ?r"
    then have "nsMap (nsLocks s) ?r \<noteq> None" using ns_inv_request(2) [OF inv u(1)] by (auto simp: waits_at_def)
    then show "nsMap n' ?r = nsMap (nsLocks s) ?r" using e(4,5) by auto
  qed (use i(1) rq e c in \<open>auto simp: rq_ok_def waits_at_def\<close>)
qed

lemma ns_inv_attempt:
  assumes inv: "ns_inv s" and t: "t < length (nsRequests s)"
    and rq: "nsRequests s ! t = rq" "rqWait rq = Some a"
    and attempt: "ns_attempt a opsID src (rqRead rq) (nsLocks s) = (g, n')"
    and q: "q = (if g then rq\<lparr>rqWait := None, rqTodo := tl (rqTodo rq), rqHeld := rqHeld rq @ [hd (rqTodo rq)]\<rparr> else rq)"
  shows "ns_inv \<lparr>nsLocks = n', nsRequests = (nsRequests s)[t := q]\<rparr>"
proof -
  let ?r = "hd (rqTodo rq)" let ?rs = "nsRequests s"
  note i = ns_inv_request [OF inv t]
  have map: "nsMap (nsLocks s) ?r = Some a" using i(2) rq by (simp add: waits_at_def)
  have pos: "0 < cnt rq_waits ?rs ?r" using cnt_member [of rq ?rs rq_waits ?r] t rq
    by (force simp: rq_waits_def)
  have e: "entry_ok n' ?r (cnt rq_reads ?rs ?r + of_bool (g \<and> rqRead rq)) (cnt rq_writes ?rs ?r + of_bool (g \<and> \<not> rqRead rq))
      (cnt rq_waits ?rs ?r - of_bool g)"
    "elsewhere ?r (nsLocks s) n'" "map_inj n'" "nsMap n' ?r = Some a"
    using ns_attempt_entry [OF i(4) map i(3) attempt pos] by auto
  have c: "cnt rq_reads (?rs[t := q]) ?r = cnt rq_reads ?rs ?r + of_bool (g \<and> rqRead rq)"
    "cnt rq_writes (?rs[t := q]) ?r = cnt rq_writes ?rs ?r + of_bool (g \<and> \<not> rqRead rq)"
    "cnt rq_waits (?rs[t := q]) ?r = cnt rq_waits ?rs ?r - of_bool g"
    using cnt_update [OF t, of rq_reads q ?r] cnt_update [OF t, of rq_writes q ?r] cnt_update [OF t, of rq_waits q ?r] rq q
    by (cases g; simp add: rq_counts_take)+
  show ?thesis
    by (rule ns_inv_step [OF inv t e(2,3)])
      (use i(1) rq q e c map in \<open>auto simp: rq_ok_def waits_at_def rq_counts_take split: if_splits\<close>)
qed

lemma ns_inv_Timeout:
  assumes inv: "ns_inv s" and t: "t < length (nsRequests s)"
    and rq: "nsRequests s ! t = rq" "rqWait rq = Some a"
    and q: "q = rq\<lparr>rqPhase := Returning, rqWait := None, rqTodo := []\<rparr>"
  shows "\<exists>n'. ns_drop (hd (rqTodo rq)) (nsLocks s) = Some n' \<and> ns_inv \<lparr>nsLocks = n', nsRequests = (nsRequests s)[t := q]\<rparr>"
proof -
  let ?r = "hd (rqTodo rq)" let ?rs = "nsRequests s"
  note i = ns_inv_request [OF inv t]
  have map: "nsMap (nsLocks s) ?r = Some a" using i(2) rq by (simp add: waits_at_def)
  have c: "cnt rq_reads (?rs[t := q]) ?r = cnt rq_reads ?rs ?r" "cnt rq_writes (?rs[t := q]) ?r = cnt rq_writes ?rs ?r"
    "Suc (cnt rq_waits (?rs[t := q]) ?r) = cnt rq_waits ?rs ?r"
    using cnt_update [OF t, of rq_reads q ?r] cnt_update [OF t, of rq_writes q ?r] cnt_update [OF t, of rq_waits q ?r] rq q
    by (auto simp: rq_reads_def rq_writes_def split: if_splits)
  obtain n' where n': "ns_drop ?r (nsLocks s) = Some n'" "elsewhere ?r (nsLocks s) n'" "map_inj n'"
    "entry_ok n' ?r (cnt rq_reads ?rs ?r) (cnt rq_writes ?rs ?r) (cnt rq_waits (?rs[t := q]) ?r)"
    "0 < cnt rq_waits (?rs[t := q]) ?r \<longrightarrow> nsMap n' ?r = Some a"
    using ns_drop_entry [OF map _ i(3), of "cnt rq_reads ?rs ?r" "cnt rq_writes ?rs ?r" "cnt rq_waits (?rs[t := q]) ?r"]
      i(4) [of ?r] map c(3) by (auto simp: entry_ok_def)
  have "ns_inv \<lparr>nsLocks = n', nsRequests = ?rs[t := q]\<rparr>"
  proof (rule ns_inv_step [OF inv t n'(2,3)])
    fix u assume "u < length ?rs" "u \<noteq> t" "rqWait (?rs ! u) \<noteq> None" "hd (rqTodo (?rs ! u)) = ?r"
    then show "nsMap n' ?r = nsMap (nsLocks s) ?r" using other_waits n'(5) map by metis
  qed (use i(1) rq q n'(4) c in \<open>auto simp: rq_ok_def waits_at_def rq_reads_def rq_writes_def\<close>)
  then show ?thesis using n'(1) by blast
qed

lemma rq_counts_release:
  assumes "rqHeld rq \<noteq> []"
  shows "rq_reads (rq\<lparr>rqHeld := tl (rqHeld rq)\<rparr>) r + of_bool (rqRead rq \<and> hd (rqHeld rq) = r) = rq_reads rq r"
    "rq_writes (rq\<lparr>rqHeld := tl (rqHeld rq)\<rparr>) r + of_bool (\<not> rqRead rq \<and> hd (rqHeld rq) = r) = rq_writes rq r"
  using assms by (cases "rqHeld rq"; cases "rqRead rq"; auto simp: rq_reads_def rq_writes_def)+

lemma ns_inv_Release:
  assumes inv: "ns_inv s" and t: "t < length (nsRequests s)"
    and rq: "nsRequests s ! t = rq" "rqPhase rq = Returning" "rqHeld rq \<noteq> []"
    and q: "q = rq\<lparr>rqHeld := tl (rqHeld rq)\<rparr>"
  shows "\<exists>n'. ns_unlock (hd (rqHeld rq)) (rqRead rq) (nsLocks s) = Some n' \<and>
    ns_inv \<lparr>nsLocks = n', nsRequests = (nsRequests s)[t := q]\<rparr>"
proof -
  let ?r = "hd (rqHeld rq)" let ?rs = "nsRequests s"
  note i = ns_inv_request [OF inv t]
  note rel = rq_counts_release [OF rq(3), folded q]
  have none: "rqWait rq = None" "rqWait q = None" using i(1) rq q by (auto simp: rq_ok_def)
  have c: "cnt rq_reads (?rs[t := q]) ?r + of_bool (rqRead rq) = cnt rq_reads ?rs ?r"
    "cnt rq_writes (?rs[t := q]) ?r + of_bool (\<not> rqRead rq) = cnt rq_writes ?rs ?r"
    "cnt rq_waits (?rs[t := q]) ?r = cnt rq_waits ?rs ?r"
    using cnt_update [OF t, of rq_reads q ?r] cnt_update [OF t, of rq_writes q ?r] cnt_update [OF t, of rq_waits q ?r]
      rq none rel(1) [of ?r] rel(2) [of ?r] by simp_all
  have held: "if rqRead rq then 0 < cnt rq_reads ?rs ?r else 0 < cnt rq_writes ?rs ?r"
    using c(1,2) by auto
  obtain n' where n': "ns_unlock ?r (rqRead rq) (nsLocks s) = Some n'" "elsewhere ?r (nsLocks s) n'" "map_inj n'"
    "entry_ok n' ?r (cnt rq_reads (?rs[t := q]) ?r) (cnt rq_writes (?rs[t := q]) ?r) (cnt rq_waits ?rs ?r)"
    "0 < cnt rq_waits ?rs ?r \<longrightarrow> nsMap n' ?r = nsMap (nsLocks s) ?r"
    using ns_unlock_entry [OF i(4) i(3) held] c(1,2) by (metis add_diff_cancel_right')
  have "ns_inv \<lparr>nsLocks = n', nsRequests = ?rs[t := q]\<rparr>"
  proof (rule ns_inv_step [OF inv t n'(2,3)])
    fix u assume "u < length ?rs" "u \<noteq> t" "rqWait (?rs ! u) \<noteq> None" "hd (rqTodo (?rs ! u)) = ?r"
    then show "nsMap n' ?r = nsMap (nsLocks s) ?r" using other_waits n'(5) c(3) by metis
  next
    fix r assume "r \<noteq> ?r"
    then show "rq_reads q r = rq_reads (?rs ! t) r \<and> rq_writes q r = rq_writes (?rs ! t) r \<and> rq_waits q r = rq_waits (?rs ! t) r"
      using rel(1) [of r] rel(2) [of r] rq none by auto
  qed (use i(1) rq q none n'(4) c in \<open>auto simp: rq_ok_def waits_at_def\<close>)
  then show ?thesis using n'(1) by blast
qed

lemma ns_inv_next:
  assumes inv: "ns_inv s" and nx: "ns_next src ev s = Some res"
  shows "\<exists>s'. res = Some s' \<and> ns_inv s'"
proof -
  let ?t = "ev_request ev" let ?rq = "nsRequests s ! ev_request ev"
  obtain n q where t: "?t < length (nsRequests s)" and st: "rq_step src ev ?rq (nsLocks s) = Some (n, q)"
    and res: "res = map_option (\<lambda>n. \<lparr>nsLocks = n, nsRequests = (nsRequests s)[?t := q]\<rparr>) n"
    using nx by (auto simp: ns_next_def Let_def split: if_splits option.splits)
  note i = ns_inv_request [OF inv t]
  have "\<exists>n'. n = Some n' \<and> ns_inv \<lparr>nsLocks = n', nsRequests = (nsRequests s)[?t := q]\<rparr>"
  proof (cases ev)
    case (Start u readLock li)
    then have h: "rqPhase ?rq = Idle" "n = Some (nsLocks s)" "q = li_GetLock readLock li" using st by (auto split: if_splits)
    then have "rqHeld ?rq = []" "rqWait ?rq = None" using i(1) by (auto simp: rq_ok_def)
    then show ?thesis using h(2,3) ns_inv_quiet [OF inv t, of q]
      by (simp add: rq_ok_def li_GetLock_def rq_reads_def rq_writes_def)
  next
    case (Enter u)
    then obtain a n' where "rqPhase ?rq = Getting" "rqWait ?rq = None" "rqTodo ?rq \<noteq> []"
      "ns_enter (hd (rqTodo ?rq)) (nsLocks s) = (a, n')" "n = Some n'" "q = ?rq\<lparr>rqWait := Some a\<rparr>"
      using st by (auto split: if_splits prod.splits)
    then show ?thesis using ns_inv_Enter [OF inv t refl, of a n'] by simp
  next
    case (Grant u)
    then obtain a n' where "rqWait ?rq = Some a" "ns_attempt a (rqOpsID ?rq) src (rqRead ?rq) (nsLocks s) = (True, n')" "n = Some n'"
      "q = ?rq\<lparr>rqWait := None, rqTodo := tl (rqTodo ?rq), rqHeld := rqHeld ?rq @ [hd (rqTodo ?rq)]\<rparr>"
      using st by (auto split: option.splits prod.splits bool.splits)
    then show ?thesis using ns_inv_attempt [OF inv t refl, of a "rqOpsID ?rq" src True n' q] by simp
  next
    case (Refuse u)
    then obtain a n' where h: "rqWait ?rq = Some a" "ns_attempt a (rqOpsID ?rq) src (rqRead ?rq) (nsLocks s) = (False, n')"
      and n: "n = Some n'" and q: "q = ?rq"
      using st by (fastforce split: option.splits prod.splits bool.splits)
    have "ns_inv \<lparr>nsLocks = n', nsRequests = (nsRequests s)[?t := q]\<rparr>"
      by (rule ns_inv_attempt [OF inv t refl h]) (simp add: q)
    then show ?thesis using n by blast
  next
    case (Timeout u)
    then obtain a where "rqWait ?rq = Some a" "n = ns_drop (hd (rqTodo ?rq)) (nsLocks s)"
      "q = ?rq\<lparr>rqPhase := Returning, rqWait := None, rqTodo := []\<rparr>"
      using st by (auto split: option.splits)
    then show ?thesis using ns_inv_Timeout [OF inv t refl, of a q] by simp
  next
    case (Locked u)
    then have h: "rqPhase ?rq = Getting" "rqTodo ?rq = []" "n = Some (nsLocks s)" "q = ?rq\<lparr>rqPhase := Got\<rparr>"
      using st by (auto split: if_splits)
    then have "rqWait ?rq = None" using i(1) by (auto simp: rq_ok_def)
    then show ?thesis using h ns_inv_quiet [OF inv t, of q] by (simp add: rq_ok_def)
  next
    case (Finish u)
    then have h: "rqPhase ?rq = Got" "n = Some (nsLocks s)" "q = ?rq\<lparr>rqPhase := Returning\<rparr>"
      using st by (auto split: if_splits)
    then have "rqWait ?rq = None" "rqTodo ?rq = []" using i(1) by (auto simp: rq_ok_def)
    then show ?thesis using h ns_inv_quiet [OF inv t, of q] by (simp add: rq_ok_def)
  next
    case (Release u)
    then have "rqPhase ?rq = Returning" "rqHeld ?rq \<noteq> []" "n = ns_unlock (hd (rqHeld ?rq)) (rqRead ?rq) (nsLocks s)"
      "q = ?rq\<lparr>rqHeld := tl (rqHeld ?rq)\<rparr>" using st by (auto split: if_splits)
    then show ?thesis using ns_inv_Release [OF inv t refl, of q] by simp
  next
    case (End u)
    then have h: "rqPhase ?rq = Returning" "rqHeld ?rq = []" "n = Some (nsLocks s)" "q = idle"
      using st by (auto split: if_splits)
    then have "rqWait ?rq = None" using i(1) by (auto simp: rq_ok_def)
    then show ?thesis using h ns_inv_quiet [OF inv t, of q] by (simp add: rq_reads_def rq_writes_def)
  qed
  then show ?thesis using res by auto
qed

lemma ns_run_inv: "ns_run src k evs s \<Longrightarrow> ns_inv s \<and> length (nsRequests s) = k"
proof (induction rule: ns_run.induct)
  case (ns_run_step evs s ev s')
  then show ?case using ns_inv_next [of s src ev "Some s'"]
    by (auto simp: ns_next_def Let_def split: if_splits option.splits)
qed (simp add: ns_inv_init, simp add: ns_init_def)

section \<open>Ordered acquisition\<close>

text \<open>The resources of an instance are strictly increasing when its paths are distinct clean paths; then a
  request only waits for resources beyond those it holds.\<close>

fun orderly_event :: "ns_event \<Rightarrow> bool" where
  "orderly_event (Start t readLock li) = sorted_wrt (<) (pathsJoinPrefix (liVolume li) (liPaths li))"
| "orderly_event _ = True"

fun progress_event :: "ns_event \<Rightarrow> bool" where
  "progress_event (Start _ _ _) = False" | "progress_event (Refuse _) = False" | "progress_event (Timeout _) = False"
| "progress_event _ = True"

definition rq_sorted :: "request \<Rightarrow> bool" where
  "rq_sorted rq \<longleftrightarrow> sorted_wrt (<) (rqHeld rq @ rqTodo rq)"

lemma rq_step_sorted:
  assumes "rq_step src ev rq n = Some (n', q)" "orderly_event ev" "rq_sorted rq" "rq_ok rq"
  shows "rq_sorted q"
proof (cases ev)
  case (Grant u)
  then obtain a where a: "rqWait rq = Some a"
    and q: "q = rq\<lparr>rqWait := None, rqTodo := tl (rqTodo rq), rqHeld := rqHeld rq @ [hd (rqTodo rq)]\<rparr>"
    using assms by (auto split: option.splits prod.splits bool.splits)
  have "rqTodo rq \<noteq> []" using a assms(4) by (auto simp: rq_ok_def)
  then have "rqHeld q @ rqTodo q = rqHeld rq @ rqTodo rq" using q by simp
  then show ?thesis using assms(3) by (simp add: rq_sorted_def)
next
  case (Release u)
  then have "rqHeld rq \<noteq> []" "q = rq\<lparr>rqHeld := tl (rqHeld rq)\<rparr>" using assms(1) by (auto split: if_splits)
  then show ?thesis using assms(3) by (cases "rqHeld rq") (auto simp: rq_sorted_def)
qed (use assms in \<open>auto simp: rq_sorted_def li_GetLock_def idle_def sorted_wrt_append split: if_splits option.splits prod.splits bool.splits\<close>)

lemma ns_next_request:
  assumes "ns_next src ev s = Some (Some s')"
  obtains n q where "ev_request ev < length (nsRequests s)"
    "rq_step src ev (nsRequests s ! ev_request ev) (nsLocks s) = Some (Some n, q)"
    "s' = \<lparr>nsLocks = n, nsRequests = (nsRequests s)[ev_request ev := q]\<rparr>"
  using assms by (auto simp: ns_next_def Let_def split: if_splits option.splits)

lemma ns_run_sorted:
  "ns_run src k evs s \<Longrightarrow> list_all orderly_event evs \<Longrightarrow> list_all rq_sorted (nsRequests s)"
proof (induction rule: ns_run.induct)
  case ns_run_init
  then show ?case by (simp add: ns_init_def list_all_iff rq_sorted_def idle_def)
next
  case (ns_run_step evs s ev s')
  then have IH: "list_all rq_sorted (nsRequests s)" "orderly_event ev" by simp_all
  obtain n q where t: "ev_request ev < length (nsRequests s)"
    and st: "rq_step src ev (nsRequests s ! ev_request ev) (nsLocks s) = Some (Some n, q)"
    and s': "s' = \<lparr>nsLocks = n, nsRequests = (nsRequests s)[ev_request ev := q]\<rparr>"
    using ns_next_request [OF ns_run_step.hyps(2)] .
  have "ns_inv s" using ns_run_inv [OF ns_run_step.hyps(1)] by simp
  then have "rq_sorted q" using rq_step_sorted [OF st IH(2)] IH(1) t ns_inv_request(1) [OF _ t] by (simp add: list_all_length)
  then show ?case using IH(1) s' t by (auto simp: list_all_length nth_list_update)
qed

definition rq_weight :: "request \<Rightarrow> nat" where
  "rq_weight rq = length (rqHeld rq) +
     (case rqPhase rq of Idle \<Rightarrow> 0 | Returning \<Rightarrow> 2 | Got \<Rightarrow> 3
      | Getting \<Rightarrow> 4 + 3 * length (rqTodo rq) + of_bool (rqWait rq = None))"

definition ns_weight :: "ns_state \<Rightarrow> nat" where
  "ns_weight s = (\<Sum>rq\<leftarrow>nsRequests s. rq_weight rq)"

lemma rq_step_weight:
  assumes "rq_step src ev rq n = Some (n', q)" "progress_event ev" "rq_ok rq"
  shows "rq_weight q < rq_weight rq"
proof (cases ev)
  case (Grant u)
  then obtain a where a: "rqWait rq = Some a"
    and q: "q = rq\<lparr>rqWait := None, rqTodo := tl (rqTodo rq), rqHeld := rqHeld rq @ [hd (rqTodo rq)]\<rparr>"
    using assms by (auto split: option.splits prod.splits bool.splits)
  have "rqTodo rq \<noteq> []" "rqPhase rq = Getting" using a assms(3) by (auto simp: rq_ok_def)
  then show ?thesis using a q by (cases "rqTodo rq") (auto simp: rq_weight_def)
qed (use assms in \<open>auto simp: rq_weight_def idle_def rq_ok_def split: if_splits prod.splits\<close>)

lemma ns_next_weight:
  assumes nx: "ns_next src ev s = Some (Some s')" and ev: "progress_event ev" and inv: "ns_inv s"
  shows "ns_weight s' < ns_weight s"
proof -
  obtain n q where t: "ev_request ev < length (nsRequests s)"
    and st: "rq_step src ev (nsRequests s ! ev_request ev) (nsLocks s) = Some (Some n, q)"
    and s': "s' = \<lparr>nsLocks = n, nsRequests = (nsRequests s)[ev_request ev := q]\<rparr>"
    using ns_next_request [OF nx] .
  have "rq_weight q < rq_weight (nsRequests s ! ev_request ev)"
    using rq_step_weight [OF st ev ns_inv_request(1) [OF inv t]] .
  moreover have "ns_weight s' + rq_weight (nsRequests s ! ev_request ev) = ns_weight s + rq_weight q"
    using cnt_update [OF t, of "\<lambda>rq r. rq_weight rq" q "[]"] s' by (simp add: ns_weight_def cnt_def)
  ultimately show ?thesis by linarith
qed

lemma ns_next_enabled:
  assumes inv: "ns_inv s" and t: "ev_request ev < length (nsRequests s)"
    and st: "rq_step src ev (nsRequests s ! ev_request ev) (nsLocks s) \<noteq> None"
  shows "\<exists>s'. ns_next src ev s = Some (Some s')"
proof -
  obtain res where "ns_next src ev s = Some res" using t st by (auto simp: ns_next_def Let_def)
  then show ?thesis using ns_inv_next [OF inv] by blast
qed

lemma cnt_positive: "0 < cnt f rs r \<Longrightarrow> \<exists>u < length rs. 0 < f (rs ! u) r"
proof (rule ccontr)
  assume "0 < cnt f rs r" and "\<not> (\<exists>u < length rs. 0 < f (rs ! u) r)"
  then have "\<forall>q \<in> set rs. f q r = 0" by (metis in_set_conv_nth not_gr_zero)
  then have "cnt f rs r = 0" by (simp add: cnt_def)
  with \<open>0 < cnt f rs r\<close> show False by simp
qed

text \<open>A refused attempt names a holder.\<close>

lemma ns_attempt_refused:
  assumes inv: "ns_inv s" and t: "t < length (nsRequests s)" and a: "rqWait (nsRequests s ! t) = Some a"
    and no: "\<not> fst (ns_attempt a opsID src (rqRead (nsRequests s ! t)) (nsLocks s))"
  shows "\<exists>u < length (nsRequests s). hd (rqTodo (nsRequests s ! t)) \<in> set (rqHeld (nsRequests s ! u))"
proof -
  let ?rs = "nsRequests s" let ?r = "hd (rqTodo (?rs ! t))" let ?m = "nsMutex (nsHeap (nsLocks s) a)"
  note i = ns_inv_request [OF inv t]
  have "nsMap (nsLocks s) ?r = Some a" using i(2) a by (simp add: waits_at_def)
  then have m: "lm_ok ?m" "lm_readers ?m = cnt rq_reads ?rs ?r" "lm_writers ?m = cnt rq_writes ?rs ?r"
    using i(4) [of ?r] by (auto simp: entry_ok_def)
  have "0 < cnt rq_writes ?rs ?r \<or> 0 < cnt rq_reads ?rs ?r"
    using no lsync_mutex.grants [OF m(1), of opsID src "\<not> rqRead (?rs ! t)"] m
    by (auto simp: ns_attempt_def split: prod.splits)
  then obtain u where "u < length ?rs" "0 < rq_writes (?rs ! u) ?r \<or> 0 < rq_reads (?rs ! u) ?r"
    using cnt_positive by blast
  moreover from this(2) have "count_list (rqHeld (?rs ! u)) ?r \<noteq> 0"
    by (auto simp: rq_reads_def rq_writes_def split: if_splits)
  ultimately show ?thesis by (auto simp: count_list_0_iff)
qed

lemma ns_progress:
  assumes inv: "ns_inv s" and sorted: "list_all rq_sorted (nsRequests s)"
    and busy: "t < length (nsRequests s)" "rqPhase (nsRequests s ! t) \<noteq> Idle"
  shows "\<exists>ev s'. progress_event ev \<and> ns_next src ev s = Some (Some s')"
proof (rule ccontr)
  let ?rs = "nsRequests s"
  assume stuck: "\<not> ?thesis"
  have no: "rq_step src ev (?rs ! ev_request ev) (nsLocks s) = None" if "progress_event ev" "ev_request ev < length ?rs" for ev
    using that stuck ns_next_enabled [OF inv that(2), of src] by blast
  have waiting: "rqWait (?rs ! u) \<noteq> None \<and> rqPhase (?rs ! u) = Getting \<and> rqTodo (?rs ! u) \<noteq> []"
    if u: "u < length ?rs" and ph: "rqPhase (?rs ! u) \<noteq> Idle" for u
    using ph no [of "Enter u"] no [of "Locked u"] no [of "Finish u"] no [of "Release u"] no [of "End u"] u
      ns_inv_request(1) [OF inv u]
    by (cases "rqPhase (?rs ! u)") (auto simp: rq_ok_def split: if_splits prod.splits)
  have beyond: "\<exists>u < length ?rs. rqPhase (?rs ! u) \<noteq> Idle \<and> hd (rqTodo (?rs ! v)) < hd (rqTodo (?rs ! u))"
    if v: "v < length ?rs" and ph: "rqPhase (?rs ! v) \<noteq> Idle" for v
  proof -
    obtain a where a: "rqWait (?rs ! v) = Some a" using waiting [OF v ph] by auto
    have "\<not> fst (ns_attempt a (rqOpsID (?rs ! v)) src (rqRead (?rs ! v)) (nsLocks s))"
      using no [of "Grant v"] v a by (auto split: prod.splits bool.splits)
    then obtain u where u: "u < length ?rs" "hd (rqTodo (?rs ! v)) \<in> set (rqHeld (?rs ! u))"
      using ns_attempt_refused [OF inv v a] by blast
    then have ph: "rqPhase (?rs ! u) \<noteq> Idle" using ns_inv_request(1) [OF inv u(1)] by (auto simp: rq_ok_def)
    have "hd (rqTodo (?rs ! u)) \<in> set (rqTodo (?rs ! u))" using waiting [OF u(1) ph] by simp
    then have "hd (rqTodo (?rs ! v)) < hd (rqTodo (?rs ! u))"
      using sorted u by (auto simp: list_all_length rq_sorted_def sorted_wrt_append)
    then show ?thesis using u(1) ph by blast
  qed
  let ?W = "(\<lambda>u. hd (rqTodo (?rs ! u))) ` {u. u < length ?rs \<and> rqPhase (?rs ! u) \<noteq> Idle}"
  have fin: "finite ?W" and ne: "?W \<noteq> {}" using busy by auto
  obtain v where v: "v < length ?rs" "rqPhase (?rs ! v) \<noteq> Idle" "Max ?W = hd (rqTodo (?rs ! v))"
    using Max_in [OF fin ne] by auto
  obtain u where "u < length ?rs" "rqPhase (?rs ! u) \<noteq> Idle" "hd (rqTodo (?rs ! v)) < hd (rqTodo (?rs ! u))"
    using beyond [OF v(1,2)] by blast
  then have "hd (rqTodo (?rs ! u)) \<in> ?W" "Max ?W < hd (rqTodo (?rs ! u))" using v(3) by auto
  then show False using Max_ge [OF fin] by (meson leD)
qed

lemma count_list_pos: "0 < count_list xs x \<longleftrightarrow> x \<in> set xs"
  using count_list_0_iff [of xs x] by (cases "count_list xs x") auto

lemma ns_inv_entries:
  assumes "ns_inv s"
  shows "nsMap (nsLocks s) r \<noteq> None \<longleftrightarrow> (\<exists>rq \<in> set (nsRequests s).
       r \<in> set (rqHeld rq) \<or> rqWait rq \<noteq> None \<and> hd (rqTodo rq) = r)"
proof -
  let ?rs = "nsRequests s"
  have e: "entry_ok (nsLocks s) r (cnt rq_reads ?rs r) (cnt rq_writes ?rs r) (cnt rq_waits ?rs r)"
    using assms unfolding ns_inv_def by blast
  have refs: "rq_reads rq r + rq_writes rq r + rq_waits rq r = 0 \<longleftrightarrow>
      \<not> (r \<in> set (rqHeld rq) \<or> rqWait rq \<noteq> None \<and> hd (rqTodo rq) = r)" for rq
    by (auto simp: rq_reads_def rq_writes_def rq_waits_def count_list_0_iff)
  have "nsMap (nsLocks s) r = None \<longleftrightarrow> cnt rq_reads ?rs r + cnt rq_writes ?rs r + cnt rq_waits ?rs r = 0"
    using e by (cases "nsMap (nsLocks s) r") (simp_all add: entry_ok_def)
  also have "\<dots> \<longleftrightarrow> (\<forall>rq \<in> set ?rs. rq_reads rq r + rq_writes rq r + rq_waits rq r = 0)"
    by (auto simp: cnt_def)
  finally have "nsMap (nsLocks s) r = None \<longleftrightarrow> (\<forall>rq \<in> set ?rs. \<not> (r \<in> set (rqHeld rq) \<or> rqWait rq \<noteq> None \<and> hd (rqTodo rq) = r))"
    by (simp only: refs)
  then show ?thesis by (simp del: de_Morgan_disj)
qed

lemma all_idle_empty:
  assumes inv: "ns_inv s" and idle: "\<forall>t < length (nsRequests s). rqPhase (nsRequests s ! t) = Idle"
  shows "nsMap (nsLocks s) r = None"
proof -
  have z: "\<forall>q \<in> set (nsRequests s). rqHeld q = [] \<and> rqWait q = None"
  proof
    fix q assume "q \<in> set (nsRequests s)"
    then obtain t where t: "t < length (nsRequests s)" "q = nsRequests s ! t" by (auto simp: in_set_conv_nth)
    then show "rqHeld q = [] \<and> rqWait q = None" using ns_inv_request(1) [OF inv t(1)] idle by (auto simp: rq_ok_def)
  qed
  then show ?thesis using ns_inv_entries [OF inv, of r] by auto
qed

lemma ns_drains:
  assumes "ns_run src k evs s" "list_all orderly_event evs"
  shows "\<exists>evs' s'. list_all progress_event evs' \<and> ns_run src k (evs @ evs') s' \<and>
    (\<forall>t < k. rqPhase (nsRequests s' ! t) = Idle)"
  using assms
proof (induction "ns_weight s" arbitrary: evs s rule: less_induct)
  case less
  have inv: "ns_inv s" and k: "length (nsRequests s) = k" using ns_run_inv [OF less.prems(1)] by auto
  show ?case
  proof (cases "\<forall>t < k. rqPhase (nsRequests s ! t) = Idle")
    case True
    then show ?thesis using less.prems(1) by (intro exI [of _ "[]"] exI [of _ s]) simp
  next
    case False
    then obtain ev s' where ev: "progress_event ev" "ns_next src ev s = Some (Some s')"
      using ns_progress [OF inv ns_run_sorted [OF less.prems]] k by blast
    have "orderly_event ev" using ev(1) by (cases ev) auto
    then obtain evs' s'' where "list_all progress_event evs'" "ns_run src k ((evs @ [ev]) @ evs') s''"
      "\<forall>t < k. rqPhase (nsRequests s'' ! t) = Idle"
      using less.hyps [OF ns_next_weight [OF ev(2,1) inv] ns_run_step [OF less.prems(1) ev(2)]] less.prems(2) by auto
    then show ?thesis using ev(1) by (intro exI [of _ "ev # evs'"] exI [of _ s'']) simp
  qed
qed

lemma ns_inv_writer:
  assumes inv: "ns_inv s" and t: "t < length (nsRequests s)" "u < length (nsRequests s)" "t \<noteq> u"
    and r: "r \<in> set (rqHeld (nsRequests s ! t))" "r \<in> set (rqHeld (nsRequests s ! u))"
  shows "rqRead (nsRequests s ! t)"
proof (rule ccontr)
  let ?rs = "nsRequests s"
  assume w: "\<not> rqRead (?rs ! t)"
  have e: "entry_ok (nsLocks s) r (cnt rq_reads ?rs r) (cnt rq_writes ?rs r) (cnt rq_waits ?rs r)"
    using inv unfolding ns_inv_def by blast
  obtain a where "nsMap (nsLocks s) r = Some a" using ns_inv_entries [OF inv, of r] r(1) t(1) by force
  then have m: "lm_ok (nsMutex (nsHeap (nsLocks s) a))" "lm_readers (nsMutex (nsHeap (nsLocks s) a)) = cnt rq_reads ?rs r"
    "lm_writers (nsMutex (nsHeap (nsLocks s) a)) = cnt rq_writes ?rs r"
    using e by (simp_all add: entry_ok_def)
  have "0 < rq_writes (?rs ! t) r" "0 < rq_writes (?rs ! u) r + rq_reads (?rs ! u) r"
    using w r by (auto simp: rq_writes_def rq_reads_def count_list_pos)
  moreover have "rq_writes (?rs ! t) r + rq_writes (?rs ! u) r \<le> cnt rq_writes ?rs r"
    using cnt_two [of t u ?rs rq_writes r] cnt_two [of u t ?rs rq_writes r] t by (cases "t < u") auto
  moreover have "rq_reads (?rs ! u) r \<le> cnt rq_reads ?rs r" using cnt_member t(2) by simp
  ultimately show False using lsync_mutex.exclusive [OF m(1)] m(2,3) by linarith
qed

lemma ns_inv_exclusive:
  assumes "ns_inv s" "t < length (nsRequests s)" "u < length (nsRequests s)" "t \<noteq> u"
    "r \<in> set (rqHeld (nsRequests s ! t))" "r \<in> set (rqHeld (nsRequests s ! u))"
  shows "rqRead (nsRequests s ! t) \<and> rqRead (nsRequests s ! u)"
  using ns_inv_writer [OF assms] ns_inv_writer [OF assms(1,3,2) assms(4) [symmetric] assms(6,5)] by blast

section \<open>Properties\<close>

text \<open>Runs can be computed.\<close>

fun ns_exec :: "string \<Rightarrow> ns_event list \<Rightarrow> ns_state \<Rightarrow> ns_state option" where
  "ns_exec src [] s = Some s"
| "ns_exec src (ev # evs) s =
     (case ns_next src ev s of Some (Some s') \<Rightarrow> ns_exec src evs s' | _ \<Rightarrow> None)"

lemma ns_exec_run:
  "ns_exec src evs s = Some s' \<Longrightarrow> ns_run src k evs0 s \<Longrightarrow> ns_run src k (evs0 @ evs) s'"
proof (induction evs arbitrary: s evs0)
  case (Cons ev evs)
  then obtain s1 where "ns_next src ev s = Some (Some s1)" "ns_exec src evs s1 = Some s'"
    by (auto split: option.splits)
  then show ?case using Cons.IH [of s1 "evs0 @ [ev]"] ns_run_step [OF Cons.prems(2)] by auto
qed simp

definition ns_sample_events :: "ns_event list" where
  "ns_sample_events =
     [Start 0 False (NewNSLock ''op1'' ''bucket'' [''b'', ''a'']), Start 1 True (NewNSLock ''op2'' ''bucket'' [''b'']),
      Enter 0, Grant 0, Enter 1, Grant 1, Enter 0, Refuse 0]"

lemma ns_sample_run: "\<exists>s. ns_run ''src'' 2 ns_sample_events s"
proof -
  have "\<not> Option.is_none (ns_exec ''src'' ns_sample_events (ns_init 2))" by code_simp
  then obtain s where "ns_exec ''src'' ns_sample_events (ns_init 2) = Some s" by (auto simp: Option.is_none_def)
  from ns_exec_run [OF this ns_run_init] show ?thesis by auto
qed

text \<open>
  C11. Namespace locks exclude each other. In every interleaving of any number of requests that lock
  and unlock several paths, time out and roll back: two requests hold the same resource only if both
  hold it for reading; no unlock and no roll-back panics; and the map has an entry exactly for the
  resources that some request holds or waits for, so that no entry leaks and none is removed while
  it is in use.
\<close>

theorem namespace_lock_exclusive:
  assumes run: "ns_run src k evs s"
  shows "(\<forall>t u r. t < k \<longrightarrow> u < k \<longrightarrow> t \<noteq> u \<longrightarrow> r \<in> set (rqHeld (nsRequests s ! t)) \<longrightarrow> r \<in> set (rqHeld (nsRequests s ! u)) \<longrightarrow>
      rqRead (nsRequests s ! t) \<and> rqRead (nsRequests s ! u)) \<and>
    (\<forall>ev. ns_next src ev s \<noteq> Some None) \<and>
    (\<forall>r. nsMap (nsLocks s) r \<noteq> None \<longleftrightarrow> (\<exists>rq \<in> set (nsRequests s).
       r \<in> set (rqHeld rq) \<or> rqWait rq \<noteq> None \<and> hd (rqTodo rq) = r))"
proof (intro conjI allI)
  have inv: "ns_inv s" and k: "length (nsRequests s) = k" using ns_run_inv [OF run] by simp_all
  show "t < k \<longrightarrow> u < k \<longrightarrow> t \<noteq> u \<longrightarrow> r \<in> set (rqHeld (nsRequests s ! t)) \<longrightarrow> r \<in> set (rqHeld (nsRequests s ! u)) \<longrightarrow>
      rqRead (nsRequests s ! t) \<and> rqRead (nsRequests s ! u)" for t u r
    using ns_inv_exclusive [OF inv] k by blast
  show "ns_next src ev s \<noteq> Some None" for ev using ns_inv_next [OF inv, of src ev None] by blast
qed (rule ns_inv_entries, use ns_run_inv [OF run] in simp)

theorem namespace_lock_exclusive_witness:
  "\<exists>s. ns_run ''src'' 2 ns_sample_events s \<and> (\<forall>ev. ns_next ''src'' ev s \<noteq> Some None)"
proof -
  obtain s where "ns_run ''src'' 2 ns_sample_events s" using ns_sample_run by blast
  with namespace_lock_exclusive [OF this] show ?thesis by blast
qed

text \<open>
  C21. Namespace locks do not deadlock. If every lock instance has distinct resources in increasing
  order, as the sorting of \<open>NewNSLock\<close> is meant to give, then from every reachable state all requests
  can get their locks, finish and release them without any timeout and without new requests, and
  the lock map is empty in the end.
\<close>

theorem namespace_lock_drains:
  assumes run: "ns_run src k evs s" and orderly: "list_all orderly_event evs"
  shows "\<exists>evs' s'. list_all progress_event evs' \<and> ns_run src k (evs @ evs') s' \<and>
    (\<forall>t < k. rqPhase (nsRequests s' ! t) = Idle) \<and> (\<forall>r. nsMap (nsLocks s') r = None)"
proof -
  obtain evs' s' where "list_all progress_event evs'" "ns_run src k (evs @ evs') s'"
    "\<forall>t < k. rqPhase (nsRequests s' ! t) = Idle" using ns_drains [OF assms] by blast
  then show ?thesis using all_idle_empty ns_run_inv by metis
qed

theorem namespace_lock_drains_witness:
  "list_all orderly_event ns_sample_events \<and> (\<exists>evs' s'. ns_run ''src'' 2 (ns_sample_events @ evs') s' \<and>
     (\<forall>t < 2. rqPhase (nsRequests s' ! t) = Idle))"
proof -
  obtain s where s: "ns_run ''src'' 2 ns_sample_events s" using ns_sample_run by blast
  have "list_all orderly_event ns_sample_events" by code_simp
  with namespace_lock_drains [OF s this] show ?thesis by blast
qed

end
