(* ===== verification/Local_Locker.thy ===== *)
theory Local_Locker
  imports Prelude "HOL-Library.AList"
begin

text \<open>
  The lock server of one node (\<open>cmd/local-locker.go\<close>), which keeps the locks that nodes of a distributed
  set-up ask for, and the interface \<open>NetLocker\<close> (\<open>internal/dsync/rpc-client-interface.go\<close>) through which
  they use it. Times are nanoseconds; an operation that reads the clock takes the time as an argument.
  A panic is \<open>None\<close>.
\<close>

section \<open>Data\<close>

record LockArgs =
  laUID :: string
  laResources :: "string list"
  laSource :: string
  laOwner :: string
  laQuorum :: int

record lockRequesterInfo =
  lrName :: string
  lrWriter :: bool
  lrUID :: string
  lrTimestamp :: int
  lrTimeLastRefresh :: int
  lrSource :: string
  lrGroup :: bool
  lrOwner :: string
  lrQuorum :: int
  lrIdx :: nat

record localLocker =
  llMap :: "(string \<times> lockRequesterInfo list) list"
  llUID :: "(string \<times> string) list"

definition newLocker :: localLocker where
  "newLocker = \<lparr>llMap = [], llUID = []\<rparr>"

definition maxDeleteList :: nat where "maxDeleteList = 1000"

abbreviation lri_of :: "localLocker \<Rightarrow> string \<Rightarrow> lockRequesterInfo list option" where
  "lri_of l resource \<equiv> map_of (llMap l) resource"

definition set_lri :: "string \<Rightarrow> lockRequesterInfo list \<Rightarrow> localLocker \<Rightarrow> localLocker" where
  "set_lri resource lri l = l\<lparr>llMap := AList.update resource lri (llMap l)\<rparr>"

definition delete_lri :: "string \<Rightarrow> localLocker \<Rightarrow> localLocker" where
  "delete_lri resource l = l\<lparr>llMap := AList.delete resource (llMap l)\<rparr>"

definition set_uid :: "string \<Rightarrow> string \<Rightarrow> localLocker \<Rightarrow> localLocker" where
  "set_uid mapID resource l = l\<lparr>llUID := AList.update mapID resource (llUID l)\<rparr>"

definition delete_uid :: "string \<Rightarrow> localLocker \<Rightarrow> localLocker" where
  "delete_uid mapID l = l\<lparr>llUID := AList.delete mapID (llUID l)\<rparr>"

section \<open>Locking\<close>

definition isWriteLock :: "lockRequesterInfo list \<Rightarrow> bool" where
  "isWriteLock lri \<longleftrightarrow> length lri = 1 \<and> lrWriter (lri ! 0)"

text \<open>The entry of a missing resource is the empty slice.\<close>

definition canTakeUnlock :: "string list \<Rightarrow> localLocker \<Rightarrow> bool" where
  "canTakeUnlock resources l \<longleftrightarrow>
     list_all (\<lambda>resource. isWriteLock (case lri_of l resource of None \<Rightarrow> [] | Some lri \<Rightarrow> lri)) resources"

definition canTakeLock :: "string list \<Rightarrow> localLocker \<Rightarrow> bool" where
  "canTakeLock resources l \<longleftrightarrow> list_all (\<lambda>resource. lri_of l resource = None) resources"

definition formatUUID :: "string \<Rightarrow> nat \<Rightarrow> string" where
  "formatUUID s idx = s @ Itoa idx"

definition requester :: "int \<Rightarrow> LockArgs \<Rightarrow> string \<Rightarrow> bool \<Rightarrow> bool \<Rightarrow> nat \<Rightarrow> lockRequesterInfo" where
  "requester now args resource writer grouped idx =
     \<lparr>lrName = resource, lrWriter = writer, lrUID = laUID args, lrTimestamp = now, lrTimeLastRefresh = now,
      lrSource = laSource args, lrGroup = grouped, lrOwner = laOwner args, lrQuorum = laQuorum args, lrIdx = idx\<rparr>"

fun claim :: "int \<Rightarrow> LockArgs \<Rightarrow> nat \<Rightarrow> string list \<Rightarrow> localLocker \<Rightarrow> localLocker" where
  "claim now args i [] l = l"
| "claim now args i (resource # rs) l =
     claim now args (Suc i) rs
       (set_uid (formatUUID (laUID args) i) resource
         (set_lri resource [requester now args resource True (length (laResources args) > 1) i] l))"

text \<open>The errors.\<close>

definition too_many :: "string \<Rightarrow> string" where
  "too_many op = ''internal error: localLocker.'' @ op @ '' called with more than '' @ Itoa maxDeleteList @ '' resources''"

definition more_than_one :: "string \<Rightarrow> string" where
  "more_than_one op = ''internal error: localLocker.'' @ op @ '' called with more than one resource''"

definition read_locked :: "string \<Rightarrow> string" where
  "read_locked resource = ''unlock attempted on a read locked entity: '' @ resource"

definition write_locked :: "string \<Rightarrow> string" where
  "write_locked resource = ''RUnlock attempted on a write locked entity: '' @ resource"

type_synonym reply = "bool \<times> string option"

definition ll_Lock :: "int \<Rightarrow> LockArgs \<Rightarrow> localLocker \<Rightarrow> reply \<times> localLocker" where
  "ll_Lock now args l =
     (if length (laResources args) > maxDeleteList
      then ((False, Some (too_many ''Lock'')), l)
      else if \<not> canTakeLock (laResources args) l then ((False, None), l)
      else ((True, None), claim now args 0 (laResources args) l))"

fun find_entry :: "LockArgs \<Rightarrow> nat \<Rightarrow> lockRequesterInfo list \<Rightarrow> (nat \<times> lockRequesterInfo) option" where
  "find_entry args i [] = None"
| "find_entry args i (entry # es) =
     (if lrUID entry = laUID args \<and> (laOwner args = [] \<or> lrOwner entry = laOwner args) then Some (i, entry)
      else find_entry args (Suc i) es)"

definition removeEntry :: "string \<Rightarrow> LockArgs \<Rightarrow> lockRequesterInfo list \<Rightarrow> localLocker \<Rightarrow> bool \<times> localLocker" where
  "removeEntry name args lri l =
     (case find_entry args 0 lri of
        None \<Rightarrow> (False, l)
      | Some (index, entry) \<Rightarrow>
          (True, delete_uid (formatUUID (laUID args) (lrIdx entry))
            (if length lri = 1 then delete_lri name l
             else set_lri name (take index lri @ drop (index + 1) lri) l)))"

fun unlock_loop :: "LockArgs \<Rightarrow> string list \<Rightarrow> reply \<Rightarrow> localLocker \<Rightarrow> reply \<times> localLocker" where
  "unlock_loop args [] (reply, err) l = ((reply, err), l)"
| "unlock_loop args (resource # rs) (reply, err) l =
     (if \<not> canTakeUnlock [resource] l
      then unlock_loop args rs (reply, Some (read_locked resource)) l
      else case lri_of l resource of
             None \<Rightarrow> unlock_loop args rs (reply, err) l
           | Some lri \<Rightarrow>
               (case removeEntry resource args lri l of
                  (removed, l') \<Rightarrow> unlock_loop args rs (removed \<or> reply, err) l'))"

definition ll_Unlock :: "LockArgs \<Rightarrow> localLocker \<Rightarrow> reply \<times> localLocker" where
  "ll_Unlock args l =
     (if length (laResources args) > maxDeleteList
      then ((False, Some (too_many ''Unlock'')), l)
      else unlock_loop args (laResources args) (False, None) l)"

definition ll_RLock :: "int \<Rightarrow> LockArgs \<Rightarrow> localLocker \<Rightarrow> (reply \<times> localLocker) option" where
  "ll_RLock now args l =
     (if length (laResources args) > 1
      then Some ((False, Some (more_than_one ''RLock'')), l)
      else if laResources args = [] then None
      else let resource = laResources args ! 0; lrInfo = requester now args resource False False 0 in
           case lri_of l resource of
             Some lri \<Rightarrow>
               if \<not> isWriteLock lri
               then Some ((True, None), set_uid (formatUUID (laUID args) 0) resource (set_lri resource (lri @ [lrInfo]) l))
               else Some ((False, None), l)
           | None \<Rightarrow> Some ((True, None), set_uid (formatUUID (laUID args) 0) resource (set_lri resource [lrInfo] l)))"

definition ll_RUnlock :: "LockArgs \<Rightarrow> localLocker \<Rightarrow> (reply \<times> localLocker) option" where
  "ll_RUnlock args l =
     (if length (laResources args) > 1
      then Some ((False, Some (more_than_one ''RUnlock'')), l)
      else if laResources args = [] then None
      else let resource = laResources args ! 0 in
           case lri_of l resource of
             None \<Rightarrow> Some ((True, None), l)
           | Some lri \<Rightarrow>
               if isWriteLock lri
               then Some ((False, Some (write_locked resource)), l)
               else Some ((True, None), snd (removeEntry resource args lri l)))"

definition DupLockMap :: "localLocker \<Rightarrow> (string \<times> lockRequesterInfo list) list" where
  "DupLockMap l = llMap l"

section \<open>Forced release\<close>

definition uid_args :: "string \<Rightarrow> LockArgs" where
  "uid_args uid = \<lparr>laUID = uid, laResources = [], laSource = [], laOwner = [], laQuorum = 0\<rparr>"

text \<open>\<open>for idx := 0; idx < maxDeleteList; idx++\<close>, with \<open>k\<close> rounds left.\<close>

fun drop_uuids :: "string \<Rightarrow> nat \<Rightarrow> nat \<Rightarrow> localLocker \<Rightarrow> localLocker" where
  "drop_uuids uid idx 0 l = l"
| "drop_uuids uid idx (Suc k) l =
     (if map_of (llUID l) (formatUUID uid idx) = None then l
      else drop_uuids uid (Suc idx) k (delete_uid (formatUUID uid idx) l))"

fun force_uids :: "string \<Rightarrow> string list \<Rightarrow> localLocker \<Rightarrow> localLocker" where
  "force_uids resource [] l = l"
| "force_uids resource (uid # uids) l =
     force_uids resource uids
       (case lri_of l resource of
          None \<Rightarrow> drop_uuids uid 0 maxDeleteList l
        | Some lris \<Rightarrow> snd (removeEntry resource (uid_args uid) lris l))"

fun force_resources :: "string list \<Rightarrow> localLocker \<Rightarrow> localLocker" where
  "force_resources [] l = l"
| "force_resources (resource # rs) l =
     force_resources rs
       (case lri_of l resource of None \<Rightarrow> l | Some lris \<Rightarrow> force_uids resource (map lrUID lris) l)"

text \<open>The loops over the indices of an id end because the ids in the map are finitely many and no two indices
  give the same one.\<close>

definition ids_from :: "string \<Rightarrow> nat \<Rightarrow> localLocker \<Rightarrow> nat set" where
  "ids_from uid idx l = {i. idx \<le> i \<and> formatUUID uid i \<in> fst ` set (llUID l)}"

lemma formatUUID_inj: "formatUUID uid i = formatUUID uid j \<Longrightarrow> i = j"
  using Itoa_inj by (simp add: formatUUID_def)

lemma ids_from_finite: "finite (ids_from uid idx l)"
proof -
  have "ids_from uid idx l \<subseteq> formatUUID uid -` (fst ` set (llUID l))" by (auto simp: ids_from_def)
  moreover have "finite (formatUUID uid -` (fst ` set (llUID l)))"
    using formatUUID_inj by (intro finite_vimageI) (auto intro: injI)
  ultimately show ?thesis by (rule finite_subset)
qed

lemma ids_from_Suc:
  assumes "map_of (llUID l) (formatUUID uid idx) = Some r" "fst ` set (llUID l') \<subseteq> fst ` set (llUID l)"
  shows "card (ids_from uid (Suc idx) l') < card (ids_from uid idx l)"
proof (rule psubset_card_mono [OF ids_from_finite])
  have "idx \<in> ids_from uid idx l" using assms(1) by (force simp: ids_from_def dest: map_of_SomeD)
  moreover have "idx \<notin> ids_from uid (Suc idx) l'" by (simp add: ids_from_def)
  moreover have "ids_from uid (Suc idx) l' \<subseteq> ids_from uid idx l" using assms(2) by (auto simp: ids_from_def)
  ultimately show "ids_from uid (Suc idx) l' \<subset> ids_from uid idx l" by blast
qed

lemma uid_keys:
  "fst ` set (llUID (delete_uid mapID l)) \<subseteq> fst ` set (llUID l)"
  "fst ` set (llUID (snd (removeEntry name args lri l))) \<subseteq> fst ` set (llUID l)"
  by (auto simp: removeEntry_def delete_uid_def delete_lri_def set_lri_def AList.delete_eq split: option.splits)

function force_id :: "string \<Rightarrow> nat \<Rightarrow> localLocker \<Rightarrow> bool \<times> localLocker" where
  "force_id uid idx l =
     (case map_of (llUID l) (formatUUID uid idx) of
        None \<Rightarrow> (idx > 0, l)
      | Some resource \<Rightarrow>
          (case lri_of l resource of
             None \<Rightarrow> force_id uid (Suc idx) (delete_uid (formatUUID uid idx) l)
           | Some lris \<Rightarrow> force_id uid (Suc idx) (snd (removeEntry resource (uid_args uid) lris l))))"
  by pat_completeness auto
termination
  by (relation "measure (\<lambda>(uid, idx, l). card (ids_from uid idx l))") (auto intro: ids_from_Suc [OF _ uid_keys(1)] ids_from_Suc [OF _ uid_keys(2)])

declare force_id.simps [simp del]

definition ll_ForceUnlock :: "bool \<Rightarrow> LockArgs \<Rightarrow> localLocker \<Rightarrow> reply \<times> localLocker" where
  "ll_ForceUnlock cancelled args l =
     (if cancelled then ((False, Some ''context canceled''), l)
      else if laUID args = [] then ((True, None), force_resources (laResources args) l)
      else case force_id (laUID args) 0 l of (reply, l') \<Rightarrow> ((reply, None), l'))"

section \<open>Refresh\<close>

definition refresh_uid :: "int \<Rightarrow> string \<Rightarrow> lockRequesterInfo list \<Rightarrow> lockRequesterInfo list" where
  "refresh_uid now uid lris = map (\<lambda>lri. if lrUID lri = uid then lri\<lparr>lrTimeLastRefresh := now\<rparr> else lri) lris"

function refresh_loop :: "int \<Rightarrow> string \<Rightarrow> nat \<Rightarrow> string \<Rightarrow> localLocker \<Rightarrow> bool \<times> localLocker" where
  "refresh_loop now uid idx resource l =
     (case lri_of l resource of
        None \<Rightarrow> (idx > 0, delete_uid (formatUUID uid idx) l)
      | Some lris \<Rightarrow>
          (let l' = set_lri resource (refresh_uid now uid lris) l in
           case map_of (llUID l) (formatUUID uid idx) of
             None \<Rightarrow> (True, l')
           | Some resource' \<Rightarrow> refresh_loop now uid (Suc idx) resource' l'))"
  by pat_completeness auto
termination
  by (relation "measure (\<lambda>(now, uid, idx, resource, l). card (ids_from uid idx l))")
    (auto intro!: ids_from_Suc simp: set_lri_def)

declare refresh_loop.simps [simp del]

definition ll_Refresh :: "int \<Rightarrow> bool \<Rightarrow> LockArgs \<Rightarrow> localLocker \<Rightarrow> reply \<times> localLocker" where
  "ll_Refresh now cancelled args l =
     (if cancelled then ((False, Some ''context canceled''), l)
      else case map_of (llUID l) (formatUUID (laUID args) 0) of
             None \<Rightarrow> ((False, None), l)
           | Some resource \<Rightarrow>
               (case refresh_loop now (laUID args) 0 resource l of (refreshed, l') \<Rightarrow> ((refreshed, None), l')))"

section \<open>Expiry\<close>

text \<open>\<open>now t\<close> is what the clock says at its reading \<open>t\<close>: each test of a lock reads it anew. The first lock of the
  list that is old when it is tested, and the number of the next reading.\<close>

fun find_old :: "(nat \<Rightarrow> int) \<Rightarrow> int \<Rightarrow> nat \<Rightarrow> lockRequesterInfo list \<Rightarrow> lockRequesterInfo option \<times> nat" where
  "find_old now interval t [] = (None, t)"
| "find_old now interval t (lri # lris) =
     (if now t - lrTimeLastRefresh lri > interval then (Some lri, Suc t) else find_old now interval (Suc t) lris)"

text \<open>The loop over the locks of one resource; for an arbitrary clock it need not end.\<close>

partial_function (option) expire_resource ::
  "(nat \<Rightarrow> int) \<Rightarrow> int \<Rightarrow> string \<Rightarrow> nat \<Rightarrow> bool \<Rightarrow> localLocker \<Rightarrow> localLocker option" where
  "expire_resource now interval k t found l =
     (case lri_of l k of
        None \<Rightarrow> Some l
      | Some lris \<Rightarrow>
          (case find_old now interval t lris of
             (None, t') \<Rightarrow> if \<not> found then Some l else expire_resource now interval k t' found l
           | (Some lri, t') \<Rightarrow>
               expire_resource now interval k t' True
                 (snd (removeEntry (lrName lri) ((uid_args (lrUID lri))\<lparr>laOwner := lrOwner lri\<rparr>) lris l))))"

text \<open>The resources are visited in the order of the list \<open>ks\<close>, with a clock for each.\<close>

fun expire_all :: "(string \<Rightarrow> nat \<Rightarrow> int) \<Rightarrow> int \<Rightarrow> string list \<Rightarrow> localLocker \<Rightarrow> localLocker option" where
  "expire_all now interval [] l = Some l"
| "expire_all now interval (k # ks) l =
     (case expire_resource (now k) interval k 0 False l of None \<Rightarrow> None | Some l' \<Rightarrow> expire_all now interval ks l')"

definition expireOldLocks :: "(string \<Rightarrow> nat \<Rightarrow> int) \<Rightarrow> int \<Rightarrow> localLocker \<Rightarrow> localLocker option" where
  "expireOldLocks now interval l = expire_all now interval (map fst (llMap l)) l"

section \<open>The invariant\<close>

definition lri_ok :: "string \<Rightarrow> lockRequesterInfo list \<Rightarrow> bool" where
  "lri_ok k lris \<longleftrightarrow> lris \<noteq> [] \<and> list_all (\<lambda>lri. lrName lri = k) lris \<and> (list_ex lrWriter lris \<longrightarrow> length lris = 1)"

definition ll_ok :: "localLocker \<Rightarrow> bool" where
  "ll_ok l \<longleftrightarrow> (\<forall>k lris. lri_of l k = Some lris \<longrightarrow> lri_ok k lris)"

text \<open>How many locks of one kind an id holds on a resource.\<close>

definition holds :: "localLocker \<Rightarrow> string \<Rightarrow> string \<Rightarrow> bool \<Rightarrow> nat" where
  "holds l r u w = (case lri_of l r of None \<Rightarrow> 0 | Some lris \<Rightarrow> length (filter (\<lambda>lri. lrUID lri = u \<and> lrWriter lri = w) lris))"

lemma lri_of_simps [simp]:
  "lri_of (set_lri k lris l) r = (if r = k then Some lris else lri_of l r)"
  "lri_of (delete_lri k l) r = (if r = k then None else lri_of l r)"
  "lri_of (set_uid i k l) r = lri_of l r"
  "lri_of (delete_uid i l) r = lri_of l r"
  by (auto simp: set_lri_def delete_lri_def set_uid_def delete_uid_def AList.update_conv' AList.delete_conv')

lemma newLocker_ok [simp]: "ll_ok newLocker" "lri_of newLocker r = None"
  by (simp_all add: ll_ok_def newLocker_def)

lemma ll_ok_uid [simp]: "ll_ok (set_uid i k l) = ll_ok l" "ll_ok (delete_uid i l) = ll_ok l"
  by (simp_all add: ll_ok_def)

lemma ll_ok_set: "ll_ok l \<Longrightarrow> lri_ok k lris \<Longrightarrow> ll_ok (set_lri k lris l)"
  by (simp add: ll_ok_def)

lemma ll_ok_delete: "ll_ok l \<Longrightarrow> ll_ok (delete_lri k l)"
  by (simp add: ll_ok_def)

lemma requester_simps [simp]:
  "lrName (requester now args r w g i) = r" "lrWriter (requester now args r w g i) = w" "lrUID (requester now args r w g i) = laUID args"
  "lrOwner (requester now args r w g i) = laOwner args" "lrIdx (requester now args r w g i) = i"
  "lrTimeLastRefresh (requester now args r w g i) = now"
  by (simp_all add: requester_def)

lemma claim_ok: "ll_ok l \<Longrightarrow> ll_ok (claim now args i rs l)"
proof (induction rs arbitrary: i l)
  case (Cons a rs)
  have "ll_ok (set_lri a [requester now args a True (length (laResources args) > 1) i] l)"
    using Cons.prems by (intro ll_ok_set) (simp_all add: lri_ok_def)
  then show ?case using Cons.IH by simp
qed simp

lemma claim_lri:
  "lri_of (claim now args i rs l) r =
     (if r \<in> set rs then Some [requester now args r True (length (laResources args) > 1) (i + length rs - 1 - length (takeWhile (\<lambda>x. x \<noteq> r) (rev rs)))]
      else lri_of l r)"
proof (induction rs arbitrary: i l)
  case (Cons a rs)
  show ?case
  proof (cases "r \<in> set rs")
    case True
    then have "takeWhile (\<lambda>x. x \<noteq> r) (rev rs @ [a]) = takeWhile (\<lambda>x. x \<noteq> r) (rev rs)"
      by (intro takeWhile_append1) auto
    then show ?thesis using True by (simp add: Cons.IH)
  next
    case False
    then have "takeWhile (\<lambda>x. x \<noteq> r) (rev rs @ [a]) = rev rs @ takeWhile (\<lambda>x. x \<noteq> r) [a]"
      by (intro takeWhile_append2) auto
    then show ?thesis using False by (auto simp: Cons.IH)
  qed
qed simp

lemma find_entry_Some:
  "find_entry args i lris = Some (j, e) \<Longrightarrow> i \<le> j \<and> j - i < length lris \<and> lris ! (j - i) = e \<and> lrUID e = laUID args \<and>
     (laOwner args = [] \<or> lrOwner e = laOwner args)"
proof (induction lris arbitrary: i)
  case (Cons x lris)
  show ?case
  proof (cases "lrUID x = laUID args \<and> (laOwner args = [] \<or> lrOwner x = laOwner args)")
    case True
    then show ?thesis using Cons.prems by auto
  next
    case False
    then have "find_entry args (Suc i) lris = Some (j, e)" using Cons.prems by auto
    then show ?thesis using Cons.IH [of "Suc i"] by (auto simp: nth_Cons' diff_Suc split: nat.splits)
  qed
qed simp

lemma find_entry_None:
  "find_entry args i lris = None \<longleftrightarrow> (\<forall>e \<in> set lris. lrUID e = laUID args \<longrightarrow> laOwner args \<noteq> [] \<and> lrOwner e \<noteq> laOwner args)"
  by (induction lris arbitrary: i) auto

lemma filter_remove_nth:
  "i < length xs \<Longrightarrow> length (filter P (take i xs @ drop (Suc i) xs)) + of_bool (P (xs ! i)) = length (filter P xs)"
proof (induction xs arbitrary: i)
  case (Cons x xs)
  then show ?case by (cases i) auto
qed simp

lemma removeEntry_holds:
  assumes "lri_of l name = Some lris"
  shows "holds l r u w \<le> holds (snd (removeEntry name args lris l)) r u w + of_bool (r = name \<and> u = laUID args)"
proof (cases "find_entry args 0 lris")
  case None
  then show ?thesis by (simp add: removeEntry_def)
next
  case (Some p)
  then obtain j e where p: "find_entry args 0 lris = Some (j, e)" by (cases p) auto
  note f = find_entry_Some [OF p, simplified]
  have "length (filter P lris) \<le> length (filter P (take j lris @ drop (Suc j) lris)) + of_bool (P e)" for P
    using filter_remove_nth [of j lris P] f by auto
  from this [of "\<lambda>lri. lrUID lri = u \<and> lrWriter lri = w"] f p assms show ?thesis
    by (auto simp: removeEntry_def holds_def length_Suc_conv of_bool_def split: option.splits if_splits)
qed

lemma removeEntry_ok:
  assumes ok: "ll_ok l" and lris: "lri_of l name = Some lris"
  shows "ll_ok (snd (removeEntry name args lris l))"
proof (cases "find_entry args 0 lris")
  case (Some p)
  then obtain j e where p: "find_entry args 0 lris = Some (j, e)" by (cases p) auto
  have j: "j < length lris" using find_entry_Some [OF p] by simp
  have l: "lri_ok name lris" using ok lris by (simp add: ll_ok_def)
  have "lri_ok name (take j lris @ drop (Suc j) lris)" if "length lris \<noteq> 1"
  proof -
    have "length lris > 1" "\<not> list_ex lrWriter lris" using l j that by (auto simp: lri_ok_def)
    then show ?thesis using l j by (auto simp: lri_ok_def list_all_iff list_ex_iff dest!: in_set_takeD in_set_dropD)
  qed
  then show ?thesis using ok p by (auto simp: removeEntry_def intro: ll_ok_set ll_ok_delete)
qed (use ok in \<open>simp add: removeEntry_def\<close>)

lemma holds_other: "lri_of l' r = lri_of l r \<Longrightarrow> holds l' r u w = holds l r u w"
  by (simp add: holds_def)

lemma holds_exclusive:
  assumes ok: "ll_ok l" and w: "0 < holds l r u True"
  shows "holds l r u True = 1 \<and> holds l r v False = 0 \<and> (0 < holds l r v True \<longrightarrow> v = u)"
proof -
  obtain lris where lris: "lri_of l r = Some lris" "filter (\<lambda>lri. lrUID lri = u \<and> lrWriter lri = True) lris \<noteq> []"
    using w by (auto simp: holds_def split: option.splits)
  then obtain x where x: "x \<in> set lris" "lrUID x = u" "lrWriter x" by (auto simp: filter_empty_conv)
  have "lri_ok r lris" using ok lris by (simp add: ll_ok_def)
  then have "lris = [x]" using x by (auto simp: lri_ok_def list_ex_iff length_Suc_conv)
  then show ?thesis using lris(1) x by (auto simp: holds_def)
qed

lemma holds_write_le: "ll_ok l \<Longrightarrow> holds l r u True \<le> 1"
  using holds_exclusive [of l r u] by (cases "holds l r u True") auto

lemma lri_ok_writer: "lri_ok k lris \<Longrightarrow> list_ex lrWriter lris \<longleftrightarrow> isWriteLock lris"
  by (cases lris; cases "tl lris") (simp_all add: lri_ok_def isWriteLock_def)

lemma no_writer_holds:
  assumes ok: "ll_ok l" and lris: "lri_of l r = Some lris" "\<not> isWriteLock lris"
  shows "holds l r u True = 0"
proof -
  have "lri_ok r lris" using ok lris by (simp add: ll_ok_def)
  then have "\<not> list_ex lrWriter lris" using lris(2) lri_ok_writer by blast
  then have "\<forall>x \<in> set lris. \<not> lrWriter x" by (simp add: list_ex_iff)
  then show ?thesis using lris(1) by (simp add: holds_def)
qed

lemma claim_holds: "r \<in> set rs \<Longrightarrow> holds (claim now args i rs l) r u w = of_bool (w \<and> u = laUID args)"
  by (cases w; cases "u = laUID args") (simp_all add: holds_def claim_lri)

lemma ll_Lock_law:
  assumes ok: "ll_ok l" and lk: "ll_Lock now args l = ((b, e), l')"
  shows "ll_ok l'" "holds l r u w + of_bool (b \<and> w \<and> u = laUID args \<and> r \<in> set (laResources args)) \<le> holds l' r u w"
proof -
  consider "\<not> b" "l' = l" | "b" "canTakeLock (laResources args) l" "l' = claim now args 0 (laResources args) l"
    using lk by (cases "length (laResources args) > maxDeleteList"; cases "canTakeLock (laResources args) l") (simp_all add: ll_Lock_def)
  then have "ll_ok l' \<and> holds l r u w + of_bool (b \<and> w \<and> u = laUID args \<and> r \<in> set (laResources args)) \<le> holds l' r u w"
  proof cases
    case 2
    show ?thesis
    proof (cases "r \<in> set (laResources args)")
      case True
      then have "holds l r u w = 0" using 2(2) by (simp add: holds_def canTakeLock_def list_all_iff)
      moreover have "holds l' r u w = of_bool (w \<and> u = laUID args)" using True 2(3) claim_holds by simp
      ultimately show ?thesis using claim_ok [OF ok] 2(3) by simp
    next
      case False
      then show ?thesis using 2 claim_ok [OF ok] by (simp add: holds_def claim_lri)
    qed
  qed (use ok in auto)
  then show "ll_ok l'" "holds l r u w + of_bool (b \<and> w \<and> u = laUID args \<and> r \<in> set (laResources args)) \<le> holds l' r u w"
    by simp_all
qed

lemma unlock_loop_law:
  "ll_ok l \<Longrightarrow> unlock_loop args rs be l = (be', l') \<Longrightarrow>
   ll_ok l' \<and> holds l r u w \<le> holds l' r u w + of_bool (w \<and> u = laUID args \<and> r \<in> set rs)"
proof (induction args rs be l rule: unlock_loop.induct)
  case (2 args resource rs reply err l)
  show ?case
  proof (cases "canTakeUnlock [resource] l")
    case False
    then have "ll_ok l'" "holds l r u w \<le> holds l' r u w + of_bool (w \<and> u = laUID args \<and> r \<in> set rs)" using 2 by simp_all
    then show ?thesis by (auto simp: of_bool_def split: if_splits)
  next
    case True
    then obtain lri where lri: "lri_of l resource = Some lri" "isWriteLock lri"
      by (auto simp: canTakeUnlock_def isWriteLock_def split: option.splits)
    obtain removed l1 where l1: "removeEntry resource args lri l = (removed, l1)" by fastforce
    have ok1: "ll_ok l1" using removeEntry_ok [OF 2(4) lri(1), of args] l1 by simp
    have rest: "ll_ok l'" "holds l1 r u w \<le> holds l' r u w + of_bool (w \<and> u = laUID args \<and> r \<in> set rs)"
      using 2 True lri l1 ok1 by simp_all
    have step: "holds l r u w \<le> holds l1 r u w + of_bool (r = resource \<and> u = laUID args)"
      using removeEntry_holds [OF lri(1), of r u w args] l1 by simp
    have "holds l resource u False = 0"
      using lri by (cases lri) (auto simp: holds_def isWriteLock_def)
    then have step': "holds l r u w \<le> holds l1 r u w + of_bool (w \<and> r = resource \<and> u = laUID args)"
      using step by (cases w; cases "r = resource") auto
    have "holds l r u True \<le> 1" using holds_write_le [OF 2(4)] .
    then show ?thesis using rest step' by (cases w; cases "u = laUID args"; cases "r = resource"; cases "r \<in> set rs") auto
  qed
qed simp

lemma ll_Unlock_law:
  assumes ok: "ll_ok l" and un: "ll_Unlock args l = (be, l')"
  shows "ll_ok l'" "holds l r u w \<le> holds l' r u w + of_bool (w \<and> u = laUID args \<and> r \<in> set (laResources args))"
  using un ok unlock_loop_law [OF ok, of args "laResources args" "(False, None)" be l' r u w]
  by (auto simp: ll_Unlock_def split: if_splits)

lemma holds_append:
  "holds (set_lri r (lris @ [x]) l) r u w = length (filter (\<lambda>lri. lrUID lri = u \<and> lrWriter lri = w) lris) + of_bool (lrUID x = u \<and> lrWriter x = w)"
  by (simp add: holds_def)

lemma ll_RLock_law:
  assumes ok: "ll_ok l" and lk: "ll_RLock now args l = Some ((b, e), l')"
  shows "ll_ok l'" "holds l r u w + of_bool (b \<and> \<not> w \<and> u = laUID args \<and> r \<in> set (laResources args)) \<le> holds l' r u w"
proof -
  consider "\<not> b" "l' = l"
    | k lri where "b" "laResources args = [k]" "case lri_of l k of None \<Rightarrow> lri = [] | Some x \<Rightarrow> lri = x \<and> \<not> isWriteLock x"
        "l' = set_uid (formatUUID (laUID args) 0) k (set_lri k (lri @ [requester now args k False False 0]) l)"
    using lk by (cases "laResources args") (force simp: ll_RLock_def Let_def split: if_splits option.splits)+
  then have "ll_ok l' \<and> holds l r u w + of_bool (b \<and> \<not> w \<and> u = laUID args \<and> r \<in> set (laResources args)) \<le> holds l' r u w"
  proof cases
    case (2 k lri)
    have nw: "lri = [] \<or> lri_ok k lri \<and> \<not> list_ex lrWriter lri"
    proof (cases "lri_of l k")
      case (Some x)
      then have "lri_ok k lri" "\<not> isWriteLock lri" using 2 ok by (auto simp: ll_ok_def)
      then show ?thesis using lri_ok_writer by simp
    qed (use 2 in simp)
    then have "lri_ok k (lri @ [requester now args k False False 0])" by (auto simp: lri_ok_def)
    then have ok': "ll_ok l'" using 2(4) ok by (simp add: ll_ok_set)
    have "holds l' r u w = (if r = k then length (filter (\<lambda>lri. lrUID lri = u \<and> lrWriter lri = w) lri) + of_bool (laUID args = u \<and> \<not> w) else holds l r u w)"
      using 2(4) by (auto simp: holds_def)
    moreover have "holds l k u w = length (filter (\<lambda>lri. lrUID lri = u \<and> lrWriter lri = w) lri)"
      using 2(3) by (auto simp: holds_def split: option.splits)
    ultimately show ?thesis using 2(2) ok' by auto
  qed (use ok in auto)
  then show "ll_ok l'" "holds l r u w + of_bool (b \<and> \<not> w \<and> u = laUID args \<and> r \<in> set (laResources args)) \<le> holds l' r u w"
    by simp_all
qed

lemma ll_RUnlock_law:
  assumes ok: "ll_ok l" and un: "ll_RUnlock args l = Some (be, l')"
  shows "ll_ok l'" "holds l r u w \<le> holds l' r u w + of_bool (\<not> w \<and> u = laUID args \<and> r \<in> set (laResources args))"
proof -
  consider "l' = l"
    | k lri where "laResources args = [k]" "lri_of l k = Some lri" "\<not> isWriteLock lri" "l' = snd (removeEntry k args lri l)"
    using un by (cases "laResources args") (force simp: ll_RUnlock_def Let_def split: if_splits option.splits)+
  then have "ll_ok l' \<and> holds l r u w \<le> holds l' r u w + of_bool (\<not> w \<and> u = laUID args \<and> r \<in> set (laResources args))"
  proof cases
    case (2 k lri)
    then show ?thesis using removeEntry_ok [OF ok 2(2)] removeEntry_holds [OF 2(2), of r u w args] no_writer_holds [OF ok 2(2,3)]
      by (cases w; cases "r = k") auto
  qed (use ok in auto)
  then show "ll_ok l'" "holds l r u w \<le> holds l' r u w + of_bool (\<not> w \<and> u = laUID args \<and> r \<in> set (laResources args))"
    by simp_all
qed

section \<open>Expiry and the live locks\<close>

lemma find_old_Some: "find_old now interval t lris = (Some x, t') \<Longrightarrow> x \<in> set lris"
  by (induction lris arbitrary: t) (auto split: if_splits)

lemma find_old_None:
  "find_old now interval t lris = (None, t') \<Longrightarrow>
     t' = t + length lris \<and> (\<forall>j<length lris. now (t + j) - lrTimeLastRefresh (lris ! j) \<le> interval)"
proof (induction lris arbitrary: t)
  case (Cons x xs)
  then have "now t - lrTimeLastRefresh x \<le> interval" and rest: "find_old now interval (Suc t) xs = (None, t')"
    by (auto split: if_splits)
  moreover note Cons.IH [OF rest]
  ultimately show ?case by (auto simp: nth_Cons split: nat.splits)
qed simp

lemma find_old_fresh:
  "\<forall>j<length lris. now (t + j) - lrTimeLastRefresh (lris ! j) \<le> interval \<Longrightarrow> find_old now interval t lris = (None, t + length lris)"
proof (induction lris arbitrary: t)
  case (Cons x xs)
  have "now t - lrTimeLastRefresh x \<le> interval" using Cons.prems [rule_format, of 0] by simp
  moreover have "\<forall>j<length xs. now (Suc t + j) - lrTimeLastRefresh (xs ! j) \<le> interval"
    using Cons.prems [rule_format, of "Suc _"] by auto
  ultimately show ?case using Cons.IH [of "Suc t"] by simp
qed simp

abbreviation old_args :: "lockRequesterInfo \<Rightarrow> LockArgs" where
  "old_args lri \<equiv> (uid_args (lrUID lri))\<lparr>laOwner := lrOwner lri\<rparr>"

text \<open>Removing an old lock removes one entry with its id.\<close>

lemma remove_old:
  assumes lri: "lri \<in> set lris"
  obtains j where "j < length lris" "lrUID (lris ! j) = lrUID lri"
    "lri_of (snd (removeEntry k (old_args lri) lris l)) k =
       (if length lris = 1 then None else Some (take j lris @ drop (Suc j) lris))"
proof -
  have "find_entry (old_args lri) 0 lris \<noteq> None"
    using lri by (auto simp: find_entry_None uid_args_def)
  then obtain j e where je: "find_entry (old_args lri) 0 lris = Some (j, e)" by auto
  from find_entry_Some [OF je] have "j < length lris" "lris ! j = e" "lrUID e = lrUID lri" by (simp_all add: uid_args_def)
  moreover have "lri_of (snd (removeEntry k (old_args lri) lris l)) k =
       (if length lris = 1 then None else Some (take j lris @ drop (Suc j) lris))"
    using je by (simp add: removeEntry_def)
  ultimately show thesis using that by simp
qed

text \<open>Once a lock has been removed, the loop ends only when no lock of the resource is left; since time passes,
  that happens.\<close>

lemma expire_resource_all:
  assumes "mono now" "\<forall>T. \<exists>t. T < now t"
    and "lri_of l k = Some lris" "lris \<noteq> []" "\<forall>x \<in> set lris. lrName x = k"
  shows "\<exists>l'. expire_resource now interval k t True l = Some l' \<and> lri_of l' k = None"
  using assms(3-5)
proof (induction "length lris" arbitrary: lris l t rule: less_induct)
  case less
  obtain t0 where t0: "interval + lrTimeLastRefresh (hd lris) < now t0" using assms(2) by blast
  show ?case
  proof (induction "t0 - t" arbitrary: t rule: less_induct)
    case (less t)
    note len = \<open>lri_of l k = Some lris\<close> \<open>lris \<noteq> []\<close> \<open>\<forall>x \<in> set lris. lrName x = k\<close>
    obtain o1 t1 where fo: "find_old now interval t lris = (o1, t1)" by (cases "find_old now interval t lris")
    show ?case
    proof (cases o1)
      case None
      have t1: "t1 = t + length lris" "now t - lrTimeLastRefresh (hd lris) \<le> interval"
        using find_old_None [OF fo [unfolded None]] len(2) by (auto simp: hd_conv_nth)
      have "t < t0"
      proof (rule ccontr)
        assume "\<not> t < t0"
        then have "now t0 \<le> now t" using assms(1) by (simp add: monoD)
        then show False using t0 t1(2) by linarith
      qed
      then have "t0 - t1 < t0 - t" using t1(1) len(2) by (cases lris) auto
      from less.hyps [OF this] show ?thesis
        using len(1) fo None by (simp add: expire_resource.simps [of now interval k t])
    next
      case (Some x)
      let ?l = "snd (removeEntry k (old_args x) lris l)"
      have x: "x \<in> set lris" "lrName x = k" using find_old_Some [OF fo [unfolded Some]] len(3) by auto
      then have eq: "expire_resource now interval k t True l = expire_resource now interval k t1 True ?l"
        using len(1) fo Some by (simp add: expire_resource.simps [of now interval k t])
      obtain j where j: "j < length lris" "lri_of ?l k = (if length lris = 1 then None else Some (take j lris @ drop (Suc j) lris))"
        using remove_old [OF x(1)] by metis
      show ?thesis
      proof (cases "length lris = 1")
        case True
        then have "expire_resource now interval k t1 True ?l = Some ?l" using j(2) by (simp add: expire_resource.simps)
        then show ?thesis using eq j(2) True by simp
      next
        case False
        let ?ys = "take j lris @ drop (Suc j) lris"
        have "length ?ys < length lris" "?ys \<noteq> []" using j(1) False by (auto simp: not_le)
        moreover have "\<forall>x \<in> set ?ys. lrName x = k"
          using len(3) set_take_subset [of j lris] set_drop_subset [of "Suc j" lris] by (metis UnE in_mono set_append)
        moreover have "lri_of ?l k = Some ?ys" using j(2) False by simp
        ultimately show ?thesis unfolding eq using \<open>\<And>lris' l t. \<lbrakk>length lris' < length lris; lri_of l k = Some lris'; lris' \<noteq> []; \<forall>x \<in> set lris'. lrName x = k\<rbrakk>
          \<Longrightarrow> \<exists>l'. expire_resource now interval k t True l = Some l' \<and> lri_of l' k = None\<close> by blast
      qed
    qed
  qed
qed

section \<open>The interface\<close>

text \<open>What the distributed lock relies on: \<open>ask\<close> is \<open>RLock\<close> or \<open>Lock\<close>, \<open>give\<close> is \<open>RUnlock\<close> or \<open>Unlock\<close>. A granted
  request adds a lock of its id, no operation takes away more than one lock of its own id, and a
  write lock stands alone.\<close>

locale net_locker =
  fixes ask :: "bool \<Rightarrow> int \<Rightarrow> LockArgs \<Rightarrow> 's \<Rightarrow> bool \<times> 's"
    and give :: "bool \<Rightarrow> LockArgs \<Rightarrow> 's \<Rightarrow> bool \<times> 's"
    and held :: "'s \<Rightarrow> string \<Rightarrow> string \<Rightarrow> bool \<Rightarrow> nat"
    and ok :: "'s \<Rightarrow> bool"
  assumes ask_ok: "ok s \<Longrightarrow> ok (snd (ask rd now args s))"
    and ask_held: "ok s \<Longrightarrow> held s r u w + of_bool (fst (ask rd now args s) \<and> w = (\<not> rd) \<and> u = laUID args \<and> r \<in> set (laResources args))
      \<le> held (snd (ask rd now args s)) r u w"
    and give_ok: "ok s \<Longrightarrow> ok (snd (give rd args s))"
    and give_held: "ok s \<Longrightarrow> held s r u w \<le> held (snd (give rd args s)) r u w +
      of_bool (w = (\<not> rd) \<and> u = laUID args \<and> r \<in> set (laResources args))"
    and alone: "ok s \<Longrightarrow> 0 < held s r u True \<Longrightarrow>
      held s r u True = 1 \<and> held s r v False = 0 \<and> (0 < held s r v True \<longrightarrow> v = u)"
begin

lemma conflict:
  assumes "ok s" "0 < held s r u w" "0 < held s r v w'" "w \<or> w'"
  shows "w \<and> w' \<and> u = v \<and> held s r u w = 1"
proof -
  have "w \<Longrightarrow> w'" using alone [OF assms(1), of r u v] assms(2,3) by (cases w'; cases w) auto
  moreover have "w' \<Longrightarrow> w" using alone [OF assms(1), of r v u] assms(2,3) by (cases w'; cases w) auto
  ultimately have w: "w" "w'" using assms(4) by auto
  then show ?thesis using alone [OF assms(1), of r u v] assms(2,3) by auto
qed

end

definition ll_ask :: "bool \<Rightarrow> int \<Rightarrow> LockArgs \<Rightarrow> localLocker \<Rightarrow> bool \<times> localLocker" where
  "ll_ask rd now args l =
     (if rd then (case ll_RLock now args l of None \<Rightarrow> (False, l) | Some ((locked, err), l') \<Rightarrow> (locked, l'))
      else (case ll_Lock now args l of ((locked, err), l') \<Rightarrow> (locked, l')))"

definition ll_give :: "bool \<Rightarrow> LockArgs \<Rightarrow> localLocker \<Rightarrow> bool \<times> localLocker" where
  "ll_give rd args l =
     (if rd then (case ll_RUnlock args l of None \<Rightarrow> (False, l) | Some ((reply, err), l') \<Rightarrow> (err = None, l'))
      else (case ll_Unlock args l of ((reply, err), l') \<Rightarrow> (err = None, l')))"

lemma ll_ask_cases:
  assumes "ll_ok l"
  shows "ll_ok (snd (ll_ask rd now args l)) \<and>
    holds l r u w + of_bool (fst (ll_ask rd now args l) \<and> w = (\<not> rd) \<and> u = laUID args \<and> r \<in> set (laResources args))
      \<le> holds (snd (ll_ask rd now args l)) r u w"
proof (cases rd)
  case True
  show ?thesis
  proof (cases "ll_RLock now args l")
    case (Some x)
    then obtain b e l' where x: "ll_RLock now args l = Some ((b, e), l')" by (cases x) auto
    show ?thesis using ll_RLock_law [OF assms x] True x by (simp add: ll_ask_def)
  qed (use assms True in \<open>simp add: ll_ask_def\<close>)
next
  case False
  obtain b e l' where x: "ll_Lock now args l = ((b, e), l')" by (metis surj_pair)
  show ?thesis using ll_Lock_law [OF assms x] False x by (simp add: ll_ask_def)
qed

lemma ll_give_cases:
  assumes "ll_ok l"
  shows "ll_ok (snd (ll_give rd args l)) \<and>
    holds l r u w \<le> holds (snd (ll_give rd args l)) r u w + of_bool (w = (\<not> rd) \<and> u = laUID args \<and> r \<in> set (laResources args))"
proof (cases rd)
  case True
  show ?thesis
  proof (cases "ll_RUnlock args l")
    case (Some x)
    then obtain b e l' where x: "ll_RUnlock args l = Some ((b, e), l')" by (cases x) auto
    show ?thesis using ll_RUnlock_law [OF assms x] True x by (simp add: ll_give_def)
  qed (use assms True in \<open>simp add: ll_give_def\<close>)
next
  case False
  obtain b e l' where x: "ll_Unlock args l = ((b, e), l')" by (metis surj_pair)
  show ?thesis using ll_Unlock_law [OF assms x] False x by (simp add: ll_give_def)
qed

interpretation local_node: net_locker ll_ask ll_give holds ll_ok
  by unfold_locales (use ll_ask_cases ll_give_cases holds_exclusive in blast)+

section \<open>Every operation keeps the invariant\<close>

lemma drop_uuids_lri [simp]: "lri_of (drop_uuids uid idx k l) r = lri_of l r"
  by (induction uid idx k l rule: drop_uuids.induct) auto

lemma drop_uuids_ok: "ll_ok l \<Longrightarrow> ll_ok (drop_uuids uid idx k l)"
  by (simp add: ll_ok_def)

lemma force_uids_ok: "ll_ok l \<Longrightarrow> ll_ok (force_uids resource uids l)"
proof (induction uids arbitrary: l)
  case (Cons uid uids)
  have "ll_ok (case lri_of l resource of None \<Rightarrow> drop_uuids uid 0 maxDeleteList l
      | Some lris \<Rightarrow> snd (removeEntry resource (uid_args uid) lris l))"
    using removeEntry_ok [OF Cons.prems] drop_uuids_ok [OF Cons.prems] by (auto split: option.splits)
  then show ?case using Cons.IH by simp
qed simp

lemma force_resources_ok: "ll_ok l \<Longrightarrow> ll_ok (force_resources rs l)"
proof (induction rs arbitrary: l)
  case (Cons resource rs)
  have "ll_ok (case lri_of l resource of None \<Rightarrow> l | Some lris \<Rightarrow> force_uids resource (map lrUID lris) l)"
    using force_uids_ok [OF Cons.prems] Cons.prems by (auto split: option.splits)
  then show ?case using Cons.IH by simp
qed simp

lemma force_id_ok: "ll_ok l \<Longrightarrow> ll_ok (snd (force_id uid idx l))"
proof (induction uid idx l rule: force_id.induct)
  case (1 uid idx l)
  show ?case using 1 removeEntry_ok [OF 1(3)]
    by (simp add: force_id.simps [of uid idx l] split: option.splits)
qed

lemma ForceUnlock_ok: "ll_ok l \<Longrightarrow> ll_ok (snd (ll_ForceUnlock cancelled args l))"
  using force_resources_ok force_id_ok [of l "laUID args" 0]
  by (cases "force_id (laUID args) 0 l") (simp add: ll_ForceUnlock_def)

lemma refresh_uid_ok: "lri_ok k lris \<Longrightarrow> lri_ok k (refresh_uid now uid lris)"
  by (auto simp: lri_ok_def refresh_uid_def list_all_iff list_ex_iff)

lemma refresh_loop_ok: "ll_ok l \<Longrightarrow> ll_ok (snd (refresh_loop now uid idx resource l))"
proof (induction now uid idx resource l rule: refresh_loop.induct)
  case (1 now uid idx resource l)
  show ?case
  proof (cases "lri_of l resource")
    case None
    then show ?thesis using 1(2) by (simp add: refresh_loop.simps [of now uid idx resource l])
  next
    case (Some lris)
    then have "ll_ok (set_lri resource (refresh_uid now uid lris) l)"
      using 1(2) refresh_uid_ok by (intro ll_ok_set) (auto simp: ll_ok_def)
    then show ?thesis using 1(1) [OF Some refl] Some
      by (simp add: refresh_loop.simps [of now uid idx resource l] Let_def split: option.splits)
  qed
qed

lemma Refresh_ok: "ll_ok l \<Longrightarrow> ll_ok (snd (ll_Refresh now cancelled args l))"
  using refresh_loop_ok by (auto simp: ll_Refresh_def split: option.splits prod.splits) (metis snd_conv)

lemma expire_resource_ok:
  assumes "expire_resource now interval k i found l = Some l'" "ll_ok l"
  shows "ll_ok l'"
  using assms
proof (induction rule: expire_resource.raw_induct [rotated, consumes 1])
  case (1 f now interval k i found l l')
  show ?case
  proof (cases "lri_of l k")
    case (Some lris)
    show ?thesis
    proof (cases "fst (find_old now interval i lris)")
      case None
      then show ?thesis using 1 Some by (auto split: if_splits prod.splits)
    next
      case (Some lri)
      have "lrName lri = k" using 1(3) Some \<open>lri_of l k = Some lris\<close> find_old_Some [of now interval i lris lri]
        by (auto simp: ll_ok_def lri_ok_def list_all_iff) (metis prod.collapse)
      then have "ll_ok (snd (removeEntry (lrName lri) (old_args lri) lris l))"
        using removeEntry_ok [OF 1(3)] \<open>lri_of l k = Some lris\<close> by simp
      then show ?thesis using 1(1,2) Some \<open>lri_of l k = Some lris\<close> by (auto split: prod.splits)
    qed
  qed (use 1 in simp)
qed

lemma expire_all_ok: "expire_all now interval ks l = Some l' \<Longrightarrow> ll_ok l \<Longrightarrow> ll_ok l'"
  by (induction ks arbitrary: l) (auto split: option.splits dest: expire_resource_ok)

section \<open>Properties\<close>

lemma unlock_loop_claimed:
  assumes "distinct rs" "\<forall>r \<in> set rs. \<exists>g i. lri_of l r = Some [requester now args r True g i]"
  shows "\<exists>l'. unlock_loop args rs (b, None) l = ((b \<or> rs \<noteq> [], None), l') \<and>
    (\<forall>r. lri_of l' r = (if r \<in> set rs then None else lri_of l r))"
  using assms
proof (induction rs arbitrary: b l)
  case (Cons r rs)
  obtain g i where e: "lri_of l r = Some [requester now args r True g i]" using Cons.prems(2) by auto
  obtain l1 where l1: "removeEntry r args [requester now args r True g i] l = (True, l1)"
    "\<forall>x. lri_of l1 x = (if x = r then None else lri_of l x)" by (simp add: removeEntry_def)
  have "unlock_loop args (r # rs) (b, None) l = unlock_loop args rs (True, None) l1"
    using e l1(1) by (simp add: canTakeUnlock_def isWriteLock_def)
  moreover have "\<forall>x \<in> set rs. \<exists>g i. lri_of l1 x = Some [requester now args x True g i]"
    using Cons.prems l1(2) by auto
  ultimately show ?case using Cons.IH [of l1 True] Cons.prems(1) l1(2) by auto
qed simp

text \<open>
  C25. The lock server stays well-formed. Every operation of it, granted or refused, with or without an
  error, keeps the invariant that each entry of the lock map is a single writer or some readers, all
  of them for that resource; so does an expiry run that ends.
\<close>

theorem local_locker_wellformed:
  assumes "ll_ok l"
  shows "ll_ok (snd (ll_Lock now args l)) \<and> ll_ok (snd (ll_Unlock args l)) \<and>
    (\<forall>res. ll_RLock now args l = Some res \<longrightarrow> ll_ok (snd res)) \<and> (\<forall>res. ll_RUnlock args l = Some res \<longrightarrow> ll_ok (snd res)) \<and>
    ll_ok (snd (ll_ForceUnlock cancelled args l)) \<and> ll_ok (snd (ll_Refresh now cancelled args l)) \<and>
    (\<forall>l'. expireOldLocks clock interval l = Some l' \<longrightarrow> ll_ok l')"
proof (intro conjI allI impI)
  show "ll_ok (snd (ll_Lock now args l))" using ll_Lock_law(1) [OF assms] by (metis prod.collapse)
  show "ll_ok (snd (ll_Unlock args l))" using ll_Unlock_law(1) [OF assms] by (metis prod.collapse)
  show "ll_ok (snd res)" if "ll_RLock now args l = Some res" for res
    using ll_RLock_law(1) [OF assms, of now args "fst (fst res)" "snd (fst res)" "snd res"] that by simp
  show "ll_ok (snd res)" if "ll_RUnlock args l = Some res" for res
    using ll_RUnlock_law(1) [OF assms, of args "fst res" "snd res"] that by simp
  show "ll_ok l'" if "expireOldLocks clock interval l = Some l'" for l'
    using expire_all_ok that assms by (simp add: expireOldLocks_def)
qed (use ForceUnlock_ok Refresh_ok assms in auto)

definition sample_args :: LockArgs where
  "sample_args = \<lparr>laUID = ''u1'', laResources = [''b/x'', ''b/y''], laSource = ''s'', laOwner = ''o'', laQuorum = 2\<rparr>"

theorem local_locker_wellformed_witness:
  "ll_ok (snd (ll_Lock 0 sample_args newLocker)) \<and> fst (ll_Lock 0 sample_args newLocker) = (True, None)"
proof -
  have "fst (ll_Lock 0 sample_args newLocker) = (True, None)" by code_simp
  then show ?thesis using local_locker_wellformed [OF newLocker_ok(1), of 0 sample_args] by blast
qed

text \<open>
  C26. Locking is all or nothing, and unlocking undoes it: a refused lock changes nothing, and after a
  granted lock of distinct resources every one of them has exactly the entry of the request; unlocking
  with the same arguments succeeds without error and leaves the lock map as it was before.
\<close>

theorem Lock_Unlock_roundtrip:
  assumes lk: "ll_Lock now args l = ((granted, err), l')" and distinct: "distinct (laResources args)"
  shows "(\<not> granted \<longrightarrow> l' = l) \<and>
    (granted \<longrightarrow> (\<forall>r \<in> set (laResources args). lri_of l r = None \<and> (\<exists>g i. lri_of l' r = Some [requester now args r True g i])) \<and>
      (\<exists>l''. ll_Unlock args l' = ((laResources args \<noteq> [], None), l'') \<and> (\<forall>r. lri_of l'' r = lri_of l r)))"
proof (cases "granted")
  case False
  then show ?thesis using lk
    by (cases "length (laResources args) > maxDeleteList"; cases "canTakeLock (laResources args) l") (simp_all add: ll_Lock_def)
next
  case True
  then have h: "\<not> length (laResources args) > maxDeleteList" "canTakeLock (laResources args) l"
    "l' = claim now args 0 (laResources args) l"
    using lk by (cases "length (laResources args) > maxDeleteList"; cases "canTakeLock (laResources args) l"; simp add: ll_Lock_def)+
  have free: "\<forall>r \<in> set (laResources args). lri_of l r = None" using h(2) by (simp add: canTakeLock_def list_all_iff)
  have taken: "\<forall>r \<in> set (laResources args). \<exists>g i. lri_of l' r = Some [requester now args r True g i]"
    unfolding h(3) by (auto simp: claim_lri)
  have rest: "r \<notin> set (laResources args) \<Longrightarrow> lri_of l' r = lri_of l r" for r unfolding h(3) by (simp add: claim_lri)
  obtain l'' where "unlock_loop args (laResources args) (False, None) l' = ((laResources args \<noteq> [], None), l'')"
    "\<forall>r. lri_of l'' r = (if r \<in> set (laResources args) then None else lri_of l' r)"
    using unlock_loop_claimed [OF distinct taken, of False] by auto
  then have "ll_Unlock args l' = ((laResources args \<noteq> [], None), l'')" "\<forall>r. lri_of l'' r = lri_of l r"
    using h(1) free rest by (auto simp: ll_Unlock_def)
  then show ?thesis using True free taken by blast
qed

theorem Lock_Unlock_roundtrip_witness:
  "fst (ll_Unlock sample_args (snd (ll_Lock 0 sample_args newLocker))) = (True, None)"
proof -
  have lk: "ll_Lock 0 sample_args newLocker = ((True, None), snd (ll_Lock 0 sample_args newLocker))"
  proof -
    have "fst (ll_Lock 0 sample_args newLocker) = (True, None)" by code_simp
    then show ?thesis by (metis prod.collapse)
  qed
  have d: "distinct (laResources sample_args)" "laResources sample_args \<noteq> []" by code_simp+
  show ?thesis using Lock_Unlock_roundtrip [OF lk d(1)] d(2) by auto
qed

text \<open>
  C40. Expiry of the locks of one resource, while time passes and no lock is refreshed because the
  server's mutex is held. The loop ends. If no lock is old when it is tested, nothing changes. But as
  soon as one is old, no lock of the resource is left in the end: the loop goes on until also those
  that were fresh have become old, because the mark that something was removed is never reset.
\<close>

theorem expire_takes_fresh:
  assumes ok: "ll_ok l" and lris: "lri_of l k = Some lris" and clock: "mono now" "\<forall>T. \<exists>t. T < now t"
  shows "\<exists>l'. expire_resource now interval k 0 False l = Some l' \<and>
    (if \<forall>j<length lris. now j - lrTimeLastRefresh (lris ! j) \<le> interval then l' = l else lri_of l' k = None)"
proof -
  have wf: "lris \<noteq> []" "\<forall>x \<in> set lris. lrName x = k" using ok lris by (auto simp: ll_ok_def lri_ok_def list_all_iff)
  obtain o1 t1 where fo: "find_old now interval 0 lris = (o1, t1)" by (cases "find_old now interval 0 lris")
  show ?thesis
  proof (cases o1)
    case None
    then have "\<forall>j<length lris. now j - lrTimeLastRefresh (lris ! j) \<le> interval" using find_old_None [of now interval 0 lris t1] fo by simp
    then show ?thesis using lris fo None by (simp add: expire_resource.simps)
  next
    case (Some x)
    let ?l = "snd (removeEntry k (old_args x) lris l)"
    have x: "x \<in> set lris" "lrName x = k" using find_old_Some [OF fo [unfolded Some]] wf(2) by auto
    have some_old: "\<not> (\<forall>j<length lris. now j - lrTimeLastRefresh (lris ! j) \<le> interval)"
      using find_old_fresh [of lris now 0 interval] fo Some by auto
    have eq: "expire_resource now interval k 0 False l = expire_resource now interval k t1 True ?l"
      using lris fo Some x(2) by (simp add: expire_resource.simps [of now interval k 0])
    obtain j where j: "j < length lris" "lri_of ?l k = (if length lris = 1 then None else Some (take j lris @ drop (Suc j) lris))"
      using remove_old [OF x(1)] by metis
    have "\<exists>l'. expire_resource now interval k t1 True ?l = Some l' \<and> lri_of l' k = None"
    proof (cases "length lris = 1")
      case True
      then show ?thesis using j(2) by (simp add: expire_resource.simps)
    next
      case False
      have "take j lris @ drop (Suc j) lris \<noteq> []" using j(1) False by (auto simp: not_le)
      moreover have "\<forall>x \<in> set (take j lris @ drop (Suc j) lris). lrName x = k"
        using wf(2) set_take_subset [of j lris] set_drop_subset [of "Suc j" lris] by (metis UnE in_mono set_append)
      ultimately show ?thesis using expire_resource_all [OF clock, of ?l k] j(2) False by simp
    qed
    then show ?thesis using eq some_old by auto
  qed
qed

definition sample_readers :: localLocker where
  "sample_readers = \<lparr>llMap = [(''b/x'', [requester 0 (sample_args\<lparr>laUID := ''u1''\<rparr>) ''b/x'' False False 0,
     requester 100 (sample_args\<lparr>laUID := ''u2''\<rparr>) ''b/x'' False False 0])], llUID = []\<rparr>"

theorem expire_takes_fresh_witness:
  "110 - lrTimeLastRefresh (requester 100 (sample_args\<lparr>laUID := ''u2''\<rparr>) ''b/x'' False False 0) \<le> 60 \<and>
   (\<exists>l'. expire_resource (\<lambda>t. 110 + int t) 60 ''b/x'' 0 False sample_readers = Some l' \<and> lri_of l' ''b/x'' = None)"
proof -
  let ?a = "requester 0 (sample_args\<lparr>laUID := ''u1''\<rparr>) ''b/x'' False False 0"
  let ?b = "requester 100 (sample_args\<lparr>laUID := ''u2''\<rparr>) ''b/x'' False False 0"
  have l: "lri_of sample_readers ''b/x'' = Some [?a, ?b]" by (simp add: sample_readers_def)
  have ok: "ll_ok sample_readers" by (simp add: ll_ok_def sample_readers_def lri_ok_def)
  have "T < 110 + int (nat T)" for T by linarith
  then have "\<forall>T. \<exists>t. T < 110 + int t" by blast
  moreover have "mono (\<lambda>t. 110 + int t)" by (simp add: mono_def)
  ultimately have clock: "mono (\<lambda>t. 110 + int t)" "\<forall>T. \<exists>t. T < 110 + int t" by simp_all
  define fresh where "fresh \<longleftrightarrow> (\<forall>j<length [?a, ?b]. 110 + int j - lrTimeLastRefresh ([?a, ?b] ! j) \<le> 60)"
  have "\<not> fresh" unfolding fresh_def by (auto simp: requester_def intro!: exI [of _ 0])
  then have "\<exists>l'. expire_resource (\<lambda>t. 110 + int t) 60 ''b/x'' 0 False sample_readers = Some l' \<and> lri_of l' ''b/x'' = None"
    using expire_takes_fresh [OF ok l clock, of 60] unfolding fresh_def [symmetric] by simp
  then show ?thesis by (simp add: requester_def)
qed

end
