(* ===== verification/Dynamic_Timeout.thy ===== *)
theory Dynamic_Timeout
  imports Prelude
begin

text \<open>
  The timeouts of the namespace locks (\<open>cmd/dynamic-timeouts.go\<close>): a log of sixteen durations after
  which the timeout is adjusted. Durations are nanoseconds in 64 bits, with Go's wrap-around and
  division. The fractions 0.33 and 0.10 are compared as integers: a count of failures out of sixteen is
  exact in floating point.
\<close>

section \<open>The timeout\<close>

definition dynamicTimeoutLogSize :: nat where "dynamicTimeoutLogSize = 16"
definition maxDuration :: int where "maxDuration = 2 ^ 63 - 1"
definition maxDynamicTimeout :: int where "maxDynamicTimeout = 24 * 3600 * 1000000000"

record dynamicTimeout =
  dtTimeout :: int
  dtMinimum :: int
  dtEntries :: int
  dtLog :: "int list"

text \<open>\<open>None\<close> is the panic on a timeout that is not positive.\<close>

definition newDynamicTimeout :: "int \<Rightarrow> int \<Rightarrow> dynamicTimeout option" where
  "newDynamicTimeout timeout minimum =
     (if timeout \<le> 0 \<or> minimum \<le> 0 then None
      else Some \<lparr>dtTimeout = timeout, dtMinimum = (if minimum > timeout then timeout else minimum), dtEntries = 0,
                 dtLog = replicate dynamicTimeoutLogSize 0\<rparr>)"

fun scan_log :: "int list \<Rightarrow> int \<Rightarrow> int \<Rightarrow> int \<times> int" where
  "scan_log [] failures longest = (failures, longest)"
| "scan_log (dur # ds) failures longest =
     (if dur = maxDuration then scan_log ds (failures + 1) longest
      else if dur > longest then scan_log ds failures dur
      else scan_log ds failures longest)"

definition adjust :: "int list \<Rightarrow> dynamicTimeout \<Rightarrow> dynamicTimeout" where
  "adjust entries dt =
     (case scan_log entries 0 0 of (failures, longest) \<Rightarrow>
        if 100 * failures > 33 * int (length entries)
        then (let timeout = go_div (wrap64 (dtTimeout dt * 125)) 100;
                  timeout = (if timeout > maxDynamicTimeout then maxDynamicTimeout else timeout);
                  timeout = (if timeout < dtMinimum dt then dtMinimum dt else timeout)
              in dt\<lparr>dtTimeout := timeout\<rparr>)
        else if 100 * failures < 10 * int (length entries)
        then (let longest = go_div (wrap64 (longest * 125)) 100;
                  timeout = dtTimeout dt;
                  timeout = (if longest < timeout then go_div (wrap64 (longest + timeout)) 2 else timeout);
                  timeout = (if timeout < dtMinimum dt then dtMinimum dt else timeout)
              in dt\<lparr>dtTimeout := timeout\<rparr>)
        else dt)"

definition logEntry :: "int \<Rightarrow> dynamicTimeout \<Rightarrow> dynamicTimeout" where
  "logEntry duration dt =
     (if duration < 0 then dt
      else let entries = dtEntries dt + 1; index = entries - 1; dt1 = dt\<lparr>dtEntries := entries\<rparr> in
           if index < int dynamicTimeoutLogSize
           then (let dt2 = dt1\<lparr>dtLog := (dtLog dt)[nat index := duration]\<rparr> in
                 if entries = int dynamicTimeoutLogSize then adjust (dtLog dt2) (dt2\<lparr>dtEntries := 0\<rparr>) else dt2)
           else dt1)"

definition LogSuccess :: "int \<Rightarrow> dynamicTimeout \<Rightarrow> dynamicTimeout" where
  "LogSuccess duration dt = logEntry duration dt"

definition LogFailure :: "dynamicTimeout \<Rightarrow> dynamicTimeout" where
  "LogFailure dt = logEntry maxDuration dt"

definition dt_Timeout :: "dynamicTimeout \<Rightarrow> int" where
  "dt_Timeout dt = dtTimeout dt"

section \<open>Bounds\<close>

definition dt_ok :: "int \<Rightarrow> dynamicTimeout \<Rightarrow> bool" where
  "dt_ok cap dt \<longleftrightarrow> 0 < dtMinimum dt \<and> dtMinimum dt \<le> dtTimeout dt \<and> dtTimeout dt \<le> cap \<and> cap < 2 ^ 63 \<and>
     maxDynamicTimeout \<le> cap \<and>
     length (dtLog dt) = dynamicTimeoutLogSize \<and> 0 \<le> dtEntries dt \<and> dtEntries dt < int dynamicTimeoutLogSize"

lemma go_div_cases: "0 < b \<Longrightarrow> go_div a b = (if 0 \<le> a then a div b else - ((- a) div b))"
  by (simp add: go_div_def sgn_if)

lemma wrap64_over:
  assumes "2 ^ 63 \<le> x" "x < 2 ^ 64"
  shows "wrap64 x = x - 2 ^ 64"
proof -
  have "(x + 2 ^ 63) mod 2 ^ 64 = (x + 2 ^ 63 - 2 ^ 64) mod 2 ^ 64" by (rule minus_mod_self2 [symmetric])
  also have "\<dots> = x + 2 ^ 63 - 2 ^ 64" using assms by (intro mod_pos_pos_trivial) auto
  finally show ?thesis by (simp add: wrap64_def)
qed

lemma go_div_half:
  assumes "x \<le> 2 * y" "0 \<le> y"
  shows "go_div x 2 \<le> y"
  using assms by (auto simp: go_div_cases)

lemma adjust_ok:
  assumes "dt_ok cap dt"
  shows "dt_ok cap (adjust entries dt)"
proof -
  obtain failures longest where s: "scan_log entries 0 0 = (failures, longest)" by fastforce
  let ?l = "go_div (wrap64 (longest * 125)) 100" let ?t = "dtTimeout dt"
  have t: "0 < ?t" "?t \<le> cap" "cap < 2 ^ 63" "dtMinimum dt \<le> cap" "0 < dtMinimum dt" "maxDynamicTimeout \<le> cap"
    using assms by (auto simp: dt_ok_def)
  have "- (2 ^ 63) \<le> wrap64 (longest * 125)" using wrap64_range by blast
  then have l: "- (2 ^ 62) \<le> ?l" by (auto simp: go_div_cases)
  have "go_div (wrap64 (?l + ?t)) 2 \<le> cap" if "?l < ?t"
  proof (cases "?l + ?t < 2 ^ 63")
    case True
    then have "wrap64 (?l + ?t) = ?l + ?t" using l t by simp
    then show ?thesis using that t by (intro go_div_half) auto
  next
    case False
    have "?l + ?t < 2 ^ 64" using that t by auto
    then have "wrap64 (?l + ?t) < 0" using False wrap64_over by simp
    then show ?thesis using t by (intro go_div_half) auto
  qed
  then show ?thesis using assms t s by (auto simp: adjust_def dt_ok_def Let_def)
qed

lemma logEntry_ok: "dt_ok cap dt \<Longrightarrow> dt_ok cap (logEntry duration dt)"
proof -
  assume ok: "dt_ok cap dt"
  then have "dt_ok cap (dt\<lparr>dtLog := (dtLog dt)[i := d], dtEntries := 0\<rparr>)" for i d
    by (simp add: dt_ok_def dynamicTimeoutLogSize_def)
  then show ?thesis using ok adjust_ok
    by (auto simp: logEntry_def Let_def dt_ok_def)
qed

lemma adjust_minimum [simp]: "dtMinimum (adjust entries dt) = dtMinimum dt"
  by (simp add: adjust_def Let_def split: prod.splits)

lemma logEntry_minimum [simp]: "dtMinimum (logEntry d dt) = dtMinimum dt"
  by (simp add: logEntry_def Let_def)

lemma fold_logEntry_minimum: "dtMinimum (fold logEntry ds dt) = dtMinimum dt"
  by (induction ds arbitrary: dt) auto

lemma fold_logEntry_ok: "dt_ok cap dt \<Longrightarrow> dt_ok cap (fold logEntry ds dt)"
  by (induction ds arbitrary: dt) (auto intro: logEntry_ok)

section \<open>Properties\<close>

text \<open>
  Whatever durations and failures are logged, and whatever overflows on the way, the timeout stays
  between the minimum (the initial timeout if that is smaller) and the larger of the initial
  timeout and 24 hours: it is always positive, and a lock is never waited for without bound.
\<close>

theorem dynamic_timeout_bounds:
  assumes new: "newDynamicTimeout timeout minimum = Some dt" and int64: "timeout < 2 ^ 63"
  shows "0 < min minimum timeout \<and> min minimum timeout \<le> dt_Timeout (fold logEntry durations dt) \<and>
    dt_Timeout (fold logEntry durations dt) \<le> max timeout maxDynamicTimeout"
proof -
  have "dt_ok (max timeout maxDynamicTimeout) dt"
    using assms by (auto simp: newDynamicTimeout_def dt_ok_def dynamicTimeoutLogSize_def maxDynamicTimeout_def split: if_splits)
  then have ok: "dt_ok (max timeout maxDynamicTimeout) (fold logEntry durations dt)" by (rule fold_logEntry_ok)
  have "dtMinimum (fold logEntry durations dt) = dtMinimum dt" by (rule fold_logEntry_minimum)
  moreover have "dtMinimum dt = min minimum timeout" "0 < min minimum timeout"
    using new by (auto simp: newDynamicTimeout_def min_def split: if_splits)
  ultimately show ?thesis using ok by (simp add: dt_ok_def dt_Timeout_def)
qed

theorem dynamic_timeout_bounds_witness:
  "newDynamicTimeout 60000000000 1000000000 \<noteq> None \<and>
   dt_Timeout (fold logEntry (replicate 16 maxDuration) (the (newDynamicTimeout 60000000000 1000000000))) \<le> maxDynamicTimeout"
proof -
  obtain dt where dt: "newDynamicTimeout 60000000000 1000000000 = Some dt" by (simp add: newDynamicTimeout_def)
  have m: "max 60000000000 maxDynamicTimeout = maxDynamicTimeout" by (simp add: maxDynamicTimeout_def)
  show ?thesis using dynamic_timeout_bounds [OF dt, of "replicate 16 maxDuration"] dt m by simp
qed

end
