(* ===== verification/Dsync.thy ===== *)
theory Dsync
  imports Local_Locker Dynamic_Timeout
begin

text \<open>
  The distributed lock (\<open>internal/dsync/drwmutex.go\<close>): a client asks the lock servers of all nodes and
  holds the lock if a quorum grants it. The first part models the pieces of the algorithm as functions,
  the second any number of clients and nodes as a step relation in which requests and replies are
  delayed, lost and reordered.
\<close>

section \<open>Quorums\<close>

definition isLocked :: "string \<Rightarrow> bool" where
  "isLocked uid \<longleftrightarrow> length uid > 0"

text \<open>\<open>lockBlocking\<close>: the quorum, and the tolerance that it hands to \<open>lock\<close>.\<close>

definition lock_quorum :: "nat \<Rightarrow> bool \<Rightarrow> nat" where
  "lock_quorum n isReadLock =
     (let tolerance = n div 2; quorum = n - tolerance in
      if \<not> isReadLock \<and> quorum = tolerance then quorum + 1 else quorum)"

definition lock_tolerance :: "nat \<Rightarrow> bool \<Rightarrow> int" where
  "lock_tolerance n isReadLock = int n - int (lock_quorum n isReadLock)"

definition checkQuorumLocked :: "string list \<Rightarrow> nat \<Rightarrow> bool" where
  "checkQuorumLocked locks quorum \<longleftrightarrow> length (filter isLocked locks) \<ge> quorum"

definition checkFailedUnlocks :: "string list \<Rightarrow> int \<Rightarrow> bool" where
  "checkFailedUnlocks locks tolerance =
     (let unlocksFailed = int (length (filter isLocked locks)) in
      if int (length locks) - tolerance = tolerance then unlocksFailed \<ge> tolerance else unlocksFailed > tolerance)"

section \<open>Calls to a node\<close>

text \<open>What becomes of a call: it is answered, it does not reach the node (as with a nil locker), or it is
  carried out and the answer is lost.\<close>

datatype outcome = Answered | LostRequest | LostReply

definition call :: "outcome \<Rightarrow> (localLocker \<Rightarrow> bool \<times> localLocker) \<Rightarrow> localLocker \<Rightarrow> bool \<times> localLocker" where
  "call out f l = (case out of Answered \<Rightarrow> f l | LostRequest \<Rightarrow> (False, l) | LostReply \<Rightarrow> (False, snd (f l)))"

definition release_args :: "string \<Rightarrow> string \<Rightarrow> string list \<Rightarrow> LockArgs" where
  "release_args owner uid names = \<lparr>laUID = uid, laResources = names, laSource = [], laOwner = owner, laQuorum = 0\<rparr>"

definition sendRelease :: "outcome \<Rightarrow> string \<Rightarrow> string \<Rightarrow> bool \<Rightarrow> string list \<Rightarrow> localLocker \<Rightarrow> bool \<times> localLocker" where
  "sendRelease out owner uid isReadLock names l =
     (if length uid = 0 then (False, l) else call out (ll_give isReadLock (release_args owner uid names)) l)"

text \<open>One round of releases: one outcome, one entry of \<open>locks\<close> and one lock server for each node.\<close>

definition release_node :: "string \<Rightarrow> bool \<Rightarrow> string list \<Rightarrow> outcome \<times> string \<times> localLocker \<Rightarrow> string \<times> localLocker" where
  "release_node owner isReadLock names = (\<lambda>(out, uid, l).
     case sendRelease out owner uid isReadLock names l of (released, l') \<Rightarrow> (if released then [] else uid, l'))"

definition releaseAll ::
  "int \<Rightarrow> string \<Rightarrow> bool \<Rightarrow> string list \<Rightarrow> outcome list \<Rightarrow> string list \<Rightarrow> localLocker list \<Rightarrow> bool \<times> string list \<times> localLocker list" where
  "releaseAll tolerance owner isReadLock names outs locks nodes =
     (let rs = map (release_node owner isReadLock names) (zip outs (zip locks nodes)) in
      (\<not> checkFailedUnlocks (map fst rs) tolerance, map fst rs, map snd rs))"

text \<open>The loop of \<open>Unlock\<close> and \<open>RUnlock\<close> over the outcomes of its rounds: \<open>None\<close> is a loop that has not ended with
  these rounds.\<close>

fun release_rounds :: "int \<Rightarrow> string \<Rightarrow> bool \<Rightarrow> string list \<Rightarrow> outcome list list \<Rightarrow> string list \<Rightarrow> localLocker list \<Rightarrow> localLocker list option" where
  "release_rounds tolerance owner isReadLock names [] locks nodes = None"
| "release_rounds tolerance owner isReadLock names (outs # rounds) locks nodes =
     (case releaseAll tolerance owner isReadLock names outs locks nodes of
        (finished, locks', nodes') \<Rightarrow>
          if finished then Some nodes' else release_rounds tolerance owner isReadLock names rounds locks' nodes')"

section \<open>Refresh\<close>

record refreshResult =
  offline :: bool
  refreshed :: bool

text \<open>The loop over the answers, in the order of their arrival.\<close>

fun refresh_count :: "nat \<Rightarrow> nat \<Rightarrow> refreshResult list \<Rightarrow> nat \<Rightarrow> nat \<Rightarrow> nat \<times> nat" where
  "refresh_count n quorum [] lockNotFound lockRefreshed = (lockNotFound, lockRefreshed)"
| "refresh_count n quorum (r # rs) lockNotFound lockRefreshed =
     (if offline r then refresh_count n quorum rs lockNotFound lockRefreshed
      else let lockRefreshed' = (if refreshed r then lockRefreshed + 1 else lockRefreshed);
               lockNotFound' = (if refreshed r then lockNotFound else lockNotFound + 1) in
           if lockRefreshed' \<ge> quorum \<or> int lockNotFound' > int n - int quorum then (lockNotFound', lockRefreshed')
           else refresh_count n quorum rs lockNotFound' lockRefreshed')"

definition refreshLock :: "nat \<Rightarrow> nat \<Rightarrow> refreshResult list \<Rightarrow> bool" where
  "refreshLock n quorum results = (int (fst (refresh_count n quorum results 0 0)) > int n - int quorum)"

text \<open>\<open>forceUnlock\<close> and the goroutine that refreshes a lock, over its rounds: \<open>None\<close> is a round that failed with
  an error, and the end of the list the cancellation by \<open>Unlock\<close>. The result is whether the lock was lost.\<close>

definition forceUnlock :: "string \<Rightarrow> outcome list \<Rightarrow> localLocker list \<Rightarrow> localLocker list" where
  "forceUnlock uid outs nodes =
     map (\<lambda>(out, l). snd (call out (\<lambda>l. case ll_ForceUnlock False (uid_args uid) l of ((reply, err), l') \<Rightarrow> (reply, l')) l)) (zip outs nodes)"

fun continuous_refresh :: "nat \<Rightarrow> nat \<Rightarrow> refreshResult list option list \<Rightarrow> bool" where
  "continuous_refresh n quorum [] = False"
| "continuous_refresh n quorum (None # rounds) = continuous_refresh n quorum rounds"
| "continuous_refresh n quorum (Some results # rounds) =
     (if refreshLock n quorum results then True else continuous_refresh n quorum rounds)"

section \<open>The mutex object\<close>

record DRWMutex =
  dmNames :: "string list"
  dmWriteLocks :: "string list"
  dmReadLocks :: "string list"
  dmRefreshing :: bool

definition NewDRWMutex :: "nat \<Rightarrow> string list \<Rightarrow> DRWMutex" where
  "NewDRWMutex n names = \<lparr>dmNames = sort names, dmWriteLocks = replicate n [], dmReadLocks = replicate n [], dmRefreshing = False\<rparr>"

text \<open>Go's \<open>copy(dst, src)\<close>.\<close>

definition go_copy :: "'a list \<Rightarrow> 'a list \<Rightarrow> 'a list" where
  "go_copy dst src = take (length dst) src @ drop (length src) dst"

text \<open>The loop of \<open>lockBlocking\<close> over the results of the attempts that its timeout allows: what \<open>lock\<close> returned and
  the array it filled.\<close>

fun lockBlocking :: "bool \<Rightarrow> (bool \<times> string list) list \<Rightarrow> DRWMutex \<Rightarrow> bool \<times> DRWMutex" where
  "lockBlocking isReadLock [] dm = (False, dm)"
| "lockBlocking isReadLock ((locked, locks) # attempts) dm =
     (if locked
      then (True, if isReadLock then dm\<lparr>dmReadLocks := go_copy (dmReadLocks dm) locks, dmRefreshing := True\<rparr>
                  else dm\<lparr>dmWriteLocks := go_copy (dmWriteLocks dm) locks, dmRefreshing := True\<rparr>)
      else lockBlocking isReadLock attempts dm)"

definition dm_Lock where "dm_Lock attempts dm = snd (lockBlocking False attempts dm)"
definition dm_GetLock where "dm_GetLock attempts dm = lockBlocking False attempts dm"
definition dm_RLock where "dm_RLock attempts dm = snd (lockBlocking True attempts dm)"
definition dm_GetRLock where "dm_GetRLock attempts dm = lockBlocking True attempts dm"

text \<open>\<open>Unlock\<close> and \<open>RUnlock\<close> of the mutex copy its locks and do not clear them. Before the first lock the
  function that ends the refresh is nil.\<close>

definition nil_call :: string where
  "nil_call = ''invalid memory address or nil pointer dereference''"

definition dm_Unlock ::
  "string \<Rightarrow> outcome list list \<Rightarrow> DRWMutex \<Rightarrow> localLocker list \<Rightarrow> (string + localLocker list option) \<times> DRWMutex" where
  "dm_Unlock owner rounds dm nodes =
     (if \<not> dmRefreshing dm then (Inl nil_call, dm)
      else if \<not> list_ex isLocked (dmWriteLocks dm) then (Inl ''Trying to Unlock() while no Lock() is active'', dm)
      else (Inr (release_rounds (int (length nodes div 2)) owner False (dmNames dm) rounds
                   (go_copy (replicate (length nodes) []) (dmWriteLocks dm)) nodes), dm))"

definition dm_RUnlock ::
  "string \<Rightarrow> outcome list list \<Rightarrow> DRWMutex \<Rightarrow> localLocker list \<Rightarrow> (string + localLocker list option) \<times> DRWMutex" where
  "dm_RUnlock owner rounds dm nodes =
     (if \<not> dmRefreshing dm then (Inl nil_call, dm)
      else if \<not> list_ex isLocked (dmReadLocks dm) then (Inl ''Trying to RUnlock() while no RLock() is active'', dm)
      else (Inr (release_rounds (int (length nodes div 2)) owner True (dmNames dm) rounds
                   (go_copy (replicate (length nodes) []) (dmReadLocks dm)) nodes), dm))"

section \<open>Lock instances\<close>

text \<open>\<open>distLockInstance\<close> of \<open>cmd/namespace-lock.go\<close>, with the timeout that it adjusts.\<close>

datatype lock_result = LockContext | OperationTimedOut

definition di_GetLock ::
  "(bool \<times> string list) list \<Rightarrow> int \<Rightarrow> dynamicTimeout \<Rightarrow> DRWMutex \<Rightarrow> lock_result \<times> dynamicTimeout \<times> DRWMutex" where
  "di_GetLock attempts duration timeout dm =
     (case dm_GetLock attempts dm of
        (True, dm') \<Rightarrow> (LockContext, LogSuccess duration timeout, dm')
      | (False, dm') \<Rightarrow> (OperationTimedOut, LogFailure timeout, dm'))"

definition di_GetRLock ::
  "(bool \<times> string list) list \<Rightarrow> int \<Rightarrow> dynamicTimeout \<Rightarrow> DRWMutex \<Rightarrow> lock_result \<times> dynamicTimeout \<times> DRWMutex" where
  "di_GetRLock attempts duration timeout dm =
     (case dm_GetRLock attempts dm of
        (True, dm') \<Rightarrow> (LockContext, LogSuccess duration timeout, dm')
      | (False, dm') \<Rightarrow> (OperationTimedOut, LogFailure timeout, dm'))"

definition di_Unlock where "di_Unlock owner rounds dm nodes = dm_Unlock owner rounds dm nodes"
definition di_RUnlock where "di_RUnlock owner rounds dm nodes = dm_RUnlock owner rounds dm nodes"

section \<open>Clients and nodes\<close>

record Granted =
  gIndex :: nat
  gLockUID :: string

text \<open>One attempt to get the lock, the function \<open>lock\<close>: \<open>atPending\<close> are the nodes whose goroutine has not
  yet answered, \<open>atChan\<close> the answers in the channel, \<open>atSeen\<close> the loop variable. \<open>Failed\<close> is an attempt without
  quorum, \<open>Leaving\<close> a lock that is being released by \<open>Unlock\<close> or \<open>RUnlock\<close>.\<close>

datatype at_phase = Asking | Holding | Failed | Leaving

record attempt =
  atUID :: string
  atNames :: "string list"
  atRead :: bool
  atSource :: string
  atOwner :: string
  atPhase :: at_phase
  atPending :: "nat list"
  atChan :: "Granted list"
  atLocks :: "string list"
  atFailed :: int
  atSeen :: nat

record ds_state =
  dsNodes :: "localLocker list"
  dsAttempts :: "attempt list"

definition lock_begin :: "nat \<Rightarrow> string \<Rightarrow> string list \<Rightarrow> bool \<Rightarrow> string \<Rightarrow> string \<Rightarrow> attempt" where
  "lock_begin n uid names isReadLock source owner =
     \<lparr>atUID = uid, atNames = names, atRead = isReadLock, atSource = source, atOwner = owner, atPhase = Asking,
      atPending = [0..<n], atChan = [], atLocks = replicate n [], atFailed = 0, atSeen = 0\<rparr>"

definition lock_args :: "nat \<Rightarrow> attempt \<Rightarrow> LockArgs" where
  "lock_args n at = \<lparr>laUID = atUID at, laResources = atNames at, laSource = atSource at, laOwner = atOwner at,
     laQuorum = int (lock_quorum n (atRead at))\<rparr>"

text \<open>The goroutine of one node.\<close>

definition lock_serve :: "nat \<Rightarrow> int \<Rightarrow> outcome \<Rightarrow> nat \<Rightarrow> attempt \<Rightarrow> localLocker \<Rightarrow> attempt \<times> localLocker" where
  "lock_serve n now out j at l =
     (case call out (ll_ask (atRead at) now (lock_args n at)) l of
        (locked, l') \<Rightarrow>
          (at\<lparr>atPending := remove1 j (atPending at),
              atChan := atChan at @ [\<lparr>gIndex = j, gLockUID = (if locked then atUID at else [])\<rparr>]\<rparr>, l'))"

definition lock_done :: "nat \<Rightarrow> attempt \<Rightarrow> bool" where
  "lock_done n at \<longleftrightarrow> atSeen at \<ge> n \<or> atFailed at > lock_tolerance n (atRead at)"

definition lock_receive :: "Granted \<Rightarrow> attempt \<Rightarrow> attempt" where
  "lock_receive g at =
     (if isLocked (gLockUID g) then at\<lparr>atLocks := (atLocks at)[gIndex g := gLockUID g], atSeen := atSeen at + 1\<rparr>
      else at\<lparr>atFailed := atFailed at + 1, atSeen := atSeen at + 1\<rparr>)"

definition lock_timeout :: "attempt \<Rightarrow> attempt" where
  "lock_timeout at = at\<lparr>atFailed := atFailed at + 1, atSeen := atSeen at + 1\<rparr>"

definition lock_decide :: "nat \<Rightarrow> attempt \<Rightarrow> attempt" where
  "lock_decide n at =
     (if checkQuorumLocked (atLocks at) (lock_quorum n (atRead at)) \<and> atFailed at \<le> lock_tolerance n (atRead at)
      then at\<lparr>atPhase := Holding\<rparr> else at\<lparr>atPhase := Failed\<rparr>)"

text \<open>\<open>uid\<close> names one operation: a new attempt with it begins only while all others with it have failed.
  The attempts of one operation may overlap: the goroutine that returns late grants does not hold up
  the next attempt.\<close>

inductive ds_step :: "ds_state \<Rightarrow> ds_state \<Rightarrow> bool" where
  Begin: "\<forall>at \<in> set (dsAttempts s). atUID at = uid \<longrightarrow> atPhase at = Failed \<Longrightarrow>
    ds_step s (s\<lparr>dsAttempts := dsAttempts s @ [lock_begin (length (dsNodes s)) uid names isReadLock source owner]\<rparr>)"
| Serve: "a < length (dsAttempts s) \<Longrightarrow> j \<in> set (atPending (dsAttempts s ! a)) \<Longrightarrow> j < length (dsNodes s) \<Longrightarrow>
    lock_serve (length (dsNodes s)) now out j (dsAttempts s ! a) (dsNodes s ! j) = (at, l) \<Longrightarrow>
    ds_step s \<lparr>dsNodes = (dsNodes s)[j := l], dsAttempts = (dsAttempts s)[a := at]\<rparr>"
| Receive: "a < length (dsAttempts s) \<Longrightarrow> dsAttempts s ! a = at \<Longrightarrow> atPhase at = Asking \<Longrightarrow>
    \<not> lock_done (length (dsNodes s)) at \<Longrightarrow> atChan at = g # gs \<Longrightarrow>
    ds_step s (s\<lparr>dsAttempts := (dsAttempts s)[a := lock_receive g (at\<lparr>atChan := gs\<rparr>)]\<rparr>)"
| TimeOut: "a < length (dsAttempts s) \<Longrightarrow> dsAttempts s ! a = at \<Longrightarrow> atPhase at = Asking \<Longrightarrow>
    \<not> lock_done (length (dsNodes s)) at \<Longrightarrow>
    ds_step s (s\<lparr>dsAttempts := (dsAttempts s)[a := lock_timeout at]\<rparr>)"
| Decide: "a < length (dsAttempts s) \<Longrightarrow> dsAttempts s ! a = at \<Longrightarrow> atPhase at = Asking \<Longrightarrow>
    lock_done (length (dsNodes s)) at \<Longrightarrow>
    ds_step s (s\<lparr>dsAttempts := (dsAttempts s)[a := lock_decide (length (dsNodes s)) at]\<rparr>)"
| Abandon: "a < length (dsAttempts s) \<Longrightarrow> dsAttempts s ! a = at \<Longrightarrow> atPhase at \<noteq> Asking \<Longrightarrow> atPending at = [] \<Longrightarrow>
    atChan at = g # gs \<Longrightarrow> gIndex g < length (dsNodes s) \<Longrightarrow>
    sendRelease out (atOwner at) (gLockUID g) (atRead at) (atNames at) (dsNodes s ! gIndex g) = (released, l) \<Longrightarrow>
    ds_step s \<lparr>dsNodes = (dsNodes s)[gIndex g := l], dsAttempts = (dsAttempts s)[a := at\<lparr>atChan := gs\<rparr>]\<rparr>"
| RollBack: "a < length (dsAttempts s) \<Longrightarrow> dsAttempts s ! a = at \<Longrightarrow> atPhase at = Failed \<Longrightarrow> j < length (dsNodes s) \<Longrightarrow>
    isLocked (atLocks at ! j) \<Longrightarrow>
    sendRelease out (atOwner at) (atLocks at ! j) (atRead at) (atNames at) (dsNodes s ! j) = (released, l) \<Longrightarrow>
    ds_step s \<lparr>dsNodes = (dsNodes s)[j := l], dsAttempts = (dsAttempts s)[a := at\<lparr>atLocks := (atLocks at)[j := []]\<rparr>]\<rparr>"
| Leave: "a < length (dsAttempts s) \<Longrightarrow> dsAttempts s ! a = at \<Longrightarrow> atPhase at = Holding \<Longrightarrow>
    ds_step s (s\<lparr>dsAttempts := (dsAttempts s)[a := at\<lparr>atPhase := Leaving\<rparr>]\<rparr>)"
| Release: "a < length (dsAttempts s) \<Longrightarrow> dsAttempts s ! a = at \<Longrightarrow> atPhase at = Leaving \<Longrightarrow> j < length (dsNodes s) \<Longrightarrow>
    release_node (atOwner at) (atRead at) (atNames at) (out, atLocks at ! j, dsNodes s ! j) = (uid', l) \<Longrightarrow>
    ds_step s \<lparr>dsNodes = (dsNodes s)[j := l], dsAttempts = (dsAttempts s)[a := at\<lparr>atLocks := (atLocks at)[j := uid']\<rparr>]\<rparr>"

inductive ds_run :: "nat \<Rightarrow> ds_state \<Rightarrow> bool" for n where
  ds_init: "ds_run n \<lparr>dsNodes = replicate n newLocker, dsAttempts = []\<rparr>"
| ds_more: "ds_run n s \<Longrightarrow> ds_step s s' \<Longrightarrow> ds_run n s'"

section \<open>Quorums overlap\<close>

lemma quorum_overlap:
  assumes "A \<subseteq> {..<n}" "B \<subseteq> {..<n}" "lock_quorum n rd \<le> card A" "lock_quorum n rd' \<le> card B" "\<not> (rd \<and> rd')"
  shows "A \<inter> B \<noteq> {}"
proof
  assume "A \<inter> B = {}"
  moreover have fin: "finite A" "finite B" using assms(1,2) finite_subset by auto
  ultimately have "card A + card B = card (A \<union> B)" by (simp add: card_Un_disjoint)
  also have "\<dots> \<le> card {..<n}" using assms(1,2) by (intro card_mono) auto
  finally have "lock_quorum n rd + lock_quorum n rd' \<le> n" using assms(3,4) by simp
  moreover have "n < lock_quorum n rd + lock_quorum n rd'" using assms(5) by (auto simp: lock_quorum_def Let_def)
  ultimately show False by simp
qed

definition locked_nodes :: "string list \<Rightarrow> nat set" where
  "locked_nodes locks = {j. j < length locks \<and> isLocked (locks ! j)}"

lemma checkQuorumLocked_card: "checkQuorumLocked locks q \<longleftrightarrow> q \<le> card (locked_nodes locks)"
  by (simp add: checkQuorumLocked_def locked_nodes_def length_filter_conv_card)

section \<open>The invariant\<close>

text \<open>The grants of an attempt at a node: the one it has counted and those still in the channel.\<close>

definition tok :: "attempt \<Rightarrow> nat \<Rightarrow> nat" where
  "tok at j = of_bool (isLocked (atLocks at ! j)) + length (filter (\<lambda>g. gIndex g = j \<and> isLocked (gLockUID g)) (atChan at))"

definition weight :: "nat \<Rightarrow> string \<Rightarrow> string \<Rightarrow> bool \<Rightarrow> attempt \<Rightarrow> nat" where
  "weight j r u w at = (if atUID at = u \<and> r \<in> set (atNames at) \<and> w = (\<not> atRead at) then tok at j else 0)"

definition tokens :: "ds_state \<Rightarrow> nat \<Rightarrow> string \<Rightarrow> string \<Rightarrow> bool \<Rightarrow> nat" where
  "tokens s j r u w = (\<Sum>at\<leftarrow>dsAttempts s. weight j r u w at)"

definition at_ok :: "nat \<Rightarrow> attempt \<Rightarrow> bool" where
  "at_ok n at \<longleftrightarrow> length (atLocks at) = n \<and> set (atLocks at) \<subseteq> {[], atUID at} \<and>
     (\<forall>g \<in> set (atChan at). gLockUID g \<in> {[], atUID at}) \<and>
     (atPhase at = Holding \<longrightarrow> lock_quorum n (atRead at) \<le> card (locked_nodes (atLocks at)))"

definition leaving :: "ds_state \<Rightarrow> string \<Rightarrow> bool" where
  "leaving s u \<longleftrightarrow> (\<exists>at \<in> set (dsAttempts s). atUID at = u \<and> atPhase at = Leaving)"

definition one_live :: "attempt list \<Rightarrow> bool" where
  "one_live ats \<longleftrightarrow> (\<forall>a b. a < length ats \<longrightarrow> b < length ats \<longrightarrow> a \<noteq> b \<longrightarrow> atUID (ats ! a) = atUID (ats ! b) \<longrightarrow>
     atPhase (ats ! a) = Failed \<or> atPhase (ats ! b) = Failed)"

definition ds_inv :: "nat \<Rightarrow> ds_state \<Rightarrow> bool" where
  "ds_inv n s \<longleftrightarrow> length (dsNodes s) = n \<and> (\<forall>l \<in> set (dsNodes s). ll_ok l) \<and> (\<forall>at \<in> set (dsAttempts s). at_ok n at) \<and>
     one_live (dsAttempts s) \<and>
     (\<forall>j r u w. j < n \<longrightarrow> \<not> leaving s u \<longrightarrow> tokens s j r u w \<le> holds (dsNodes s ! j) r u w)"

lemma ds_inv_init: "ds_inv n \<lparr>dsNodes = replicate n newLocker, dsAttempts = []\<rparr>"
  by (simp add: ds_inv_def one_live_def tokens_def)

lemma one_live_update:
  assumes "one_live ats" "atUID at' = atUID (ats ! a)" "atPhase (ats ! a) = Failed \<longrightarrow> atPhase at' = Failed"
  shows "one_live (ats[a := at'])"
proof -
  have "atUID (ats[a := at'] ! b) = atUID (ats ! b)" "atPhase (ats ! b) = Failed \<longrightarrow> atPhase (ats[a := at'] ! b) = Failed"
    if "b < length ats" for b
    using that assms(2,3) by (cases "a = b"; simp)+
  then show ?thesis using assms(1) unfolding one_live_def by (metis length_list_update)
qed

text \<open>One attempt and the server of one node change.\<close>

lemma ds_inv_update:
  assumes inv: "ds_inv n s" and a: "a < length (dsAttempts s)" and j: "j < n"
    and at: "dsAttempts s ! a = at" and at': "at_ok n at'" "atUID at' = atUID at" "atPhase at = Failed \<longrightarrow> atPhase at' = Failed"
      "atPhase at = Leaving \<longrightarrow> atPhase at' = Leaving"
    and l: "ll_ok l"
    and elsewhere: "\<And>i r u w. i < n \<Longrightarrow> i \<noteq> j \<Longrightarrow> weight i r u w at' \<le> weight i r u w at"
    and here: "\<And>r u w. \<not> (atUID at = u \<and> atPhase at = Leaving) \<Longrightarrow>
      holds (dsNodes s ! j) r u w + weight j r u w at' \<le> holds l r u w + weight j r u w at"
  shows "ds_inv n \<lparr>dsNodes = (dsNodes s)[j := l], dsAttempts = (dsAttempts s)[a := at']\<rparr>"
proof -
  let ?s' = "\<lparr>dsNodes = (dsNodes s)[j := l], dsAttempts = (dsAttempts s)[a := at']\<rparr>"
  have tok': "tokens ?s' i r u w + weight i r u w at = tokens s i r u w + weight i r u w at'" for i r u w
    using sum_list_map_update [OF a, of "weight i r u w" at'] at by (simp add: tokens_def)
  have lv: "leaving s u \<Longrightarrow> leaving ?s' u" for u
  proof -
    assume "leaving s u"
    then obtain b where b: "b < length (dsAttempts s)" "atUID (dsAttempts s ! b) = u" "atPhase (dsAttempts s ! b) = Leaving"
      by (auto simp: leaving_def in_set_conv_nth)
    have "atUID ((dsAttempts s)[a := at'] ! b) = u" "atPhase ((dsAttempts s)[a := at'] ! b) = Leaving"
      using b at at'(2,4) by (cases "a = b"; simp)+
    moreover have "(dsAttempts s)[a := at'] ! b \<in> set ((dsAttempts s)[a := at'])" using b(1) by simp
    ultimately show ?thesis unfolding leaving_def by auto
  qed
  have nl: "\<not> (atUID at = u \<and> atPhase at = Leaving)" if "\<not> leaving s u" for u
    using that a at by (auto simp: leaving_def)
  have "tokens ?s' i r u w \<le> holds (dsNodes ?s' ! i) r u w" if i: "i < n" and u: "\<not> leaving ?s' u" for i r u w
  proof -
    have u': "\<not> leaving s u" using u lv by blast
    have le: "tokens s i r u w \<le> holds (dsNodes s ! i) r u w" using inv i u' by (simp add: ds_inv_def)
    show ?thesis
    proof (cases "i = j")
      case True
      then show ?thesis using le tok' [of i r u w] here [OF nl [OF u'], of r w] j inv by (simp add: ds_inv_def)
    next
      case False
      then show ?thesis using le tok' [of i r u w] elsewhere [OF i False, of r u w] by simp
    qed
  qed
  moreover have "one_live (dsAttempts ?s')" using one_live_update inv at at' by (simp add: ds_inv_def)
  moreover have "\<forall>x \<in> set ((dsNodes s)[j := l]). ll_ok x" "\<forall>x \<in> set ((dsAttempts s)[a := at']). at_ok n x"
    using inv l at'(1) by (auto simp: ds_inv_def dest!: set_update_subset_insert [THEN subsetD])
  ultimately show ?thesis using inv by (simp add: ds_inv_def)
qed

lemma ds_inv_local:
  assumes inv: "ds_inv n s" and a: "a < length (dsAttempts s)"
    and at: "dsAttempts s ! a = at" and at': "at_ok n at'" "atUID at' = atUID at" "atPhase at = Failed \<longrightarrow> atPhase at' = Failed"
      "atPhase at = Leaving \<longrightarrow> atPhase at' = Leaving"
    and weights: "\<And>i r u w. i < n \<Longrightarrow> weight i r u w at' \<le> weight i r u w at"
  shows "ds_inv n (s\<lparr>dsAttempts := (dsAttempts s)[a := at']\<rparr>)"
proof (cases "n = 0")
  case True
  have "one_live ((dsAttempts s)[a := at'])" using one_live_update inv at at' by (simp add: ds_inv_def)
  moreover have "\<forall>x \<in> set ((dsAttempts s)[a := at']). at_ok n x"
    using inv at'(1) by (auto simp: ds_inv_def dest!: set_update_subset_insert [THEN subsetD])
  ultimately show ?thesis using inv True by (simp add: ds_inv_def)
next
  case False
  have ok: "ll_ok (dsNodes s ! 0)" using inv False by (auto simp: ds_inv_def)
  have "ds_inv n \<lparr>dsNodes = (dsNodes s)[0 := dsNodes s ! 0], dsAttempts = (dsAttempts s)[a := at']\<rparr>"
    by (rule ds_inv_update [OF inv a _ at at' ok]) (use False weights in auto)
  then show ?thesis by (cases s) simp
qed

lemma ds_inv_at: "ds_inv n s \<Longrightarrow> a < length (dsAttempts s) \<Longrightarrow> at_ok n (dsAttempts s ! a)"
  by (simp add: ds_inv_def)

lemma call_ask_law:
  assumes "ll_ok l" "call out (ll_ask rd now args) l = (b, l')"
  shows "ll_ok l' \<and> holds l r u w + of_bool (b \<and> w = (\<not> rd) \<and> u = laUID args \<and> r \<in> set (laResources args)) \<le> holds l' r u w"
proof -
  have "ll_ok (snd (ll_ask rd now args l))" using local_node.ask_ok [OF assms(1)] .
  moreover have "holds l r u w + of_bool (fst (ll_ask rd now args l) \<and> w = (\<not> rd) \<and> u = laUID args \<and> r \<in> set (laResources args))
      \<le> holds (snd (ll_ask rd now args l)) r u w" using local_node.ask_held [OF assms(1)] .
  ultimately show ?thesis using assms by (cases out) (auto simp: call_def)
qed

lemma sendRelease_law:
  assumes "ll_ok l" "sendRelease out owner uid rd names l = (b, l')"
  shows "ll_ok l' \<and> holds l r u w \<le> holds l' r u w + of_bool (isLocked uid \<and> w = (\<not> rd) \<and> u = uid \<and> r \<in> set names)"
proof -
  let ?args = "release_args owner uid names"
  have "ll_ok (snd (ll_give rd ?args l))" using local_node.give_ok [OF assms(1)] .
  moreover have "holds l r u w \<le> holds (snd (ll_give rd ?args l)) r u w + of_bool (w = (\<not> rd) \<and> u = uid \<and> r \<in> set names)"
    using local_node.give_held [OF assms(1), of r u w rd ?args] by (simp add: release_args_def)
  ultimately show ?thesis using assms by (cases out) (auto simp: sendRelease_def call_def isLocked_def split: if_splits)
qed

lemma ds_inv_Begin:
  assumes inv: "ds_inv n s" and fresh: "\<forall>at \<in> set (dsAttempts s). atUID at = uid \<longrightarrow> atPhase at = Failed"
  shows "ds_inv n (s\<lparr>dsAttempts := dsAttempts s @ [lock_begin n uid names rd source owner]\<rparr>)"
proof -
  let ?b = "lock_begin n uid names rd source owner" let ?s' = "s\<lparr>dsAttempts := dsAttempts s @ [?b]\<rparr>"
  have "at_ok n ?b" by (auto simp: at_ok_def lock_begin_def)
  moreover have "tokens ?s' j r u w = tokens s j r u w" if "j < n" for j r u w
    using that by (simp add: tokens_def weight_def tok_def lock_begin_def isLocked_def)
  moreover have "leaving ?s' u = leaving s u" for u by (simp add: leaving_def lock_begin_def)
  moreover have "one_live (dsAttempts s @ [?b])"
  proof -
    have live: "one_live (dsAttempts s)" using inv by (simp add: ds_inv_def)
    have failed: "atPhase (dsAttempts s ! b) = Failed" if "b < length (dsAttempts s)" "atUID (dsAttempts s ! b) = uid" for b
      using fresh that by auto
    show ?thesis unfolding one_live_def
    proof (intro allI impI)
      fix a b assume h: "a < length (dsAttempts s @ [?b])" "b < length (dsAttempts s @ [?b])" "a \<noteq> b"
        "atUID ((dsAttempts s @ [?b]) ! a) = atUID ((dsAttempts s @ [?b]) ! b)"
      have new: "atUID ?b = uid" by (simp add: lock_begin_def)
      consider "a < length (dsAttempts s)" "b < length (dsAttempts s)" | "a = length (dsAttempts s)" "b < length (dsAttempts s)"
        | "b = length (dsAttempts s)" "a < length (dsAttempts s)" using h(1-3) by fastforce
      then show "atPhase ((dsAttempts s @ [?b]) ! a) = Failed \<or> atPhase ((dsAttempts s @ [?b]) ! b) = Failed"
      proof cases
        case 1
        then show ?thesis using live h(3,4) by (simp add: nth_append one_live_def)
      next
        case 2
        then show ?thesis using failed [of b] h(4) new by (simp add: nth_append)
      next
        case 3
        then show ?thesis using failed [of a] h(4) new by (simp add: nth_append)
      qed
    qed
  qed
  ultimately show ?thesis using inv by (auto simp: ds_inv_def)
qed

lemma ds_inv_Serve:
  assumes inv: "ds_inv n s" and a: "a < length (dsAttempts s)" and j: "j < n"
    and serve: "lock_serve n now out j (dsAttempts s ! a) (dsNodes s ! j) = (at', l)"
  shows "ds_inv n \<lparr>dsNodes = (dsNodes s)[j := l], dsAttempts = (dsAttempts s)[a := at']\<rparr>"
proof -
  let ?at = "dsAttempts s ! a"
  have ok: "ll_ok (dsNodes s ! j)" using inv j by (simp add: ds_inv_def)
  obtain b where b: "call out (ll_ask (atRead ?at) now (lock_args n ?at)) (dsNodes s ! j) = (b, l)"
    and at': "at' = ?at\<lparr>atPending := remove1 j (atPending ?at), atChan := atChan ?at @ [\<lparr>gIndex = j, gLockUID = (if b then atUID ?at else [])\<rparr>]\<rparr>"
    using serve by (auto simp: lock_serve_def split: prod.splits)
  have law: "ll_ok l" "holds (dsNodes s ! j) r u w + of_bool (b \<and> w = (\<not> atRead ?at) \<and> u = atUID ?at \<and> r \<in> set (atNames ?at)) \<le> holds l r u w" for r u w
    using call_ask_law [OF ok b, of r u w] by (simp_all add: lock_args_def)
  have tk: "tok at' i = tok ?at i + of_bool (i = j \<and> b \<and> isLocked (atUID ?at))" for i
    unfolding at' by (auto simp: tok_def isLocked_def)
  show ?thesis
  proof (rule ds_inv_update [OF inv a j refl])
    show "at_ok n at'" using ds_inv_at [OF inv a] unfolding at' by (auto simp: at_ok_def)
    show "weight i r u w at' \<le> weight i r u w ?at" if "i \<noteq> j" for i r u w
      using tk [of i] that by (simp add: weight_def at')
    show "holds (dsNodes s ! j) r u w + weight j r u w at' \<le> holds l r u w + weight j r u w ?at" for r u w
      using tk [of j] law(2) [of r u w] by (auto simp: weight_def at' split: if_splits)
  qed (use law(1) in \<open>simp_all add: at'\<close>)
qed

lemma ds_inv_Receive:
  assumes inv: "ds_inv n s" and a: "a < length (dsAttempts s)" and at: "dsAttempts s ! a = at" "atPhase at = Asking" "atChan at = g # gs"
  shows "ds_inv n (s\<lparr>dsAttempts := (dsAttempts s)[a := lock_receive g (at\<lparr>atChan := gs\<rparr>)]\<rparr>)"
proof -
  let ?at' = "lock_receive g (at\<lparr>atChan := gs\<rparr>)"
  have ok: "at_ok n at" using ds_inv_at [OF inv a] at by simp
  have tk: "tok ?at' i \<le> tok at i" if "i < n" for i
    using that ok at(3) by (cases "i = gIndex g") (auto simp: tok_def lock_receive_def at_ok_def nth_list_update)
  have "set ((atLocks at)[gIndex g := gLockUID g]) \<subseteq> {[], atUID at}"
    using ok at(3) set_update_subset_insert [of "atLocks at" "gIndex g" "gLockUID g"] by (auto simp: at_ok_def)
  then have "at_ok n ?at'" using ok at by (auto simp: at_ok_def lock_receive_def)
  then show ?thesis
    by (rule ds_inv_local [OF inv a at(1)]) (use tk at in \<open>auto simp: lock_receive_def weight_def\<close>)
qed

lemma ds_inv_phase:
  assumes inv: "ds_inv n s" and a: "a < length (dsAttempts s)" and at: "dsAttempts s ! a = at"
    and ph: "atPhase at = Asking \<or> atPhase at = Holding"
    and at': "atUID at' = atUID at" "atNames at' = atNames at" "atRead at' = atRead at" "atLocks at' = atLocks at" "atChan at' = atChan at"
    and q: "atPhase at' = Holding \<longrightarrow> lock_quorum n (atRead at) \<le> card (locked_nodes (atLocks at))"
  shows "ds_inv n (s\<lparr>dsAttempts := (dsAttempts s)[a := at']\<rparr>)"
proof (rule ds_inv_local [OF inv a at])
  show "at_ok n at'" using ds_inv_at [OF inv a] at at' q by (simp add: at_ok_def)
qed (use at' ph in \<open>auto simp: weight_def tok_def\<close>)

lemma ds_inv_Abandon:
  assumes inv: "ds_inv n s" and a: "a < length (dsAttempts s)" and at: "dsAttempts s ! a = at" "atChan at = g # gs"
    and j: "gIndex g < n"
    and rel: "sendRelease out (atOwner at) (gLockUID g) (atRead at) (atNames at) (dsNodes s ! gIndex g) = (released, l)"
  shows "ds_inv n \<lparr>dsNodes = (dsNodes s)[gIndex g := l], dsAttempts = (dsAttempts s)[a := at\<lparr>atChan := gs\<rparr>]\<rparr>"
proof -
  have ok: "at_ok n at" using ds_inv_at [OF inv a] at by simp
  then have uid: "isLocked (gLockUID g) \<Longrightarrow> gLockUID g = atUID at" using at(2) by (auto simp: at_ok_def isLocked_def)
  have "ll_ok (dsNodes s ! gIndex g)" using inv j by (simp add: ds_inv_def)
  note law = sendRelease_law [OF this rel]
  have tk: "tok at i = tok (at\<lparr>atChan := gs\<rparr>) i + of_bool (i = gIndex g \<and> isLocked (gLockUID g))" for i
    using at(2) by (auto simp: tok_def)
  show ?thesis
  proof (rule ds_inv_update [OF inv a j at(1)])
    show "at_ok n (at\<lparr>atChan := gs\<rparr>)" using ok at(2) by (simp add: at_ok_def)
    show "weight i r u w (at\<lparr>atChan := gs\<rparr>) \<le> weight i r u w at" for i r u w using tk [of i] by (simp add: weight_def)
    show "holds (dsNodes s ! gIndex g) r u w + weight (gIndex g) r u w (at\<lparr>atChan := gs\<rparr>) \<le> holds l r u w + weight (gIndex g) r u w at" for r u w
      using tk [of "gIndex g"] law [of r u w] uid by (auto simp: weight_def of_bool_def split: if_splits)
  qed (use law in simp_all)
qed

lemma ds_inv_RollBack:
  assumes inv: "ds_inv n s" and a: "a < length (dsAttempts s)" and at: "dsAttempts s ! a = at" "atPhase at = Failed"
    and j: "j < n" and lk: "isLocked (atLocks at ! j)"
    and rel: "sendRelease out (atOwner at) (atLocks at ! j) (atRead at) (atNames at) (dsNodes s ! j) = (released, l)"
  shows "ds_inv n \<lparr>dsNodes = (dsNodes s)[j := l], dsAttempts = (dsAttempts s)[a := at\<lparr>atLocks := (atLocks at)[j := []]\<rparr>]\<rparr>"
proof -
  have ok: "at_ok n at" using ds_inv_at [OF inv a] at by simp
  have "atLocks at ! j \<in> set (atLocks at)" using ok j by (simp add: at_ok_def)
  then have uid: "atLocks at ! j = atUID at" using ok lk by (auto simp: at_ok_def isLocked_def)
  have "ll_ok (dsNodes s ! j)" using inv j by (simp add: ds_inv_def)
  note law = sendRelease_law [OF this rel]
  have len: "length (atLocks at) = n" using ok by (simp add: at_ok_def)
  have tk: "tok at i = tok (at\<lparr>atLocks := (atLocks at)[j := []]\<rparr>) i + of_bool (i = j)" if "i < n" for i
    using that len lk by (auto simp: tok_def isLocked_def nth_list_update)
  have sub: "set ((atLocks at)[j := []]) \<subseteq> {[], atUID at}"
    using ok set_update_subset_insert [of "atLocks at" j "[]"] by (auto simp: at_ok_def)
  show ?thesis
  proof (rule ds_inv_update [OF inv a j at(1)])
    show "at_ok n (at\<lparr>atLocks := (atLocks at)[j := []]\<rparr>)" using ok at(2) sub by (simp add: at_ok_def)
    show "weight i r u w (at\<lparr>atLocks := (atLocks at)[j := []]\<rparr>) \<le> weight i r u w at" if "i < n" for i r u w
      using tk [OF that] by (simp add: weight_def)
    show "holds (dsNodes s ! j) r u w + weight j r u w (at\<lparr>atLocks := (atLocks at)[j := []]\<rparr>) \<le> holds l r u w + weight j r u w at" for r u w
      using tk [OF j] law [of r u w] uid by (auto simp: weight_def of_bool_def split: if_splits)
  qed (use law in simp_all)
qed

lemma ds_inv_Release:
  assumes inv: "ds_inv n s" and a: "a < length (dsAttempts s)" and at: "dsAttempts s ! a = at" "atPhase at = Leaving"
    and j: "j < n"
    and rel: "release_node (atOwner at) (atRead at) (atNames at) (out, atLocks at ! j, dsNodes s ! j) = (uid', l)"
  shows "ds_inv n \<lparr>dsNodes = (dsNodes s)[j := l], dsAttempts = (dsAttempts s)[a := at\<lparr>atLocks := (atLocks at)[j := uid']\<rparr>]\<rparr>"
proof -
  have ok: "at_ok n at" using ds_inv_at [OF inv a] at by simp
  obtain released where rel': "sendRelease out (atOwner at) (atLocks at ! j) (atRead at) (atNames at) (dsNodes s ! j) = (released, l)"
    and uid': "uid' = (if released then [] else atLocks at ! j)"
    using rel by (auto simp: release_node_def split: prod.splits)
  have len: "length (atLocks at) = n" using ok by (simp add: at_ok_def)
  then have uid: "atLocks at ! j \<in> {[], atUID at}" using ok j nth_mem [of j "atLocks at"] unfolding at_ok_def by blast
  have "ll_ok (dsNodes s ! j)" using inv j by (simp add: ds_inv_def)
  note law = sendRelease_law [OF this rel']
  have tk: "tok (at\<lparr>atLocks := (atLocks at)[j := uid']\<rparr>) i \<le> tok at i" if "i < n" for i
    using that len uid' by (cases "i = j") (auto simp: tok_def isLocked_def)
  have sub: "set ((atLocks at)[j := uid']) \<subseteq> {[], atUID at}"
    using ok uid uid' set_update_subset_insert [of "atLocks at" j uid'] by (auto simp: at_ok_def)
  show ?thesis
  proof (rule ds_inv_update [OF inv a j at(1)])
    show "at_ok n (at\<lparr>atLocks := (atLocks at)[j := uid']\<rparr>)" using ok at(2) sub by (simp add: at_ok_def)
    show "weight i r u w (at\<lparr>atLocks := (atLocks at)[j := uid']\<rparr>) \<le> weight i r u w at" if "i < n" for i r u w
      using tk [OF that] by (simp add: weight_def)
    show "holds (dsNodes s ! j) r u w + weight j r u w (at\<lparr>atLocks := (atLocks at)[j := uid']\<rparr>) \<le> holds l r u w + weight j r u w at"
      if "\<not> (atUID at = u \<and> atPhase at = Leaving)" for r u w
      using that law [of r u w] uid at(2) by (auto simp: weight_def isLocked_def split: if_splits)
  qed (use law in simp_all)
qed

lemma ds_inv_step: "ds_step s s' \<Longrightarrow> ds_inv n s \<Longrightarrow> ds_inv n s'"
proof (induction rule: ds_step.induct)
  case (Begin s uid names isReadLock source owner)
  then show ?case using ds_inv_Begin [of n s uid] by (simp add: ds_inv_def)
next
  case (Serve a s j now out at l)
  then show ?case using ds_inv_Serve [OF Serve.prems Serve.hyps(1)] by (simp add: ds_inv_def)
next
  case (Receive a s at g gs)
  then show ?case using ds_inv_Receive by blast
next
  case (TimeOut a s at)
  then show ?case by (intro ds_inv_phase [OF TimeOut.prems TimeOut.hyps(1,2)]) (simp_all add: lock_timeout_def)
next
  case (Decide a s at)
  then show ?case
    by (intro ds_inv_phase [OF Decide.prems Decide.hyps(1,2)]) (auto simp: lock_decide_def checkQuorumLocked_card ds_inv_def)
next
  case (Abandon a s at g gs out released l)
  then show ?case using ds_inv_Abandon [OF Abandon.prems Abandon.hyps(1,2)] by (simp add: ds_inv_def)
next
  case (RollBack a s at j out released l)
  then show ?case using ds_inv_RollBack [OF RollBack.prems RollBack.hyps(1,2,3)] by (simp add: ds_inv_def)
next
  case (Leave a s at)
  then show ?case by (intro ds_inv_phase [OF Leave.prems Leave.hyps(1,2)]) simp_all
next
  case (Release a s at j out uid' l)
  then show ?case using ds_inv_Release [OF Release.prems Release.hyps(1,2,3)] by (simp add: ds_inv_def)
qed

lemma ds_run_inv: "ds_run n s \<Longrightarrow> ds_inv n s"
  by (induction rule: ds_run.induct) (auto intro: ds_inv_init ds_inv_step)

section \<open>Mutual exclusion\<close>

lemma tokens_held:
  assumes inv: "ds_inv n s" and a: "a < length (dsAttempts s)" "atPhase (dsAttempts s ! a) = Holding"
  shows "\<not> leaving s (atUID (dsAttempts s ! a))"
proof
  assume "leaving s (atUID (dsAttempts s ! a))"
  then obtain b where b: "b < length (dsAttempts s)" "atUID (dsAttempts s ! b) = atUID (dsAttempts s ! a)" "atPhase (dsAttempts s ! b) = Leaving"
    by (auto simp: leaving_def in_set_conv_nth)
  moreover have "one_live (dsAttempts s)" using inv by (simp add: ds_inv_def)
  ultimately show False using a unfolding one_live_def by (metis at_phase.distinct)
qed

lemma weight_held:
  "isLocked (atLocks at ! j) \<Longrightarrow> r \<in> set (atNames at) \<Longrightarrow> 1 \<le> weight j r (atUID at) (\<not> atRead at) at"
  by (simp add: weight_def tok_def)

lemma node_held:
  assumes inv: "ds_inv n s" and a: "a < length (dsAttempts s)" "atPhase (dsAttempts s ! a) = Holding" "r \<in> set (atNames (dsAttempts s ! a))"
    and j: "j < n" "isLocked (atLocks (dsAttempts s ! a) ! j)"
  shows "0 < holds (dsNodes s ! j) r (atUID (dsAttempts s ! a)) (\<not> atRead (dsAttempts s ! a))"
proof -
  let ?at = "dsAttempts s ! a"
  have "1 \<le> weight j r (atUID ?at) (\<not> atRead ?at) ?at" using weight_held [OF j(2) a(3)] .
  also have "\<dots> \<le> tokens s j r (atUID ?at) (\<not> atRead ?at)"
    unfolding tokens_def using a(1) by (intro sum_list_map_member) simp
  also have "\<dots> \<le> holds (dsNodes s ! j) r (atUID ?at) (\<not> atRead ?at)"
    using inv j(1) tokens_held [OF inv a(1,2)] by (simp add: ds_inv_def)
  finally show ?thesis by simp
qed

lemma ds_inv_exclusive:
  assumes inv: "ds_inv n s" and a: "a < length (dsAttempts s)" "atPhase (dsAttempts s ! a) = Holding" "r \<in> set (atNames (dsAttempts s ! a))"
    and b: "b < length (dsAttempts s)" "atPhase (dsAttempts s ! b) = Holding" "r \<in> set (atNames (dsAttempts s ! b))" and ab: "a < b"
  shows "atRead (dsAttempts s ! a) \<and> atRead (dsAttempts s ! b)"
proof (rule ccontr)
  let ?a = "dsAttempts s ! a" let ?b = "dsAttempts s ! b"
  assume no: "\<not> (atRead ?a \<and> atRead ?b)"
  have ok: "at_ok n ?a" "at_ok n ?b" using ds_inv_at [OF inv] a(1) b(1) by auto
  have "locked_nodes (atLocks ?a) \<inter> locked_nodes (atLocks ?b) \<noteq> {}"
    by (rule quorum_overlap [of _ n _ "atRead ?a" "atRead ?b"]) (use ok a(2) b(2) no in \<open>auto simp: at_ok_def locked_nodes_def\<close>)
  then obtain j where j: "j < n" "isLocked (atLocks ?a ! j)" "isLocked (atLocks ?b ! j)"
    using ok by (auto simp: locked_nodes_def at_ok_def)
  have node: "ll_ok (dsNodes s ! j)" using inv j(1) by (simp add: ds_inv_def)
  have conflict: "\<not> atRead ?a \<and> \<not> atRead ?b \<and> atUID ?a = atUID ?b \<and> holds (dsNodes s ! j) r (atUID ?a) (\<not> atRead ?a) = 1"
    by (rule local_node.conflict [OF node node_held [OF inv a j(1,2)] node_held [OF inv b j(1,3)]]) (use no in simp)
  let ?w = "weight j r (atUID ?a) (\<not> atRead ?a)"
  have "1 \<le> ?w ?a" "1 \<le> ?w ?b" using weight_held [OF j(2) a(3)] weight_held [OF j(3) b(3)] conflict by auto
  then have "2 \<le> tokens s j r (atUID ?a) (\<not> atRead ?a)"
    using sum_list_map_two [OF ab b(1), of ?w] by (simp add: tokens_def)
  also have "\<dots> \<le> holds (dsNodes s ! j) r (atUID ?a) (\<not> atRead ?a)"
    using inv j(1) tokens_held [OF inv a(1,2)] by (simp add: ds_inv_def)
  finally have "2 \<le> holds (dsNodes s ! j) r (atUID ?a) (\<not> atRead ?a)" .
  moreover have "holds (dsNodes s ! j) r (atUID ?a) (\<not> atRead ?a) = 1" using conflict by blast
  ultimately show False by linarith
qed

section \<open>Releases and refreshes\<close>

lemma refresh_count_bound:
  "refresh_count n q rs nf rf = (nf', rf') \<Longrightarrow> nf' \<le> nf + length (filter (\<lambda>r. \<not> offline r \<and> \<not> refreshed r) rs)"
  by (induction rs arbitrary: nf rf) (fastforce simp: Let_def split: if_splits)+

lemma refresh_count_found:
  "int nf \<le> int n - int q \<Longrightarrow> rf < q \<Longrightarrow> rf + length (filter (\<lambda>r. \<not> offline r \<and> refreshed r) rs) < q \<Longrightarrow>
   (int (fst (refresh_count n q rs nf rf)) > int n - int q) =
   (int nf + int (length (filter (\<lambda>r. \<not> offline r \<and> \<not> refreshed r) rs)) > int n - int q)"
proof (induction rs arbitrary: nf rf)
  case (Cons r rs)
  consider "offline r" | "\<not> offline r" "refreshed r" | "\<not> offline r" "\<not> refreshed r" "int (nf + 1) > int n - int q"
    | "\<not> offline r" "\<not> refreshed r" "\<not> int (nf + 1) > int n - int q" by blast
  then show ?case
  proof cases
    case 1
    then show ?thesis using Cons by simp
  next
    case 2
    then show ?thesis using Cons.IH [of nf "Suc rf"] Cons.prems by (simp add: Let_def)
  next
    case 3
    then show ?thesis using Cons.prems by (simp add: Let_def)
  next
    case 4
    then show ?thesis using Cons.IH [of "Suc nf" rf] Cons.prems by (simp add: Let_def ac_simps)
  qed
qed simp

text \<open>A lock that a quorum of nodes still has is never given up: every round finds it.\<close>

lemma continuous_refresh_kept:
  assumes "\<forall>rs. Some rs \<in> set rounds \<longrightarrow> length rs \<le> n \<and> length (filter (\<lambda>r. \<not> offline r \<and> \<not> refreshed r) rs) \<le> n - quorum"
    and "quorum \<le> n"
  shows "\<not> continuous_refresh n quorum rounds"
  using assms
proof (induction n quorum rounds rule: continuous_refresh.induct)
  case (3 n quorum results rounds)
  obtain nf rf where c: "refresh_count n quorum results 0 0 = (nf, rf)" by fastforce
  have "nf \<le> n - quorum" using refresh_count_bound [OF c] 3(2) by fastforce
  then have "\<not> refreshLock n quorum results" using c 3(3) by (simp add: refreshLock_def)
  then show ?case using 3 by simp
qed auto

text \<open>If every node answers, one round of releases is enough.\<close>

lemma releaseAll_answered:
  assumes len: "length locks = length nodes" and ok: "\<forall>j < length nodes. isLocked (locks ! j) \<longrightarrow>
      fst (ll_give rd (release_args owner (locks ! j) names) (nodes ! j))"
    and n: "0 < length nodes"
  shows "\<exists>nodes'. releaseAll (int (length nodes div 2)) owner rd names (replicate (length nodes) Answered) locks nodes =
    (True, replicate (length nodes) [], nodes')"
proof -
  let ?rs = "map (release_node owner rd names) (zip (replicate (length nodes) Answered) (zip locks nodes))"
  have "fst (?rs ! j) = []" if "j < length nodes" for j
    using that len ok by (auto simp: release_node_def sendRelease_def call_def isLocked_def split: prod.splits)
  then have "map fst ?rs = replicate (length nodes) []"
    using len by (intro nth_equalityI) auto
  moreover have "\<not> checkFailedUnlocks (replicate (length nodes) []) (int (length nodes div 2))"
  proof (cases "length nodes = 1")
    case True
    then show ?thesis by (simp add: checkFailedUnlocks_def isLocked_def)
  next
    case False
    then have "0 < length nodes div 2" using n by linarith
    then show ?thesis by (simp add: checkFailedUnlocks_def isLocked_def Let_def)
  qed
  ultimately show ?thesis by (simp add: releaseAll_def Let_def)
qed

text \<open>A lock that was granted can be released: the arrays have one entry for each node, so the mutex copies
  all grants, and \<open>Unlock\<close> does not panic. It does not panic a second time either, because the grants
  stay in the mutex.\<close>

lemma go_copy_same: "length src = length dst \<Longrightarrow> go_copy dst src = src"
  by (simp add: go_copy_def)

lemma lockBlocking_Unlock:
  assumes lb: "lockBlocking rd attempts dm = (True, dm')"
    and len: "length (dmReadLocks dm) = n" "length (dmWriteLocks dm) = n"
    and at: "\<forall>(locked, locks) \<in> set attempts. locked \<longrightarrow> length locks = n \<and> list_ex isLocked locks"
  shows "\<exists>res. (if rd then dm_RUnlock owner rounds dm' nodes else dm_Unlock owner rounds dm' nodes) = (Inr res, dm')"
  using assms
proof (induction attempts)
  case (Cons p attempts)
  obtain locked locks where p: "p = (locked, locks)" by fastforce
  show ?case
  proof (cases locked)
    case True
    then have "length locks = n" "list_ex isLocked locks" using Cons.prems(4) p by auto
    then show ?thesis using Cons.prems(1-3) True p
      by (cases rd) (auto simp: dm_Unlock_def dm_RUnlock_def go_copy_same)
  next
    case False
    then show ?thesis using Cons p by simp
  qed
qed simp

section \<open>Properties\<close>

text \<open>
  C3. The distributed lock is exclusive. With any number of nodes and clients, and with requests,
  replies and releases that are delayed, reordered or lost, late grants that are given back while the
  client already tries again, and unlocks that repeat, two attempts hold a lock on a common
  resource at the same time only if both hold it for reading, as long as no lock expires and none is
  released by force.
\<close>

theorem dsync_exclusive:
  assumes run: "ds_run n s" and ab: "a < length (dsAttempts s)" "b < length (dsAttempts s)" "a \<noteq> b"
    and holding: "atPhase (dsAttempts s ! a) = Holding" "atPhase (dsAttempts s ! b) = Holding"
    and r: "r \<in> set (atNames (dsAttempts s ! a))" "r \<in> set (atNames (dsAttempts s ! b))"
  shows "atRead (dsAttempts s ! a) \<and> atRead (dsAttempts s ! b)"
proof (cases "a < b")
  case True
  then show ?thesis using ds_inv_exclusive [OF ds_run_inv [OF run] ab(1) holding(1) r(1) ab(2) holding(2) r(2)] by simp
next
  case False
  then show ?thesis using ds_inv_exclusive [OF ds_run_inv [OF run] ab(2) holding(2) r(2) ab(1) holding(1) r(1)] ab(3) by simp
qed

text \<open>Steps as functions, for concrete runs.\<close>

definition begin_next :: "string \<Rightarrow> string list \<Rightarrow> bool \<Rightarrow> ds_state \<Rightarrow> ds_state" where
  "begin_next uid names rd s = s\<lparr>dsAttempts := dsAttempts s @ [lock_begin (length (dsNodes s)) uid names rd [] []]\<rparr>"

definition serve_next :: "nat \<Rightarrow> nat \<Rightarrow> ds_state \<Rightarrow> ds_state" where
  "serve_next a j s = (case lock_serve (length (dsNodes s)) 0 Answered j (dsAttempts s ! a) (dsNodes s ! j) of
     (at, l) \<Rightarrow> \<lparr>dsNodes = (dsNodes s)[j := l], dsAttempts = (dsAttempts s)[a := at]\<rparr>)"

definition receive_next :: "nat \<Rightarrow> ds_state \<Rightarrow> ds_state" where
  "receive_next a s = s\<lparr>dsAttempts := (dsAttempts s)[a := lock_receive (hd (atChan (dsAttempts s ! a)))
     ((dsAttempts s ! a)\<lparr>atChan := tl (atChan (dsAttempts s ! a))\<rparr>)]\<rparr>"

definition decide_next :: "nat \<Rightarrow> ds_state \<Rightarrow> ds_state" where
  "decide_next a s = s\<lparr>dsAttempts := (dsAttempts s)[a := lock_decide (length (dsNodes s)) (dsAttempts s ! a)]\<rparr>"

lemma ds_run_begin:
  "ds_run n s \<Longrightarrow> list_all (\<lambda>at. atUID at \<noteq> uid) (dsAttempts s) \<Longrightarrow> ds_run n (begin_next uid names rd s)"
  unfolding begin_next_def by (rule ds_more) (auto intro: Begin simp: list_all_iff)

lemma ds_run_serve:
  assumes "ds_run n s" "a < length (dsAttempts s) \<and> j \<in> set (atPending (dsAttempts s ! a)) \<and> j < length (dsNodes s)"
  shows "ds_run n (serve_next a j s)"
proof -
  obtain at l where "lock_serve (length (dsNodes s)) 0 Answered j (dsAttempts s ! a) (dsNodes s ! j) = (at, l)" by fastforce
  then show ?thesis using assms Serve [of a s j 0 Answered at l] by (auto simp: serve_next_def intro: ds_more)
qed

lemma ds_run_receive:
  assumes "ds_run n s" "a < length (dsAttempts s) \<and> atPhase (dsAttempts s ! a) = Asking \<and>
    \<not> lock_done (length (dsNodes s)) (dsAttempts s ! a) \<and> atChan (dsAttempts s ! a) \<noteq> []"
  shows "ds_run n (receive_next a s)"
  using assms Receive [of a s "dsAttempts s ! a" "hd (atChan (dsAttempts s ! a))" "tl (atChan (dsAttempts s ! a))"]
  by (auto simp: receive_next_def intro: ds_more)

lemma ds_run_decide:
  assumes "ds_run n s" "a < length (dsAttempts s) \<and> atPhase (dsAttempts s ! a) = Asking \<and> lock_done (length (dsNodes s)) (dsAttempts s ! a)"
  shows "ds_run n (decide_next a s)"
  using assms Decide [of a s "dsAttempts s ! a"] by (auto simp: decide_next_def intro: ds_more)

definition reader_asks :: "nat \<Rightarrow> string \<Rightarrow> ds_state \<Rightarrow> ds_state" where
  "reader_asks a uid s = decide_next a (receive_next a (serve_next a 0 (begin_next uid [''b/x''] True s)))"

definition ds_sample_start :: ds_state where
  "ds_sample_start = \<lparr>dsNodes = replicate 1 newLocker, dsAttempts = []\<rparr>"

definition ds_sample_state :: ds_state where
  "ds_sample_state = reader_asks 1 ''u2'' (reader_asks 0 ''u1'' ds_sample_start)"

lemma ds_sample_run: "ds_run 1 ds_sample_state"
proof -
  have 0: "ds_run 1 ds_sample_start" unfolding ds_sample_start_def by (rule ds_init)
  let ?b = "begin_next ''u1'' [''b/x''] True ds_sample_start" let ?s = "reader_asks 0 ''u1'' ds_sample_start"
  have "ds_run 1 ?b" by (rule ds_run_begin [OF 0]) code_simp
  then have "ds_run 1 (serve_next 0 0 ?b)" by (rule ds_run_serve) code_simp
  then have "ds_run 1 (receive_next 0 (serve_next 0 0 ?b))" by (rule ds_run_receive) code_simp
  then have 1: "ds_run 1 ?s" unfolding reader_asks_def by (rule ds_run_decide) code_simp
  let ?c = "begin_next ''u2'' [''b/x''] True ?s"
  have "ds_run 1 ?c" by (rule ds_run_begin [OF 1]) code_simp
  then have "ds_run 1 (serve_next 1 0 ?c)" by (rule ds_run_serve) code_simp
  then have "ds_run 1 (receive_next 1 (serve_next 1 0 ?c))" by (rule ds_run_receive) code_simp
  then have "ds_run 1 (decide_next 1 (receive_next 1 (serve_next 1 0 ?c)))" by (rule ds_run_decide) code_simp
  then show ?thesis unfolding ds_sample_state_def reader_asks_def [of 1] by simp
qed

theorem dsync_exclusive_witness:
  "ds_run 1 ds_sample_state \<and> atPhase (dsAttempts ds_sample_state ! 0) = Holding \<and> atPhase (dsAttempts ds_sample_state ! 1) = Holding \<and>
   atRead (dsAttempts ds_sample_state ! 0) \<and> atRead (dsAttempts ds_sample_state ! 1)"
proof -
  have h: "0 < length (dsAttempts ds_sample_state)" "1 < length (dsAttempts ds_sample_state)"
    "atPhase (dsAttempts ds_sample_state ! 0) = Holding" "atPhase (dsAttempts ds_sample_state ! 1) = Holding"
    "''b/x'' \<in> set (atNames (dsAttempts ds_sample_state ! 0))" "''b/x'' \<in> set (atNames (dsAttempts ds_sample_state ! 1))"
    by code_simp+
  show ?thesis using dsync_exclusive [OF ds_sample_run h(1,2) zero_neq_one h(3,4,5,6)] h(3,4) ds_sample_run by blast
qed

text \<open>
  C32. The refresh loop, which stops at the first answer that settles the outcome, decides as a count
  of all answers would: whatever the order in which at most \<open>n\<close> answers arrive, it reports the lock as
  lost exactly when more nodes than a quorum can spare say that they do not have it.
\<close>

theorem refreshLock_counts:
  assumes len: "length results \<le> n" and q: "0 < quorum" "quorum \<le> n"
  shows "refreshLock n quorum results \<longleftrightarrow>
    n - quorum < length (filter (\<lambda>r. \<not> offline r \<and> \<not> refreshed r) results)"
proof -
  let ?nf = "length (filter (\<lambda>r. \<not> offline r \<and> \<not> refreshed r) results)"
  let ?rf = "length (filter (\<lambda>r. \<not> offline r \<and> refreshed r) results)"
  have sum: "?nf + ?rf \<le> length results" by (induction results) auto
  show ?thesis
  proof (cases "?rf < quorum")
    case True
    then show ?thesis using refresh_count_found [of 0 n quorum 0 results] q by (auto simp: refreshLock_def)
  next
    case False
    obtain nf rf where c: "refresh_count n quorum results 0 0 = (nf, rf)" by fastforce
    have "nf \<le> ?nf" using refresh_count_bound [OF c] by simp
    then show ?thesis using False sum len c by (simp add: refreshLock_def)
  qed
qed

theorem refreshLock_counts_witness:
  "refreshLock 3 2 [\<lparr>offline = False, refreshed = False\<rparr>, \<lparr>offline = False, refreshed = True\<rparr>, \<lparr>offline = False, refreshed = False\<rparr>]"
  using refreshLock_counts [of "[\<lparr>offline = False, refreshed = False\<rparr>, \<lparr>offline = False, refreshed = True\<rparr>, \<lparr>offline = False, refreshed = False\<rparr>]" 3 2]
  by simp

end
