(* ===== verification/Erasure_Geometry.thy ===== *)
theory Erasure_Geometry
  imports Prelude
begin

text \<open>
  The arithmetic of erasure coding: how a part of an object is cut into blocks, how a block is
  spread over the drives of a set, which range of a shard file a range of the part needs
  (\<open>cmd/erasure-coding.go\<close>), the part an offset of the object falls in and the parts and checksums
  kept in the metadata (\<open>cmd/erasure-metadata.go\<close>, \<open>cmd/erasure-metadata-utils.go\<close>). The
  Reed-Solomon codec of \<open>github.com/klauspost/reedsolomon\<close> is a parameter, the record \<open>rs_codec\<close>;
  what its documentation promises is the predicate \<open>rs_ok\<close>.
\<close>

section \<open>Errors of the storage layer\<close>

text \<open>Errors are told apart by identity. \<open>WrapErr n e\<close> is an error made with the verb \<open>%w\<close>; every
  such error is a value of its own, named by \<open>n\<close>, and unwraps to \<open>e\<close>. \<open>OtherErr n\<close> is an error
  that the code does not tell apart from others.\<close>

datatype xerr =
    errDiskNotFound
  | errFaultyDisk
  | errFaultyRemoteDisk
  | errDiskAccessDenied
  | errUnformattedDisk
  | errFileNotFound
  | errFileVersionNotFound
  | errVolumeNotFound
  | errVolumeNotEmpty
  | errVolumeExists
  | errDiskFull
  | errTooManyOpenFiles
  | errFileAccessDenied
  | errIsNotRegular
  | errMethodNotAllowed
  | errUploadIDNotFound
  | errFileNameTooLong
  | errDataTooLarge
  | errDataTooSmall
  | errFileCorrupt
  | errCorruptedFormat
  | errLessData
  | errUnexpected
  | errInvalidArgument
  | errErasureReadQuorum
  | errErasureWriteQuorum
  | errPartSizeZero
  | errPartSizeIndex
  | InvalidRange
  | ErrInvShardNum
  | ErrMaxShardNum
  | ErrTooFewShards
  | ErrShortData
  | ErrShortWrite
  | ErrUnexpectedEOF
  | EOF
  | ContextCanceled
  | ContextDeadlineExceeded
  | WrapErr nat xerr
  | OtherErr nat

text \<open>\<open>errors.Is\<close>: the error or one it wraps is the target.\<close>

fun errors_Is :: "xerr \<Rightarrow> xerr \<Rightarrow> bool" where
  "errors_Is (WrapErr n e) t \<longleftrightarrow> WrapErr n e = t \<or> errors_Is e t"
| "errors_Is e t \<longleftrightarrow> e = t"

section \<open>The codec\<close>

text \<open>The methods of \<open>reedsolomon.Encoder\<close> that the sources call. The shards are byte slices; a
  missing shard is an empty one.\<close>

record rs_codec =
  rs_Split :: "bytes \<Rightarrow> (xerr, bytes list) result"
  rs_Encode :: "bytes list \<Rightarrow> (xerr, bytes list) result"
  rs_ReconstructData :: "bytes list \<Rightarrow> (xerr, bytes list) result"
  rs_Reconstruct :: "bytes list \<Rightarrow> (xerr, bytes list) result"

text \<open>Ceiling division.\<close>

definition cdiv :: "nat \<Rightarrow> nat \<Rightarrow> nat" where
  "cdiv n d = n div d + (if n mod d = 0 then 0 else 1)"

text \<open>\<open>Split\<close>: equally sized data shards, the last ones padded with zeros, followed by parity shards
  that hold zeros.\<close>

definition split_shards :: "nat \<Rightarrow> nat \<Rightarrow> bytes \<Rightarrow> bytes list" where
  "split_shards d p data =
     (let s = cdiv (length data) d; padded = data @ replicate (s * d - length data) 0
      in map (\<lambda>i. take s (drop (i * s) padded)) [0..<d] @ replicate p (replicate s 0))"

text \<open>Shards of one size, as many as the codec has.\<close>

definition same_size :: "nat \<Rightarrow> nat \<Rightarrow> bytes list \<Rightarrow> bool" where
  "same_size n s shards \<longleftrightarrow> length shards = n \<and> list_all (\<lambda>b. length b = s) shards"

text \<open>A set of shards in which some are missing.\<close>

definition partial_shards :: "bytes list \<Rightarrow> bytes list \<Rightarrow> bool" where
  "partial_shards shards bufs \<longleftrightarrow> list_all2 (\<lambda>b s. b = [] \<or> b = s) bufs shards"

definition present :: "bytes list \<Rightarrow> nat" where
  "present bufs = length (filter (\<lambda>b. b \<noteq> []) bufs)"

text \<open>What the documentation of the package promises of a codec with \<open>d\<close> data and \<open>p\<close> parity
  shards: \<open>Split\<close> cuts as above; \<open>Encode\<close> keeps the data shards and overwrites the parity shards;
  any \<open>d\<close> shards of an encoded set are enough to recreate the missing data shards
  (\<open>ReconstructData\<close>) and all the missing shards (\<open>Reconstruct\<close>).\<close>

definition rs_ok :: "rs_codec \<Rightarrow> nat \<Rightarrow> nat \<Rightarrow> bool" where
  "rs_ok c d p \<longleftrightarrow>
     (\<forall>data. data \<noteq> [] \<longrightarrow> rs_Split c data = Inr (split_shards d p data))
   \<and> (\<forall>s shards. 0 < s \<and> same_size (d + p) s shards \<longrightarrow>
        (\<exists>enc. rs_Encode c shards = Inr enc \<and> same_size (d + p) s enc \<and> take d enc = take d shards
         \<and> (\<forall>bufs. partial_shards enc bufs \<and> d \<le> present bufs \<longrightarrow>
              (\<exists>out. rs_ReconstructData c bufs = Inr out \<and> length out = d + p
                 \<and> take d out = take d enc)
            \<and> rs_Reconstruct c bufs = Inr enc)))"

section \<open>Blocks and shards\<close>

definition ceilFrac :: "int \<Rightarrow> int \<Rightarrow> int" where
  "ceilFrac numerator denominator =
     (if denominator = 0 then 0
      else let num = (if denominator < 0 then wrap64 (- numerator) else numerator);
               den = (if denominator < 0 then wrap64 (- denominator) else denominator);
               c = go_div num den
           in if 0 < num \<and> go_mod num den \<noteq> 0 then wrap64 (c + 1) else c)"

record erasure =
  encoder :: rs_codec
  dataBlocks :: int
  parityBlocks :: int
  blockSize :: int

text \<open>\<open>NewErasure\<close>; \<open>new\<close> is \<open>reedsolomon.New\<close>, which the encoder calls when it is first used.\<close>

definition NewErasure ::
  "(int \<Rightarrow> int \<Rightarrow> rs_codec) \<Rightarrow> int \<Rightarrow> int \<Rightarrow> int \<Rightarrow> (xerr, erasure) result" where
  "NewErasure new dBlocks pBlocks bSize =
     (if dBlocks \<le> 0 \<or> pBlocks \<le> 0 then Inl ErrInvShardNum
      else if 256 < wrap64 (dBlocks + pBlocks) then Inl ErrMaxShardNum
      else Inr \<lparr>encoder = new dBlocks pBlocks, dataBlocks = dBlocks, parityBlocks = pBlocks,
                blockSize = bSize\<rparr>)"

definition ShardSize :: "erasure \<Rightarrow> int" where
  "ShardSize e = ceilFrac (blockSize e) (dataBlocks e)"

definition ShardFileSize :: "erasure \<Rightarrow> int \<Rightarrow> int" where
  "ShardFileSize e totalLength =
     (if totalLength = 0 then 0
      else if totalLength = -1 then -1
      else let numShards = go_div totalLength (blockSize e);
               lastBlockSize = go_mod totalLength (blockSize e);
               lastShardSize = ceilFrac lastBlockSize (dataBlocks e)
           in wrap64 (numShards * ShardSize e + lastShardSize))"

definition ShardFileOffset :: "erasure \<Rightarrow> int \<Rightarrow> int \<Rightarrow> int \<Rightarrow> int" where
  "ShardFileOffset e startOffset len totalLength =
     (let shardSize = ShardSize e;
          shardFileSize = ShardFileSize e totalLength;
          endShard = go_div (wrap64 (startOffset + len)) (blockSize e);
          tillOffset = wrap64 (endShard * shardSize + shardSize)
      in if shardFileSize < tillOffset then shardFileSize else tillOffset)"

section \<open>Encoding and decoding one block\<close>

definition EncodeData :: "erasure \<Rightarrow> bytes \<Rightarrow> (xerr, bytes list) result" where
  "EncodeData e data =
     (if data = [] then Inr (replicate (nat (dataBlocks e + parityBlocks e)) [])
      else case rs_Split (encoder e) data of
             Inl err \<Rightarrow> Inl err
           | Inr encoded \<Rightarrow> rs_Encode (encoder e) encoded)"

text \<open>The loop that counts empty shards leaves at the first one, so the counter is 0 or 1.\<close>

definition DecodeDataBlocks :: "erasure \<Rightarrow> bytes list \<Rightarrow> (xerr, bytes list) result" where
  "DecodeDataBlocks e data =
     (let isZero = (if list_ex (\<lambda>b. b = []) data then 1 else 0)
      in if isZero = 0 \<or> isZero = length data then Inr data
         else rs_ReconstructData (encoder e) data)"

definition DecodeDataAndParityBlocks :: "erasure \<Rightarrow> bytes list \<Rightarrow> (xerr, bytes list) result" where
  "DecodeDataAndParityBlocks e data = rs_Reconstruct (encoder e) data"

section \<open>Parts and checksums\<close>

record ObjectPartInfo =
  p_ETag :: string
  p_Number :: int
  p_Size :: int
  p_ActualSize :: int

datatype BitrotAlgorithm = BitrotNone | SHA256 | HighwayHash256 | HighwayHash256S | BLAKE2b512

record ChecksumInfo =
  c_PartNumber :: int
  c_Algorithm :: BitrotAlgorithm
  c_Hash :: bytes

fun AddChecksumInfo :: "ChecksumInfo list \<Rightarrow> ChecksumInfo \<Rightarrow> ChecksumInfo list" where
  "AddChecksumInfo [] ck = [ck]"
| "AddChecksumInfo (s # ss) ck =
     (if c_PartNumber s = c_PartNumber ck then ck # ss else s # AddChecksumInfo ss ck)"

text \<open>The zero value has no algorithm.\<close>

fun GetChecksumInfo :: "ChecksumInfo list \<Rightarrow> int \<Rightarrow> ChecksumInfo" where
  "GetChecksumInfo [] partNumber = \<lparr>c_PartNumber = 0, c_Algorithm = BitrotNone, c_Hash = []\<rparr>"
| "GetChecksumInfo (s # ss) partNumber =
     (if c_PartNumber s = partNumber then s else GetChecksumInfo ss partNumber)"

fun objectPartIndex_from :: "nat \<Rightarrow> ObjectPartInfo list \<Rightarrow> int \<Rightarrow> int" where
  "objectPartIndex_from i [] n = -1"
| "objectPartIndex_from i (x # xs) n =
     (if n = p_Number x then int i else objectPartIndex_from (Suc i) xs n)"

definition objectPartIndex :: "ObjectPartInfo list \<Rightarrow> int \<Rightarrow> int" where
  "objectPartIndex parts n = objectPartIndex_from 0 parts n"

text \<open>The loop of \<open>AddObjectPart\<close> that replaces a part that is there; \<open>None\<close> when there is none.\<close>

fun replace_part :: "ObjectPartInfo list \<Rightarrow> ObjectPartInfo \<Rightarrow> ObjectPartInfo list option" where
  "replace_part [] x = None"
| "replace_part (y # ys) x =
     (if p_Number x = p_Number y then Some (x # ys) else map_option ((#) y) (replace_part ys x))"

text \<open>\<open>sort.Sort(byObjectPartNumber(parts))\<close>: the numbers in a list of parts differ, so that the
  result of sorting does not depend on the algorithm.\<close>

definition AddObjectPart ::
  "ObjectPartInfo list \<Rightarrow> int \<Rightarrow> string \<Rightarrow> int \<Rightarrow> int \<Rightarrow> ObjectPartInfo list" where
  "AddObjectPart parts partNumber partETag partSize actualSize =
     (let partInfo = \<lparr>p_ETag = partETag, p_Number = partNumber, p_Size = partSize,
                      p_ActualSize = actualSize\<rparr>
      in case replace_part parts partInfo of
           Some ps \<Rightarrow> ps
         | None \<Rightarrow> sort_key p_Number (parts @ [partInfo]))"

fun part_offset_from :: "nat \<Rightarrow> ObjectPartInfo list \<Rightarrow> int \<Rightarrow> (xerr, nat \<times> int) result" where
  "part_offset_from i [] partOffset = Inl InvalidRange"
| "part_offset_from i (x # xs) partOffset =
     (if partOffset < p_Size x then Inr (i, partOffset)
      else part_offset_from (Suc i) xs (wrap64 (partOffset - p_Size x)))"

definition ObjectToPartOffset :: "ObjectPartInfo list \<Rightarrow> int \<Rightarrow> (xerr, nat \<times> int) result" where
  "ObjectToPartOffset parts off = (if off = 0 then Inr (0, 0) else part_offset_from 0 parts off)"

definition calculatePartSizeFromIdx :: "int \<Rightarrow> int \<Rightarrow> int \<Rightarrow> (xerr, int) result" where
  "calculatePartSizeFromIdx totalSize partSize partIndex =
     (if totalSize < -1 then Inl errInvalidArgument
      else if partSize = 0 then Inl errPartSizeZero
      else if partIndex < 1 then Inl errPartSizeIndex
      else if totalSize = -1 then Inr (-1)
      else if 0 < totalSize then
        (let partsCount = wrap64 (go_div totalSize partSize + 1)
         in if partIndex < partsCount then Inr partSize
            else if partIndex = partsCount then Inr (go_mod totalSize partSize)
            else Inr 0)
      else Inr 0)"

section \<open>Lemmas on the geometry\<close>

lemma cdiv_zero [simp]: "cdiv 0 d = 0"
  by (simp add: cdiv_def)

lemma cdiv_pos: "0 < d \<Longrightarrow> 0 < n \<Longrightarrow> 0 < cdiv n d"
  by (auto simp: cdiv_def div_greater_zero_iff intro: ccontr)

lemma cdiv_le: "0 < d \<Longrightarrow> cdiv n d \<le> n"
proof (cases "d = 1 \<or> n = 0")
  case False
  assume "0 < d"
  with False have "n div d < n" by (intro div_less_dividend) auto
  then show ?thesis by (simp add: cdiv_def)
qed (auto simp: cdiv_def)

lemma cdiv_mult_ge: "0 < d \<Longrightarrow> n \<le> d * cdiv n d"
proof -
  assume d: "0 < d"
  have n: "d * (n div d) + n mod d = n" by simp
  show ?thesis
  proof (cases "n mod d = 0")
    case False
    then have "d * cdiv n d = d * (n div d) + d" by (simp add: cdiv_def)
    then show ?thesis using n mod_less_divisor [OF d, of n] by linarith
  qed (use n in \<open>simp add: cdiv_def\<close>)
qed

lemma cdiv_mono: "m \<le> n \<Longrightarrow> cdiv m d \<le> cdiv n d"
proof (cases "m div d = n div d")
  case True
  assume "m \<le> n"
  with True have "m mod d \<le> n mod d"
    by (metis add_le_cancel_left div_mult_mod_eq)
  with True show ?thesis by (auto simp: cdiv_def)
next
  case False
  assume "m \<le> n"
  with False have "m div d < n div d" using div_le_mono [of m n d] by linarith
  then show ?thesis by (simp add: cdiv_def)
qed

lemma cdiv_mult [simp]: "0 < d \<Longrightarrow> cdiv (k * d) d = k"
  by (simp add: cdiv_def)

lemma ceilFrac_nat:
  assumes "0 < d" and "int n < 2 ^ 63"
  shows "ceilFrac (int n) (int d) = int (cdiv n d)"
proof -
  have "int (cdiv n d) < 2 ^ 63" using cdiv_le [OF assms(1), of n] assms(2) by linarith
  then have "wrap64 (int (cdiv n d)) = int (cdiv n d)" by simp
  moreover have "go_mod (int n) (int d) = int (n mod d)" "go_div (int n) (int d) = int (n div d)"
    using assms(1) by (simp_all add: zmod_int zdiv_int)
  ultimately show ?thesis
    using assms(1)
    by (cases "n mod d = 0"; cases "n = 0") (simp_all add: ceilFrac_def Let_def cdiv_def add.commute)
qed

text \<open>The geometry an erasure set is created with: the code bounds the numbers of blocks, the block
  sizes in use are at most 10 MiB.\<close>

definition wf_erasure :: "erasure \<Rightarrow> bool" where
  "wf_erasure e \<longleftrightarrow> 0 < dataBlocks e \<and> 0 < parityBlocks e \<and> dataBlocks e + parityBlocks e \<le> 256
     \<and> 0 < blockSize e \<and> blockSize e < 2 ^ 62"

definition dB :: "erasure \<Rightarrow> nat" where
  "dB e = nat (dataBlocks e)"

definition pB :: "erasure \<Rightarrow> nat" where
  "pB e = nat (parityBlocks e)"

definition bS :: "erasure \<Rightarrow> nat" where
  "bS e = nat (blockSize e)"

definition sS :: "erasure \<Rightarrow> nat" where
  "sS e = cdiv (bS e) (dB e)"

text \<open>The bytes of a shard file for a part of \<open>n\<close> bytes.\<close>

definition sF :: "erasure \<Rightarrow> nat \<Rightarrow> nat" where
  "sF e n = (n div bS e) * sS e + cdiv (n mod bS e) (dB e)"

lemma wf_erasure_int:
  assumes "wf_erasure e"
  shows "dataBlocks e = int (dB e)" "parityBlocks e = int (pB e)" "blockSize e = int (bS e)"
    "0 < dB e" "0 < pB e" "0 < bS e" "int (bS e) < 2 ^ 62"
  using assms by (simp_all add: wf_erasure_def dB_def pB_def bS_def)

lemma sS_bounds: "wf_erasure e \<Longrightarrow> 0 < sS e \<and> sS e \<le> bS e"
  using wf_erasure_int [of e] by (simp add: sS_def cdiv_pos cdiv_le)

lemma ShardSize_sS: "wf_erasure e \<Longrightarrow> ShardSize e = int (sS e)"
  using wf_erasure_int [of e] by (simp add: ShardSize_def sS_def ceilFrac_nat)

lemma sF_le:
  assumes "wf_erasure e"
  shows "sF e n \<le> n"
proof -
  note e = wf_erasure_int [OF assms]
  have "(n div bS e) * sS e \<le> (n div bS e) * bS e" using sS_bounds [OF assms] by simp
  moreover have "cdiv (n mod bS e) (dB e) \<le> n mod bS e" using e by (simp add: cdiv_le)
  ultimately have "sF e n \<le> (n div bS e) * bS e + n mod bS e" unfolding sF_def by linarith
  then show ?thesis by simp
qed

lemma sF_0 [simp]: "sF e 0 = 0"
  by (simp add: sF_def)

lemma ShardFileSize_sF:
  assumes "wf_erasure e" and "int n < 2 ^ 63"
  shows "ShardFileSize e (int n) = int (sF e n)"
proof (cases "n = 0")
  case False
  note e = wf_erasure_int [OF assms(1)]
  have "n mod bS e \<le> n" by simp
  then have "int (n mod bS e) < 2 ^ 63" using assms(2) by linarith
  then have "ceilFrac (int n mod int (bS e)) (int (dB e)) = int (cdiv (n mod bS e) (dB e))"
    using e ceilFrac_nat [of "dB e" "n mod bS e"] by (simp add: zmod_int)
  then have "ShardFileSize e (int n) = wrap64 (int (sF e n))"
    using False e by (simp add: ShardFileSize_def Let_def ShardSize_sS assms(1) sF_def zdiv_int)
  moreover have "int (sF e n) < 2 ^ 63" using sF_le [OF assms(1), of n] assms(2) by linarith
  ultimately show ?thesis by simp
qed (simp add: ShardFileSize_def)

text \<open>The data of a part fits in its data shards.\<close>

lemma sF_covers:
  assumes "wf_erasure e"
  shows "n \<le> dB e * sF e n"
proof -
  note e = wf_erasure_int [OF assms]
  have "bS e \<le> dB e * sS e" unfolding sS_def using e by (simp add: cdiv_mult_ge)
  then have "(n div bS e) * bS e \<le> (n div bS e) * (dB e * sS e)" by simp
  moreover have "n mod bS e \<le> dB e * cdiv (n mod bS e) (dB e)" using e by (simp add: cdiv_mult_ge)
  moreover have "dB e * sF e n = (n div bS e) * (dB e * sS e) + dB e * cdiv (n mod bS e) (dB e)"
    by (simp add: sF_def algebra_simps)
  ultimately have "(n div bS e) * bS e + n mod bS e \<le> dB e * sF e n" by linarith
  then show ?thesis by simp
qed

end
