(* ===== verification/Erasure_Read.thy ===== *)
theory Erasure_Read
  imports Erasure_Geometry "HOL-Library.Multiset"
begin

text \<open>
  Reading one block of an object from the drives in parallel (\<open>parallelReader\<close>,
  \<open>cmd/erasure-decode.go\<close>). The main loop of \<open>Read\<close> starts a goroutine for every trigger it
  receives; a goroutine that fails to read asks for another reader by sending a trigger. The loop and
  the goroutines are the steps of the relation \<open>rd_step\<close>, in any interleaving. The readers are
  objects behind the interface \<open>io.ReaderAt\<close>: the parameter \<open>ra\<close> is their method \<open>ReadAt\<close>, and the
  locale \<open>shard_reader\<close> states what a reader of a shard file promises.
\<close>

section \<open>The parallel reader\<close>

text \<open>Readers are pointers: the number of an object in \<open>pr_obj\<close>, which is the position at which the
  caller passed it. Of a buffer only the capacity matters, as \<open>ReadAt\<close> fills the whole slice.\<close>

record 'r pread =
  pr_readers :: "nat option list"
  pr_orgReaders :: "nat option list"
  pr_dataBlocks :: int
  pr_offset :: int
  pr_shardSize :: int
  pr_shardFileSize :: int
  pr_buf :: "nat option list"
  pr_readerToBuf :: "nat list"
  pr_obj :: "'r option list"

definition reader_ptrs :: "'r option list \<Rightarrow> nat option list" where
  "reader_ptrs readers =
     map (\<lambda>i. case readers ! i of None \<Rightarrow> None | Some r \<Rightarrow> Some i) [0..<length readers]"

definition newParallelReader :: "'r option list \<Rightarrow> erasure \<Rightarrow> int \<Rightarrow> int \<Rightarrow> 'r pread" where
  "newParallelReader readers e offset totalLength =
     \<lparr>pr_readers = reader_ptrs readers, pr_orgReaders = reader_ptrs readers,
      pr_dataBlocks = dataBlocks e,
      pr_offset = wrap64 (go_div offset (blockSize e) * ShardSize e),
      pr_shardSize = ShardSize e,
      pr_shardFileSize = ShardFileSize e totalLength,
      pr_buf = replicate (length readers) None,
      pr_readerToBuf = [0..<length readers],
      pr_obj = readers\<rparr>"

fun prefer_loop ::
  "nat \<Rightarrow> bool list \<Rightarrow> nat \<Rightarrow> nat option list \<Rightarrow> nat list \<Rightarrow> nat option list \<times> nat list" where
  "prefer_loop i [] nx rs r2b = (rs, r2b)"
| "prefer_loop i (ok # oks) nx rs r2b =
     (if \<not> ok \<or> rs ! i = None then prefer_loop (Suc i) oks nx rs r2b
      else if i = nx then prefer_loop (Suc i) oks (Suc nx) rs r2b
      else prefer_loop (Suc i) oks (Suc nx) (rs[nx := rs ! i, i := rs ! nx]) (r2b[nx := i, i := nx]))"

definition preferReaders :: "'r pread \<Rightarrow> bool list \<Rightarrow> 'r pread" where
  "preferReaders p prefer =
     (if length prefer \<noteq> length (pr_orgReaders p) then p
      else let (rs, r2b) = prefer_loop 0 prefer 0 (pr_orgReaders p) (pr_readerToBuf p)
           in p\<lparr>pr_readers := rs, pr_readerToBuf := r2b\<rparr>)"

definition canDecode :: "'r pread \<Rightarrow> bytes list \<Rightarrow> bool" where
  "canDecode p bufs \<longleftrightarrow> pr_dataBlocks p \<le> int (present bufs)"

section \<open>Read\<close>

text \<open>Where the main loop is: receiving from the channel of triggers, acting on a trigger, waiting
  for the goroutines, or done. \<open>Panicked\<close> is a crash in a goroutine.\<close>

datatype rd_main = Recv | Check bool | Waiting | Returned | Panicked

text \<open>A goroutine reads and then sends one trigger.\<close>

datatype rd_go = Reading | Sending bool

record 'r rd =
  rd_p :: "'r pread"
  rd_new :: "bytes list"
  rd_trig :: "bool list"
  rd_bitrot :: bool
  rd_missing :: bool
  rd_index :: nat
  rd_run :: "rd_go option list"
  rd_main :: rd_main

text \<open>The shard size of the last block is what is left of the shard file.\<close>

definition clip_shard :: "'r pread \<Rightarrow> 'r pread" where
  "clip_shard p =
     (if pr_shardFileSize p < wrap64 (pr_offset p + pr_shardSize p)
      then p\<lparr>pr_shardSize := wrap64 (pr_shardFileSize p - pr_offset p)\<rparr> else p)"

definition new_bufs :: "'r pread \<Rightarrow> bytes list \<Rightarrow> bytes list" where
  "new_bufs p dst =
     (if length dst \<noteq> length (pr_readers p) then replicate (length (pr_readers p)) []
      else map (\<lambda>b. take 0 b) dst)"

definition rd_start :: "'r pread \<Rightarrow> bytes list \<Rightarrow> 'r rd" where
  "rd_start p bufs =
     \<lparr>rd_p = p, rd_new = bufs, rd_trig = replicate (nat (pr_dataBlocks p)) True, rd_bitrot = False,
      rd_missing = False, rd_index = 0, rd_run = replicate (length (pr_readers p)) None,
      rd_main = Recv\<rparr>"

text \<open>The body of the loop after a trigger is received.\<close>

definition rd_check :: "'r rd \<Rightarrow> bool \<Rightarrow> 'r rd" where
  "rd_check s t =
     (if canDecode (rd_p s) (rd_new s) then s\<lparr>rd_main := Waiting\<rparr>
      else if rd_index s = length (pr_readers (rd_p s)) then s\<lparr>rd_main := Waiting\<rparr>
      else if \<not> t then s\<lparr>rd_main := Recv\<rparr>
      else s\<lparr>rd_run := (rd_run s)[rd_index s := Some Reading], rd_index := Suc (rd_index s),
             rd_main := Recv\<rparr>)"

text \<open>The goroutine of reader \<open>i\<close>, up to the send of its trigger.\<close>

definition go_read :: "('r \<Rightarrow> nat \<Rightarrow> int \<Rightarrow> 'r \<times> (xerr, bytes) result) \<Rightarrow> 'r rd \<Rightarrow> nat \<Rightarrow> 'r rd" where
  "go_read ra s i =
     (let p = rd_p s in
      case pr_readers p ! i of
        None \<Rightarrow> s\<lparr>rd_run := (rd_run s)[i := Some (Sending True)]\<rparr>
      | Some ob \<Rightarrow>
          (let b = pr_readerToBuf p ! i;
               cap = (case pr_buf p ! b of None \<Rightarrow> nat (pr_shardSize p) | Some c \<Rightarrow> c)
           in if pr_shardSize p < 0 \<or> int cap < pr_shardSize p then s\<lparr>rd_main := Panicked\<rparr>
              else case pr_obj p ! ob of
                None \<Rightarrow> s\<lparr>rd_main := Panicked\<rparr>
              | Some r \<Rightarrow>
                  (let (r', res) = ra r (nat (pr_shardSize p)) (pr_offset p);
                       p1 = p\<lparr>pr_buf := (pr_buf p)[b := Some cap], pr_obj := (pr_obj p)[ob := Some r']\<rparr>
                   in case res of
                        Inl err \<Rightarrow>
                          s\<lparr>rd_p := p1\<lparr>pr_orgReaders := (pr_orgReaders p)[b := None],
                                       pr_readers := (pr_readers p)[i := None]\<rparr>,
                            rd_missing := (rd_missing s \<or> errors_Is err errFileNotFound),
                            rd_bitrot := (rd_bitrot s
                              \<or> \<not> errors_Is err errFileNotFound \<and> errors_Is err errFileCorrupt),
                            rd_run := (rd_run s)[i := Some (Sending True)]\<rparr>
                      | Inr data \<Rightarrow>
                          s\<lparr>rd_p := p1, rd_new := (rd_new s)[b := data],
                            rd_run := (rd_run s)[i := Some (Sending False)]\<rparr>)))"

text \<open>The channel is buffered: a send waits while it is full.\<close>

inductive rd_step :: "('r \<Rightarrow> nat \<Rightarrow> int \<Rightarrow> 'r \<times> (xerr, bytes) result) \<Rightarrow> 'r rd \<Rightarrow> 'r rd \<Rightarrow> bool"
  for ra where
  rd_recv: "rd_main s = Recv \<Longrightarrow> rd_trig s = t # ts
     \<Longrightarrow> rd_step ra s (s\<lparr>rd_trig := ts, rd_main := Check t\<rparr>)"
| rd_act: "rd_main s = Check t \<Longrightarrow> rd_step ra s (rd_check s t)"
| rd_go_read: "rd_main s \<noteq> Panicked \<Longrightarrow> i < length (rd_run s) \<Longrightarrow> rd_run s ! i = Some Reading
     \<Longrightarrow> rd_step ra s (go_read ra s i)"
| rd_go_send: "rd_main s \<noteq> Panicked \<Longrightarrow> i < length (rd_run s) \<Longrightarrow> rd_run s ! i = Some (Sending t)
     \<Longrightarrow> length (rd_trig s) < length (pr_readers (rd_p s))
     \<Longrightarrow> rd_step ra s (s\<lparr>rd_trig := rd_trig s @ [t], rd_run := (rd_run s)[i := None]\<rparr>)"
| rd_wait: "rd_main s = Waiting \<Longrightarrow> list_all (\<lambda>g. g = None) (rd_run s)
     \<Longrightarrow> rd_step ra s (s\<lparr>rd_main := Returned\<rparr>)"

text \<open>What \<open>Read\<close> returns once the goroutines are done; no buffers (\<open>nil\<close>) are the empty list.\<close>

definition rd_finish :: "'r rd \<Rightarrow> 'r pread \<times> bytes list \<times> xerr option" where
  "rd_finish s =
     (let p = rd_p s in
      if canDecode p (rd_new s) then
        (p\<lparr>pr_offset := wrap64 (pr_offset p + pr_shardSize p)\<rparr>, rd_new s,
         if rd_missing s then Some errFileNotFound
         else if rd_bitrot s then Some errFileCorrupt else None)
      else (p, [], Some errErasureReadQuorum))"

text \<open>A call of \<open>Read\<close> and an answer it can give. The first \<open>dataBlocks\<close> triggers are sent before
  the loop, into a channel with room for as many as there are readers.\<close>

inductive Read ::
  "('r \<Rightarrow> nat \<Rightarrow> int \<Rightarrow> 'r \<times> (xerr, bytes) result) \<Rightarrow> 'r pread \<Rightarrow> bytes list
     \<Rightarrow> 'r pread \<times> bytes list \<times> xerr option \<Rightarrow> bool" for ra where
  Read_empty: "pr_shardSize (clip_shard p) = 0
     \<Longrightarrow> Read ra p dst (clip_shard p, new_bufs p dst, None)"
| Read_run: "pr_shardSize (clip_shard p) \<noteq> 0
     \<Longrightarrow> nat (pr_dataBlocks p) \<le> length (pr_readers p)
     \<Longrightarrow> (rd_step ra)\<^sup>*\<^sup>* (rd_start (clip_shard p) (new_bufs p dst)) s
     \<Longrightarrow> rd_main s = Returned
     \<Longrightarrow> Read ra p dst (rd_finish s)"

inductive_cases rd_stepE: "rd_step ra s s'"
inductive_cases ReadE: "Read ra p dst res"

section \<open>Preferred readers\<close>

text \<open>Every reader fills the buffer of the shard it reads.\<close>

definition buf_map_ok :: "nat option list \<Rightarrow> nat list \<Rightarrow> bool" where
  "buf_map_ok rs r2b \<longleftrightarrow> (\<forall>i<length rs. \<forall>ob. rs ! i = Some ob \<longrightarrow> r2b ! i = ob)"

lemma prefer_loop_length:
  "length (fst (prefer_loop i oks nx rs r2b)) = length rs
   \<and> length (snd (prefer_loop i oks nx rs r2b)) = length r2b"
  by (induction i oks nx rs r2b rule: prefer_loop.induct) simp_all

lemma prefer_loop_mset:
  "i + length oks \<le> length rs \<Longrightarrow> nx \<le> i \<Longrightarrow> mset (fst (prefer_loop i oks nx rs r2b)) = mset rs"
proof (induction i oks nx rs r2b rule: prefer_loop.induct)
  case (2 i ok oks nx rs r2b)
  then show ?case by (auto simp: mset_swap)
qed simp

text \<open>When all the readers there are, are preferred, the buffers stay matched.\<close>

lemma prefer_loop_ok:
  assumes "i + length oks = length rs" and "length r2b = length rs" and "nx \<le> i"
    and "\<forall>k<nx. rs ! k = Some (r2b ! k)"
    and "\<forall>k. nx \<le> k \<and> k < i \<longrightarrow> rs ! k = None"
    and "\<forall>k. i \<le> k \<and> k < length rs \<longrightarrow> r2b ! k = k \<and> (rs ! k = None \<or> rs ! k = Some k)"
    and "\<forall>k<length oks. rs ! (i + k) \<noteq> None \<longrightarrow> oks ! k"
  shows "buf_map_ok (fst (prefer_loop i oks nx rs r2b)) (snd (prefer_loop i oks nx rs r2b))"
  using assms
proof (induction i oks nx rs r2b rule: prefer_loop.induct)
  case (1 i nx rs r2b)
  then have "\<forall>k<length rs. rs ! k = None \<or> rs ! k = Some (r2b ! k)"
    by (metis add.right_neutral list.size(3) not_le_imp_less)
  then show ?case by (fastforce simp: buf_map_ok_def)
next
  case (2 i ok oks nx rs r2b)
  have tl: "\<forall>k<length oks. rs ! (Suc i + k) \<noteq> None \<longrightarrow> oks ! k"
  proof (intro allI impI)
    fix k assume "k < length oks" "rs ! (Suc i + k) \<noteq> None"
    then show "oks ! k" using "2.prems"(7)[rule_format, of "Suc k"] by simp
  qed
  have hd: "rs ! i \<noteq> None \<Longrightarrow> ok" using "2.prems"(7)[rule_format, of 0] by simp
  have i: "i < length rs" using "2.prems"(1) by simp
  show ?case
  proof (cases "\<not> ok \<or> rs ! i = None")
    case True
    then have "rs ! i = None" using hd by (cases "rs ! i") auto
    with True show ?thesis
      using "2.IH"(1)[OF True] "2.prems" tl by (auto simp: less_Suc_eq)
  next
    case F: False
    then have ri: "rs ! i = Some i" "r2b ! i = i" using "2.prems"(6) i by auto
    show ?thesis
    proof (cases "i = nx")
      case True
      have "buf_map_ok (fst (prefer_loop (Suc i) oks (Suc nx) rs r2b))
              (snd (prefer_loop (Suc i) oks (Suc nx) rs r2b))"
      proof (rule "2.IH"(2)[OF F True])
        show "\<forall>k<Suc nx. rs ! k = Some (r2b ! k)"
          using "2.prems"(4) ri True by (simp add: less_Suc_eq)
      qed (use "2.prems" tl True in auto)
      with F True show ?thesis by auto
    next
      case False
      with "2.prems"(3) have nx: "nx < i" by simp
      then have rn: "rs ! nx = None" using "2.prems"(5) by simp
      show ?thesis
        using "2.IH"(3)[OF F False] "2.prems" tl F False ri rn nx i
        by (auto simp: less_Suc_eq nth_list_update)
    qed
  qed
qed

text \<open>With mixed preferences they do not: after the second swap two readers share a buffer. No caller mixes
  them, since the drives of a set are all local or all remote.\<close>

lemma prefer_loop_mixed:
  "prefer_loop 0 [False, True, True] 0 [Some 0, Some 1, Some 2] [0, 1, 2] = ([Some 1, Some 2, Some 0], [1, 2, 1])"
  by simp

lemma reader_ptrs_nth:
  "length (reader_ptrs readers) = length readers"
  "i < length readers \<Longrightarrow> reader_ptrs readers ! i = (case readers ! i of None \<Rightarrow> None | Some r \<Rightarrow> Some i)"
  by (simp_all add: reader_ptrs_def split: option.split)

section \<open>What a reader of a shard file promises\<close>

text \<open>A shard file is a list of segments, one for every block; all but the last have \<open>sz\<close> bytes. A
  reader that is opened is at a segment (\<open>Some k\<close>), one that is not yet opened can start at any.
  \<open>intact\<close> readers deliver the segments in order; \<open>honest\<close> ones may fail, but what they deliver is
  the segment that was asked for.\<close>

locale shard_reader =
  fixes ra :: "'r \<Rightarrow> nat \<Rightarrow> int \<Rightarrow> 'r \<times> (xerr, bytes) result"
    and honest :: "'r \<Rightarrow> bytes list \<Rightarrow> nat option \<Rightarrow> bool"
    and intact :: "'r \<Rightarrow> bytes list \<Rightarrow> nat option \<Rightarrow> bool"
    and sz :: nat
  assumes honest_fresh: "honest r segs None \<Longrightarrow> honest r segs (Some k)"
    and intact_fresh: "intact r segs None \<Longrightarrow> intact r segs (Some k)"
    and honest_read: "honest r segs (Some k) \<Longrightarrow> k < length segs
      \<Longrightarrow> ra r (length (segs ! k)) (int (k * sz)) = (r', res)
      \<Longrightarrow> (\<exists>err. res = Inl err) \<or> res = Inr (segs ! k) \<and> honest r' segs (Some (Suc k))"
    and intact_read: "intact r segs (Some k) \<Longrightarrow> k < length segs
      \<Longrightarrow> \<exists>r'. ra r (length (segs ! k)) (int (k * sz)) = (r', Inr (segs ! k))
            \<and> intact r' segs (Some (Suc k))"

text \<open>The segments of the shard files that the objects \<open>0, 1, \<dots>\<close> read: \<open>m\<close> of them each, cut from
  files of \<open>F\<close> bytes.\<close>

definition segs_ok :: "(nat \<Rightarrow> bytes list) \<Rightarrow> nat \<Rightarrow> nat \<Rightarrow> nat \<Rightarrow> nat \<Rightarrow> bool" where
  "segs_ok segs n m sz F \<longleftrightarrow> (\<forall>ob<n. length (segs ob) = m
     \<and> (\<forall>k<m. k * sz < F \<and> length (segs ob ! k) = min sz (F - k * sz)))"

text \<open>The reader between two calls of \<open>Read\<close>, the next one for block \<open>k\<close>: the readers that are left
  fill the buffers of their shards; the first \<open>M\<close> of them are opened and at segment \<open>k\<close>, the others
  are not; those in \<open>Good\<close> are all there and intact.\<close>

definition rdr_slot_ok ::
  "('r \<Rightarrow> bytes list \<Rightarrow> nat option \<Rightarrow> bool) \<Rightarrow> ('r \<Rightarrow> bytes list \<Rightarrow> nat option \<Rightarrow> bool)
     \<Rightarrow> (nat \<Rightarrow> bytes list) \<Rightarrow> nat set \<Rightarrow> nat option \<Rightarrow> 'r pread \<Rightarrow> nat \<Rightarrow> bool" where
  "rdr_slot_ok hon itc segs Good pos p i \<longleftrightarrow>
     (\<forall>ob. pr_readers p ! i = Some ob \<longrightarrow>
        ob < length (pr_readers p) \<and> pr_readerToBuf p ! i = ob
        \<and> (\<exists>r. pr_obj p ! ob = Some r \<and> hon r (segs ob) pos \<and> (ob \<in> Good \<longrightarrow> itc r (segs ob) pos)))"

definition pread_shape :: "nat \<Rightarrow> nat \<Rightarrow> 'r pread \<Rightarrow> bool" where
  "pread_shape n d p \<longleftrightarrow> length (pr_readers p) = n \<and> length (pr_obj p) = n \<and> length (pr_buf p) = n
     \<and> length (pr_readerToBuf p) = n \<and> pr_dataBlocks p = int d \<and> 0 < d \<and> d \<le> n
     \<and> (\<forall>i<n. \<forall>j<n. \<forall>ob. pr_readers p ! i = Some ob \<and> pr_readers p ! j = Some ob \<longrightarrow> i = j)
     \<and> (\<forall>b<n. \<forall>c. pr_buf p ! b = Some c \<longrightarrow> pr_shardSize p \<le> int c)"

definition pread_ok ::
  "('r \<Rightarrow> bytes list \<Rightarrow> nat option \<Rightarrow> bool) \<Rightarrow> ('r \<Rightarrow> bytes list \<Rightarrow> nat option \<Rightarrow> bool)
     \<Rightarrow> (nat \<Rightarrow> bytes list) \<Rightarrow> nat set \<Rightarrow> nat \<Rightarrow> nat \<Rightarrow> nat \<Rightarrow> nat \<Rightarrow> 'r pread \<Rightarrow> bool" where
  "pread_ok hon itc segs Good n d k M p \<longleftrightarrow>
     pread_shape n d p
     \<and> (\<forall>i<n. rdr_slot_ok hon itc segs Good (if i < M then Some k else None) p i)
     \<and> (M = 0 \<or> card {i. i < M \<and> pr_readers p ! i \<noteq> None} = d) \<and> M \<le> n
     \<and> Good \<subseteq> {ob. \<exists>i<n. pr_readers p ! i = Some ob}"

section \<open>The invariant of Read\<close>

text \<open>What is known of reader \<open>i\<close> while block \<open>k\<close> is read, \<open>p0\<close> being the parallel reader at the
  start: either its goroutine has read (the reader is gone, or its segment is in the buffer), or
  nothing has happened to it.\<close>

definition slot_read ::
  "('r \<Rightarrow> bytes list \<Rightarrow> nat option \<Rightarrow> bool) \<Rightarrow> ('r \<Rightarrow> bytes list \<Rightarrow> nat option \<Rightarrow> bool)
     \<Rightarrow> (nat \<Rightarrow> bytes list) \<Rightarrow> nat set \<Rightarrow> nat \<Rightarrow> 'r pread \<Rightarrow> 'r rd \<Rightarrow> nat \<Rightarrow> bool" where
  "slot_read hon itc segs Good k p0 s i \<longleftrightarrow>
     (case pr_readers (rd_p s) ! i of
        None \<Rightarrow> rd_run s ! i \<noteq> Some (Sending False)
          \<and> (\<forall>ob. pr_readers p0 ! i = Some ob \<longrightarrow> ob \<notin> Good)
      | Some ob \<Rightarrow> rd_run s ! i \<noteq> Some (Sending True) \<and> pr_readers p0 ! i = Some ob
          \<and> rd_new s ! ob = segs ob ! k
          \<and> (\<exists>r. pr_obj (rd_p s) ! ob = Some r \<and> hon r (segs ob) (Some (Suc k))
                \<and> (ob \<in> Good \<longrightarrow> itc r (segs ob) (Some (Suc k)))))"

definition slot_same :: "'r pread \<Rightarrow> 'r rd \<Rightarrow> nat \<Rightarrow> bool" where
  "slot_same p0 s i \<longleftrightarrow>
     pr_readers (rd_p s) ! i = pr_readers p0 ! i
     \<and> (\<forall>ob. pr_readers p0 ! i = Some ob \<longrightarrow> pr_obj (rd_p s) ! ob = pr_obj p0 ! ob \<and> rd_new s ! ob = [])"

definition rd_slot ::
  "('r \<Rightarrow> bytes list \<Rightarrow> nat option \<Rightarrow> bool) \<Rightarrow> ('r \<Rightarrow> bytes list \<Rightarrow> nat option \<Rightarrow> bool)
     \<Rightarrow> (nat \<Rightarrow> bytes list) \<Rightarrow> nat set \<Rightarrow> nat \<Rightarrow> 'r pread \<Rightarrow> 'r rd \<Rightarrow> nat \<Rightarrow> bool" where
  "rd_slot hon itc segs Good k p0 s i \<longleftrightarrow>
     (if i < rd_index s \<and> rd_run s ! i \<noteq> Some Reading then slot_read hon itc segs Good k p0 s i
      else (rd_index s \<le> i \<longrightarrow> rd_run s ! i = None) \<and> slot_same p0 s i)"

definition rd_static ::
  "('r \<Rightarrow> bytes list \<Rightarrow> nat option \<Rightarrow> bool) \<Rightarrow> ('r \<Rightarrow> bytes list \<Rightarrow> nat option \<Rightarrow> bool)
     \<Rightarrow> (nat \<Rightarrow> bytes list) \<Rightarrow> nat set \<Rightarrow> nat \<Rightarrow> nat \<Rightarrow> nat \<Rightarrow> nat \<Rightarrow> 'r pread \<Rightarrow> bool" where
  "rd_static hon itc segs Good sz n d k p0 \<longleftrightarrow>
     pread_shape n d p0 \<and> (\<forall>i<n. rdr_slot_ok hon itc segs Good (Some k) p0 i)
     \<and> pr_offset p0 = int (k * sz) \<and> 0 < pr_shardSize p0
     \<and> (\<forall>ob<n. k < length (segs ob) \<and> int (length (segs ob ! k)) = pr_shardSize p0)
     \<and> Good \<subseteq> {ob. \<exists>i<n. pr_readers p0 ! i = Some ob}"

definition rd_shape :: "(nat \<Rightarrow> bytes list) \<Rightarrow> nat \<Rightarrow> nat \<Rightarrow> 'r pread \<Rightarrow> 'r rd \<Rightarrow> bool" where
  "rd_shape segs n k p0 s \<longleftrightarrow>
     length (pr_readers (rd_p s)) = n \<and> length (pr_obj (rd_p s)) = n \<and> length (pr_buf (rd_p s)) = n
     \<and> length (rd_new s) = n \<and> length (rd_run s) = n
     \<and> pr_readerToBuf (rd_p s) = pr_readerToBuf p0 \<and> pr_dataBlocks (rd_p s) = pr_dataBlocks p0
     \<and> pr_offset (rd_p s) = pr_offset p0 \<and> pr_shardSize (rd_p s) = pr_shardSize p0
     \<and> pr_shardFileSize (rd_p s) = pr_shardFileSize p0
     \<and> (\<forall>b<n. \<forall>c. pr_buf (rd_p s) ! b = Some c \<longrightarrow> pr_shardSize p0 \<le> int c)
     \<and> rd_index s \<le> n \<and> rd_main s \<noteq> Panicked
     \<and> (\<forall>b<n. rd_new s ! b = []
            \<or> rd_new s ! b = segs b ! k \<and> (\<exists>i<rd_index s. pr_readers (rd_p s) ! i = Some b))"

definition rd_inv ::
  "('r \<Rightarrow> bytes list \<Rightarrow> nat option \<Rightarrow> bool) \<Rightarrow> ('r \<Rightarrow> bytes list \<Rightarrow> nat option \<Rightarrow> bool)
     \<Rightarrow> (nat \<Rightarrow> bytes list) \<Rightarrow> nat set \<Rightarrow> nat \<Rightarrow> nat \<Rightarrow> 'r pread \<Rightarrow> 'r rd \<Rightarrow> bool" where
  "rd_inv hon itc segs Good n k p0 s \<longleftrightarrow>
     rd_shape segs n k p0 s \<and> (\<forall>i<n. rd_slot hon itc segs Good k p0 s i)"

text \<open>Counting: the triggers on their way, the goroutines that may still send one and the shards
  that are read are together as many as the block needs.\<close>

definition gos :: "rd_go \<Rightarrow> 'r rd \<Rightarrow> nat" where
  "gos g s = length (filter (\<lambda>x. x = Some g) (rd_run s))"

definition trues :: "'r rd \<Rightarrow> nat" where
  "trues s = length (filter (\<lambda>t. t) (rd_trig s)) + (if rd_main s = Check True then 1 else 0)"

definition in_flight :: "'r rd \<Rightarrow> nat" where
  "in_flight s = length (rd_trig s) + length (filter (\<lambda>x. x \<noteq> None) (rd_run s))
     + (case rd_main s of Check t \<Rightarrow> 1 | _ \<Rightarrow> 0)"

definition rd_count :: "nat \<Rightarrow> nat \<Rightarrow> 'r rd \<Rightarrow> bool" where
  "rd_count n d s \<longleftrightarrow>
     in_flight s \<le> d \<and> gos Reading s + present (rd_new s) \<le> d
     \<and> (case rd_main s of
          Recv \<Rightarrow> trues s + gos Reading s + gos (Sending True) s + present (rd_new s) = d
             \<and> (present (rd_new s) = d \<longrightarrow> 0 < length (rd_trig s) + gos (Sending False) s)
        | Check t \<Rightarrow> trues s + gos Reading s + gos (Sending True) s + present (rd_new s) = d
        | Waiting \<Rightarrow> d \<le> present (rd_new s) \<or> rd_index s = n
        | Returned \<Rightarrow> (d \<le> present (rd_new s) \<or> rd_index s = n) \<and> list_all (\<lambda>g. g = None) (rd_run s)
        | Panicked \<Rightarrow> True)"

section \<open>The steps keep the invariant\<close>

lemma rd_slot_other:
  assumes "rd_slot hon itc segs Good k p0 s j"
    and "pr_readers (rd_p s') ! j = pr_readers (rd_p s) ! j" and "rd_run s' ! j = rd_run s ! j"
    and "rd_index s' = rd_index s"
    and "\<And>ob. pr_readers p0 ! j = Some ob
           \<Longrightarrow> pr_obj (rd_p s') ! ob = pr_obj (rd_p s) ! ob \<and> rd_new s' ! ob = rd_new s ! ob"
  shows "rd_slot hon itc segs Good k p0 s' j"
proof (cases "j < rd_index s \<and> rd_run s ! j \<noteq> Some Reading")
  case True
  then have sr: "slot_read hon itc segs Good k p0 s j" using assms(1) by (simp add: rd_slot_def)
  have "slot_read hon itc segs Good k p0 s' j"
  proof (cases "pr_readers (rd_p s) ! j")
    case (Some ob)
    with sr have "pr_readers p0 ! j = Some ob" by (simp add: slot_read_def)
    with sr Some assms(2,3) assms(5)[of ob] show ?thesis by (simp add: slot_read_def)
  qed (use sr assms(2,3) in \<open>simp add: slot_read_def\<close>)
  with True assms(3,4) show ?thesis by (simp add: rd_slot_def)
next
  case False
  then have "slot_same p0 s j" "rd_index s \<le> j \<longrightarrow> rd_run s ! j = None"
    using assms(1) by (auto simp: rd_slot_def)
  then have "slot_same p0 s' j" using assms(2,5) by (auto simp: slot_same_def)
  with False \<open>rd_index s \<le> j \<longrightarrow> rd_run s ! j = None\<close> assms(3,4) show ?thesis
    by (auto simp: rd_slot_def)
qed

lemma rd_inj:
  assumes "rd_static hon itc segs Good sz n d k p0" and "i < n" and "j < n" and "i \<noteq> j"
    and "pr_readers p0 ! i = Some ob"
  shows "pr_readers p0 ! j \<noteq> Some ob"
  using assms unfolding rd_static_def pread_shape_def by metis

text \<open>The buffer that a goroutine allocates is large enough.\<close>

definition grown :: "nat option list \<Rightarrow> nat \<Rightarrow> int \<Rightarrow> nat option list" where
  "grown buf b sh = buf[b := Some (case buf ! b of None \<Rightarrow> nat sh | Some c \<Rightarrow> c)]"

lemma grown_ok:
  assumes "\<forall>b<n. \<forall>c. buf ! b = Some c \<longrightarrow> sh \<le> int c" and "length buf = n" and "0 < sh" and "x < n"
  shows "\<forall>b<n. \<forall>c. grown buf x sh ! b = Some c \<longrightarrow> sh \<le> int c"
  using assms by (auto simp: grown_def nth_list_update split: if_splits option.splits)

text \<open>The three things that can happen to a goroutine that reads.\<close>

definition gone :: "'r rd \<Rightarrow> nat \<Rightarrow> nat \<Rightarrow> 'r \<Rightarrow> xerr \<Rightarrow> 'r rd" where
  "gone s i ob r' err =
     s\<lparr>rd_p := (rd_p s)\<lparr>pr_readers := (pr_readers (rd_p s))[i := None],
           pr_orgReaders := (pr_orgReaders (rd_p s))[ob := None],
           pr_buf := grown (pr_buf (rd_p s)) ob (pr_shardSize (rd_p s)),
           pr_obj := (pr_obj (rd_p s))[ob := Some r']\<rparr>,
       rd_missing := (rd_missing s \<or> errors_Is err errFileNotFound),
       rd_bitrot := (rd_bitrot s \<or> \<not> errors_Is err errFileNotFound \<and> errors_Is err errFileCorrupt),
       rd_run := (rd_run s)[i := Some (Sending True)]\<rparr>"

definition got :: "'r rd \<Rightarrow> nat \<Rightarrow> nat \<Rightarrow> 'r \<Rightarrow> bytes \<Rightarrow> 'r rd" where
  "got s i ob r' data =
     s\<lparr>rd_p := (rd_p s)\<lparr>pr_buf := grown (pr_buf (rd_p s)) ob (pr_shardSize (rd_p s)),
           pr_obj := (pr_obj (rd_p s))[ob := Some r']\<rparr>,
       rd_new := (rd_new s)[ob := data],
       rd_run := (rd_run s)[i := Some (Sending False)]\<rparr>"

lemma gone_simps [simp]:
  "pr_readers (rd_p (gone s i ob r' err)) = (pr_readers (rd_p s))[i := None]"
  "pr_obj (rd_p (gone s i ob r' err)) = (pr_obj (rd_p s))[ob := Some r']"
  "pr_buf (rd_p (gone s i ob r' err)) = grown (pr_buf (rd_p s)) ob (pr_shardSize (rd_p s))"
  "pr_readerToBuf (rd_p (gone s i ob r' err)) = pr_readerToBuf (rd_p s)"
  "pr_dataBlocks (rd_p (gone s i ob r' err)) = pr_dataBlocks (rd_p s)"
  "pr_offset (rd_p (gone s i ob r' err)) = pr_offset (rd_p s)"
  "pr_shardSize (rd_p (gone s i ob r' err)) = pr_shardSize (rd_p s)"
  "pr_shardFileSize (rd_p (gone s i ob r' err)) = pr_shardFileSize (rd_p s)"
  "rd_new (gone s i ob r' err) = rd_new s" "rd_trig (gone s i ob r' err) = rd_trig s"
  "rd_index (gone s i ob r' err) = rd_index s" "rd_main (gone s i ob r' err) = rd_main s"
  "rd_run (gone s i ob r' err) = (rd_run s)[i := Some (Sending True)]"
  by (simp_all add: gone_def)

lemma got_simps [simp]:
  "pr_readers (rd_p (got s i ob r' data)) = pr_readers (rd_p s)"
  "pr_obj (rd_p (got s i ob r' data)) = (pr_obj (rd_p s))[ob := Some r']"
  "pr_buf (rd_p (got s i ob r' data)) = grown (pr_buf (rd_p s)) ob (pr_shardSize (rd_p s))"
  "pr_readerToBuf (rd_p (got s i ob r' data)) = pr_readerToBuf (rd_p s)"
  "pr_dataBlocks (rd_p (got s i ob r' data)) = pr_dataBlocks (rd_p s)"
  "pr_offset (rd_p (got s i ob r' data)) = pr_offset (rd_p s)"
  "pr_shardSize (rd_p (got s i ob r' data)) = pr_shardSize (rd_p s)"
  "pr_shardFileSize (rd_p (got s i ob r' data)) = pr_shardFileSize (rd_p s)"
  "rd_new (got s i ob r' data) = (rd_new s)[ob := data]" "rd_trig (got s i ob r' data) = rd_trig s"
  "rd_index (got s i ob r' data) = rd_index s" "rd_main (got s i ob r' data) = rd_main s"
  "rd_run (got s i ob r' data) = (rd_run s)[i := Some (Sending False)]"
  by (simp_all add: got_def)

lemma length_grown [simp]: "length (grown buf b sh) = length buf"
  by (simp add: grown_def)

text \<open>What is left to do; every step makes it smaller.\<close>

fun go_weight :: "rd_go option \<Rightarrow> nat" where
  "go_weight None = 0"
| "go_weight (Some Reading) = 4"
| "go_weight (Some (Sending t)) = 3"

fun main_weight :: "rd_main \<Rightarrow> nat" where
  "main_weight Recv = 2"
| "main_weight (Check t) = 3"
| "main_weight Waiting = 1"
| "main_weight m = 0"

definition rd_weight :: "'r rd \<Rightarrow> nat" where
  "rd_weight s = 4 * (length (pr_readers (rd_p s)) - rd_index s) + 2 * length (rd_trig s)
     + (\<Sum>g\<leftarrow>rd_run s. go_weight g) + main_weight (rd_main s)"

definition org_kept :: "nat set \<Rightarrow> 'r pread \<Rightarrow> 'r pread \<Rightarrow> bool" where
  "org_kept Good p p' \<longleftrightarrow> length (pr_orgReaders p') = length (pr_orgReaders p)
     \<and> (\<forall>ob\<in>Good. pr_orgReaders p' ! ob = pr_orgReaders p ! ob)"

lemma org_kept_trans: "org_kept Good p q \<Longrightarrow> org_kept Good q r \<Longrightarrow> org_kept Good p r"
  by (simp add: org_kept_def)

context shard_reader
begin

lemma go_read_cases:
  assumes st: "rd_static honest intact segs Good sz n d k p0"
    and inv: "rd_inv honest intact segs Good n k p0 s"
    and i: "i < n" and run: "rd_run s ! i = Some Reading"
  obtains
    (none) "pr_readers p0 ! i = None" "pr_readers (rd_p s) ! i = None" "i < rd_index s"
      "go_read ra s i = s\<lparr>rd_run := (rd_run s)[i := Some (Sending True)]\<rparr>"
  | (fail) ob r' err where "pr_readers p0 ! i = Some ob" "pr_readers (rd_p s) ! i = Some ob"
      "ob < n" "i < rd_index s" "ob \<notin> Good" "rd_new s ! ob = []" "go_read ra s i = gone s i ob r' err"
  | (fine) ob r' where "pr_readers p0 ! i = Some ob" "pr_readers (rd_p s) ! i = Some ob"
      "ob < n" "i < rd_index s" "rd_new s ! ob = []" "honest r' (segs ob) (Some (Suc k))"
      "ob \<in> Good \<longrightarrow> intact r' (segs ob) (Some (Suc k))" "go_read ra s i = got s i ob r' (segs ob ! k)"
proof -
  have sh: "rd_shape segs n k p0 s" and sl: "rd_slot honest intact segs Good k p0 s i"
    using inv i by (auto simp: rd_inv_def)
  have idx: "i < rd_index s" using sl run by (auto simp: rd_slot_def not_less split: if_splits)
  have same: "slot_same p0 s i" using sl run by (simp add: rd_slot_def)
  show thesis
  proof (cases "pr_readers p0 ! i")
    case None
    with same have "pr_readers (rd_p s) ! i = None" by (simp add: slot_same_def)
    with None idx show thesis by (intro none) (simp_all add: go_read_def Let_def)
  next
    case (Some ob)
    have cur: "pr_readers (rd_p s) ! i = Some ob" and ob0: "pr_obj (rd_p s) ! ob = pr_obj p0 ! ob"
      and new: "rd_new s ! ob = []"
      using same Some by (simp_all add: slot_same_def)
    have "rdr_slot_ok honest intact segs Good (Some k) p0 i" "length (pr_readers p0) = n"
      using st i by (auto simp: rd_static_def pread_shape_def)
    with Some obtain r where ob: "ob < n" and r2b: "pr_readerToBuf p0 ! i = ob"
      and r: "pr_obj p0 ! ob = Some r" and hon: "honest r (segs ob) (Some k)"
      and itc: "ob \<in> Good \<longrightarrow> intact r (segs ob) (Some k)"
      by (auto simp: rdr_slot_ok_def)
    have k: "k < length (segs ob)" and len: "length (segs ob ! k) = nat (pr_shardSize (rd_p s))"
      and off: "pr_offset (rd_p s) = int (k * sz)" and pos: "0 < pr_shardSize (rd_p s)"
      using st sh ob by (auto simp: rd_static_def rd_shape_def)
    obtain r' res where res: "ra r (length (segs ob ! k)) (int (k * sz)) = (r', res)"
      by (cases "ra r (length (segs ob ! k)) (int (k * sz))")
    have cap: "\<not> int (case pr_buf (rd_p s) ! ob of None \<Rightarrow> nat (pr_shardSize (rd_p s)) | Some c \<Rightarrow> c)
                  < pr_shardSize (rd_p s)"
      using sh ob pos by (auto simp: rd_shape_def split: option.split)
    have b: "pr_readerToBuf (rd_p s) ! i = ob" using sh r2b by (simp add: rd_shape_def)
    have go: "go_read ra s i = (case res of Inl err \<Rightarrow> gone s i ob r' err | Inr data \<Rightarrow> got s i ob r' data)"
      using cur b cap pos ob0 r res len off
      by (simp add: go_read_def Let_def gone_def got_def grown_def split: sum.split)
    show thesis
    proof (cases res)
      case (Inl err)
      then have "ob \<notin> Good" using intact_read [OF _ k] itc res by fastforce
      with Some cur ob idx new go Inl show thesis by (intro fail) simp_all
    next
      case (Inr data)
      then have d: "data = segs ob ! k" "honest r' (segs ob) (Some (Suc k))"
        using honest_read [OF hon k res] by auto
      have "ob \<in> Good \<longrightarrow> intact r' (segs ob) (Some (Suc k))"
        using intact_read [OF _ k] itc res by fastforce
      with Some cur ob idx new go Inr d show thesis by (intro fine) simp_all
    qed
  qed
qed

lemma rd_inv_main:
  assumes "rd_inv honest intact segs Good n k p0 s" and "m \<noteq> Panicked"
  shows "rd_inv honest intact segs Good n k p0 (s\<lparr>rd_trig := ts, rd_main := m\<rparr>)"
  using assms
  by (auto simp: rd_inv_def rd_shape_def intro: rd_slot_other)

lemma rd_inv_check:
  assumes inv: "rd_inv honest intact segs Good n k p0 s" and "rd_main s = Check t"
  shows "rd_inv honest intact segs Good n k p0 (rd_check s t)"
proof (cases "rd_check s t = s\<lparr>rd_main := Waiting\<rparr> \<or> rd_check s t = s\<lparr>rd_main := Recv\<rparr>")
  case True
  then show ?thesis
    using rd_inv_main [OF inv, of Waiting "rd_trig s"] rd_inv_main [OF inv, of Recv "rd_trig s"] by auto
next
  case False
  define s' where "s' = s\<lparr>rd_run := (rd_run s)[rd_index s := Some Reading], rd_index := Suc (rd_index s),
             rd_main := Recv\<rparr>"
  have s': "rd_check s t = s'" and ne: "rd_index s \<noteq> length (pr_readers (rd_p s))"
    using False by (auto simp: rd_check_def s'_def split: if_splits)
  have sh: "rd_shape segs n k p0 s" and sl: "\<forall>i<n. rd_slot honest intact segs Good k p0 s i"
    using inv by (auto simp: rd_inv_def)
  have idx: "rd_index s < n" using sh ne by (simp add: rd_shape_def)
  have "rd_slot honest intact segs Good k p0 s' i" if i: "i < n" for i
  proof (cases "i = rd_index s")
    case True
    have "slot_same p0 s i" using sl i True by (auto simp: rd_slot_def)
    moreover have "i < length (rd_run s)" using sh i by (simp add: rd_shape_def)
    ultimately show ?thesis using True by (simp add: rd_slot_def slot_same_def s'_def)
  next
    case F: False
    show ?thesis
    proof (cases "i < rd_index s \<and> rd_run s ! i \<noteq> Some Reading")
      case True
      then have "slot_read honest intact segs Good k p0 s i" using sl i by (simp add: rd_slot_def)
      then show ?thesis using True F by (simp add: rd_slot_def slot_read_def s'_def split: option.splits)
    next
      case False
      then have "slot_same p0 s i" "rd_index s \<le> i \<longrightarrow> rd_run s ! i = None"
        using sl i by (auto simp: rd_slot_def)
      then show ?thesis using False F by (auto simp: rd_slot_def slot_same_def s'_def)
    qed
  qed
  moreover have "rd_shape segs n k p0 s'"
    using sh idx unfolding rd_shape_def s'_def by (auto simp: less_Suc_eq)
  ultimately show ?thesis using s' by (simp add: rd_inv_def)
qed

lemma rd_inv_send:
  assumes inv: "rd_inv honest intact segs Good n k p0 s" and i: "i < n"
    and run: "rd_run s ! i = Some (Sending t)"
  shows "rd_inv honest intact segs Good n k p0
           (s\<lparr>rd_trig := rd_trig s @ [t], rd_run := (rd_run s)[i := None]\<rparr>)" (is "rd_inv _ _ _ _ _ _ _ ?s")
proof -
  have sh: "rd_shape segs n k p0 s" and sl: "\<forall>i<n. rd_slot honest intact segs Good k p0 s i"
    using inv by (auto simp: rd_inv_def)
  have "rd_slot honest intact segs Good k p0 ?s j" if j: "j < n" for j
  proof (cases "j = i")
    case True
    have "rd_slot honest intact segs Good k p0 s i" using sl i by simp
    then have idx: "i < rd_index s" and sr: "slot_read honest intact segs Good k p0 s i"
      using run by (auto simp: rd_slot_def not_less split: if_splits)
    have len: "i < length (rd_run s)" using sh i by (simp add: rd_shape_def)
    have "slot_read honest intact segs Good k p0 ?s i"
      using sr len by (simp add: slot_read_def split: option.splits)
    with True idx len show ?thesis by (simp add: rd_slot_def)
  next
    case False
    show ?thesis by (rule rd_slot_other [of _ _ _ _ _ _ s]) (use sl j False in simp_all)
  qed
  then show ?thesis using sh by (simp add: rd_inv_def rd_shape_def)
qed

lemma rd_inv_none:
  assumes inv: "rd_inv honest intact segs Good n k p0 s" and i: "i < n" "i < rd_index s"
    and "pr_readers p0 ! i = None" and "pr_readers (rd_p s) ! i = None"
  shows "rd_inv honest intact segs Good n k p0 (s\<lparr>rd_run := (rd_run s)[i := Some (Sending True)]\<rparr>)"
    (is "rd_inv _ _ _ _ _ _ _ ?s")
proof -
  have sh: "rd_shape segs n k p0 s" and sl: "\<And>i. i < n \<Longrightarrow> rd_slot honest intact segs Good k p0 s i"
    using inv by (auto simp: rd_inv_def)
  have len: "length (rd_run s) = n" using sh by (simp add: rd_shape_def)
  have "rd_slot honest intact segs Good k p0 ?s j" if j: "j < n" for j
  proof (cases "j = i")
    case True
    then show ?thesis using assms len by (simp add: rd_slot_def slot_read_def)
  next
    case False
    show ?thesis by (rule rd_slot_other [OF sl [OF j]]) (use False in simp_all)
  qed
  moreover have "rd_shape segs n k p0 ?s" using sh by (simp add: rd_shape_def)
  ultimately show ?thesis by (simp add: rd_inv_def)
qed

lemma rd_inv_gone:
  assumes st: "rd_static honest intact segs Good sz n d k p0"
    and inv: "rd_inv honest intact segs Good n k p0 s" and i: "i < n" "i < rd_index s"
    and p0: "pr_readers p0 ! i = Some ob" and ps: "pr_readers (rd_p s) ! i = Some ob"
    and ob: "ob < n" "ob \<notin> Good" "rd_new s ! ob = []"
  shows "rd_inv honest intact segs Good n k p0 (gone s i ob r' err)"
proof -
  have sh: "rd_shape segs n k p0 s" and sl: "\<And>i. i < n \<Longrightarrow> rd_slot honest intact segs Good k p0 s i"
    using inv by (auto simp: rd_inv_def)
  have len: "length (rd_run s) = n" "length (pr_readers (rd_p s)) = n"
    using sh by (simp_all add: rd_shape_def)
  have "rd_slot honest intact segs Good k p0 (gone s i ob r' err) j" if j: "j < n" for j
  proof (cases "j = i")
    case True
    then show ?thesis using assms len by (simp add: rd_slot_def slot_read_def)
  next
    case False
    then have "pr_readers p0 ! j \<noteq> Some ob" using rd_inj [OF st i(1) j _ p0] by simp
    then show ?thesis
      by (intro rd_slot_other [OF sl [OF j]]) (use False in auto)
  qed
  moreover have "rd_shape segs n k p0 (gone s i ob r' err)"
  proof -
    have "\<forall>b<n. \<forall>c. grown (pr_buf (rd_p s)) ob (pr_shardSize p0) ! b = Some c \<longrightarrow> pr_shardSize p0 \<le> int c"
      by (rule grown_ok) (use sh st ob in \<open>auto simp: rd_shape_def rd_static_def\<close>)
    moreover have "rd_new s ! b = [] \<or> rd_new s ! b = segs b ! k
        \<and> (\<exists>j<rd_index s. (pr_readers (rd_p s))[i := None] ! j = Some b)" if b: "b < n" for b
    proof (cases "rd_new s ! b = []")
      case False
      then obtain j where j: "j < rd_index s" "pr_readers (rd_p s) ! j = Some b" "rd_new s ! b = segs b ! k"
        using sh b by (auto simp: rd_shape_def)
      then have "j \<noteq> i" using ps ob False by auto
      then show ?thesis using j by auto
    qed simp
    ultimately show ?thesis using sh by (simp add: rd_shape_def)
  qed
  ultimately show ?thesis by (simp add: rd_inv_def)
qed

lemma rd_inv_got:
  assumes st: "rd_static honest intact segs Good sz n d k p0"
    and inv: "rd_inv honest intact segs Good n k p0 s" and i: "i < n" "i < rd_index s"
    and p0: "pr_readers p0 ! i = Some ob" and ps: "pr_readers (rd_p s) ! i = Some ob"
    and ob: "ob < n" and hon: "honest r' (segs ob) (Some (Suc k))"
    and itc: "ob \<in> Good \<longrightarrow> intact r' (segs ob) (Some (Suc k))"
  shows "rd_inv honest intact segs Good n k p0 (got s i ob r' (segs ob ! k))"
proof -
  have sh: "rd_shape segs n k p0 s" and sl: "\<And>i. i < n \<Longrightarrow> rd_slot honest intact segs Good k p0 s i"
    using inv by (auto simp: rd_inv_def)
  have len: "length (rd_run s) = n" "length (pr_readers (rd_p s)) = n" "length (pr_obj (rd_p s)) = n"
    "length (rd_new s) = n"
    using sh by (simp_all add: rd_shape_def)
  have "rd_slot honest intact segs Good k p0 (got s i ob r' (segs ob ! k)) j" if j: "j < n" for j
  proof (cases "j = i")
    case True
    then show ?thesis using assms len by (simp add: rd_slot_def slot_read_def)
  next
    case False
    then have "pr_readers p0 ! j \<noteq> Some ob" using rd_inj [OF st i(1) j _ p0] by simp
    then show ?thesis
      by (intro rd_slot_other [OF sl [OF j]]) (use False in auto)
  qed
  moreover have "rd_shape segs n k p0 (got s i ob r' (segs ob ! k))"
  proof -
    have "\<forall>b<n. \<forall>c. grown (pr_buf (rd_p s)) ob (pr_shardSize p0) ! b = Some c \<longrightarrow> pr_shardSize p0 \<le> int c"
      by (rule grown_ok) (use sh st ob in \<open>auto simp: rd_shape_def rd_static_def\<close>)
    moreover have "(rd_new s)[ob := segs ob ! k] ! b = [] \<or> (rd_new s)[ob := segs ob ! k] ! b = segs b ! k
        \<and> (\<exists>j<rd_index s. pr_readers (rd_p s) ! j = Some b)" if b: "b < n" for b
      using sh b ps i len by (cases "b = ob") (auto simp: rd_shape_def)
    ultimately show ?thesis using sh by (simp add: rd_shape_def)
  qed
  ultimately show ?thesis by (simp add: rd_inv_def)
qed

lemma rd_inv_go_read:
  assumes st: "rd_static honest intact segs Good sz n d k p0"
    and inv: "rd_inv honest intact segs Good n k p0 s"
    and i: "i < n" and run: "rd_run s ! i = Some Reading"
  shows "rd_inv honest intact segs Good n k p0 (go_read ra s i)"
  using st inv i run
proof (cases rule: go_read_cases)
  case none
  show ?thesis unfolding none(4) by (rule rd_inv_none [OF inv i none(3,1,2)])
next
  case (fail ob r' err)
  show ?thesis unfolding fail(7) by (rule rd_inv_gone [OF st inv i fail(4,1,2,3,5,6)])
next
  case (fine ob r')
  show ?thesis unfolding fine(8) by (rule rd_inv_got [OF st inv i fine(4,1,2,3,6,7)])
qed

lemma rd_inv_step:
  assumes st: "rd_static honest intact segs Good sz n d k p0"
    and inv: "rd_inv honest intact segs Good n k p0 s" and step: "rd_step ra s s'"
  shows "rd_inv honest intact segs Good n k p0 s'"
proof -
  have len: "length (rd_run s) = n" using inv by (simp add: rd_inv_def rd_shape_def)
  from step show ?thesis
  proof (cases rule: rd_step.cases)
    case (rd_recv t ts)
    show ?thesis unfolding rd_recv(1) by (rule rd_inv_main [OF inv]) simp
  next
    case (rd_act t)
    show ?thesis unfolding rd_act(1) by (rule rd_inv_check [OF inv rd_act(2)])
  next
    case (rd_go_read i)
    show ?thesis unfolding rd_go_read(1)
      by (rule rd_inv_go_read [OF st inv]) (use rd_go_read len in simp_all)
  next
    case (rd_go_send i t)
    show ?thesis unfolding rd_go_send(1)
      by (rule rd_inv_send [OF inv]) (use rd_go_send len in simp_all)
  next
    case rd_wait
    have "rd_inv honest intact segs Good n k p0 (s\<lparr>rd_trig := rd_trig s, rd_main := Returned\<rparr>)"
      by (rule rd_inv_main [OF inv]) simp
    then show ?thesis unfolding rd_wait(1) by simp
  qed
qed

lemma gos_update:
  "i < length (rd_run s) \<Longrightarrow> gos g (s\<lparr>rd_run := (rd_run s)[i := y]\<rparr>) + (if rd_run s ! i = Some g then 1 else 0)
     = gos g s + (if y = Some g then 1 else 0)"
  using length_filter_update [of i "rd_run s" "\<lambda>x. x = Some g" y] by (simp add: gos_def)

lemma running_update:
  "i < length (rd_run s) \<Longrightarrow> length (filter (\<lambda>x. x \<noteq> None) ((rd_run s)[i := y]))
       + (if rd_run s ! i \<noteq> None then 1 else 0)
     = length (filter (\<lambda>x. x \<noteq> None) (rd_run s)) + (if y \<noteq> None then 1 else 0)"
  using length_filter_update [of i "rd_run s" "\<lambda>x. x \<noteq> None" y] by simp

lemma rd_count_run:
  assumes "rd_count n d s" and "rd_main s \<noteq> Returned"
    and "rd_main s' = rd_main s" and "rd_trig s' = rd_trig s" and "rd_index s' = rd_index s"
    and "length (filter (\<lambda>x. x \<noteq> None) (rd_run s')) = length (filter (\<lambda>x. x \<noteq> None) (rd_run s))"
    and "gos Reading s = Suc (gos Reading s')"
    and "gos (Sending True) s' + present (rd_new s') = Suc (gos (Sending True) s + present (rd_new s))"
    and "present (rd_new s) \<le> present (rd_new s')"
    and "gos (Sending False) s' + present (rd_new s) = gos (Sending False) s + present (rd_new s')"
    and "present (rd_new s') \<le> Suc (present (rd_new s))"
  shows "rd_count n d s'"
proof -
  have fl: "in_flight s' = in_flight s" and tr: "trues s' = trues s"
    using assms by (simp_all add: in_flight_def trues_def)
  have rp: "gos Reading s' + present (rd_new s') \<le> d"
    using assms(1,7,11) by (simp add: rd_count_def)
  show ?thesis
  proof (cases "rd_main s")
    case Recv
    then have eq: "trues s + gos Reading s + gos (Sending True) s + present (rd_new s) = d"
      "present (rd_new s) = d \<longrightarrow> 0 < length (rd_trig s) + gos (Sending False) s"
      using assms(1) by (simp_all add: rd_count_def)
    have "present (rd_new s') = d \<longrightarrow> 0 < length (rd_trig s') + gos (Sending False) s'"
      using eq assms(4,7,9,10,11) by linarith
    then show ?thesis using Recv eq rp fl tr assms(1,3,7,8) by (simp add: rd_count_def)
  next
    case (Check t)
    then show ?thesis using rp fl tr assms(1,3,7,8) by (simp add: rd_count_def)
  next
    case Waiting
    then show ?thesis using rp fl assms(1,3,5,9) by (auto simp: rd_count_def)
  next
    case Panicked
    then show ?thesis using rp fl assms(1,3) by (simp add: rd_count_def)
  qed (use assms(2) in simp)
qed

lemma rd_count_go_read:
  assumes st: "rd_static honest intact segs Good sz n d k p0"
    and inv: "rd_inv honest intact segs Good n k p0 s" and cnt: "rd_count n d s"
    and i: "i < n" and run: "rd_run s ! i = Some Reading"
  shows "rd_count n d (go_read ra s i)"
proof -
  have len: "length (rd_run s) = n" "length (rd_new s) = n"
    using inv by (simp_all add: rd_inv_def rd_shape_def)
  have "\<not> list_all (\<lambda>g. g = None) (rd_run s)" using run i len by (auto simp: list_all_length)
  then have nret: "rd_main s \<noteq> Returned" using cnt by (auto simp: rd_count_def)
  have upd: "gos g (s\<lparr>rd_run := (rd_run s)[i := Some (Sending t)]\<rparr>) + (if g = Reading then 1 else 0)
      = gos g s + (if g = Sending t then 1 else 0)" for g t
    using gos_update [of i s g "Some (Sending t)"] i len run by (simp add: eq_commute)
  have rup: "length (filter (\<lambda>x. x \<noteq> None) ((rd_run s)[i := Some (Sending t)]))
      = length (filter (\<lambda>x. x \<noteq> None) (rd_run s))" for t
    using running_update [of i s "Some (Sending t)"] i len run by simp
  have gos_run: "gos g s' = gos g (s\<lparr>rd_run := (rd_run s)[i := Some (Sending t)]\<rparr>)"
    if "rd_run s' = (rd_run s)[i := Some (Sending t)]" for g t s'
    using that by (simp add: gos_def)
  note T = upd [of Reading True] upd [of "Sending True" True] upd [of "Sending False" True]
  note F = upd [of Reading False] upd [of "Sending True" False] upd [of "Sending False" False]
  from st inv i run show ?thesis
  proof (cases rule: go_read_cases)
    case none
    show ?thesis unfolding none(4) by (rule rd_count_run [OF cnt nret]) (use T rup in simp_all)
  next
    case (fail ob r' err)
    show ?thesis unfolding fail(7)
      by (rule rd_count_run [OF cnt nret])
        (use T rup gos_run [of "gone s i ob r' err" True] in simp_all)
  next
    case (fine ob r')
    have "segs ob ! k \<noteq> []" using st fine(3) by (auto simp: rd_static_def)
    then have "present ((rd_new s)[ob := segs ob ! k]) = Suc (present (rd_new s))"
      using length_filter_update [of ob "rd_new s" "\<lambda>b. b \<noteq> []" "segs ob ! k"] fine(3,5) len
      by (simp add: present_def)
    then show ?thesis unfolding fine(8)
      by (intro rd_count_run [OF cnt nret])
        (use F rup gos_run [of "got s i ob r' (segs ob ! k)" False] in simp_all)
  qed
qed

lemma rd_count_check:
  assumes st: "rd_static honest intact segs Good sz n d k p0"
    and inv: "rd_inv honest intact segs Good n k p0 s" and cnt: "rd_count n d s"
    and main: "rd_main s = Check t"
  shows "rd_count n d (rd_check s t)"
proof -
  have sh: "length (rd_run s) = n" "length (pr_readers (rd_p s)) = n" "rd_index s \<le> n"
    using inv by (simp_all add: rd_inv_def rd_shape_def)
  have cd: "canDecode (rd_p s) (rd_new s) \<longleftrightarrow> d \<le> present (rd_new s)"
    using inv st by (simp add: rd_inv_def rd_shape_def canDecode_def rd_static_def pread_shape_def)
  show ?thesis
  proof (cases "d \<le> present (rd_new s) \<or> rd_index s = n \<or> \<not> t")
    case True
    then show ?thesis using cnt main sh cd
      by (auto simp: rd_check_def rd_count_def in_flight_def trues_def gos_def)
  next
    case False
    then have idx: "rd_index s < n" using sh by simp
    have "rd_slot honest intact segs Good k p0 s (rd_index s)" using inv idx by (simp add: rd_inv_def)
    then have none: "rd_run s ! rd_index s = None" by (simp add: rd_slot_def)
    define s' where "s' = s\<lparr>rd_run := (rd_run s)[rd_index s := Some Reading]\<rparr>"
    have "gos Reading s' = Suc (gos Reading s)" "gos (Sending True) s' = gos (Sending True) s"
      using gos_update [of "rd_index s" s _ "Some Reading"] idx sh none by (simp_all add: s'_def)
    moreover have "length (filter (\<lambda>x. x \<noteq> None) (rd_run s'))
        = Suc (length (filter (\<lambda>x. x \<noteq> None) (rd_run s)))"
      using running_update [of "rd_index s" s "Some Reading"] idx sh none by (simp add: s'_def)
    moreover have "rd_check s t = s'\<lparr>rd_index := Suc (rd_index s), rd_main := Recv\<rparr>"
      using False main sh cd by (simp add: rd_check_def s'_def)
    ultimately show ?thesis using False cnt main
      by (auto simp: rd_count_def in_flight_def trues_def gos_def s'_def)
  qed
qed

lemma rd_count_send:
  assumes cnt: "rd_count n d s" and i: "i < length (rd_run s)"
    and run: "rd_run s ! i = Some (Sending t)"
  shows "rd_count n d (s\<lparr>rd_trig := rd_trig s @ [t], rd_run := (rd_run s)[i := None]\<rparr>)" (is "rd_count n d ?s")
proof -
  have nret: "\<not> list_all (\<lambda>g. g = None) (rd_run s)" using run i by (auto simp: list_all_length)
  have gr: "gos g ?s = gos g (s\<lparr>rd_run := (rd_run s)[i := None]\<rparr>)" for g by (simp add: gos_def)
  have "gos Reading ?s = gos Reading s"
    "gos (Sending True) s = gos (Sending True) ?s + (if t then 1 else 0)"
    using gos_update [OF i, of Reading None] gos_update [OF i, of "Sending True" None] run
    by (simp_all add: gr)
  moreover have "in_flight ?s = in_flight s"
    using running_update [OF i, of None] run by (simp add: in_flight_def)
  moreover have "trues ?s = trues s + (if t then 1 else 0)" by (simp add: trues_def)
  ultimately show ?thesis using cnt nret
    by (cases "rd_main s") (auto simp: rd_count_def)
qed

lemma rd_count_step:
  assumes st: "rd_static honest intact segs Good sz n d k p0"
    and inv: "rd_inv honest intact segs Good n k p0 s" and cnt: "rd_count n d s"
    and step: "rd_step ra s s'"
  shows "rd_count n d s'"
proof -
  have len: "length (rd_run s) = n" using inv by (simp add: rd_inv_def rd_shape_def)
  from step show ?thesis
  proof (cases rule: rd_step.cases)
    case (rd_recv t ts)
    then show ?thesis using cnt by (auto simp: rd_count_def in_flight_def trues_def gos_def)
  next
    case (rd_act t)
    show ?thesis unfolding rd_act(1) by (rule rd_count_check [OF st inv cnt rd_act(2)])
  next
    case (rd_go_read i)
    show ?thesis unfolding rd_go_read(1)
      by (rule rd_count_go_read [OF st inv cnt]) (use rd_go_read len in simp_all)
  next
    case (rd_go_send i t)
    show ?thesis unfolding rd_go_send(1) by (rule rd_count_send [OF cnt rd_go_send(3,4)])
  next
    case rd_wait
    then show ?thesis using cnt by (auto simp: rd_count_def in_flight_def trues_def gos_def)
  qed
qed

lemma rd_weight_run:
  assumes "i < length (rd_run s)" and "rd_run s' = (rd_run s)[i := y]"
    and "go_weight y + 2 * length (rd_trig s') < go_weight (rd_run s ! i) + 2 * length (rd_trig s)"
    and "rd_index s' = rd_index s" and "length (pr_readers (rd_p s')) = length (pr_readers (rd_p s))"
    and "rd_main s' = rd_main s"
  shows "rd_weight s' < rd_weight s"
  using sum_list_map_update [OF assms(1), of go_weight y] assms(2-) by (simp add: rd_weight_def)

lemma rd_weight_step:
  assumes st: "rd_static honest intact segs Good sz n d k p0"
    and inv: "rd_inv honest intact segs Good n k p0 s" and step: "rd_step ra s s'"
  shows "rd_weight s' < rd_weight s"
proof -
  have len: "length (rd_run s) = n" "length (pr_readers (rd_p s)) = n" "rd_index s \<le> n"
    using inv by (simp_all add: rd_inv_def rd_shape_def)
  from step show ?thesis
  proof (cases rule: rd_step.cases)
    case (rd_recv t ts)
    then show ?thesis by (simp add: rd_weight_def)
  next
    case (rd_act t)
    show ?thesis
    proof (cases "rd_check s t = s\<lparr>rd_main := Waiting\<rparr> \<or> rd_check s t = s\<lparr>rd_main := Recv\<rparr>")
      case True
      then show ?thesis using rd_act by (auto simp: rd_weight_def)
    next
      case False
      then have chk: "rd_check s t = s\<lparr>rd_run := (rd_run s)[rd_index s := Some Reading],
          rd_index := Suc (rd_index s), rd_main := Recv\<rparr>" and idx: "rd_index s < n"
        using len by (auto simp: rd_check_def split: if_splits)
      have "rd_slot honest intact segs Good k p0 s (rd_index s)" using inv idx by (simp add: rd_inv_def)
      then have none: "rd_run s ! rd_index s = None" by (simp add: rd_slot_def)
      have "(\<Sum>g\<leftarrow>(rd_run s)[rd_index s := Some Reading]. go_weight g) = (\<Sum>g\<leftarrow>rd_run s. go_weight g) + 4"
        using sum_list_map_update [of "rd_index s" "rd_run s" go_weight "Some Reading"] idx len none
        by simp
      then show ?thesis using rd_act chk idx len by (simp add: rd_weight_def)
    qed
  next
    case (rd_go_read i)
    then have i: "i < n" using len by simp
    from st inv i rd_go_read(4) show ?thesis
    proof (cases rule: go_read_cases)
      case none
      show ?thesis unfolding rd_go_read(1) none(4)
        by (rule rd_weight_run [where i = i and y = "Some (Sending True)"]) (use rd_go_read i len in simp_all)
    next
      case (fail ob r' err)
      show ?thesis unfolding rd_go_read(1) fail(7)
        by (rule rd_weight_run [where i = i and y = "Some (Sending True)"]) (use rd_go_read i len in simp_all)
    next
      case (fine ob r')
      show ?thesis unfolding rd_go_read(1) fine(8)
        by (rule rd_weight_run [where i = i and y = "Some (Sending False)"]) (use rd_go_read i len in simp_all)
    qed
  next
    case (rd_go_send i t)
    show ?thesis unfolding rd_go_send(1)
      by (rule rd_weight_run [where i = i and y = None]) (use rd_go_send in simp_all)
  next
    case rd_wait
    then show ?thesis by (simp add: rd_weight_def)
  qed
qed

lemma rd_progress:
  assumes st: "rd_static honest intact segs Good sz n d k p0"
    and inv: "rd_inv honest intact segs Good n k p0 s" and cnt: "rd_count n d s"
    and main: "rd_main s \<noteq> Returned"
  shows "\<exists>s'. rd_step ra s s'"
proof -
  have len: "length (rd_run s) = n" "length (pr_readers (rd_p s)) = n" and np: "rd_main s \<noteq> Panicked"
    using inv by (simp_all add: rd_inv_def rd_shape_def)
  have dn: "d \<le> n" using st by (simp add: rd_static_def pread_shape_def)
  show ?thesis
  proof (cases "list_all (\<lambda>g. g = None) (rd_run s)")
    case True
    then have z: "gos g s = 0" for g by (auto simp: gos_def list_all_iff filter_empty_conv)
    show ?thesis
    proof (cases "rd_main s")
      case Recv
      then have "trues s + present (rd_new s) = d" "present (rd_new s) = d \<longrightarrow> 0 < length (rd_trig s)"
        using cnt z by (simp_all add: rd_count_def)
      then have "rd_trig s \<noteq> []" using Recv by (cases "rd_trig s") (auto simp: trues_def)
      then obtain t ts where "rd_trig s = t # ts" by (cases "rd_trig s") auto
      with Recv show ?thesis by (blast intro: rd_step.rd_recv)
    next
      case (Check t)
      then show ?thesis by (blast intro: rd_step.rd_act)
    next
      case Waiting
      with True show ?thesis by (blast intro: rd_step.rd_wait)
    qed (use main np in simp_all)
  next
    case False
    then obtain i g where i: "i < length (rd_run s)" "rd_run s ! i = Some g"
      by (auto simp: list_all_length)
    show ?thesis
    proof (cases g)
      case Reading
      then show ?thesis using i np by (blast intro: rd_step.rd_go_read)
    next
      case (Sending t)
      have "Some g \<in> set (rd_run s)" using i nth_mem [OF i(1)] by simp
      then have "Some g \<in> set (filter (\<lambda>x. x \<noteq> None) (rd_run s))" by simp
      then have "0 < length (filter (\<lambda>x. x \<noteq> None) (rd_run s))" by (metis length_pos_if_in_set)
      moreover have "in_flight s \<le> d" using cnt by (simp add: rd_count_def)
      ultimately have "length (rd_trig s) < length (pr_readers (rd_p s))"
        using dn len unfolding in_flight_def by linarith
      then show ?thesis using Sending i np by (blast intro: rd_step.rd_go_send)
    qed
  qed
qed

text \<open>The invariants hold at the start and along every run.\<close>

lemma rd_start_ok:
  assumes "rd_static honest intact segs Good sz n d k p0"
  shows "rd_inv honest intact segs Good n k p0 (rd_start p0 (replicate n []))
     \<and> rd_count n d (rd_start p0 (replicate n []))"
proof -
  have "pread_shape n d p0" using assms by (simp add: rd_static_def)
  then have "rd_shape segs n k p0 (rd_start p0 (replicate n []))"
    by (simp add: rd_shape_def rd_start_def pread_shape_def)
  moreover have "rd_slot honest intact segs Good k p0 (rd_start p0 (replicate n [])) i" if "i < n" for i
  proof -
    have "rdr_slot_ok honest intact segs Good (Some k) p0 i" "length (pr_readers p0) = n"
      using that assms by (simp_all add: rd_static_def pread_shape_def)
    then show ?thesis using that by (simp add: rd_slot_def slot_same_def rd_start_def rdr_slot_ok_def)
  qed
  moreover have "rd_count n d (rd_start p0 (replicate n []))"
    using \<open>pread_shape n d p0\<close>
    by (simp add: rd_count_def rd_start_def in_flight_def trues_def gos_def present_def pread_shape_def)
  ultimately show ?thesis by (simp add: rd_inv_def)
qed

lemma rd_run_ok:
  assumes st: "rd_static honest intact segs Good sz n d k p0"
    and run: "(rd_step ra)\<^sup>*\<^sup>* (rd_start p0 (replicate n [])) s"
  shows "rd_inv honest intact segs Good n k p0 s \<and> rd_count n d s"
  using run
proof (induction rule: rtranclp_induct)
  case base
  then show ?case using rd_start_ok [OF st] .
next
  case (step s s')
  then show ?case using rd_inv_step [OF st] rd_count_step [OF st] by blast
qed

lemma rd_returns:
  assumes st: "rd_static honest intact segs Good sz n d k p0"
    and "rd_inv honest intact segs Good n k p0 s" and "rd_count n d s"
  shows "\<exists>s'. (rd_step ra)\<^sup>*\<^sup>* s s' \<and> rd_main s' = Returned"
  using assms(2,3)
proof (induction "rd_weight s" arbitrary: s rule: less_induct)
  case less
  show ?case
  proof (cases "rd_main s = Returned")
    case False
    then obtain s' where s': "rd_step ra s s'" using rd_progress [OF st less.prems] by blast
    then have "rd_weight s' < rd_weight s" using rd_weight_step [OF st less.prems(1)] by blast
    then obtain s'' where "(rd_step ra)\<^sup>*\<^sup>* s' s''" "rd_main s'' = Returned"
      using less.hyps rd_inv_step [OF st less.prems(1) s'] rd_count_step [OF st less.prems s'] by blast
    with s' show ?thesis by (meson converse_rtranclp_into_rtranclp)
  qed auto
qed

text \<open>The flags that ask for healing are set by failed reads only.\<close>

lemma rd_flags_step:
  assumes st: "rd_static honest intact segs Good sz n d k p0"
    and inv: "rd_inv honest intact segs Good n k p0 s" and step: "rd_step ra s s'"
    and all: "\<forall>i<n. \<forall>ob. pr_readers p0 ! i = Some ob \<longrightarrow> ob \<in> Good"
    and fl: "\<not> rd_missing s \<and> \<not> rd_bitrot s"
  shows "\<not> rd_missing s' \<and> \<not> rd_bitrot s'"
proof -
  have len: "length (rd_run s) = n" using inv by (simp add: rd_inv_def rd_shape_def)
  from step show ?thesis
  proof (cases rule: rd_step.cases)
    case (rd_go_read i)
    then have i: "i < n" using len by simp
    from st inv i rd_go_read(4) show ?thesis
    proof (cases rule: go_read_cases)
      case (fail ob r' err)
      then show ?thesis using all i by blast
    qed (use fl rd_go_read in \<open>simp_all add: got_def\<close>)
  qed (use fl in \<open>simp_all add: rd_check_def\<close>)
qed

lemma rd_flags:
  assumes st: "rd_static honest intact segs Good sz n d k p0"
    and run: "(rd_step ra)\<^sup>*\<^sup>* (rd_start p0 (replicate n [])) s"
    and all: "\<forall>i<n. \<forall>ob. pr_readers p0 ! i = Some ob \<longrightarrow> ob \<in> Good"
  shows "\<not> rd_missing s \<and> \<not> rd_bitrot s"
  using run
proof (induction rule: rtranclp_induct)
  case base
  then show ?case by (simp add: rd_start_def)
next
  case (step s s')
  then show ?case using rd_flags_step [OF st _ _ all] rd_run_ok [OF st] by blast
qed

text \<open>An intact reader stays in the list of the caller.\<close>

lemma rd_org_step:
  assumes st: "rd_static honest intact segs Good sz n d k p0"
    and inv: "rd_inv honest intact segs Good n k p0 s" and step: "rd_step ra s s'"
  shows "org_kept Good (rd_p s) (rd_p s')"
proof -
  have len: "length (rd_run s) = n" using inv by (simp add: rd_inv_def rd_shape_def)
  from step show ?thesis
  proof (cases rule: rd_step.cases)
    case (rd_go_read i)
    then have i: "i < n" using len by simp
    from st inv i rd_go_read(4) show ?thesis
    proof (cases rule: go_read_cases)
      case (fail ob r' err)
      have "pr_orgReaders (rd_p (gone s i ob r' err)) = (pr_orgReaders (rd_p s))[ob := None]"
        by (simp add: gone_def)
      moreover have "x \<in> Good \<Longrightarrow> ob \<noteq> x" for x using fail(5) by blast
      ultimately show ?thesis using rd_go_read(1) fail(7) by (simp add: org_kept_def)
    qed (use rd_go_read in \<open>simp_all add: got_def org_kept_def\<close>)
  qed (simp_all add: rd_check_def org_kept_def)
qed

lemma rd_org:
  assumes st: "rd_static honest intact segs Good sz n d k p0"
    and run: "(rd_step ra)\<^sup>*\<^sup>* (rd_start p0 (replicate n [])) s"
  shows "org_kept Good p0 (rd_p s)"
  using run
proof (induction rule: rtranclp_induct)
  case base
  then show ?case by (simp add: rd_start_def org_kept_def)
next
  case (step s s')
  then show ?case using rd_org_step [OF st] rd_run_ok [OF st] org_kept_trans by blast
qed

text \<open>The state in which \<open>Read\<close> returns, when there are enough intact readers: exactly as many
  shards as a block needs.\<close>

lemma rd_alive:
  assumes st: "rd_static honest intact segs Good sz n d k p0"
    and inv: "rd_inv honest intact segs Good n k p0 s" and none: "list_all (\<lambda>g. g = None) (rd_run s)"
    and i: "i < rd_index s" and "pr_readers (rd_p s) ! i = Some ob"
  shows "ob < n" and "pr_readers p0 ! i = Some ob" and "rd_new s ! ob = segs ob ! k" and "rd_new s ! ob \<noteq> []"
proof -
  have sh: "rd_index s \<le> n" "length (rd_run s) = n" using inv by (simp_all add: rd_inv_def rd_shape_def)
  have "rd_run s ! i = None" using none i sh by (simp add: list_all_length)
  then have "slot_read honest intact segs Good k p0 s i"
    using inv i sh by (simp add: rd_inv_def rd_slot_def)
  then show p0: "pr_readers p0 ! i = Some ob" and new: "rd_new s ! ob = segs ob ! k"
    using assms(5) by (simp_all add: slot_read_def)
  have "rdr_slot_ok honest intact segs Good (Some k) p0 i" "length (pr_readers p0) = n"
    using st i sh by (simp_all add: rd_static_def pread_shape_def)
  with p0 show "ob < n" by (simp add: rdr_slot_ok_def)
  with st new show "rd_new s ! ob \<noteq> []" by (auto simp: rd_static_def)
qed

lemma rd_alive_card:
  assumes st: "rd_static honest intact segs Good sz n d k p0"
    and inv: "rd_inv honest intact segs Good n k p0 s" and none: "list_all (\<lambda>g. g = None) (rd_run s)"
  shows "card {i. i < rd_index s \<and> pr_readers (rd_p s) ! i \<noteq> None} = present (rd_new s)"
proof -
  let ?A = "{i. i < rd_index s \<and> pr_readers (rd_p s) ! i \<noteq> None}"
  let ?B = "{b. b < length (rd_new s) \<and> rd_new s ! b \<noteq> []}"
  have sh: "rd_index s \<le> n" "length (rd_new s) = n" "rd_shape segs n k p0 s"
    using inv by (simp_all add: rd_inv_def rd_shape_def)
  note al = rd_alive [OF st inv none]
  have "bij_betw (\<lambda>i. the (pr_readers (rd_p s) ! i)) ?A ?B"
  proof (intro bij_betw_imageI inj_onI equalityI subsetI)
    fix i j assume "i \<in> ?A" "j \<in> ?A" and eq: "the (pr_readers (rd_p s) ! i) = the (pr_readers (rd_p s) ! j)"
    then obtain ob where "pr_readers (rd_p s) ! i = Some ob" "pr_readers (rd_p s) ! j = Some ob"
      "i < rd_index s" "j < rd_index s" by auto
    then show "i = j" using rd_inj [OF st, of i j ob] al(2) sh(1) by fastforce
  next
    fix b assume "b \<in> (\<lambda>i. the (pr_readers (rd_p s) ! i)) ` ?A"
    then obtain i where "i < rd_index s" "pr_readers (rd_p s) ! i = Some b" by auto
    then show "b \<in> ?B" using al sh by auto
  next
    fix b assume "b \<in> ?B"
    then obtain i where "i < rd_index s" "pr_readers (rd_p s) ! i = Some b"
      using sh by (auto simp: rd_shape_def)
    then show "b \<in> (\<lambda>i. the (pr_readers (rd_p s) ! i)) ` ?A" by (force intro: image_eqI [of _ _ i])
  qed
  then show ?thesis by (simp add: bij_betw_same_card present_def length_filter_conv_card)
qed

lemma rd_enough:
  assumes st: "rd_static honest intact segs Good sz n d k p0"
    and inv: "rd_inv honest intact segs Good n k p0 s" and cnt: "rd_count n d s"
    and ret: "rd_main s = Returned" and good: "d \<le> card Good"
  shows "present (rd_new s) = d"
proof -
  have none: "list_all (\<lambda>g. g = None) (rd_run s)" and le: "present (rd_new s) \<le> d"
    and alt: "d \<le> present (rd_new s) \<or> rd_index s = n"
    using cnt ret by (auto simp: rd_count_def)
  have "d \<le> present (rd_new s)"
  proof (cases "d \<le> present (rd_new s)")
    case False
    then have idx: "rd_index s = n" using alt by simp
    have sh: "length (rd_run s) = n" "length (rd_new s) = n"
      using inv by (simp_all add: rd_inv_def rd_shape_def)
    have "Good \<subseteq> {b. b < length (rd_new s) \<and> rd_new s ! b \<noteq> []}"
    proof
      fix ob assume ob: "ob \<in> Good"
      then obtain i where i: "i < n" "pr_readers p0 ! i = Some ob" using st by (auto simp: rd_static_def)
      have "rd_run s ! i = None" using none i sh by (simp add: list_all_length)
      then have "slot_read honest intact segs Good k p0 s i"
        using inv i idx by (simp add: rd_inv_def rd_slot_def)
      then have "pr_readers (rd_p s) ! i = Some ob"
        using i ob by (cases "pr_readers (rd_p s) ! i") (auto simp: slot_read_def)
      then show "ob \<in> {b. b < length (rd_new s) \<and> rd_new s ! b \<noteq> []}"
        using rd_alive [OF st inv none, of i ob] idx i sh by simp
    qed
    then have "card Good \<le> card {b. b < length (rd_new s) \<and> rd_new s ! b \<noteq> []}" by (intro card_mono) auto
    with good show ?thesis by (simp add: present_def length_filter_conv_card)
  qed
  with le show ?thesis by simp
qed

text \<open>From one block to the next.\<close>

lemma pread_static:
  assumes ok: "pread_ok honest intact segs Good n d k M p" and segs: "segs_ok segs n m sz F"
    and k: "k < m" and off: "pr_offset p = int (k * sz)" and ss: "pr_shardSize p = int sz" "0 < sz"
    and F: "pr_shardFileSize p = int F" "int F + int sz < 2 ^ 63"
  shows "rd_static honest intact segs Good sz n d k (clip_shard p)"
    and "pr_shardSize (clip_shard p) = int (min sz (F - k * sz))" and "pr_shardSize (clip_shard p) \<noteq> 0"
proof -
  have n: "0 < n" using ok by (auto simp: pread_ok_def pread_shape_def)
  then have kF: "k * sz < F" using segs k by (auto simp: segs_ok_def)
  have "int (k * sz + sz) < 2 ^ 63" using kF F(2) by linarith
  then have "wrap64 (int (k * sz + sz)) = int (k * sz + sz)" by (rule wrap64_nat)
  then have "wrap64 (pr_offset p + pr_shardSize p) = int (k * sz + sz)" using off ss by simp
  then have iff: "pr_shardFileSize p < wrap64 (pr_offset p + pr_shardSize p) \<longleftrightarrow> F < k * sz + sz"
    unfolding F(1) by linarith
  have "int (F - k * sz) < 2 ^ 63" "int F - int (k * sz) = int (F - k * sz)" using kF F(2) by linarith+
  then have sub: "wrap64 (pr_shardFileSize p - pr_offset p) = int (F - k * sz)"
    unfolding F(1) off using wrap64_nat by metis
  show cs: "pr_shardSize (clip_shard p) = int (min sz (F - k * sz))"
  proof (cases "F < k * sz + sz")
    case True
    then have "min sz (F - k * sz) = F - k * sz" by simp
    with True show ?thesis using iff sub by (simp add: clip_shard_def)
  next
    case False
    then have "min sz (F - k * sz) = sz" by simp
    with False show ?thesis using iff ss by (simp add: clip_shard_def)
  qed
  then show "pr_shardSize (clip_shard p) \<noteq> 0" using ss kF by simp
  have sh: "pread_shape n d p" using ok by (simp add: pread_ok_def)
  have le: "pr_shardSize (clip_shard p) \<le> pr_shardSize p" using cs ss by simp
  have "pread_shape n d (clip_shard p)"
    using sh le by (fastforce simp: pread_shape_def clip_shard_def split: if_splits)
  moreover have "rdr_slot_ok honest intact segs Good (Some k) (clip_shard p) i" if "i < n" for i
  proof -
    have "rdr_slot_ok honest intact segs Good (if i < M then Some k else None) p i"
      using ok that by (simp add: pread_ok_def)
    then have "rdr_slot_ok honest intact segs Good (Some k) p i"
      using honest_fresh intact_fresh by (fastforce simp: rdr_slot_ok_def split: if_splits)
    then show ?thesis by (simp add: rdr_slot_ok_def clip_shard_def)
  qed
  moreover have "k < length (segs ob) \<and> int (length (segs ob ! k)) = pr_shardSize (clip_shard p)"
    if "ob < n" for ob
    using segs k that cs by (simp add: segs_ok_def)
  moreover have "Good \<subseteq> {ob. \<exists>i<n. pr_readers (clip_shard p) ! i = Some ob}"
    using ok by (simp add: pread_ok_def clip_shard_def)
  ultimately show "rd_static honest intact segs Good sz n d k (clip_shard p)"
    using off cs ss kF by (auto simp: rd_static_def clip_shard_def)
qed

lemma new_bufs_replicate: "length (pr_readers p) = n \<Longrightarrow> new_bufs p dst = replicate n []"
  by (auto simp: new_bufs_def intro: nth_equalityI)

lemma pread_next:
  assumes ok: "pread_ok honest intact segs Good n d k M p" and p0: "p0 = clip_shard p"
    and st: "rd_static honest intact segs Good sz n d k p0"
    and inv: "rd_inv honest intact segs Good n k p0 s" and none: "list_all (\<lambda>g. g = None) (rd_run s)"
    and pres: "present (rd_new s) = d"
  shows "pread_ok honest intact segs Good n d (Suc k) (rd_index s) (rd_p s\<lparr>pr_offset := x\<rparr>)"
proof -
  have sh: "rd_shape segs n k p0 s" and sl: "\<And>i. i < n \<Longrightarrow> rd_slot honest intact segs Good k p0 s i"
    and len: "rd_index s \<le> n" "length (rd_run s) = n" "length (pr_readers (rd_p s)) = n"
    using inv by (simp_all add: rd_inv_def rd_shape_def)
  have rn: "rd_run s ! i = None" if "i < n" for i using none len that by (simp add: list_all_length)
  have eq: "pr_readers p0 = pr_readers p" "pr_obj p0 = pr_obj p" "pr_readerToBuf p0 = pr_readerToBuf p"
    by (simp_all add: p0 clip_shard_def)
  have read: "slot_read honest intact segs Good k p0 s i" if "i < rd_index s" for i
    using sl [of i] rn [of i] that len by (simp add: rd_slot_def)
  have same: "slot_same p0 s i" if "rd_index s \<le> i" "i < n" for i
    using sl [OF that(2)] that by (simp add: rd_slot_def)
  have alive: "pr_readers p0 ! i = Some ob" if "i < n" "pr_readers (rd_p s) ! i = Some ob" for i ob
  proof (cases "i < rd_index s")
    case True
    then show ?thesis using read [OF True] that(2) by (simp add: slot_read_def)
  next
    case False
    then show ?thesis using same [of i] that by (simp add: slot_same_def)
  qed
  have card: "card {i. i < rd_index s \<and> pr_readers (rd_p s) ! i \<noteq> None} = d"
    using rd_alive_card [OF st inv none] pres by simp
  have gap: "M \<le> i" if i: "rd_index s \<le> i" "i < n" "pr_readers (rd_p s) ! i = Some ob" for i ob
  proof (rule ccontr)
    assume "\<not> M \<le> i"
    let ?A = "{i. i < M \<and> pr_readers p ! i \<noteq> None}"
    have cA: "card ?A = d" and M: "M \<le> n" using ok \<open>\<not> M \<le> i\<close> by (auto simp: pread_ok_def)
    have "i \<in> ?A" using i \<open>\<not> M \<le> i\<close> alive [OF i(2,3)] eq by simp
    then have "card (?A - {i}) < card ?A" by (intro card_Diff1_less) simp_all
    then have "card (?A - {i}) < d" unfolding cA .
    moreover have "{j. j < rd_index s \<and> pr_readers (rd_p s) ! j \<noteq> None} \<subseteq> ?A - {i}"
    proof
      fix j assume "j \<in> {j. j < rd_index s \<and> pr_readers (rd_p s) ! j \<noteq> None}"
      then obtain ob' where j: "j < rd_index s" "pr_readers (rd_p s) ! j = Some ob'" by auto
      then have "pr_readers p ! j = Some ob'" using alive [of j ob'] len(1) eq(1) by simp
      with j i(1) \<open>\<not> M \<le> i\<close> show "j \<in> ?A - {i}" by simp
    qed
    then have "card {j. j < rd_index s \<and> pr_readers (rd_p s) ! j \<noteq> None} \<le> card (?A - {i})"
      by (intro card_mono) simp_all
    then have "d \<le> card (?A - {i})" unfolding card .
    ultimately show False by simp
  qed
  have stat: "rdr_slot_ok honest intact segs Good (Some k) p0 i" "length (pr_readers p0) = n" if "i < n" for i
    using st that by (simp_all add: rd_static_def pread_shape_def)
  have "rdr_slot_ok honest intact segs Good (if i < rd_index s then Some (Suc k) else None)
          (rd_p s\<lparr>pr_offset := x\<rparr>) i" if i: "i < n" for i
  proof (cases "pr_readers (rd_p s) ! i")
    case (Some ob)
    have ob: "ob < n" "pr_readerToBuf p0 ! i = ob" using stat [OF i] alive [OF i Some]
      by (simp_all add: rdr_slot_ok_def)
    then have b: "pr_readerToBuf (rd_p s) ! i = ob" using sh by (simp add: rd_shape_def)
    show ?thesis
    proof (cases "i < rd_index s")
      case True
      then show ?thesis using read [OF True] Some ob b len by (simp add: rdr_slot_ok_def slot_read_def)
    next
      case False
      then have "\<not> i < M" using gap [of i ob] i Some by simp
      then have "rdr_slot_ok honest intact segs Good None p i" using ok i by (auto simp: pread_ok_def)
      moreover have "pr_obj (rd_p s) ! ob = pr_obj p ! ob"
        using same [of i] False i alive [OF i Some] eq by (simp add: slot_same_def)
      ultimately show ?thesis using False Some ob b len alive [OF i Some] eq by (simp add: rdr_slot_ok_def)
    qed
  qed (simp add: rdr_slot_ok_def)
  moreover have "pread_shape n d (rd_p s\<lparr>pr_offset := x\<rparr>)"
  proof -
    have "i = j" if "i < n" "j < n" "pr_readers (rd_p s) ! i = Some ob" "pr_readers (rd_p s) ! j = Some ob" for i j ob
      using rd_inj [OF st that(1,2)] alive [OF that(1,3)] alive [OF that(2,4)] by blast
    then have "\<forall>i<n. \<forall>j<n. \<forall>ob. pr_readers (rd_p s) ! i = Some ob \<and> pr_readers (rd_p s) ! j = Some ob \<longrightarrow> i = j"
      by blast
    moreover have "pread_shape n d p0" using st by (simp add: rd_static_def)
    ultimately show ?thesis using sh by (simp add: pread_shape_def rd_shape_def)
  qed
  moreover have "Good \<subseteq> {ob. \<exists>i<n. pr_readers (rd_p s) ! i = Some ob}"
  proof
    fix ob assume ob: "ob \<in> Good"
    then obtain i where i: "i < n" "pr_readers p0 ! i = Some ob" using st by (auto simp: rd_static_def)
    have "pr_readers (rd_p s) ! i = Some ob"
    proof (cases "i < rd_index s")
      case True
      then show ?thesis using read [OF True] i ob
        by (cases "pr_readers (rd_p s) ! i") (auto simp: slot_read_def)
    qed (use same [of i] i in \<open>simp add: slot_same_def\<close>)
    with i show "ob \<in> {ob. \<exists>i<n. pr_readers (rd_p s) ! i = Some ob}" by auto
  qed
  ultimately show ?thesis using card len by (simp add: pread_ok_def)
qed

lemma Read_ok:
  assumes ok: "pread_ok honest intact segs Good n d k M p" and segs: "segs_ok segs n m sz F"
    and k: "k < m" and off: "pr_offset p = int (k * sz)" and ss: "pr_shardSize p = int sz" "0 < sz"
    and F: "pr_shardFileSize p = int F" "int F + int sz < 2 ^ 63" and good: "d \<le> card Good"
    and read: "Read ra p dst (p', bufs, err)"
  shows "partial_shards (map (\<lambda>ob. segs ob ! k) [0..<n]) bufs" and "present bufs = d"
    and "err \<in> {None, Some errFileNotFound, Some errFileCorrupt}"
    and "\<exists>M'. pread_ok honest intact segs Good n d (Suc k) M' p'"
    and "pr_shardFileSize p' = int F"
    and "Suc k < m \<Longrightarrow> pr_offset p' = int (Suc k * sz) \<and> pr_shardSize p' = int sz"
    and "(\<forall>i<n. \<forall>ob. pr_readers p ! i = Some ob \<longrightarrow> ob \<in> Good) \<Longrightarrow> err = None"
    and "org_kept Good p p'"
proof -
  note st = pread_static [OF ok segs k off ss F]
  have len: "length (pr_readers p) = n" using ok by (simp add: pread_ok_def pread_shape_def)
  from read st(3) obtain s where run: "(rd_step ra)\<^sup>*\<^sup>* (rd_start (clip_shard p) (replicate n [])) s"
    and ret: "rd_main s = Returned" and fin: "rd_finish s = (p', bufs, err)"
    by (cases rule: Read.cases) (auto simp: new_bufs_replicate [OF len])
  have inv: "rd_inv honest intact segs Good n k (clip_shard p) s" and cnt: "rd_count n d s"
    using rd_run_ok [OF st(1) run] by auto
  have none: "list_all (\<lambda>g. g = None) (rd_run s)" using cnt ret by (simp add: rd_count_def)
  have pres: "present (rd_new s) = d" by (rule rd_enough [OF st(1) inv cnt ret good])
  have sh: "rd_shape segs n k (clip_shard p) s" using inv by (simp add: rd_inv_def)
  have d: "pr_dataBlocks (clip_shard p) = int d" using st(1) by (simp add: rd_static_def pread_shape_def)
  then have "canDecode (rd_p s) (rd_new s)" using sh pres by (simp add: canDecode_def rd_shape_def)
  then have p': "p' = rd_p s\<lparr>pr_offset := wrap64 (pr_offset (rd_p s) + pr_shardSize (rd_p s))\<rparr>"
    and bufs: "bufs = rd_new s"
    and err: "err = (if rd_missing s then Some errFileNotFound
         else if rd_bitrot s then Some errFileCorrupt else None)"
    using fin by (simp_all add: rd_finish_def Let_def)
  show "org_kept Good p p'" using rd_org [OF st(1) run] by (simp add: p' org_kept_def clip_shard_def split: if_splits)
  show "partial_shards (map (\<lambda>ob. segs ob ! k) [0..<n]) bufs"
    using sh by (auto simp: bufs partial_shards_def list_all2_conv_all_nth rd_shape_def)
  show "present bufs = d" using bufs pres by simp
  show "err \<in> {None, Some errFileNotFound, Some errFileCorrupt}" by (simp add: err)
  show "\<exists>M'. pread_ok honest intact segs Good n d (Suc k) M' p'"
    unfolding p' using pread_next [OF ok refl st(1) inv none pres] by blast
  show "pr_shardFileSize p' = int F" using sh F by (simp add: p' rd_shape_def clip_shard_def)
  show "pr_offset p' = int (Suc k * sz) \<and> pr_shardSize p' = int sz" if "Suc k < m"
  proof -
    have "0 < n" using ok by (auto simp: pread_ok_def pread_shape_def)
    then have "Suc k * sz < F" using segs that unfolding segs_ok_def by blast
    then have le: "sz \<le> F - k * sz" and lt: "int (Suc k * sz) < 2 ^ 63"
      using F(2) by (simp, linarith)
    then have "pr_shardSize (clip_shard p) = int sz" using st(2) by simp
    moreover have "pr_offset (clip_shard p) = int (k * sz)" using off by (simp add: clip_shard_def)
    moreover have "wrap64 (int (Suc k * sz)) = int (Suc k * sz)" using lt by (rule wrap64_nat)
    ultimately show ?thesis using sh by (simp add: p' rd_shape_def add.commute)
  qed
  show "err = None" if "\<forall>i<n. \<forall>ob. pr_readers p ! i = Some ob \<longrightarrow> ob \<in> Good"
  proof -
    have "\<forall>i<n. \<forall>ob. pr_readers (clip_shard p) ! i = Some ob \<longrightarrow> ob \<in> Good"
      using that by (simp add: clip_shard_def)
    then show ?thesis using rd_flags [OF st(1) run] by (simp add: err)
  qed
qed

lemma Read_exists:
  assumes ok: "pread_ok honest intact segs Good n d k M p" and segs: "segs_ok segs n m sz F"
    and k: "k < m" and off: "pr_offset p = int (k * sz)" and ss: "pr_shardSize p = int sz" "0 < sz"
    and F: "pr_shardFileSize p = int F" "int F + int sz < 2 ^ 63"
  shows "\<exists>res. Read ra p dst res"
proof -
  note st = pread_static [OF ok segs k off ss F]
  have len: "length (pr_readers p) = n" and d: "nat (pr_dataBlocks p) \<le> length (pr_readers p)"
    using ok by (simp_all add: pread_ok_def pread_shape_def)
  obtain s where "(rd_step ra)\<^sup>*\<^sup>* (rd_start (clip_shard p) (replicate n [])) s" "rd_main s = Returned"
    using rd_returns [OF st(1)] rd_start_ok [OF st(1)] by blast
  then have "Read ra p dst (rd_finish s)"
    by (intro Read.Read_run [OF st(3) d]) (simp_all add: new_bufs_replicate [OF len])
  then show ?thesis by blast
qed

end

end
