(* ===== verification/Bitrot.thy ===== *)
theory Bitrot
  imports Erasure_Read
begin

text \<open>
  Protection of shard files against bit rot (\<open>cmd/bitrot.go\<close>, \<open>cmd/bitrot-streaming.go\<close>,
  \<open>cmd/bitrot-whole.go\<close>): a file in which every segment is preceded by its checksum, written and
  verified as a stream, and the older scheme with one checksum for the whole file. The hash functions
  are the parameter \<open>H\<close> (their packages are not part of the repository, except for the sizes of the
  sums); the drive behind \<open>StorageAPI\<close> is a record of the methods that the readers call. The two
  kinds of reader are an instance of the interface that the parallel reader relies on.
\<close>

section \<open>Algorithms\<close>

type_synonym hashes = "BitrotAlgorithm \<Rightarrow> bytes \<Rightarrow> bytes"

text \<open>\<open>New().Size()\<close>.\<close>

fun hash_Size :: "BitrotAlgorithm \<Rightarrow> nat" where
  "hash_Size SHA256 = 32"
| "hash_Size BLAKE2b512 = 64"
| "hash_Size HighwayHash256 = 32"
| "hash_Size HighwayHash256S = 32"
| "hash_Size BitrotNone = 0"

definition hashes_ok :: "hashes \<Rightarrow> bool" where
  "hashes_ok H \<longleftrightarrow> (\<forall>a x. length (H a x) = hash_Size a)"

definition bitrotAlgorithms :: "(BitrotAlgorithm \<times> string) list" where
  "bitrotAlgorithms =
     [(SHA256, ''sha256''), (BLAKE2b512, ''blake2b''), (HighwayHash256, ''highwayhash256''),
      (HighwayHash256S, ''highwayhash256S'')]"

definition Available :: "BitrotAlgorithm \<Rightarrow> bool" where
  "Available a \<longleftrightarrow> map_of bitrotAlgorithms a \<noteq> None"

text \<open>\<open>String\<close> stops the server for an algorithm that is not in the table.\<close>

definition alg_String :: "BitrotAlgorithm \<Rightarrow> string option" where
  "alg_String a = map_of bitrotAlgorithms a"

definition BitrotAlgorithmFromString :: "string \<Rightarrow> BitrotAlgorithm" where
  "BitrotAlgorithmFromString s =
     (case map_of (map (\<lambda>(a, n). (n, a)) bitrotAlgorithms) s of None \<Rightarrow> BitrotNone | Some a \<Rightarrow> a)"

definition bitrotShardFileSize :: "int \<Rightarrow> int \<Rightarrow> BitrotAlgorithm \<Rightarrow> int" where
  "bitrotShardFileSize fsize shardSize algo =
     (if algo \<noteq> HighwayHash256S then fsize
      else wrap64 (wrap64 (ceilFrac fsize shardSize * int (hash_Size algo)) + fsize))"

section \<open>Streams\<close>

text \<open>What is left of a stream, and the error it ends with (\<open>EOF\<close> for a regular end).\<close>

type_synonym stream = "bytes \<times> xerr"

definition ReadFull :: "stream \<Rightarrow> nat \<Rightarrow> stream \<times> (xerr, bytes) result" where
  "ReadFull st n =
     (case st of (rest, e) \<Rightarrow>
        if n \<le> length rest then ((drop n rest, e), Inr (take n rest))
        else (([], e), Inl (if e = EOF then (if rest = [] then EOF else ErrUnexpectedEOF) else e)))"

text \<open>\<open>io.Copy(h, io.LimitReader(r, n))\<close>: the bytes there are, up to \<open>n\<close>.\<close>

definition CopyLimit :: "stream \<Rightarrow> nat \<Rightarrow> stream \<times> bytes \<times> xerr option" where
  "CopyLimit st n =
     (case st of (rest, e) \<Rightarrow>
        ((drop n rest, e), take n rest, if length rest < n \<and> e \<noteq> EOF then Some e else None))"

section \<open>Writing\<close>

text \<open>\<open>iw\<close> is the \<open>Write\<close> of the underlying writer, \<open>cl\<close> its \<open>closeWithErr\<close>.\<close>

definition streaming_Write ::
  "('w \<Rightarrow> bytes \<Rightarrow> 'w \<times> nat \<times> xerr option) \<Rightarrow> ('w \<Rightarrow> xerr \<Rightarrow> 'w) \<Rightarrow> hashes \<Rightarrow> BitrotAlgorithm
     \<Rightarrow> 'w \<Rightarrow> bytes \<Rightarrow> 'w \<times> nat \<times> xerr option" where
  "streaming_Write iw cl H algo w p =
     (if p = [] then (w, 0, None)
      else case iw w (H algo p) of
             (w1, _, Some err) \<Rightarrow> (cl w1 err, 0, Some err)
           | (w1, _, None) \<Rightarrow>
               (case iw w1 p of
                  (w2, n, Some err) \<Rightarrow> (cl w2 err, n, Some err)
                | (w2, n, None) \<Rightarrow>
                    if n \<noteq> length p then (cl w2 ErrShortWrite, n, Some ErrShortWrite)
                    else (w2, n, None)))"

text \<open>The size that \<open>newStreamingBitrotWriter\<close> announces to \<open>CreateFile\<close>; \<open>-1\<close> is not known.\<close>

definition streaming_total_size :: "int \<Rightarrow> int \<Rightarrow> BitrotAlgorithm \<Rightarrow> int" where
  "streaming_total_size len shardSize algo =
     (if len \<noteq> -1
      then wrap64 (wrap64 (ceilFrac len shardSize * int (hash_Size algo)) + len) else -1)"

text \<open>The whole-file writer keeps what it has hashed; \<open>af\<close> is \<open>AppendFile\<close>.\<close>

record 'd wholeBitrotWriter =
  wb_disk :: 'd
  wb_hashed :: bytes

definition whole_Write ::
  "('d \<Rightarrow> bytes \<Rightarrow> 'd \<times> xerr option) \<Rightarrow> 'd wholeBitrotWriter \<Rightarrow> bytes
     \<Rightarrow> 'd wholeBitrotWriter \<times> nat \<times> xerr option" where
  "whole_Write af w p =
     (case af (wb_disk w) p of
        (dk, Some err) \<Rightarrow> (w\<lparr>wb_disk := dk\<rparr>, 0, Some err)
      | (dk, None) \<Rightarrow> (w\<lparr>wb_disk := dk, wb_hashed := wb_hashed w @ p\<rparr>, length p, None))"

section \<open>Reading\<close>

text \<open>\<open>ReadFileStream volume path offset length\<close> and \<open>ReadFile volume path offset buffer verifier\<close>
  (the length of the buffer stands for it).\<close>

record storage_api =
  ReadFileStream :: "string \<Rightarrow> string \<Rightarrow> int \<Rightarrow> int \<Rightarrow> (xerr, stream) result"
  ReadFile :: "string \<Rightarrow> string \<Rightarrow> int \<Rightarrow> int \<Rightarrow> BitrotAlgorithm \<times> bytes \<Rightarrow> (xerr, bytes) result"

record streamingBitrotReader =
  br_disk :: storage_api
  br_data :: bytes
  br_rc :: "stream option"
  br_volume :: string
  br_filePath :: string
  br_tillOffset :: int
  br_currOffset :: int
  br_algo :: BitrotAlgorithm
  br_shardSize :: int

definition newStreamingBitrotReader ::
  "storage_api \<Rightarrow> bytes \<Rightarrow> string \<Rightarrow> string \<Rightarrow> int \<Rightarrow> BitrotAlgorithm \<Rightarrow> int \<Rightarrow> streamingBitrotReader" where
  "newStreamingBitrotReader disk data volume filePath tillOffset algo shardSize =
     \<lparr>br_disk = disk, br_data = data, br_rc = None, br_volume = volume, br_filePath = filePath,
      br_tillOffset = wrap64 (wrap64 (ceilFrac tillOffset shardSize * int (hash_Size algo)) + tillOffset),
      br_currOffset = 0, br_algo = algo, br_shardSize = shardSize\<rparr>"

text \<open>The stream of a reader that is opened at \<open>offset\<close>: from the drive, or from the data kept with
  the metadata.\<close>

definition open_stream :: "streamingBitrotReader \<Rightarrow> int \<Rightarrow> (xerr, stream) result" where
  "open_stream b off =
     (let streamOffset = wrap64 (wrap64 (go_div off (br_shardSize b) * int (hash_Size (br_algo b))) + off)
      in if br_data b = [] \<and> br_tillOffset b \<noteq> streamOffset
         then ReadFileStream (br_disk b) (br_volume b) (br_filePath b) streamOffset
                (wrap64 (br_tillOffset b - streamOffset))
         else Inr (take (nat (wrap64 (br_tillOffset b - streamOffset))) (drop (nat streamOffset) (br_data b)),
                   EOF))"

text \<open>Read the checksum and the segment, and compare.\<close>

definition read_segment ::
  "hashes \<Rightarrow> streamingBitrotReader \<Rightarrow> stream \<Rightarrow> nat
     \<Rightarrow> streamingBitrotReader \<times> (xerr, bytes) result" where
  "read_segment H b st n =
     (case ReadFull st (hash_Size (br_algo b)) of
        (st1, Inl err) \<Rightarrow> (b\<lparr>br_rc := Some st1\<rparr>, Inl err)
      | (st1, Inr hashBytes) \<Rightarrow>
          (case ReadFull st1 n of
             (st2, Inl err) \<Rightarrow> (b\<lparr>br_rc := Some st2\<rparr>, Inl err)
           | (st2, Inr data) \<Rightarrow>
               if H (br_algo b) data \<noteq> hashBytes then (b\<lparr>br_rc := Some st2\<rparr>, Inl errFileCorrupt)
               else (b\<lparr>br_rc := Some st2, br_currOffset := wrap64 (br_currOffset b + int n)\<rparr>, Inr data)))"

definition streaming_ReadAt ::
  "hashes \<Rightarrow> streamingBitrotReader \<Rightarrow> nat \<Rightarrow> int \<Rightarrow> streamingBitrotReader \<times> (xerr, bytes) result" where
  "streaming_ReadAt H b n off =
     (if go_mod off (br_shardSize b) \<noteq> 0 then (b, Inl errUnexpected)
      else case br_rc b of
             None \<Rightarrow>
               (let b1 = b\<lparr>br_currOffset := off\<rparr> in
                case open_stream b1 off of
                  Inl err \<Rightarrow> (b1, Inl err)
                | Inr st \<Rightarrow> read_segment H b1 st n)
           | Some st \<Rightarrow>
               if off \<noteq> br_currOffset b then (b, Inl errUnexpected) else read_segment H b st n)"

record wholeBitrotReader =
  wr_disk :: storage_api
  wr_volume :: string
  wr_filePath :: string
  wr_verifier :: "BitrotAlgorithm \<times> bytes"
  wr_tillOffset :: int
  wr_buf :: "bytes option"

definition newWholeBitrotReader ::
  "storage_api \<Rightarrow> string \<Rightarrow> string \<Rightarrow> BitrotAlgorithm \<Rightarrow> int \<Rightarrow> bytes \<Rightarrow> wholeBitrotReader" where
  "newWholeBitrotReader disk volume filePath algo tillOffset sm =
     \<lparr>wr_disk = disk, wr_volume = volume, wr_filePath = filePath, wr_verifier = (algo, sm),
      wr_tillOffset = tillOffset, wr_buf = None\<rparr>"

definition copy_buf :: "wholeBitrotReader \<Rightarrow> bytes \<Rightarrow> nat \<Rightarrow> wholeBitrotReader \<times> (xerr, bytes) result" where
  "copy_buf b buf n =
     (if length buf < n then (b\<lparr>wr_buf := Some buf\<rparr>, Inl errLessData)
      else (b\<lparr>wr_buf := Some (drop n buf)\<rparr>, Inr (take n buf)))"

text \<open>When reading fails, the buffer that was allocated stays, filled with zeros.\<close>

definition whole_ReadAt ::
  "wholeBitrotReader \<Rightarrow> nat \<Rightarrow> int \<Rightarrow> wholeBitrotReader \<times> (xerr, bytes) result" where
  "whole_ReadAt b n off =
     (case wr_buf b of
        Some buf \<Rightarrow> copy_buf b buf n
      | None \<Rightarrow>
          (case ReadFile (wr_disk b) (wr_volume b) (wr_filePath b) off
                  (wrap64 (wr_tillOffset b - off)) (wr_verifier b) of
             Inl err \<Rightarrow>
               (b\<lparr>wr_buf := Some (replicate (nat (wrap64 (wr_tillOffset b - off))) 0)\<rparr>, Inl err)
           | Inr buf \<Rightarrow> copy_buf b buf n))"

text \<open>\<open>newBitrotReader\<close> makes one of the two, and the parallel reader calls \<open>ReadAt\<close> through the
  interface.\<close>

datatype bitrot_reader = Streaming streamingBitrotReader | Whole wholeBitrotReader

definition newBitrotReader ::
  "storage_api \<Rightarrow> bytes \<Rightarrow> string \<Rightarrow> string \<Rightarrow> int \<Rightarrow> BitrotAlgorithm \<Rightarrow> bytes \<Rightarrow> int \<Rightarrow> bitrot_reader" where
  "newBitrotReader disk data bucket filePath tillOffset algo sm shardSize =
     (if algo = HighwayHash256S
      then Streaming (newStreamingBitrotReader disk data bucket filePath tillOffset algo shardSize)
      else Whole (newWholeBitrotReader disk bucket filePath algo tillOffset sm))"

fun ReadAt :: "hashes \<Rightarrow> bitrot_reader \<Rightarrow> nat \<Rightarrow> int \<Rightarrow> bitrot_reader \<times> (xerr, bytes) result" where
  "ReadAt H (Streaming b) n off = (case streaming_ReadAt H b n off of (b', res) \<Rightarrow> (Streaming b', res))"
| "ReadAt H (Whole b) n off = (case whole_ReadAt b n off of (b', res) \<Rightarrow> (Whole b', res))"

section \<open>Verifying a file\<close>

function verify_loop :: "hashes \<Rightarrow> stream \<Rightarrow> int \<Rightarrow> int \<Rightarrow> xerr option" where
  "verify_loop H r left shardSize =
     (if left \<le> 0 then None
      else case ReadFull r (hash_Size HighwayHash256S) of
             (r1, Inl err) \<Rightarrow> Some err
           | (r1, Inr hashBuf) \<Rightarrow>
               (let left1 = left - int (length hashBuf);
                    ss = (if left1 < shardSize then left1 else shardSize)
                in case CopyLimit r1 (nat ss) of
                     (r2, data, Some err) \<Rightarrow> Some errFileCorrupt
                   | (r2, data, None) \<Rightarrow>
                       if H HighwayHash256S data \<noteq> hashBuf then Some errFileCorrupt
                       else verify_loop H r2 (left1 - int (length data)) ss))"
  by pat_completeness auto
termination
  by (relation "measure (\<lambda>(H, r, left, shardSize). nat left)")
    (auto simp: ReadFull_def split: if_splits prod.splits)

declare verify_loop.simps [simp del]

definition bitrotVerify ::
  "hashes \<Rightarrow> stream \<Rightarrow> int \<Rightarrow> int \<Rightarrow> BitrotAlgorithm \<Rightarrow> bytes \<Rightarrow> int \<Rightarrow> xerr option" where
  "bitrotVerify H r wantSize partSize algo want shardSize =
     (if algo \<noteq> HighwayHash256S then
        (if snd r \<noteq> EOF \<or> int (length (fst r)) \<noteq> wantSize then Some errFileCorrupt
         else if H algo (fst r) \<noteq> want then Some errFileCorrupt else None)
      else if wantSize \<noteq> bitrotShardFileSize partSize shardSize algo then Some errFileCorrupt
      else verify_loop H r wantSize shardSize)"

section \<open>Files with checksums\<close>

definition bitrot_file :: "hashes \<Rightarrow> BitrotAlgorithm \<Rightarrow> bytes list \<Rightarrow> bytes" where
  "bitrot_file H a segs = concat (map (\<lambda>c. H a c @ c) segs)"

text \<open>Segments of one size, except for the last.\<close>

definition uniform :: "nat \<Rightarrow> bytes list \<Rightarrow> bool" where
  "uniform sz segs \<longleftrightarrow> 0 < sz \<and> (\<forall>k<length segs. 0 < length (segs ! k) \<and> length (segs ! k) \<le> sz
     \<and> (Suc k < length segs \<longrightarrow> length (segs ! k) = sz))"

lemma bitrot_file_simps [simp]:
  "bitrot_file H a [] = []" "bitrot_file H a (c # cs) = H a c @ c @ bitrot_file H a cs"
  by (simp_all add: bitrot_file_def)

lemma bitrot_file_append: "bitrot_file H a (xs @ ys) = bitrot_file H a xs @ bitrot_file H a ys"
  by (simp add: bitrot_file_def)

lemma uniform_Cons:
  "uniform sz (c # cs) \<longleftrightarrow> 0 < sz \<and> 0 < length c \<and> length c \<le> sz \<and> (cs \<noteq> [] \<longrightarrow> length c = sz)
     \<and> uniform sz cs" if "0 < sz"
proof -
  have "uniform sz cs" if "uniform sz (c # cs)"
    unfolding uniform_def
  proof (intro conjI allI impI)
    fix k assume "k < length cs"
    then show "0 < length (cs ! k)" "length (cs ! k) \<le> sz"
      using that unfolding uniform_def by (auto dest: spec [of _ "Suc k"])
    assume "Suc k < length cs"
    then show "length (cs ! k) = sz" using that unfolding uniform_def by (auto dest: spec [of _ "Suc k"])
  qed (use \<open>0 < sz\<close> in simp)
  moreover have "0 < length c \<and> length c \<le> sz \<and> (cs \<noteq> [] \<longrightarrow> length c = sz)" if "uniform sz (c # cs)"
    using that unfolding uniform_def by (auto dest: spec [of _ 0])
  moreover have "uniform sz (c # cs)"
    if "0 < length c \<and> length c \<le> sz \<and> (cs \<noteq> [] \<longrightarrow> length c = sz)" "uniform sz cs"
    using that unfolding uniform_def by (auto simp: nth_Cons split: nat.split)
  ultimately show ?thesis using \<open>0 < sz\<close> by blast
qed

lemma length_bitrot_file:
  "hashes_ok H \<Longrightarrow> length (bitrot_file H a segs) = length segs * hash_Size a + length (concat segs)"
  by (induction segs) (simp_all add: hashes_ok_def)

lemma uniform_concat_length:
  "uniform sz segs \<Longrightarrow> length segs = cdiv (length (concat segs)) sz"
proof (induction segs)
  case (Cons c cs)
  have sz: "0 < sz" using Cons.prems by (simp add: uniform_def)
  then have c: "0 < length c" "length c \<le> sz" "cs \<noteq> [] \<longrightarrow> length c = sz" and cs: "uniform sz cs"
    using Cons.prems by (simp_all add: uniform_Cons)
  show ?case
  proof (cases "cs = []")
    case True
    then have "cdiv (length c) sz = 1"
      using c sz by (cases "length c = sz") (auto simp: cdiv_def)
    with True show ?thesis by simp
  next
    case False
    then have "length (concat (c # cs)) = sz + length (concat cs)" using c by simp
    moreover have "cdiv (sz + x) sz = Suc (cdiv x sz)" for x using sz by (simp add: cdiv_def div_add_self1)
    ultimately show ?thesis using Cons.IH [OF cs] by simp
  qed
qed simp

text \<open>A file written by the streaming writer, one call for every segment, is the file with
  checksums; \<open>buffer_Write\<close> is the \<open>Write\<close> of a \<open>bytes.Buffer\<close>.\<close>

definition buffer_Write :: "bytes \<Rightarrow> bytes \<Rightarrow> bytes \<times> nat \<times> xerr option" where
  "buffer_Write buf p = (buf @ p, length p, None)"

fun write_all :: "('w \<Rightarrow> bytes \<Rightarrow> 'w \<times> nat \<times> xerr option) \<Rightarrow> 'w \<Rightarrow> bytes list \<Rightarrow> 'w \<times> xerr option" where
  "write_all wr w [] = (w, None)"
| "write_all wr w (p # ps) =
     (case wr w p of (w', n, Some err) \<Rightarrow> (w', Some err) | (w', n, None) \<Rightarrow> write_all wr w' ps)"

lemma write_all_file:
  "list_all (\<lambda>c. c \<noteq> []) segs \<Longrightarrow>
   write_all (streaming_Write buffer_Write cl H a) buf segs = (buf @ bitrot_file H a segs, None)"
  by (induction segs arbitrary: buf) (simp_all add: streaming_Write_def buffer_Write_def)

lemma verify_loop_file:
  assumes "hashes_ok H" and "uniform sz segs"
  shows "verify_loop H (bitrot_file H HighwayHash256S segs, EOF)
           (int (length (bitrot_file H HighwayHash256S segs))) (int sz) = None"
  using assms(2)
proof (induction segs)
  case Nil
  then show ?case by (simp add: verify_loop.simps)
next
  case (Cons c cs)
  let ?f = "bitrot_file H HighwayHash256S"
  have sz: "0 < sz" using Cons.prems by (simp add: uniform_def)
  then have c: "0 < length c" "length c \<le> sz" "cs \<noteq> [] \<longrightarrow> length c = sz" and cs: "uniform sz cs"
    using Cons.prems by (simp_all add: uniform_Cons)
  have h: "length (H HighwayHash256S c) = 32" using assms(1) by (simp add: hashes_ok_def)
  have left1: "int (length (?f (c # cs))) - 32 = int (length c + length (?f cs))" using h by simp
  have ss: "(if int (length c + length (?f cs)) < int sz then int (length c + length (?f cs)) else int sz)
      = int (length c) \<or> cs \<noteq> []"
    using c by (cases cs) auto
  show ?case
  proof (cases "cs = []")
    case True
    then show ?thesis using h c ss
      by (subst verify_loop.simps) (simp add: ReadFull_def CopyLimit_def Let_def verify_loop.simps [of _ _ 0])
  next
    case False
    then have "length c = sz" using c by simp
    moreover have "verify_loop H (?f cs, EOF) (int (length (?f cs))) (int sz) = None" using Cons.IH [OF cs] .
    ultimately show ?thesis using h c
      by (subst verify_loop.simps) (simp add: ReadFull_def CopyLimit_def Let_def)
  qed
qed

section \<open>The readers keep the promises of the interface\<close>

text \<open>A stream from which the segments can be read, and one that delivers nothing else: a segment
  that is read with a matching checksum is the right one. The second is what protection against bit
  rot rests on, as the hash functions make another match improbable, not impossible.\<close>

definition intact_stream :: "hashes \<Rightarrow> BitrotAlgorithm \<Rightarrow> stream \<Rightarrow> bytes list \<Rightarrow> bool" where
  "intact_stream H a st segs \<longleftrightarrow> (\<exists>rest. fst st = bitrot_file H a segs @ rest)"

fun honest_stream :: "hashes \<Rightarrow> BitrotAlgorithm \<Rightarrow> stream \<Rightarrow> bytes list \<Rightarrow> bool" where
  "honest_stream H a st [] \<longleftrightarrow> True"
| "honest_stream H a st (c # cs) \<longleftrightarrow>
     (case ReadFull st (hash_Size a) of
        (st1, Inl err) \<Rightarrow> True
      | (st1, Inr hb) \<Rightarrow>
          (case ReadFull st1 (length c) of
             (st2, Inl err) \<Rightarrow> True
           | (st2, Inr data) \<Rightarrow> H a data = hb \<longrightarrow> data = c \<and> honest_stream H a st2 cs))"

definition stream_at ::
  "(stream \<Rightarrow> bytes list \<Rightarrow> bool) \<Rightarrow> nat \<Rightarrow> streamingBitrotReader \<Rightarrow> bytes list \<Rightarrow> nat option \<Rightarrow> bool" where
  "stream_at P sz b segs pos \<longleftrightarrow>
     (\<exists>k st. pos = Some k \<and> br_rc b = Some st \<and> P st (drop k segs)
        \<and> (k < length segs \<longrightarrow> br_currOffset b = int (k * sz)))"

definition stream_shape :: "hashes \<Rightarrow> nat \<Rightarrow> streamingBitrotReader \<Rightarrow> bytes list \<Rightarrow> bool" where
  "stream_shape H sz b segs \<longleftrightarrow> hashes_ok H \<and> uniform sz segs \<and> br_shardSize b = int sz
     \<and> int (length segs * sz) < 2 ^ 63"

definition streaming_intact ::
  "hashes \<Rightarrow> nat \<Rightarrow> streamingBitrotReader \<Rightarrow> bytes list \<Rightarrow> nat option \<Rightarrow> bool" where
  "streaming_intact H sz b segs pos \<longleftrightarrow>
     stream_shape H sz b segs
     \<and> (br_rc b = None \<and> (\<forall>k<length segs. \<exists>st. open_stream b (int (k * sz)) = Inr st
            \<and> intact_stream H (br_algo b) st (drop k segs))
        \<or> stream_at (intact_stream H (br_algo b)) sz b segs pos)"

definition streaming_honest ::
  "hashes \<Rightarrow> nat \<Rightarrow> streamingBitrotReader \<Rightarrow> bytes list \<Rightarrow> nat option \<Rightarrow> bool" where
  "streaming_honest H sz b segs pos \<longleftrightarrow>
     stream_shape H sz b segs
     \<and> (br_rc b = None \<and> (\<forall>k<length segs. \<forall>st. open_stream b (int (k * sz)) = Inr st
            \<longrightarrow> honest_stream H (br_algo b) st (drop k segs))
        \<or> stream_at (honest_stream H (br_algo b)) sz b segs pos)"

lemma open_stream_curr [simp]: "open_stream (b\<lparr>br_currOffset := x\<rparr>) off = open_stream b off"
  by (simp add: open_stream_def Let_def)

lemma aligned [simp]: "0 < sz \<Longrightarrow> go_mod (int (k * sz)) (int sz) = 0"
  by simp

lemma shape_next:
  assumes "stream_shape H sz b segs" and "k < length segs"
  shows "Suc k < length segs \<Longrightarrow> wrap64 (int (k * sz) + int (length (segs ! k))) = int (Suc k * sz)"
proof -
  assume k: "Suc k < length segs"
  then have "length (segs ! k) = sz" using assms by (simp add: stream_shape_def uniform_def)
  moreover have "int (Suc k * sz) < 2 ^ 63"
  proof -
    have "Suc k * sz \<le> length segs * sz" using k by (intro mult_right_mono) auto
    then show ?thesis using assms(1) unfolding stream_shape_def by linarith
  qed
  then have "wrap64 (int (Suc k * sz)) = int (Suc k * sz)" by (rule wrap64_nat)
  ultimately show ?thesis by (simp add: add.commute)
qed

lemma read_segment_intact:
  assumes sh: "stream_shape H sz b segs" and k: "k < length segs" and cur: "br_currOffset b = int (k * sz)"
    and st: "intact_stream H (br_algo b) st (drop k segs)"
  shows "\<exists>b'. read_segment H b st (length (segs ! k)) = (b', Inr (segs ! k))
     \<and> streaming_intact H sz b' segs (Some (Suc k))"
proof -
  have dr: "drop k segs = segs ! k # drop (Suc k) segs" using k by (simp add: Cons_nth_drop_Suc)
  obtain rest where rest: "fst st = bitrot_file H (br_algo b) (drop k segs) @ rest"
    using st by (auto simp: intact_stream_def)
  have h: "length (H (br_algo b) (segs ! k)) = hash_Size (br_algo b)"
    using sh by (simp add: stream_shape_def hashes_ok_def)
  let ?b = "b\<lparr>br_rc := Some (bitrot_file H (br_algo b) (drop (Suc k) segs) @ rest, snd st),
      br_currOffset := wrap64 (br_currOffset b + int (length (segs ! k)))\<rparr>"
  have "read_segment H b st (length (segs ! k)) = (?b, Inr (segs ! k))"
    using rest h by (cases st) (simp add: dr read_segment_def ReadFull_def)
  moreover have "stream_at (intact_stream H (br_algo b)) sz ?b segs (Some (Suc k))"
    using shape_next [OF sh k] cur by (auto simp: stream_at_def intact_stream_def algebra_simps)
  ultimately show ?thesis using sh
    by (intro exI [of _ ?b]) (simp add: streaming_intact_def stream_shape_def)
qed

lemma read_segment_honest:
  assumes sh: "stream_shape H sz b segs" and k: "k < length segs" and cur: "br_currOffset b = int (k * sz)"
    and st: "honest_stream H (br_algo b) st (drop k segs)"
    and rd: "read_segment H b st (length (segs ! k)) = (b', res)"
  shows "(\<exists>err. res = Inl err) \<or> res = Inr (segs ! k) \<and> streaming_honest H sz b' segs (Some (Suc k))"
proof (cases res)
  case (Inr data)
  have dr: "drop k segs = segs ! k # drop (Suc k) segs" using k by (simp add: Cons_nth_drop_Suc)
  obtain s1 hb where r1: "ReadFull st (hash_Size (br_algo b)) = (s1, Inr hb)"
    using rd Inr by (auto simp: read_segment_def split: prod.splits sum.splits)
  obtain s2 dt where r2: "ReadFull s1 (length (segs ! k)) = (s2, Inr dt)"
    using rd Inr r1 by (auto simp: read_segment_def split: prod.splits sum.splits)
  have ok: "H (br_algo b) dt = hb" and dt: "dt = data"
    and b': "b' = b\<lparr>br_rc := Some s2, br_currOffset := wrap64 (br_currOffset b + int (length (segs ! k)))\<rparr>"
    using rd Inr r1 r2 by (auto simp: read_segment_def split: if_splits)
  have "dt = segs ! k" and hs: "honest_stream H (br_algo b) s2 (drop (Suc k) segs)"
    using st r1 r2 ok by (auto simp: dr)
  moreover have "stream_at (honest_stream H (br_algo b)) sz b' segs (Some (Suc k))"
    using shape_next [OF sh k] cur hs by (auto simp: stream_at_def b' algebra_simps)
  ultimately show ?thesis using sh dt Inr
    by (simp add: streaming_honest_def stream_shape_def b')
qed simp

lemma streaming_ReadAt_intact:
  assumes it: "streaming_intact H sz b segs (Some k)" and k: "k < length segs"
  shows "\<exists>b'. streaming_ReadAt H b (length (segs ! k)) (int (k * sz)) = (b', Inr (segs ! k))
     \<and> streaming_intact H sz b' segs (Some (Suc k))"
proof -
  have sh: "stream_shape H sz b segs" using it by (simp add: streaming_intact_def)
  then have sz: "0 < sz" "br_shardSize b = int sz" by (simp_all add: stream_shape_def uniform_def)
  from it consider (fresh) st where "br_rc b = None" "open_stream b (int (k * sz)) = Inr st"
      "intact_stream H (br_algo b) st (drop k segs)"
    | (opened) st where "br_rc b = Some st" "br_currOffset b = int (k * sz)"
      "intact_stream H (br_algo b) st (drop k segs)"
    using k by (auto simp: streaming_intact_def stream_at_def)
  then show ?thesis
  proof cases
    case fresh
    have "stream_shape H sz (b\<lparr>br_currOffset := int (k * sz)\<rparr>) segs" using sh by (simp add: stream_shape_def)
    then show ?thesis
      using read_segment_intact [of H sz "b\<lparr>br_currOffset := int (k * sz)\<rparr>" segs k st] k fresh sz
        aligned [OF sz(1), of k]
      by (simp add: streaming_ReadAt_def Let_def)
  next
    case opened
    then show ?thesis using read_segment_intact [OF sh k _ opened(3)] sz aligned [OF sz(1), of k]
      by (simp add: streaming_ReadAt_def)
  qed
qed

lemma streaming_ReadAt_honest:
  assumes it: "streaming_honest H sz b segs (Some k)" and k: "k < length segs"
    and rd: "streaming_ReadAt H b (length (segs ! k)) (int (k * sz)) = (b', res)"
  shows "(\<exists>err. res = Inl err) \<or> res = Inr (segs ! k) \<and> streaming_honest H sz b' segs (Some (Suc k))"
proof -
  have sh: "stream_shape H sz b segs" using it by (simp add: streaming_honest_def)
  then have sz: "0 < sz" "br_shardSize b = int sz" by (simp_all add: stream_shape_def uniform_def)
  from it consider (fresh) "br_rc b = None" "\<forall>st. open_stream b (int (k * sz)) = Inr st
      \<longrightarrow> honest_stream H (br_algo b) st (drop k segs)"
    | (opened) st where "br_rc b = Some st" "br_currOffset b = int (k * sz)"
      "honest_stream H (br_algo b) st (drop k segs)"
    using k by (auto simp: streaming_honest_def stream_at_def)
  then show ?thesis
  proof cases
    case fresh
    let ?b = "b\<lparr>br_currOffset := int (k * sz)\<rparr>"
    have sh': "stream_shape H sz ?b segs" using sh by (simp add: stream_shape_def)
    show ?thesis
    proof (cases "open_stream b (int (k * sz))")
      case (Inl err)
      then show ?thesis using rd fresh sz aligned [OF sz(1), of k]
        by (auto simp: streaming_ReadAt_def Let_def)
    next
      case (Inr st)
      then have "read_segment H ?b st (length (segs ! k)) = (b', res)"
        using rd fresh(1) sz aligned [OF sz(1), of k] by (simp add: streaming_ReadAt_def Let_def)
      moreover have "honest_stream H (br_algo b) st (drop k segs)" using fresh(2) Inr by blast
      ultimately show ?thesis using read_segment_honest [OF sh' k, of st b' res] by simp
    qed
  next
    case opened
    then have "read_segment H b st (length (segs ! k)) = (b', res)"
      using rd sz aligned [OF sz(1), of k] by (simp add: streaming_ReadAt_def)
    then show ?thesis using read_segment_honest [OF sh k opened(2,3)] by simp
  qed
qed

text \<open>The whole-file reader: the drive checks the sum of the file before it answers.\<close>

definition whole_shape :: "nat \<Rightarrow> wholeBitrotReader \<Rightarrow> bytes list \<Rightarrow> bool" where
  "whole_shape sz b segs \<longleftrightarrow> uniform sz segs \<and> wr_tillOffset b = int (length (concat segs))"

definition whole_intact :: "nat \<Rightarrow> wholeBitrotReader \<Rightarrow> bytes list \<Rightarrow> nat option \<Rightarrow> bool" where
  "whole_intact sz b segs pos \<longleftrightarrow>
     wr_buf b = None
       \<and> (\<forall>k<length segs. ReadFile (wr_disk b) (wr_volume b) (wr_filePath b) (int (k * sz))
             (wrap64 (wr_tillOffset b - int (k * sz))) (wr_verifier b) = Inr (concat (drop k segs)))
     \<or> (\<exists>k. pos = Some k \<and> wr_buf b = Some (concat (drop k segs)))"

definition whole_honest :: "nat \<Rightarrow> wholeBitrotReader \<Rightarrow> bytes list \<Rightarrow> nat option \<Rightarrow> bool" where
  "whole_honest sz b segs pos \<longleftrightarrow>
     wr_buf b = None
       \<and> (\<forall>k<length segs. \<forall>x. ReadFile (wr_disk b) (wr_volume b) (wr_filePath b) (int (k * sz))
             (wrap64 (wr_tillOffset b - int (k * sz))) (wr_verifier b) = Inr x
             \<longrightarrow> x = concat (drop k segs))
     \<or> (\<exists>k. pos = Some k \<and> wr_buf b = Some (concat (drop k segs)))"

lemma copy_buf_segment:
  "k < length segs \<Longrightarrow> copy_buf b (concat (drop k segs)) (length (segs ! k))
     = (b\<lparr>wr_buf := Some (concat (drop (Suc k) segs))\<rparr>, Inr (segs ! k))"
  by (simp add: copy_buf_def flip: Cons_nth_drop_Suc)

lemma whole_ReadAt_intact:
  assumes "whole_intact sz b segs (Some k)" and "k < length segs"
  shows "\<exists>b'. whole_ReadAt b (length (segs ! k)) (int (k * sz)) = (b', Inr (segs ! k))
     \<and> whole_intact sz b' segs (Some (Suc k))"
  using assms copy_buf_segment [OF assms(2), of b]
  by (auto simp: whole_intact_def whole_ReadAt_def)

lemma whole_ReadAt_honest:
  assumes "whole_honest sz b segs (Some k)" and "k < length segs"
    and "whole_ReadAt b (length (segs ! k)) (int (k * sz)) = (b', res)"
  shows "(\<exists>err. res = Inl err) \<or> res = Inr (segs ! k) \<and> whole_honest sz b' segs (Some (Suc k))"
proof -
  note seg = copy_buf_segment [OF assms(2), of b]
  show ?thesis
  proof (cases "wr_buf b")
    case None
    let ?rf = "ReadFile (wr_disk b) (wr_volume b) (wr_filePath b) (int (k * sz))
      (wrap64 (wr_tillOffset b - int (k * sz))) (wr_verifier b)"
    have all: "x = concat (drop k segs)" if "?rf = Inr x" for x
      using assms(1,2) None that unfolding whole_honest_def by simp
    show ?thesis
    proof (cases ?rf)
      case (Inl err)
      then have "snd (whole_ReadAt b (length (segs ! k)) (int (k * sz))) = Inl err"
        using None unfolding whole_ReadAt_def by simp
      then show ?thesis using assms(3) by simp
    next
      case (Inr x)
      then have "copy_buf b (concat (drop k segs)) (length (segs ! k)) = (b', res)"
        using None assms(3) all [OF Inr] unfolding whole_ReadAt_def by simp
      then show ?thesis using seg by (auto simp: whole_honest_def)
    qed
  next
    case (Some buf)
    then have "buf = concat (drop k segs)" using assms(1) by (simp add: whole_honest_def)
    then have "copy_buf b (concat (drop k segs)) (length (segs ! k)) = (b', res)"
      using Some assms(3) by (simp add: whole_ReadAt_def)
    then show ?thesis using seg by (auto simp: whole_honest_def)
  qed
qed

fun br_intact :: "hashes \<Rightarrow> nat \<Rightarrow> bitrot_reader \<Rightarrow> bytes list \<Rightarrow> nat option \<Rightarrow> bool" where
  "br_intact H sz (Streaming b) segs pos \<longleftrightarrow> streaming_intact H sz b segs pos"
| "br_intact H sz (Whole b) segs pos \<longleftrightarrow> whole_intact sz b segs pos"

fun br_honest :: "hashes \<Rightarrow> nat \<Rightarrow> bitrot_reader \<Rightarrow> bytes list \<Rightarrow> nat option \<Rightarrow> bool" where
  "br_honest H sz (Streaming b) segs pos \<longleftrightarrow> streaming_honest H sz b segs pos"
| "br_honest H sz (Whole b) segs pos \<longleftrightarrow> whole_honest sz b segs pos"

lemma br_fresh:
  "br_honest H sz r segs None \<Longrightarrow> br_honest H sz r segs (Some k)"
  "br_intact H sz r segs None \<Longrightarrow> br_intact H sz r segs (Some k)"
  by (cases r; simp add: streaming_honest_def stream_at_def whole_honest_def)
    (cases r; simp add: streaming_intact_def stream_at_def whole_intact_def)

lemma ReadAt_honest:
  assumes "br_honest H sz r segs (Some k)" and k: "k < length segs"
    and "ReadAt H r (length (segs ! k)) (int (k * sz)) = (r', res)"
  shows "(\<exists>err. res = Inl err) \<or> res = Inr (segs ! k) \<and> br_honest H sz r' segs (Some (Suc k))"
proof (cases r)
  case (Streaming b)
  obtain b' x where rd: "streaming_ReadAt H b (length (segs ! k)) (int (k * sz)) = (b', x)"
    by (cases "streaming_ReadAt H b (length (segs ! k)) (int (k * sz))")
  then have "r' = Streaming b'" "x = res" using assms(3) Streaming by simp_all
  then show ?thesis using streaming_ReadAt_honest [OF _ k rd] assms(1) Streaming by simp
next
  case (Whole b)
  obtain b' x where rd: "whole_ReadAt b (length (segs ! k)) (int (k * sz)) = (b', x)"
    by (cases "whole_ReadAt b (length (segs ! k)) (int (k * sz))")
  then have "r' = Whole b'" "x = res" using assms(3) Whole by simp_all
  then show ?thesis using whole_ReadAt_honest [OF _ k rd] assms(1) Whole by simp
qed

lemma ReadAt_intact:
  assumes "br_intact H sz r segs (Some k)" and k: "k < length segs"
  shows "\<exists>r'. ReadAt H r (length (segs ! k)) (int (k * sz)) = (r', Inr (segs ! k))
    \<and> br_intact H sz r' segs (Some (Suc k))"
proof (cases r)
  case (Streaming b)
  then obtain b' where "streaming_ReadAt H b (length (segs ! k)) (int (k * sz)) = (b', Inr (segs ! k))"
    "streaming_intact H sz b' segs (Some (Suc k))"
    using streaming_ReadAt_intact [OF _ k] assms(1) by (metis br_intact.simps(1))
  then show ?thesis using Streaming by (intro exI [of _ "Streaming b'"]) simp
next
  case (Whole b)
  then obtain b' where "whole_ReadAt b (length (segs ! k)) (int (k * sz)) = (b', Inr (segs ! k))"
    "whole_intact sz b' segs (Some (Suc k))"
    using whole_ReadAt_intact [OF _ k] assms(1) by (metis br_intact.simps(2))
  then show ?thesis using Whole by (intro exI [of _ "Whole b'"]) simp
qed

interpretation shards: shard_reader "ReadAt H" "br_honest H sz" "br_intact H sz" sz for H sz
  by unfold_locales (rule br_fresh ReadAt_honest ReadAt_intact; assumption)+

section \<open>Readers of written files\<close>

text \<open>A drive that holds a file answers every request within it.\<close>

definition holds_file :: "storage_api \<Rightarrow> string \<Rightarrow> string \<Rightarrow> bytes \<Rightarrow> bool" where
  "holds_file disk volume path file \<longleftrightarrow>
     (\<forall>off len. 0 \<le> off \<and> 0 \<le> len \<and> off + len \<le> int (length file)
        \<longrightarrow> ReadFileStream disk volume path off len = Inr (take (nat len) (drop (nat off) file), EOF))"

lemma drop_bitrot_file:
  assumes "hashes_ok H" and "uniform sz segs" and "k < length segs"
  shows "drop (k * (hash_Size a + sz)) (bitrot_file H a segs) = bitrot_file H a (drop k segs)"
proof -
  have "\<forall>i<k. length (map (\<lambda>c. H a c @ c) segs ! i) = hash_Size a + sz"
    using assms by (auto simp: hashes_ok_def uniform_def)
  then show ?thesis
    using drop_concat_uniform [of k "map (\<lambda>c. H a c @ c) segs" "hash_Size a + sz"] assms(3)
    by (simp add: bitrot_file_def drop_map)
qed

text \<open>A reader for the first segments of a file that is kept on a drive, or with the metadata.\<close>

lemma new_streaming_intact:
  assumes H: "hashes_ok H" and u: "uniform sz segs"
    and src: "data = [] \<and> holds_file disk volume path (bitrot_file H a (segs @ tls))
       \<or> data = bitrot_file H a (segs @ tls) \<and> data \<noteq> []"
    and till: "tillOffset = int (length (concat segs))"
    and len: "int (length (bitrot_file H a segs)) < 2 ^ 63" "int (length segs * sz) < 2 ^ 63"
  shows "streaming_intact H sz (newStreamingBitrotReader disk data volume path tillOffset a (int sz)) segs None"
proof -
  let ?b = "newStreamingBitrotReader disk data volume path tillOffset a (int sz)"
  let ?f = "bitrot_file H a segs"
  have sz: "0 < sz" using u by (simp add: uniform_def)
  have lf: "length ?f = length segs * hash_Size a + length (concat segs)"
    by (rule length_bitrot_file [OF H])
  have small: "int (length (concat segs)) < 2 ^ 63" "int (length segs * hash_Size a) < 2 ^ 63"
    using len(1) lf by linarith+
  have "ceilFrac tillOffset (int sz) = int (length segs)"
    using ceilFrac_nat [OF sz small(1)] uniform_concat_length [OF u] till by simp
  then have "br_tillOffset ?b = wrap64 (wrap64 (int (length segs * hash_Size a)) + int (length (concat segs)))"
    using till by (simp add: newStreamingBitrotReader_def)
  also have "\<dots> = wrap64 (int (length ?f))" using wrap64_nat [OF small(2)] lf by simp
  finally have bt: "br_tillOffset ?b = int (length ?f)" using wrap64_nat [OF len(1)] by simp
  have "\<exists>st. open_stream ?b (int (k * sz)) = Inr st \<and> intact_stream H a st (drop k segs)"
    if k: "k < length segs" for k
  proof -
    define so where "so = k * (hash_Size a + sz)"
    have dr: "drop so ?f = bitrot_file H a (drop k segs)"
      unfolding so_def by (rule drop_bitrot_file [OF H u k])
    have "0 < length (segs ! k)" using u k by (simp add: uniform_def)
    then have "bitrot_file H a (drop k segs) \<noteq> []" using k by (simp flip: Cons_nth_drop_Suc)
    then have lt: "so < length ?f" using dr by (metis drop_all not_le_imp_less)
    have "k * hash_Size a \<le> so" by (simp add: so_def)
    then have sb: "int so < 2 ^ 63" "int (k * hash_Size a) < 2 ^ 63" "int (length ?f - so) < 2 ^ 63"
      using lt len(1) by linarith+
    have "wrap64 (wrap64 (go_div (int (k * sz)) (int sz) * int (hash_Size a)) + int (k * sz))
        = wrap64 (int so)"
      using wrap64_nat [OF sb(2)] sz by (simp add: so_def algebra_simps)
    then have soff: "wrap64 (wrap64 (go_div (int (k * sz)) (br_shardSize ?b)
          * int (hash_Size (br_algo ?b))) + int (k * sz)) = int so"
      using wrap64_nat [OF sb(1)] by (simp add: newStreamingBitrotReader_def)
    have sub: "int (length ?f) - int so = int (length ?f - so)" using lt by linarith
    have rem: "wrap64 (br_tillOffset ?b - int so) = int (length ?f - so)"
      unfolding bt sub by (rule wrap64_nat [OF sb(3)])
    have ne: "br_tillOffset ?b \<noteq> int so" unfolding bt using lt by simp
    have "length (bitrot_file H a (drop k segs)) = length ?f - so" unfolding dr [symmetric] by simp
    then have tk: "take (length ?f - so) (drop so (bitrot_file H a (segs @ tls)))
        = bitrot_file H a (drop k segs)"
      using dr lt by (simp add: bitrot_file_append)
    have fields: "br_disk ?b = disk" "br_data ?b = data" "br_volume ?b = volume" "br_filePath ?b = path"
      by (simp_all add: newStreamingBitrotReader_def)
    have "open_stream ?b (int (k * sz)) = Inr (bitrot_file H a (drop k segs), EOF)"
      using src
    proof
      assume f: "data = [] \<and> holds_file disk volume path (bitrot_file H a (segs @ tls))"
      have hf: "0 \<le> off \<and> 0 \<le> l \<and> off + l \<le> int (length (bitrot_file H a (segs @ tls)))
          \<Longrightarrow> ReadFileStream disk volume path off l
            = Inr (take (nat l) (drop (nat off) (bitrot_file H a (segs @ tls))), EOF)" for off l
        using f unfolding holds_file_def by blast
      have "int so + int (length ?f - so) \<le> int (length (bitrot_file H a (segs @ tls)))"
        using lt by (simp add: bitrot_file_append)
      then have "ReadFileStream disk volume path (int so) (int (length ?f - so))
          = Inr (bitrot_file H a (drop k segs), EOF)"
        using hf [of "int so" "int (length ?f - so)"] tk by simp
      then show ?thesis
        unfolding open_stream_def Let_def soff rem fields using f ne by simp
    next
      assume f: "data = bitrot_file H a (segs @ tls) \<and> data \<noteq> []"
      then show ?thesis
        unfolding open_stream_def Let_def soff rem fields using tk by auto
    qed
    then show ?thesis by (simp add: intact_stream_def)
  qed
  moreover have "br_rc ?b = None" "br_shardSize ?b = int sz" "br_algo ?b = a"
    by (simp_all add: newStreamingBitrotReader_def)
  ultimately show ?thesis using H u len(2) by (simp add: streaming_intact_def stream_shape_def)
qed

section \<open>Properties\<close>

text \<open>The size announced for a file is the size of what is written.\<close>

lemma bitrotShardFileSize_file:
  assumes "hashes_ok H" and "uniform sz segs"
    and "int (length (bitrot_file H HighwayHash256S segs)) < 2 ^ 63"
  shows "bitrotShardFileSize (int (length (concat segs))) (int sz) HighwayHash256S
     = int (length (bitrot_file H HighwayHash256S segs))"
proof -
  have sz: "0 < sz" using assms(2) by (simp add: uniform_def)
  have lf: "length (bitrot_file H HighwayHash256S segs)
      = length segs * hash_Size HighwayHash256S + length (concat segs)"
    by (rule length_bitrot_file [OF assms(1)])
  have small: "int (length (concat segs)) < 2 ^ 63" "int (length segs * hash_Size HighwayHash256S) < 2 ^ 63"
    using assms(3) lf by linarith+
  have "ceilFrac (int (length (concat segs))) (int sz) = int (length segs)"
    using ceilFrac_nat [OF sz small(1)] uniform_concat_length [OF assms(2)] by simp
  then have "bitrotShardFileSize (int (length (concat segs))) (int sz) HighwayHash256S
      = wrap64 (wrap64 (int (length segs * hash_Size HighwayHash256S)) + int (length (concat segs)))"
    by (simp add: bitrotShardFileSize_def)
  also have "\<dots> = wrap64 (int (length (bitrot_file H HighwayHash256S segs)))"
    using wrap64_nat [OF small(2)] lf by simp
  finally show ?thesis using wrap64_nat [OF assms(3)] by simp
qed

text \<open>C28. A shard file that the streaming writer produced from the segments of a part has the size
  that the metadata calls for, and passes verification: a file that nothing has touched is never
  reported as corrupt.\<close>

theorem bitrot_write_verify:
  assumes "hashes_ok H" and "uniform sz segs"
    and "int (length (bitrot_file H HighwayHash256S segs)) < 2 ^ 63"
  shows "\<exists>f. write_all (streaming_Write buffer_Write cl H HighwayHash256S) [] segs = (f, None)
     \<and> int (length f) = bitrotShardFileSize (int (length (concat segs))) (int sz) HighwayHash256S
     \<and> bitrotVerify H (f, EOF) (int (length f)) (int (length (concat segs))) HighwayHash256S want (int sz) = None"
proof -
  have "list_all (\<lambda>c. c \<noteq> []) segs" using assms(2) by (auto simp: uniform_def list_all_length)
  then have "write_all (streaming_Write buffer_Write cl H HighwayHash256S) [] segs
      = (bitrot_file H HighwayHash256S segs, None)"
    using write_all_file [of segs cl H HighwayHash256S "[]"] by simp
  then show ?thesis
    using bitrotShardFileSize_file [OF assms] verify_loop_file [OF assms(1,2)]
    by (simp add: bitrotVerify_def)
qed

text \<open>The hash functions of the witness: the right sizes, and that is all.\<close>

definition zero_hash :: hashes where
  "zero_hash a x = replicate (hash_Size a) 0"

lemma zero_hash_ok: "hashes_ok zero_hash"
  by (simp add: hashes_ok_def zero_hash_def)

theorem bitrot_write_verify_witness:
  "\<exists>f. write_all (streaming_Write buffer_Write (\<lambda>w e. w) zero_hash HighwayHash256S) [] [[1, 2], [3]] = (f, None)
     \<and> int (length f) = bitrotShardFileSize 3 2 HighwayHash256S
     \<and> bitrotVerify zero_hash (f, EOF) (int (length f)) 3 HighwayHash256S [] 2 = None"
proof -
  have "uniform 2 [[1, 2 :: 8 word], [3]]" by (simp add: uniform_def nth_Cons split: nat.split)
  moreover have "int (length (bitrot_file zero_hash HighwayHash256S [[1, 2], [3]])) < 2 ^ 63"
    by (simp add: zero_hash_def)
  ultimately show ?thesis
    using bitrot_write_verify [OF zero_hash_ok, of 2 "[[1, 2], [3]]" "\<lambda>w e. w" "[]"] by simp
qed

end
