(* ===== verification/Error_Quorum.thy ===== *)
theory Error_Quorum
  imports Erasure_Geometry "HOL-Library.Multiset"
begin

text \<open>
  Agreement among the drives of a set (\<open>cmd/erasure-metadata-utils.go\<close>): the answer of an operation
  that was sent to all drives is the one that most of them gave, when a quorum did. The counts are
  kept in a Go map, whose iteration order is not fixed: the parameter \<open>ord\<close> is the order of one run,
  a permutation of the entries.
\<close>

section \<open>Counting in a map\<close>

fun bump :: "'k \<Rightarrow> ('k \<times> nat) list \<Rightarrow> ('k \<times> nat) list" where
  "bump k [] = [(k, 1)]"
| "bump k ((x, n) # xs) = (if x = k then (x, Suc n) # xs else (x, n) # bump k xs)"

definition tally :: "'k list \<Rightarrow> ('k \<times> nat) list" where
  "tally ks = fold bump ks []"

lemma map_of_bump:
  "map_of (bump k xs) = (map_of xs)(k \<mapsto> (case map_of xs k of None \<Rightarrow> 1 | Some n \<Rightarrow> Suc n))"
  by (induction k xs rule: bump.induct) (auto simp: fun_eq_iff)

lemma fst_bump: "fst ` set (bump k xs) = insert k (fst ` set xs)"
  by (induction k xs rule: bump.induct) auto

lemma distinct_bump: "distinct (map fst xs) \<Longrightarrow> distinct (map fst (bump k xs))"
proof (induction k xs rule: bump.induct)
  case (2 k x n xs)
  then show ?case using fst_bump [of k xs] by (auto simp: image_iff)
qed simp

lemma tally_snoc: "tally (ks @ [k]) = bump k (tally ks)"
  by (simp add: tally_def)

lemma distinct_tally: "distinct (map fst (tally ks))"
proof (induction ks rule: rev_induct)
  case (snoc k ks)
  then show ?case by (simp add: tally_snoc distinct_bump)
qed (simp add: tally_def)

lemma map_of_tally:
  "map_of (tally ks) k = (if k \<in> set ks then Some (count_list ks k) else None)"
proof (induction ks rule: rev_induct)
  case (snoc x ks)
  then show ?case by (auto simp: tally_snoc map_of_bump count_list_0_iff)
qed (simp add: tally_def)

text \<open>The entries of the map are the values that occur, with their numbers of occurrences.\<close>

lemma set_tally: "(k, n) \<in> set (tally ks) \<longleftrightarrow> k \<in> set ks \<and> n = count_list ks k"
  using map_of_tally [of ks k] map_of_is_SomeI [OF distinct_tally, of k n ks] map_of_SomeD [of "tally ks" k n]
  by (auto split: if_splits)

section \<open>Reducing the errors of the drives\<close>

definition IsErr :: "xerr option \<Rightarrow> xerr list \<Rightarrow> bool" where
  "IsErr err errs \<longleftrightarrow> (case err of None \<Rightarrow> False | Some e \<Rightarrow> list_ex (\<lambda>x. errors_Is e x) errs)"

definition IsErrIgnored :: "xerr option \<Rightarrow> xerr list \<Rightarrow> bool" where
  "IsErrIgnored err ignoredErrs = IsErr err ignoredErrs"

definition baseErrs :: "xerr list" where
  "baseErrs = [errDiskNotFound, errFaultyDisk, errFaultyRemoteDisk]"

definition objectOpIgnoredErrs :: "xerr list" where
  "objectOpIgnoredErrs = baseErrs @ [errDiskAccessDenied, errUnformattedDisk]"

text \<open>The values that are counted: cancellations count as one.\<close>

definition err_key :: "xerr option \<Rightarrow> xerr option" where
  "err_key err = (case err of None \<Rightarrow> None
     | Some e \<Rightarrow> if errors_Is e ContextCanceled then Some ContextCanceled else Some e)"

definition counted :: "xerr option list \<Rightarrow> xerr list \<Rightarrow> xerr option list" where
  "counted errs ignoredErrs = map err_key (filter (\<lambda>err. \<not> IsErrIgnored err ignoredErrs) errs)"

fun max_err :: "(xerr option \<times> nat) list \<Rightarrow> nat \<Rightarrow> xerr option \<Rightarrow> nat \<times> xerr option" where
  "max_err [] mx maxErr = (mx, maxErr)"
| "max_err ((err, n) # xs) mx maxErr =
     (if mx < n then max_err xs n err
      else if mx = n \<and> err = None then max_err xs mx err
      else max_err xs mx maxErr)"

type_synonym err_order = "(xerr option \<times> nat) list \<Rightarrow> (xerr option \<times> nat) list"

definition reduceErrs :: "err_order \<Rightarrow> xerr option list \<Rightarrow> xerr list \<Rightarrow> nat \<times> xerr option" where
  "reduceErrs ord errs ignoredErrs = max_err (ord (tally (counted errs ignoredErrs))) 0 None"

definition reduceQuorumErrs ::
  "err_order \<Rightarrow> xerr option list \<Rightarrow> xerr list \<Rightarrow> int \<Rightarrow> xerr \<Rightarrow> xerr option" where
  "reduceQuorumErrs ord errs ignoredErrs quorum quorumErr =
     (case reduceErrs ord errs ignoredErrs of (maxCount, maxErr) \<Rightarrow>
        if quorum \<le> int maxCount then maxErr else Some quorumErr)"

definition reduceReadQuorumErrs :: "err_order \<Rightarrow> xerr option list \<Rightarrow> xerr list \<Rightarrow> int \<Rightarrow> xerr option" where
  "reduceReadQuorumErrs ord errs ignoredErrs readQuorum =
     reduceQuorumErrs ord errs ignoredErrs readQuorum errErasureReadQuorum"

definition reduceWriteQuorumErrs :: "err_order \<Rightarrow> xerr option list \<Rightarrow> xerr list \<Rightarrow> int \<Rightarrow> xerr option" where
  "reduceWriteQuorumErrs ord errs ignoredErrs writeQuorum =
     reduceQuorumErrs ord errs ignoredErrs writeQuorum errErasureWriteQuorum"

definition countErrs :: "xerr option list \<Rightarrow> xerr option \<Rightarrow> nat" where
  "countErrs errs err = length (filter (\<lambda>err1. err1 = err) errs)"

definition any_order :: "('a list \<Rightarrow> 'a list) \<Rightarrow> bool" where
  "any_order ord \<longleftrightarrow> (\<forall>xs. mset (ord xs) = mset xs)"

text \<open>The number of drives that gave an answer.\<close>

definition votes :: "xerr option list \<Rightarrow> xerr list \<Rightarrow> xerr option \<Rightarrow> nat" where
  "votes errs ignoredErrs v = count_list (counted errs ignoredErrs) v"

lemma max_err_spec:
  assumes "max_err xs mx e = (m, r)"
  shows "mx \<le> m" and "\<forall>(v, n) \<in> set xs. n \<le> m" and "(m = mx \<and> r = e) \<or> (r, m) \<in> set xs"
    and "(None, m) \<in> set xs \<or> (m = mx \<and> e = None) \<Longrightarrow> r = None"
  using assms
proof (atomize (full), induction xs mx e rule: max_err.induct)
  case (2 err n xs mx maxErr)
  then show ?case by (auto split: if_splits)
qed auto

lemma votes_sum:
  "u \<noteq> v \<Longrightarrow> count_list xs u + count_list xs v \<le> length xs"
  by (induction xs) auto

lemma length_counted: "length (counted errs ignoredErrs) \<le> length errs"
  by (simp add: counted_def)

lemma set_any_order: "any_order ord \<Longrightarrow> set (ord xs) = set xs"
  unfolding any_order_def by (metis set_mset_mset)

lemma reduceErrs_max:
  assumes "any_order ord" and "reduceErrs ord errs ig = (m, r)"
  shows "votes errs ig v \<le> m" and "0 < m \<Longrightarrow> votes errs ig r = m"
    and "votes errs ig None = m \<Longrightarrow> r = None"
proof -
  let ?xs = "ord (tally (counted errs ig))"
  have mem: "(v, n) \<in> set ?xs \<longleftrightarrow> v \<in> set (counted errs ig) \<and> n = votes errs ig v" for v n
    using set_any_order [OF assms(1)] by (simp add: set_tally votes_def)
  have m: "max_err ?xs 0 None = (m, r)" using assms(2) by (simp add: reduceErrs_def)
  note spec = max_err_spec [OF m]
  show "votes errs ig v \<le> m"
  proof (cases "v \<in> set (counted errs ig)")
    case True
    then show ?thesis using spec(2) mem [of v "votes errs ig v"] by blast
  qed (simp add: votes_def)
  show "votes errs ig r = m" if "0 < m" using spec(3) that mem [of r m] by auto
  show "r = None" if "votes errs ig None = m"
  proof (cases "m = 0")
    case False
    then have "None \<in> set (counted errs ig)" using that by (metis count_list_0_iff votes_def)
    then show ?thesis using spec(4) mem that by blast
  qed (use spec(3,4) in auto)
qed

section \<open>Properties\<close>

text \<open>C30. When the quorum is a majority of the drives, the order in which Go walks the map of counts
  does not matter: the answer that a quorum of drives gave is returned, and the quorum error when no
  answer has a quorum; an operation succeeds exactly when a quorum of drives succeeded.\<close>

theorem reduceQuorumErrs_majority:
  assumes "any_order ord" and "int (length errs) < 2 * quorum"
  shows "(\<forall>v. quorum \<le> int (votes errs ignoredErrs v)
            \<longrightarrow> reduceQuorumErrs ord errs ignoredErrs quorum quorumErr = v)
     \<and> ((\<forall>v. int (votes errs ignoredErrs v) < quorum)
            \<longrightarrow> reduceQuorumErrs ord errs ignoredErrs quorum quorumErr = Some quorumErr)"
proof -
  obtain m r where mr: "reduceErrs ord errs ignoredErrs = (m, r)"
    by (cases "reduceErrs ord errs ignoredErrs")
  note mx = reduceErrs_max [OF assms(1) mr]
  have pos: "0 < quorum" using assms(2) by linarith
  have "reduceQuorumErrs ord errs ignoredErrs quorum quorumErr = v"
    if v: "quorum \<le> int (votes errs ignoredErrs v)" for v
  proof -
    have m: "quorum \<le> int m" using v mx(1) [of v] by linarith
    then have "votes errs ignoredErrs r = m" using mx(2) pos by linarith
    then have "r = v"
      using votes_sum [of r v "counted errs ignoredErrs"] v m assms(2) length_counted [of errs ignoredErrs]
      unfolding votes_def by (cases "r = v") linarith+
    then show ?thesis using mr m by (simp add: reduceQuorumErrs_def)
  qed
  moreover have "reduceQuorumErrs ord errs ignoredErrs quorum quorumErr = Some quorumErr"
    if all: "\<forall>v. int (votes errs ignoredErrs v) < quorum"
  proof -
    have "int m < quorum" using all mx(2) pos by (cases "0 < m") fastforce+
    then show ?thesis using mr by (simp add: reduceQuorumErrs_def)
  qed
  ultimately show ?thesis by blast
qed

theorem reduceQuorumErrs_majority_witness:
  "reduceQuorumErrs rev [None, Some errFileNotFound, None, None] objectOpIgnoredErrs 3 errErasureWriteQuorum = None"
proof -
  have "any_order (rev :: err_order)" by (simp add: any_order_def)
  moreover have "votes [None, Some errFileNotFound, None, None] objectOpIgnoredErrs None = 3"
    by (simp add: votes_def counted_def IsErrIgnored_def IsErr_def objectOpIgnoredErrs_def baseErrs_def
        err_key_def)
  ultimately show ?thesis
    using reduceQuorumErrs_majority [of rev "[None, Some errFileNotFound, None, None]" 3
        objectOpIgnoredErrs errErasureWriteQuorum] by simp
qed

text \<open>With half of the drives as the quorum, as \<open>getLatestFileInfo\<close> asks, two answers can have it and
  the order decides.\<close>

lemma reduceQuorumErrs_half:
  "reduceReadQuorumErrs (\<lambda>xs. xs) [Some errFileNotFound, Some errFileCorrupt] objectOpIgnoredErrs 1
      = Some errFileNotFound
   \<and> reduceReadQuorumErrs rev [Some errFileNotFound, Some errFileCorrupt] objectOpIgnoredErrs 1
      = Some errFileCorrupt"
  by code_simp

end
