(* ===== verification/Erasure_Coding.thy ===== *)
theory Erasure_Coding
  imports Bitrot Error_Quorum
begin

text \<open>
  Writing a part of an object to the drives of an erasure set and reading a range of it back
  (\<open>cmd/erasure-encode.go\<close>, \<open>cmd/erasure-decode.go\<close>, \<open>cmd/erasure-utils.go\<close>). Encoding cuts the data
  into blocks, encodes every block and appends one shard of it to every file; decoding reads the
  blocks that the range touches with the parallel reader, recreates the missing data shards and
  writes the bytes of the range. Reading is not deterministic (the drives answer in any order), so
  \<open>Decode\<close> is a relation between a call and the answers it can give.
\<close>

section \<open>Writing to the drives in parallel\<close>

text \<open>Every goroutine of \<open>Write\<close> touches its own position only, so the order does not matter. \<open>None\<close>
  is the panic of a block that is missing.\<close>

record 'w parallelWriter =
  pw_writers :: "'w option list"
  pw_writeQuorum :: int
  pw_errs :: "xerr option list"

type_synonym 'w write_fn = "'w \<Rightarrow> bytes \<Rightarrow> 'w \<times> nat \<times> xerr option"

definition write_one :: "'w write_fn \<Rightarrow> 'w option \<Rightarrow> xerr option \<Rightarrow> bytes \<Rightarrow> 'w option \<times> xerr option" where
  "write_one wr w err block =
     (case w of
        None \<Rightarrow> (None, Some errDiskNotFound)
      | Some x \<Rightarrow>
          if err \<noteq> None then (w, err)
          else case wr x block of
                 (x', n, None) \<Rightarrow> if n \<noteq> length block then (None, Some ErrShortWrite) else (Some x', None)
               | (x', n, Some e) \<Rightarrow> (None, Some e))"

definition parallel_Write ::
  "'w write_fn \<Rightarrow> err_order \<Rightarrow> 'w parallelWriter \<Rightarrow> bytes list \<Rightarrow> ('w parallelWriter \<times> xerr option) option" where
  "parallel_Write wr ord p blocks =
     (if length blocks < length (pw_writers p) then None
      else let res = map (\<lambda>i. write_one wr (pw_writers p ! i) (pw_errs p ! i) (blocks ! i))
                       [0..<length (pw_writers p)];
               p' = p\<lparr>pw_writers := map fst res, pw_errs := map snd res\<rparr>
           in Some (p', if pw_writeQuorum p \<le> int (countErrs (pw_errs p') None) then None
                        else reduceWriteQuorumErrs ord (pw_errs p') objectOpIgnoredErrs (pw_writeQuorum p)))"

section \<open>Encode\<close>

text \<open>\<open>io.ReadFull(src, buf)\<close> with what was read before an error.\<close>

definition ReadFullBuf :: "stream \<Rightarrow> nat \<Rightarrow> stream \<times> bytes \<times> xerr option" where
  "ReadFullBuf st n =
     (case st of (rest, e) \<Rightarrow>
        if n \<le> length rest then ((drop n rest, e), take n rest, None)
        else (([], e), rest, Some (if e = EOF then (if rest = [] then EOF else ErrUnexpectedEOF) else e)))"

text \<open>The loop of \<open>Encode\<close>, with a buffer of \<open>n\<close> bytes; \<open>None\<close> when it never returns, or panics.\<close>

partial_function (option) encode_loop ::
  "'w write_fn \<Rightarrow> err_order \<Rightarrow> erasure \<Rightarrow> nat \<Rightarrow> stream \<Rightarrow> 'w parallelWriter \<Rightarrow> int
     \<Rightarrow> ('w parallelWriter \<times> (xerr, int) result) option" where
  "encode_loop wr ord e n src pw tot =
     (case ReadFullBuf src n of (src', data, err) \<Rightarrow>
        if err \<noteq> None \<and> err \<noteq> Some EOF \<and> err \<noteq> Some ErrUnexpectedEOF then Some (pw, Inl (the err))
        else if data = [] \<and> tot \<noteq> 0 then Some (pw, Inr tot)
        else case EncodeData e data of
               Inl eerr \<Rightarrow> Some (pw, Inl eerr)
             | Inr blocks \<Rightarrow>
                 (case parallel_Write wr ord pw blocks of
                    None \<Rightarrow> None
                  | Some (pw', Some werr) \<Rightarrow> Some (pw', Inl werr)
                  | Some (pw', None) \<Rightarrow>
                      if err \<noteq> None then Some (pw', Inr (wrap64 (tot + int (length data))))
                      else encode_loop wr ord e n src' pw' (wrap64 (tot + int (length data)))))"

declare encode_loop.simps [code]

definition Encode ::
  "'w write_fn \<Rightarrow> err_order \<Rightarrow> erasure \<Rightarrow> stream \<Rightarrow> 'w option list \<Rightarrow> nat \<Rightarrow> int
     \<Rightarrow> ('w parallelWriter \<times> (xerr, int) result) option" where
  "Encode wr ord e src writers buf quorum =
     encode_loop wr ord e buf src
       \<lparr>pw_writers = writers, pw_writeQuorum = quorum, pw_errs = replicate (length writers) None\<rparr> 0"

section \<open>Writing out the data blocks\<close>

text \<open>\<open>xioutil.Copy(dst, bytes.NewReader(b))\<close> makes one call of \<open>Write\<close>, none for an empty slice.\<close>

definition Copy :: "'d write_fn \<Rightarrow> 'd \<Rightarrow> bytes \<Rightarrow> 'd \<times> nat \<times> xerr option" where
  "Copy wr dst b =
     (if b = [] then (dst, 0, None)
      else case wr dst b of
             (dst', n, None) \<Rightarrow> (dst', n, if n \<noteq> length b then Some ErrShortWrite else None)
           | (dst', n, Some e) \<Rightarrow> (dst', n, Some e))"

definition getDataBlockLen :: "bytes list \<Rightarrow> nat \<Rightarrow> int" where
  "getDataBlockLen enBlocks d = int (sum_list (map length (take d enBlocks)))"

fun write_blocks :: "'d write_fn \<Rightarrow> 'd \<Rightarrow> bytes list \<Rightarrow> int \<Rightarrow> int \<Rightarrow> int \<Rightarrow> 'd \<times> (xerr, int) result" where
  "write_blocks wr dst [] off left written = (dst, Inr written)"
| "write_blocks wr dst (block # blocks) off left written =
     (if int (length block) \<le> off
      then write_blocks wr dst blocks (off - int (length block)) left written
      else let b = drop (nat off) block in
           if left < int (length b) then
             (case Copy wr dst (take (nat left) b) of
                (dst', n, Some err) \<Rightarrow> (dst', Inl err)
              | (dst', n, None) \<Rightarrow> (dst', Inr (written + int n)))
           else
             (case Copy wr dst b of
                (dst', n, Some err) \<Rightarrow> (dst', Inl err)
              | (dst', n, None) \<Rightarrow>
                  write_blocks wr dst' blocks 0 (left - int n) (written + int n)))"

definition writeDataBlocks ::
  "'d write_fn \<Rightarrow> 'd \<Rightarrow> bytes list \<Rightarrow> int \<Rightarrow> int \<Rightarrow> int \<Rightarrow> 'd \<times> (xerr, int) result" where
  "writeDataBlocks wr dst enBlocks d off len =
     (if off < 0 \<or> len < 0 then (dst, Inl errUnexpected)
      else if int (length enBlocks) < d then (dst, Inl ErrTooFewShards)
      else if getDataBlockLen enBlocks (nat d) < len then (dst, Inl ErrShortData)
      else write_blocks wr dst (take (nat d) enBlocks) off len 0)"

section \<open>Decode\<close>

text \<open>The bytes of a block that the range takes.\<close>

definition decode_range :: "int \<Rightarrow> int \<Rightarrow> int \<Rightarrow> int \<Rightarrow> int \<times> int" where
  "decode_range bs off len block =
     (let startBlock = go_div off bs; endBlock = go_div (wrap64 (off + len)) bs in
      if startBlock = endBlock then (go_mod off bs, len)
      else if block = startBlock then (go_mod off bs, wrap64 (bs - go_mod off bs))
      else if block = endBlock then (0, go_mod (wrap64 (off + len)) bs)
      else (0, bs))"

definition decode_reader ::
  "'r option list \<Rightarrow> erasure \<Rightarrow> int \<Rightarrow> int \<Rightarrow> bool list \<Rightarrow> 'r pread" where
  "decode_reader readers e off totalLength prefer =
     (let reader = newParallelReader readers e off totalLength
      in if length prefer = length readers then preferReaders reader prefer else reader)"

definition heal_error :: "xerr option \<Rightarrow> bool" where
  "heal_error err \<longleftrightarrow> IsErr err [errFileNotFound, errFileCorrupt]"

definition decode_done :: "int \<Rightarrow> int \<Rightarrow> xerr option \<Rightarrow> int \<times> xerr option" where
  "decode_done len written derr =
     (if written \<noteq> len then (written, Some errLessData) else (written, derr))"

type_synonym 'r read_fn = "'r \<Rightarrow> nat \<Rightarrow> int \<Rightarrow> 'r \<times> (xerr, bytes) result"

text \<open>The loop over the blocks: the state of the reader, the buffers, the destination, the bytes
  written and the error to report; the answer has the reader and the destination at the end, the
  count and the error.\<close>

inductive decode_loop ::
  "'r read_fn \<Rightarrow> 'd write_fn \<Rightarrow> erasure \<Rightarrow> int \<Rightarrow> int \<Rightarrow> int \<Rightarrow> 'r pread \<Rightarrow> bytes list \<Rightarrow> 'd \<Rightarrow> int
     \<Rightarrow> xerr option \<Rightarrow> 'r pread \<times> 'd \<times> int \<times> xerr option \<Rightarrow> bool"
  for ra wr e off len where
  dl_end: "go_div (wrap64 (off + len)) (blockSize e) < block
       \<or> snd (decode_range (blockSize e) off len block) = 0
     \<Longrightarrow> decode_loop ra wr e off len block p bufs dst written derr (p, dst, decode_done len written derr)"
| dl_read: "block \<le> go_div (wrap64 (off + len)) (blockSize e)
     \<Longrightarrow> snd (decode_range (blockSize e) off len block) \<noteq> 0
     \<Longrightarrow> Read ra p bufs (p', [], Some err)
     \<Longrightarrow> decode_loop ra wr e off len block p bufs dst written derr (p', dst, -1, Some err)"
| dl_decode: "block \<le> go_div (wrap64 (off + len)) (blockSize e)
     \<Longrightarrow> snd (decode_range (blockSize e) off len block) \<noteq> 0
     \<Longrightarrow> Read ra p bufs (p', bufs', err) \<Longrightarrow> bufs' \<noteq> [] \<or> err = None
     \<Longrightarrow> DecodeDataBlocks e bufs' = Inl err'
     \<Longrightarrow> decode_loop ra wr e off len block p bufs dst written derr (p', dst, -1, Some err')"
| dl_write: "block \<le> go_div (wrap64 (off + len)) (blockSize e)
     \<Longrightarrow> decode_range (blockSize e) off len block = (bo, bl) \<Longrightarrow> bl \<noteq> 0
     \<Longrightarrow> Read ra p bufs (p', bufs', err) \<Longrightarrow> bufs' \<noteq> [] \<or> err = None
     \<Longrightarrow> DecodeDataBlocks e bufs' = Inr out
     \<Longrightarrow> writeDataBlocks wr dst out (dataBlocks e) bo bl = (dst', Inl err')
     \<Longrightarrow> decode_loop ra wr e off len block p bufs dst written derr (p', dst', -1, Some err')"
| dl_next: "block \<le> go_div (wrap64 (off + len)) (blockSize e)
     \<Longrightarrow> decode_range (blockSize e) off len block = (bo, bl) \<Longrightarrow> bl \<noteq> 0
     \<Longrightarrow> Read ra p bufs (p', bufs', err) \<Longrightarrow> bufs' \<noteq> [] \<or> err = None
     \<Longrightarrow> DecodeDataBlocks e bufs' = Inr out
     \<Longrightarrow> writeDataBlocks wr dst out (dataBlocks e) bo bl = (dst', Inr n)
     \<Longrightarrow> decode_loop ra wr e off len (wrap64 (block + 1)) p' out dst' (wrap64 (written + n))
           (if bufs' \<noteq> [] \<and> heal_error err \<and> derr = None then err else derr) res
     \<Longrightarrow> decode_loop ra wr e off len block p bufs dst written derr res"

text \<open>The answer of \<open>Decode\<close>: the readers of the caller afterwards, the destination, the number of
  bytes written and the error.\<close>

inductive Decode ::
  "'r read_fn \<Rightarrow> 'd write_fn \<Rightarrow> erasure \<Rightarrow> 'd \<Rightarrow> 'r option list \<Rightarrow> int \<Rightarrow> int \<Rightarrow> int \<Rightarrow> bool list
     \<Rightarrow> nat option list \<times> 'd \<times> int \<times> xerr option \<Rightarrow> bool"
  for ra wr e where
  Decode_invalid: "off < 0 \<or> len < 0 \<or> totalLength < wrap64 (off + len)
     \<Longrightarrow> Decode ra wr e dst readers off len totalLength prefer
           (reader_ptrs readers, dst, -1, Some errInvalidArgument)"
| Decode_empty: "\<not> (off < 0 \<or> len < 0 \<or> totalLength < wrap64 (off + len)) \<Longrightarrow> len = 0
     \<Longrightarrow> Decode ra wr e dst readers off len totalLength prefer (reader_ptrs readers, dst, 0, None)"
| Decode_run: "\<not> (off < 0 \<or> len < 0 \<or> totalLength < wrap64 (off + len)) \<Longrightarrow> len \<noteq> 0
     \<Longrightarrow> decode_loop ra wr e off len (go_div off (blockSize e))
           (decode_reader readers e off totalLength prefer) [] dst 0 None (p', dst', written, err)
     \<Longrightarrow> Decode ra wr e dst readers off len totalLength prefer (pr_orgReaders p', dst', written, err)"

inductive_cases decode_loopE:
  "decode_loop ra wr e off len block p bufs dst written derr (p', dst', w, err)"

section \<open>Heal\<close>

text \<open>\<open>Heal\<close> recreates all the shards of every block and writes them to the drives to be healed.\<close>

inductive heal_loop ::
  "'r read_fn \<Rightarrow> 'w write_fn \<Rightarrow> err_order \<Rightarrow> erasure \<Rightarrow> int \<Rightarrow> int \<Rightarrow> 'r pread \<Rightarrow> bytes list \<Rightarrow> 'w option list
     \<Rightarrow> xerr option \<Rightarrow> 'w option list \<times> xerr option \<Rightarrow> bool"
  for ra wr ord e endBlock where
  hl_end: "endBlock \<le> block \<Longrightarrow> heal_loop ra wr ord e endBlock block p bufs writers derr (writers, derr)"
| hl_read: "block < endBlock \<Longrightarrow> Read ra p bufs (p', [], Some err)
     \<Longrightarrow> heal_loop ra wr ord e endBlock block p bufs writers derr (writers, Some err)"
| hl_decode: "block < endBlock \<Longrightarrow> Read ra p bufs (p', bufs', err) \<Longrightarrow> bufs' \<noteq> [] \<or> err = None
     \<Longrightarrow> DecodeDataAndParityBlocks e bufs' = Inl err'
     \<Longrightarrow> heal_loop ra wr ord e endBlock block p bufs writers derr (writers, Some err')"
| hl_write: "block < endBlock \<Longrightarrow> Read ra p bufs (p', bufs', err) \<Longrightarrow> bufs' \<noteq> [] \<or> err = None
     \<Longrightarrow> DecodeDataAndParityBlocks e bufs' = Inr out
     \<Longrightarrow> parallel_Write wr ord \<lparr>pw_writers = writers, pw_writeQuorum = 1,
            pw_errs = replicate (length writers) None\<rparr> out = Some (pw, Some err')
     \<Longrightarrow> heal_loop ra wr ord e endBlock block p bufs writers derr (pw_writers pw, Some err')"
| hl_next: "block < endBlock \<Longrightarrow> Read ra p bufs (p', bufs', err) \<Longrightarrow> bufs' \<noteq> [] \<or> err = None
     \<Longrightarrow> DecodeDataAndParityBlocks e bufs' = Inr out
     \<Longrightarrow> parallel_Write wr ord \<lparr>pw_writers = writers, pw_writeQuorum = 1,
            pw_errs = replicate (length writers) None\<rparr> out = Some (pw, None)
     \<Longrightarrow> heal_loop ra wr ord e endBlock (block + 1) p' out (pw_writers pw)
           (if bufs' \<noteq> [] \<and> heal_error err \<and> derr = None then err else derr) res
     \<Longrightarrow> heal_loop ra wr ord e endBlock block p bufs writers derr res"

definition heal_blocks :: "erasure \<Rightarrow> int \<Rightarrow> int" where
  "heal_blocks e totalLength =
     (let endBlock = go_div totalLength (blockSize e)
      in if go_mod totalLength (blockSize e) \<noteq> 0 then wrap64 (endBlock + 1) else endBlock)"

inductive Heal ::
  "'r read_fn \<Rightarrow> 'w write_fn \<Rightarrow> err_order \<Rightarrow> erasure \<Rightarrow> 'w option list \<Rightarrow> 'r option list \<Rightarrow> int
     \<Rightarrow> 'w option list \<times> xerr option \<Rightarrow> bool"
  for ra wr ord e where
  Heal_invalid: "int (length writers) \<noteq> parityBlocks e + dataBlocks e
     \<Longrightarrow> Heal ra wr ord e writers readers totalLength (writers, Some errInvalidArgument)"
| Heal_run: "int (length writers) = parityBlocks e + dataBlocks e
     \<Longrightarrow> heal_loop ra wr ord e (heal_blocks e totalLength) 0
           (newParallelReader readers e 0 totalLength) [] writers None res
     \<Longrightarrow> Heal ra wr ord e writers readers totalLength res"

section \<open>The shards of a part\<close>

definition blk :: "erasure \<Rightarrow> bytes \<Rightarrow> nat \<Rightarrow> bytes" where
  "blk e data k = take (bS e) (drop (k * bS e) data)"

definition nblk :: "erasure \<Rightarrow> nat \<Rightarrow> nat" where
  "nblk e n = cdiv n (bS e)"

definition enc_shards :: "erasure \<Rightarrow> bytes \<Rightarrow> bytes list" where
  "enc_shards e b = (case EncodeData e b of Inl err \<Rightarrow> [] | Inr shards \<Rightarrow> shards)"

text \<open>The segments of the file of drive \<open>j\<close>: one shard of every block.\<close>

definition shard_segs :: "erasure \<Rightarrow> bytes \<Rightarrow> nat \<Rightarrow> bytes list" where
  "shard_segs e data j = map (\<lambda>k. enc_shards e (blk e data k) ! j) [0..<nblk e (length data)]"

lemma concat_pieces:
  "d * s \<le> length xs \<Longrightarrow> concat (map (\<lambda>i. take s (drop (i * s) xs)) [0..<d]) = take (d * s) xs"
proof (induction d)
  case (Suc d)
  then have "concat (map (\<lambda>i. take s (drop (i * s) xs)) [0..<d]) = take (d * s) xs" by simp
  then show ?case using take_add [of "d * s" s xs] by (simp add: add.commute)
qed simp

lemma split_shards_same_size:
  assumes "0 < d"
  shows "same_size (d + p) (cdiv (length data) d) (split_shards d p data)"
proof -
  let ?s = "cdiv (length data) d"
  have le: "length data \<le> ?s * d" using cdiv_mult_ge [OF assms, of "length data"] by (simp add: mult.commute)
  have "length (take ?s (drop (i * ?s) (data @ replicate (?s * d - length data) 0))) = ?s" if "i < d" for i
  proof -
    have "Suc i * ?s \<le> d * ?s" using that by (intro mult_right_mono) auto
    then show ?thesis using le by (simp add: mult.commute)
  qed
  then show ?thesis
    by (auto simp: same_size_def split_shards_def Let_def list_all_iff)
qed

lemma split_shards_data:
  assumes "0 < d"
  shows "\<exists>z. concat (take d (split_shards d p data)) = data @ z"
proof -
  let ?s = "cdiv (length data) d"
  let ?xs = "data @ replicate (?s * d - length data) (0 :: 8 word)"
  have le: "length data \<le> ?s * d" using cdiv_mult_ge [OF assms, of "length data"] by (simp add: mult.commute)
  have "concat (map (\<lambda>i. take ?s (drop (i * ?s) ?xs)) [0..<d]) = take (d * ?s) ?xs"
    by (rule concat_pieces) (use le in \<open>simp add: mult.commute\<close>)
  also have "\<dots> = ?xs" using le by (simp add: mult.commute)
  finally show ?thesis by (simp add: split_shards_def Let_def)
qed

text \<open>An encoded block: its data shards hold the block, and any \<open>dB e\<close> of its shards determine it.\<close>

lemma EncodeData_ok:
  assumes wf: "wf_erasure e" and rs: "rs_ok (encoder e) (dB e) (pB e)" and b: "b \<noteq> []"
  obtains enc z where "EncodeData e b = Inr enc" "enc_shards e b = enc"
    "same_size (dB e + pB e) (cdiv (length b) (dB e)) enc"
    "concat (take (dB e) enc) = b @ z"
    "\<And>bufs. partial_shards enc bufs \<Longrightarrow> dB e \<le> present bufs \<Longrightarrow>
       (\<exists>out. rs_ReconstructData (encoder e) bufs = Inr out \<and> length out = dB e + pB e
           \<and> take (dB e) out = take (dB e) enc) \<and> rs_Reconstruct (encoder e) bufs = Inr enc"
proof -
  let ?sp = "split_shards (dB e) (pB e) b"
  have d: "0 < dB e" using wf_erasure_int [OF wf] by simp
  have sp: "rs_Split (encoder e) b = Inr ?sp" using rs b by (simp add: rs_ok_def)
  have ss: "same_size (dB e + pB e) (cdiv (length b) (dB e)) ?sp" by (rule split_shards_same_size [OF d])
  have pos: "0 < cdiv (length b) (dB e)" using b d by (simp add: cdiv_pos)
  from rs pos ss obtain enc where enc: "rs_Encode (encoder e) ?sp = Inr enc"
    "same_size (dB e + pB e) (cdiv (length b) (dB e)) enc" "take (dB e) enc = take (dB e) ?sp"
    and rec: "\<forall>bufs. partial_shards enc bufs \<and> dB e \<le> present bufs \<longrightarrow>
        (\<exists>out. rs_ReconstructData (encoder e) bufs = Inr out \<and> length out = dB e + pB e
           \<and> take (dB e) out = take (dB e) enc) \<and> rs_Reconstruct (encoder e) bufs = Inr enc"
    unfolding rs_ok_def by meson
  have ed: "EncodeData e b = Inr enc" using b sp enc by (simp add: EncodeData_def)
  obtain z where "concat (take (dB e) enc) = b @ z" using split_shards_data [OF d] enc(3) by metis
  with that ed enc rec show thesis by (simp add: enc_shards_def)
qed

lemma nblk_less: "wf_erasure e \<Longrightarrow> k < nblk e n \<longleftrightarrow> k * bS e < n"
proof -
  assume "wf_erasure e"
  then have bs: "0 < bS e" by (rule wf_erasure_int)
  have n: "n = (n div bS e) * bS e + n mod bS e" by simp
  show ?thesis
  proof (cases "n mod bS e = 0")
    case True
    then have "n = (n div bS e) * bS e" using n by simp
    then have "k * bS e < n \<longleftrightarrow> k < n div bS e" using bs by (metis mult_less_cancel2)
    with True show ?thesis by (simp add: nblk_def cdiv_def)
  next
    case False
    have "k * bS e < n \<longleftrightarrow> k \<le> n div bS e"
    proof
      assume "k * bS e < n"
      then show "k \<le> n div bS e" using bs by (simp add: less_eq_div_iff_mult_less_eq)
    next
      assume "k \<le> n div bS e"
      then have "k * bS e \<le> (n div bS e) * bS e" by simp
      then show "k * bS e < n" using False n by linarith
    qed
    with False show ?thesis by (auto simp: nblk_def cdiv_def)
  qed
qed

lemma length_blk: "length (blk e data k) = min (bS e) (length data - k * bS e)"
  by (simp add: blk_def)

lemma blk_nonempty: "wf_erasure e \<Longrightarrow> k < nblk e (length data) \<Longrightarrow> blk e data k \<noteq> []"
  using length_blk [of e data k] nblk_less [of e k "length data"] wf_erasure_int(6) [of e]
  by (auto simp: blk_def)

text \<open>The size of the shards of block \<open>k\<close>.\<close>

lemma cdiv_blk:
  assumes wf: "wf_erasure e" and k: "k < nblk e n"
  shows "k * sS e < sF e n" and "cdiv (min (bS e) (n - k * bS e)) (dB e) = min (sS e) (sF e n - k * sS e)"
proof -
  note e = wf_erasure_int [OF wf]
  have n: "n = (n div bS e) * bS e + n mod bS e" by simp
  have kn: "k * bS e < n" using nblk_less [OF wf] k by simp
  then have kd: "k \<le> n div bS e" using e(6) by (simp add: less_eq_div_iff_mult_less_eq)
  show "k * sS e < sF e n"
  proof (cases "k = n div bS e")
    case True
    then have "(n div bS e) * bS e < n" using kn by simp
    then have "0 < n mod bS e" using n by linarith
    then show ?thesis using True e by (simp add: sF_def cdiv_pos)
  next
    case False
    then have "Suc k \<le> n div bS e" using kd by simp
    then have "Suc k * sS e \<le> (n div bS e) * sS e" by (intro mult_right_mono) auto
    then show ?thesis using sS_bounds [OF wf] by (simp add: sF_def)
  qed
  show "cdiv (min (bS e) (n - k * bS e)) (dB e) = min (sS e) (sF e n - k * sS e)"
  proof (cases "k = n div bS e")
    case True
    then have "n - k * bS e = n mod bS e" using n by (simp add: minus_div_mult_eq_mod)
    moreover have "n mod bS e < bS e" using e by simp
    moreover have "cdiv (n mod bS e) (dB e) \<le> sS e" unfolding sS_def using calculation(2) by (intro cdiv_mono) simp
    ultimately show ?thesis using True by (simp add: sF_def)
  next
    case False
    then have s: "Suc k \<le> n div bS e" using kd by simp
    then have "Suc k * bS e \<le> (n div bS e) * bS e" by (intro mult_right_mono) auto
    also have "\<dots> \<le> n" by simp
    finally have "bS e \<le> n - k * bS e" by simp
    moreover have "Suc k * sS e \<le> (n div bS e) * sS e" using s by (intro mult_right_mono) auto
    then have "sS e \<le> sF e n - k * sS e" by (simp add: sF_def)
    ultimately show ?thesis by (simp add: sS_def min_def)
  qed
qed

lemma length_shard_segs [simp]: "length (shard_segs e data j) = nblk e (length data)"
  by (simp add: shard_segs_def)

lemma shard_segs_nth:
  "k < nblk e (length data) \<Longrightarrow> shard_segs e data j ! k = enc_shards e (blk e data k) ! j"
  by (simp add: shard_segs_def)

lemma shard_segs_ok:
  assumes wf: "wf_erasure e" and rs: "rs_ok (encoder e) (dB e) (pB e)" and m: "m \<le> nblk e (length data)"
  shows "segs_ok (\<lambda>j. take m (shard_segs e data j)) (dB e + pB e) m (sS e) (sF e (length data))"
  unfolding segs_ok_def
proof (intro allI impI conjI)
  fix j k assume j: "j < dB e + pB e" and k: "k < m"
  then have kn: "k < nblk e (length data)" using m by simp
  show "k * sS e < sF e (length data)" by (rule cdiv_blk [OF wf kn])
  obtain enc z where "enc_shards e (blk e data k) = enc"
    "same_size (dB e + pB e) (cdiv (length (blk e data k)) (dB e)) enc"
    using EncodeData_ok [OF wf rs blk_nonempty [OF wf kn]] by metis
  then have "length (enc_shards e (blk e data k) ! j) = cdiv (length (blk e data k)) (dB e)"
    using j by (simp add: same_size_def list_all_length)
  then show "length (take m (shard_segs e data j) ! k) = min (sS e) (sF e (length data) - k * sS e)"
    using cdiv_blk(2) [OF wf kn] k kn by (simp add: shard_segs_nth length_blk)
qed (use m in simp)

section \<open>Encode writes the shard files\<close>

text \<open>The writers after \<open>k\<close> blocks: the drives that are there hold the first \<open>k\<close> segments of their
  files.\<close>

definition written_upto ::
  "hashes \<Rightarrow> BitrotAlgorithm \<Rightarrow> erasure \<Rightarrow> bytes \<Rightarrow> bytes option list \<Rightarrow> nat \<Rightarrow> bytes parallelWriter \<Rightarrow> bool" where
  "written_upto H a e data writers k pw \<longleftrightarrow>
     length (pw_writers pw) = length writers \<and> length (pw_errs pw) = length writers
     \<and> (\<forall>j<length writers. pw_writers pw ! j = (case writers ! j of None \<Rightarrow> None
            | Some w \<Rightarrow> Some (bitrot_file H a (take k (shard_segs e data j)))))
     \<and> (\<forall>j<length writers. writers ! j \<noteq> None \<longrightarrow> pw_errs pw ! j = None)"

definition online :: "'w option list \<Rightarrow> nat" where
  "online ws = length (filter (\<lambda>w. w \<noteq> None) ws)"

abbreviation shard_Write :: "(bytes \<Rightarrow> xerr \<Rightarrow> bytes) \<Rightarrow> hashes \<Rightarrow> BitrotAlgorithm \<Rightarrow> bytes write_fn" where
  "shard_Write cl H a \<equiv> streaming_Write buffer_Write cl H a"

lemma shard_Write_eq:
  "shard_Write cl H a w b = (w @ (if b = [] then [] else H a b @ b), length b, None)"
  by (simp add: streaming_Write_def buffer_Write_def)

lemma parallel_Write_online:
  assumes "length (pw_writers p) = N" and "length (pw_errs p) = N" and "N \<le> length blocks"
    and "\<forall>j<N. pw_writers p ! j \<noteq> None \<longrightarrow> pw_errs p ! j = None"
    and "pw_writeQuorum p \<le> int (online (pw_writers p))"
  shows "\<exists>p'. parallel_Write (shard_Write cl H a) ord p blocks = Some (p', None)
     \<and> length (pw_writers p') = N \<and> length (pw_errs p') = N \<and> pw_writeQuorum p' = pw_writeQuorum p
     \<and> (\<forall>j<N. pw_writers p' ! j = (case pw_writers p ! j of None \<Rightarrow> None
            | Some w \<Rightarrow> Some (fst (shard_Write cl H a w (blocks ! j)))))
     \<and> (\<forall>j<N. pw_writers p ! j \<noteq> None \<longrightarrow> pw_errs p' ! j = None)"
proof -
  define res where "res = map (\<lambda>i. write_one (shard_Write cl H a) (pw_writers p ! i) (pw_errs p ! i) (blocks ! i))
      [0..<N]"
  let ?p = "p\<lparr>pw_writers := map fst res, pw_errs := map snd res\<rparr>"
  have one: "res ! j = (case pw_writers p ! j of None \<Rightarrow> (None, Some errDiskNotFound)
      | Some w \<Rightarrow> (Some (fst (shard_Write cl H a w (blocks ! j))), None))" if "j < N" for j
    using assms(4) that
    by (cases "pw_writers p ! j") (simp_all add: res_def write_one_def shard_Write_eq)
  have len: "length res = N" by (simp add: res_def)
  have "countErrs (map snd res) None = online (pw_writers p)"
  proof -
    have "snd (res ! j) = None \<longleftrightarrow> pw_writers p ! j \<noteq> None" if "j < N" for j
      using one [OF that] by (simp split: option.split)
    then have "{j. j < N \<and> snd (res ! j) = None} = {j. j < N \<and> pw_writers p ! j \<noteq> None}" by auto
    then show ?thesis
      using assms(1) len by (simp add: countErrs_def online_def length_filter_conv_card cong: conj_cong)
  qed
  then have "parallel_Write (shard_Write cl H a) ord p blocks = Some (?p, None)"
    using assms(1,3,5) by (simp add: parallel_Write_def Let_def res_def)
  moreover have "\<forall>j<N. map fst res ! j = (case pw_writers p ! j of None \<Rightarrow> None
            | Some w \<Rightarrow> Some (fst (shard_Write cl H a w (blocks ! j))))"
    using one len by (auto split: option.split)
  moreover have "\<forall>j<N. pw_writers p ! j \<noteq> None \<longrightarrow> map snd res ! j = None"
    using one len by (auto split: option.split)
  ultimately show ?thesis using len by (intro exI [of _ ?p]) simp
qed

lemma written_online:
  assumes "written_upto H a e data writers k pw"
  shows "length (pw_writers pw) = length writers" and "length (pw_errs pw) = length writers"
    and "online (pw_writers pw) = online writers"
    and "\<forall>j<length writers. pw_writers pw ! j \<noteq> None \<longrightarrow> pw_errs pw ! j = None"
proof -
  show len: "length (pw_writers pw) = length writers" "length (pw_errs pw) = length writers"
    using assms by (simp_all add: written_upto_def)
  have "{j. j < length writers \<and> pw_writers pw ! j \<noteq> None} = {j. j < length writers \<and> writers ! j \<noteq> None}"
    using assms by (auto simp: written_upto_def split: option.splits)
  then show "online (pw_writers pw) = online writers"
    using len by (simp add: online_def length_filter_conv_card)
  show "\<forall>j<length writers. pw_writers pw ! j \<noteq> None \<longrightarrow> pw_errs pw ! j = None"
    using assms by (auto simp: written_upto_def split: option.splits)
qed

lemma written_next:
  assumes up: "written_upto H a e data writers k pw" and k: "k < nblk e (length data)"
    and len: "length writers \<le> length (enc_shards e (blk e data k))"
    and ne: "\<forall>j<length writers. enc_shards e (blk e data k) ! j \<noteq> []"
    and q: "pw_writeQuorum pw \<le> int (online writers)"
  shows "\<exists>pw'. parallel_Write (shard_Write cl H a) ord pw (enc_shards e (blk e data k)) = Some (pw', None)
     \<and> written_upto H a e data writers (Suc k) pw' \<and> pw_writeQuorum pw' = pw_writeQuorum pw"
proof -
  let ?N = "length writers"
  note on = written_online [OF up]
  have q': "pw_writeQuorum pw \<le> int (online (pw_writers pw))" using q on by simp
  obtain pw' where pw': "parallel_Write (shard_Write cl H a) ord pw (enc_shards e (blk e data k)) = Some (pw', None)"
    "length (pw_writers pw') = ?N" "length (pw_errs pw') = ?N" "pw_writeQuorum pw' = pw_writeQuorum pw"
    and ws: "\<forall>j<?N. pw_writers pw' ! j = (case pw_writers pw ! j of None \<Rightarrow> None
            | Some w \<Rightarrow> Some (fst (shard_Write cl H a w (enc_shards e (blk e data k) ! j))))"
    and es: "\<forall>j<?N. pw_writers pw ! j \<noteq> None \<longrightarrow> pw_errs pw' ! j = None"
    using parallel_Write_online [OF on(1,2) len on(4) q'] by blast
  have "pw_writers pw' ! j = (case writers ! j of None \<Rightarrow> None
            | Some w \<Rightarrow> Some (bitrot_file H a (take (Suc k) (shard_segs e data j))))" if j: "j < ?N" for j
  proof (cases "writers ! j")
    case (Some w)
    then have "pw_writers pw ! j = Some (bitrot_file H a (take k (shard_segs e data j)))"
      using up j by (simp add: written_upto_def)
    moreover have "take (Suc k) (shard_segs e data j) = take k (shard_segs e data j) @ [enc_shards e (blk e data k) ! j]"
      using k by (simp add: take_Suc_conv_app_nth shard_segs_nth)
    ultimately show ?thesis using ws ne j Some by (simp add: shard_Write_eq bitrot_file_append)
  qed (use ws j up in \<open>simp add: written_upto_def\<close>)
  moreover have "pw_errs pw' ! j = None" if "j < ?N" "writers ! j \<noteq> None" for j
    using es that up by (auto simp: written_upto_def split: option.splits)
  ultimately show ?thesis using pw' by (auto simp: written_upto_def)
qed

text \<open>The buffer of \<open>Encode\<close> holds a block, or the whole part when that is shorter.\<close>

definition buf_ok :: "erasure \<Rightarrow> nat \<Rightarrow> nat \<Rightarrow> bool" where
  "buf_ok e n L \<longleftrightarrow> 0 < n \<and> n \<le> bS e \<and> (n = bS e \<or> L \<le> n)"

lemma buf_block:
  assumes wf: "wf_erasure e" and buf: "buf_ok e n (length data)" and k: "k < nblk e (length data)"
    and kn: "k * n \<le> length data"
  shows "blk e data k = take n (drop (k * n) data)" and "length data < Suc k * n \<Longrightarrow> Suc k = nblk e (length data)"
    and "Suc k * n \<le> length data \<Longrightarrow> Suc k \<le> nblk e (length data)"
proof -
  show "Suc k \<le> nblk e (length data)" using k by simp
  show "blk e data k = take n (drop (k * n) data)"
  proof (cases "n = bS e")
    case False
    then have "length data \<le> n" "n \<le> bS e" using buf by (auto simp: buf_ok_def)
    moreover from this have "k * bS e < bS e" using k nblk_less [OF wf] by (meson le_less_trans less_le_trans)
    ultimately have "k = 0" by simp
    with \<open>length data \<le> n\<close> \<open>n \<le> bS e\<close> show ?thesis by (simp add: blk_def)
  qed (simp add: blk_def)
  show "Suc k = nblk e (length data)" if lt: "length data < Suc k * n"
  proof -
    have "Suc k * n \<le> Suc k * bS e" using buf by (intro mult_left_mono) (auto simp: buf_ok_def)
    then have "\<not> Suc k * bS e < length data" using lt by linarith
    then show ?thesis using nblk_less [OF wf, of "Suc k" "length data"] k by simp
  qed
qed

lemma encode_loop_ok:
  assumes wf: "wf_erasure e" and rs: "rs_ok (encoder e) (dB e) (pB e)"
    and buf: "buf_ok e n (length data)" and L: "int (length data) < 2 ^ 63"
    and N: "length writers = dB e + pB e"
    and k: "k \<le> nblk e (length data)" "k * n \<le> length data" "k = nblk e (length data) \<longrightarrow> k * n = length data"
    and up: "written_upto H a e data writers k pw" and q: "pw_writeQuorum pw \<le> int (online writers)"
  shows "\<exists>pw'. encode_loop (shard_Write cl H a) ord e n (drop (k * n) data, EOF) pw (int (k * n))
       = Some (pw', Inr (int (length data)))
     \<and> written_upto H a e data writers (nblk e (length data)) pw'"
  using k up q
proof (induction "nblk e (length data) - k" arbitrary: k pw rule: less_induct)
  case less
  note e = wf_erasure_int [OF wf]
  show ?case
  proof (cases "k = nblk e (length data)")
    case True
    then have rest: "k * n = length data" using less.prems(3) by simp
    then have dr: "drop (k * n) data = []" by simp
    have rd: "ReadFullBuf ([], EOF) n = (([], EOF), [], Some EOF)"
      using buf by (simp add: ReadFullBuf_def buf_ok_def)
    show ?thesis
    proof (cases "length data = 0")
      case False
      then have "encode_loop (shard_Write cl H a) ord e n (drop (k * n) data, EOF) pw (int (k * n))
          = Some (pw, Inr (int (k * n)))"
        using rest unfolding dr by (subst encode_loop.simps) (simp add: rd)
      moreover have "written_upto H a e data writers (nblk e (length data)) pw"
        using less.prems(4) True by simp
      ultimately show ?thesis unfolding rest by blast
    next
      case True0: True
      then have nb: "nblk e (length data) = 0" by (simp add: nblk_def)
      have enc: "EncodeData e [] = Inr (replicate (dB e + pB e) [])"
        using e by (simp add: EncodeData_def nat_add_distrib)
      note on = written_online [OF less.prems(4)]
      have q': "pw_writeQuorum pw \<le> int (online (pw_writers pw))" using less.prems(5) on by simp
      have len: "length writers \<le> length (replicate (dB e + pB e) ([] :: bytes))" using N by simp
      obtain pw' where pw': "parallel_Write (shard_Write cl H a) ord pw (replicate (dB e + pB e) []) = Some (pw', None)"
        "length (pw_writers pw') = length writers" "length (pw_errs pw') = length writers"
        and ws: "\<forall>j<length writers. pw_writers pw' ! j = (case pw_writers pw ! j of None \<Rightarrow> None
            | Some w \<Rightarrow> Some (fst (shard_Write cl H a w (replicate (dB e + pB e) [] ! j))))"
        and es: "\<forall>j<length writers. pw_writers pw ! j \<noteq> None \<longrightarrow> pw_errs pw' ! j = None"
        using parallel_Write_online [OF on(1,2) len on(4) q'] by blast
      have "encode_loop (shard_Write cl H a) ord e n (drop (k * n) data, EOF) pw (int (k * n))
          = Some (pw', Inr 0)"
        using True nb unfolding dr by (subst encode_loop.simps) (simp add: rd enc pw'(1))
      moreover have "written_upto H a e data writers 0 pw'"
        unfolding written_upto_def
      proof (intro conjI allI impI)
        fix j assume j: "j < length writers"
        then show "pw_writers pw' ! j = (case writers ! j of None \<Rightarrow> None
            | Some w \<Rightarrow> Some (bitrot_file H a (take 0 (shard_segs e data j))))"
          using ws less.prems(4) True nb N
          by (auto simp: written_upto_def shard_Write_eq split: option.splits)
        assume "writers ! j \<noteq> None"
        then show "pw_errs pw' ! j = None" using es j less.prems(4)
          by (auto simp: written_upto_def split: option.splits)
      qed (use pw' in simp_all)
      ultimately show ?thesis using True0 nb by auto
    qed
  next
    case False
    then have kn: "k < nblk e (length data)" using less.prems(1) by simp
    note bb = buf_block [OF wf buf kn less.prems(2)]
    have ne: "blk e data k \<noteq> []" by (rule blk_nonempty [OF wf kn])
    obtain enc z where enc: "EncodeData e (blk e data k) = Inr enc" "enc_shards e (blk e data k) = enc"
      "same_size (dB e + pB e) (cdiv (length (blk e data k)) (dB e)) enc"
      using EncodeData_ok [OF wf rs ne] by metis
    have "0 < cdiv (length (blk e data k)) (dB e)" using ne e by (simp add: cdiv_pos)
    then have sh: "length enc = dB e + pB e" "\<forall>j<dB e + pB e. enc ! j \<noteq> []"
      using enc(3) by (auto simp: same_size_def list_all_length)
    obtain pw' where pw': "parallel_Write (shard_Write cl H a) ord pw enc = Some (pw', None)"
      "written_upto H a e data writers (Suc k) pw'" "pw_writeQuorum pw' = pw_writeQuorum pw"
      using written_next [OF less.prems(4) kn, where cl = cl and ord = ord] sh N less.prems(5) enc(2) by auto
    show ?thesis
    proof (cases "Suc k * n \<le> length data")
      case True
      have rd: "ReadFullBuf (drop (k * n) data, EOF) n = ((drop (Suc k * n) data, EOF), blk e data k, None)"
        using True bb(1) by (simp add: ReadFullBuf_def add.commute)
      have lb: "length (blk e data k) = n" using True bb(1) by simp
      have "int (Suc k * n) < 2 ^ 63" using True L by linarith
      then have wr: "wrap64 (int (k * n) + int n) = int (Suc k * n)"
        using wrap64_nat [of "Suc k * n"] by (simp add: add.commute)
      have "encode_loop (shard_Write cl H a) ord e n (drop (k * n) data, EOF) pw (int (k * n))
          = encode_loop (shard_Write cl H a) ord e n (drop (Suc k * n) data, EOF) pw' (int (Suc k * n))"
        using ne lb wr by (subst encode_loop.simps) (simp add: rd enc(1) pw'(1) del: of_nat_mult mult_Suc)
      moreover have "Suc k = nblk e (length data) \<longrightarrow> Suc k * n = length data"
      proof
        assume "Suc k = nblk e (length data)"
        then have "length data \<le> Suc k * bS e" using nblk_less [OF wf, of "Suc k" "length data"] by simp
        then show "Suc k * n = length data"
          using True buf less.prems(2) kn nblk_less [OF wf, of k "length data"]
          by (cases "n = bS e") (auto simp: buf_ok_def)
      qed
      ultimately show ?thesis
        using less.hyps [of "Suc k" pw'] kn True pw' less.prems(5) by simp
    next
      case F: False
      have nb: "Suc k = nblk e (length data)" by (rule bb(2)) (use F in simp)
      have b: "blk e data k = drop (k * n) data" using F bb(1) by simp
      then have "drop (k * n) data \<noteq> []" using ne by simp
      then have rd: "ReadFullBuf (drop (k * n) data, EOF) n = (([], EOF), blk e data k, Some ErrUnexpectedEOF)"
        using F b by (simp add: ReadFullBuf_def)
      have "int (k * n) + int (length (blk e data k)) = int (length data)"
        using b less.prems(2) by simp
      then have "wrap64 (int (k * n) + int (length (blk e data k))) = int (length data)"
        using wrap64_nat [OF L] by simp
      then have "encode_loop (shard_Write cl H a) ord e n (drop (k * n) data, EOF) pw (int (k * n))
          = Some (pw', Inr (int (length data)))"
        using ne by (subst encode_loop.simps) (simp add: rd enc(1) pw'(1) del: of_nat_mult)
      then show ?thesis using pw' nb by auto
    qed
  qed
qed

section \<open>Decode reads the range back\<close>

lemma Copy_buffer: "Copy buffer_Write dst b = (dst @ b, length b, None)"
  by (simp add: Copy_def buffer_Write_def)

lemma write_blocks_buffer:
  "write_blocks buffer_Write dst blocks (int o') (int l) (int w)
     = (dst @ take l (drop o' (concat blocks)), Inr (int (w + min l (length (concat blocks) - o'))))"
proof (induction blocks arbitrary: dst o' l w)
  case (Cons b bs)
  show ?case
  proof (cases "length b \<le> o'")
    case True
    then have sub: "int o' - int (length b) = int (o' - length b)" by linarith
    have "write_blocks buffer_Write dst (b # bs) (int o') (int l) (int w)
        = write_blocks buffer_Write dst bs (int (o' - length b)) (int l) (int w)"
      using True unfolding sub [symmetric] by simp
    also have "\<dots> = (dst @ take l (drop (o' - length b) (concat bs)),
        Inr (int (w + min l (length (concat bs) - (o' - length b)))))"
      by (rule Cons.IH)
    also have "length (concat bs) - (o' - length b) = length (concat (b # bs)) - o'" using True by simp
    finally show ?thesis using True by simp
  next
    case False
    show ?thesis
    proof (cases "l < length b - o'")
      case True
      then have "int l < int (length (drop o' b))" by simp
      with True False show ?thesis by (simp add: Let_def Copy_buffer)
    next
      case l: False
      define n where "n = length b - o'"
      have n: "length (drop o' b) = n" "o' + n = length b" using False by (simp_all add: n_def)
      have "write_blocks buffer_Write dst (b # bs) (int o') (int l) (int w)
          = write_blocks buffer_Write (dst @ drop o' b) bs 0 (int l - int n) (int w + int n)"
        using False l n by (simp add: Let_def Copy_buffer)
      also have "int l - int n = int (l - n)" using l n_def by simp
      also have "int w + int n = int (w + n)" by simp
      also have "write_blocks buffer_Write (dst @ drop o' b) bs 0 (int (l - n)) (int (w + n))
          = ((dst @ drop o' b) @ take (l - n) (concat bs), Inr (int (w + n + min (l - n) (length (concat bs)))))"
        using Cons.IH [of "dst @ drop o' b" 0 "l - n" "w + n"] by simp
      also have "w + n + min (l - n) (length (concat bs)) = w + min l (length (concat (b # bs)) - o')"
        using l n n_def by simp
      also have "(dst @ drop o' b) @ take (l - n) (concat bs) = dst @ take l (drop o' (concat (b # bs)))"
        using l n False by simp
      finally show ?thesis .
    qed
  qed
qed simp

lemma writeDataBlocks_buffer:
  assumes "d \<le> length out" and "o' + l \<le> length (concat (take d out))"
  shows "writeDataBlocks buffer_Write dst out (int d) (int o') (int l)
     = (dst @ take l (drop o' (concat (take d out))), Inr (int l))"
proof -
  have "getDataBlockLen out d = int (length (concat (take d out)))"
    by (simp add: getDataBlockLen_def length_concat)
  then show ?thesis
    using assms write_blocks_buffer [of dst "take d out" o' l 0] by (simp add: writeDataBlocks_def)
qed

lemma DecodeDataBlocks_partial:
  assumes wf: "wf_erasure e" and rs: "rs_ok (encoder e) (dB e) (pB e)" and b: "b \<noteq> []"
    and part: "partial_shards (enc_shards e b) bufs" and pres: "present bufs = dB e"
  obtains out z where "DecodeDataBlocks e bufs = Inr out" "length out = dB e + pB e"
    "concat (take (dB e) out) = b @ z"
proof -
  note e = wf_erasure_int [OF wf]
  obtain enc z where enc: "enc_shards e b = enc" "same_size (dB e + pB e) (cdiv (length b) (dB e)) enc"
    "concat (take (dB e) enc) = b @ z"
    and rec: "\<And>bufs. partial_shards enc bufs \<Longrightarrow> dB e \<le> present bufs \<Longrightarrow>
       (\<exists>out. rs_ReconstructData (encoder e) bufs = Inr out \<and> length out = dB e + pB e
           \<and> take (dB e) out = take (dB e) enc) \<and> rs_Reconstruct (encoder e) bufs = Inr enc"
    using EncodeData_ok [OF wf rs b] by metis
  have len: "length bufs = dB e + pB e"
    using part enc by (simp add: partial_shards_def same_size_def list_all2_lengthD)
  obtain out where out: "rs_ReconstructData (encoder e) bufs = Inr out" "length out = dB e + pB e"
    "take (dB e) out = take (dB e) enc"
    using rec [of bufs] part enc(1) pres by auto
  have "list_ex (\<lambda>b. b = []) bufs"
  proof (rule ccontr)
    assume "\<not> list_ex (\<lambda>b. b = []) bufs"
    then have "filter (\<lambda>b. b \<noteq> []) bufs = bufs" by (auto simp: list_ex_iff filter_id_conv)
    then show False using pres len e by (simp add: present_def)
  qed
  then have "DecodeDataBlocks e bufs = Inr out"
    using out(1) len e by (simp add: DecodeDataBlocks_def Let_def)
  with that out enc(3) show thesis by metis
qed

text \<open>The range of block \<open>k\<close> in the part: from \<open>max off (k * bS e)\<close> up to the end of the range or of
  the block.\<close>

lemma decode_range_nat:
  assumes wf: "wf_erasure e" and b: "int (off + len) + int (bS e) < 2 ^ 63"
    and k: "off div bS e \<le> k" "k \<le> (off + len) div bS e"
  shows "decode_range (blockSize e) (int off) (int len) (int k)
     = (int (max off (k * bS e) - k * bS e),
        int (min (off + len) (Suc k * bS e) - max off (k * bS e)))"
proof -
  let ?bs = "bS e"
  note e = wf_erasure_int [OF wf]
  have w: "wrap64 (int off + int len) = int (off + len)" using wrap64_nat [of "off + len"] b by simp
  have st: "go_div (int off) (blockSize e) = int (off div ?bs)" using e by (simp add: zdiv_int)
  have en: "go_div (wrap64 (int off + int len)) (blockSize e) = int ((off + len) div ?bs)"
    unfolding w e(3) by (subst go_div_nonneg) (use e(6) in \<open>simp_all only: zdiv_int of_nat_0_le_iff of_nat_0_less_iff\<close>)
  have om: "go_mod (int off) (blockSize e) = int (off mod ?bs)" using e by (simp add: zmod_int)
  have lm: "go_mod (wrap64 (int off + int len)) (blockSize e) = int ((off + len) mod ?bs)"
    unfolding w e(3) by (subst go_mod_nonneg) (use e(6) in \<open>simp_all only: zmod_int of_nat_0_le_iff of_nat_0_less_iff\<close>)
  have o1: "(off div ?bs) * ?bs + off mod ?bs = off" "off mod ?bs < ?bs" using e by simp_all
  have o2: "((off + len) div ?bs) * ?bs + (off + len) mod ?bs = off + len" "(off + len) mod ?bs < ?bs"
    using e by simp_all
  have bsub: "wrap64 (blockSize e - int (off mod ?bs)) = int (?bs - off mod ?bs)"
  proof -
    have "int ?bs < 2 ^ 63" using e(7) by simp
    then have sub: "int ?bs - int (off mod ?bs) = int (?bs - off mod ?bs)" "int (?bs - off mod ?bs) < 2 ^ 63"
      using o1(2) by linarith+
    show ?thesis unfolding e(3) sub(1) by (rule wrap64_nat [OF sub(2)])
  qed
  consider (one) "off div ?bs = (off + len) div ?bs" | (first) "off div ?bs \<noteq> (off + len) div ?bs" "k = off div ?bs"
    | (final) "off div ?bs \<noteq> (off + len) div ?bs" "k \<noteq> off div ?bs" "k = (off + len) div ?bs"
    | (mid) "off div ?bs < k" "k < (off + len) div ?bs"
    using k by linarith
  then show ?thesis
  proof cases
    case one
    then have kk: "k = off div ?bs" "k = (off + len) div ?bs" using k by simp_all
    have kq: "k * ?bs + off mod ?bs = off" unfolding kk(1) by (rule o1(1))
    have kr: "k * ?bs + (off + len) mod ?bs = off + len" unfolding kk(2) by (rule o2(1))
    have mx: "max off (k * ?bs) = off" "off - k * ?bs = off mod ?bs" using kq by linarith+
    have "off + len < Suc k * ?bs" using kr o2(2) unfolding mult_Suc by linarith
    then have "min (off + len) (Suc k * ?bs) - off = len" by linarith
    then show ?thesis using one mx by (simp add: decode_range_def Let_def st en om del: mult_Suc)
  next
    case first
    have kq: "k * ?bs + off mod ?bs = off" unfolding first(2) by (rule o1(1))
    have mx: "max off (k * ?bs) = off" "off - k * ?bs = off mod ?bs" using kq by linarith+
    have "Suc k \<le> (off + len) div ?bs" using k first by simp
    then have "Suc k * ?bs \<le> ((off + len) div ?bs) * ?bs" by (intro mult_right_mono) auto
    then have "Suc k * ?bs \<le> off + len" using o2(1) by linarith
    then have "min (off + len) (Suc k * ?bs) - off = ?bs - off mod ?bs"
      using kq unfolding mult_Suc by linarith
    then show ?thesis using first mx
      by (simp add: decode_range_def Let_def st en om bsub del: mult_Suc)
  next
    case final
    then have "Suc (off div ?bs) \<le> k" using k by simp
    then have "Suc (off div ?bs) * ?bs \<le> k * ?bs" by (intro mult_right_mono) auto
    then have mx: "max off (k * ?bs) = k * ?bs" using o1 unfolding mult_Suc by linarith
    have kr: "k * ?bs + (off + len) mod ?bs = off + len" unfolding final(3) by (rule o2(1))
    then have "min (off + len) (Suc k * ?bs) - k * ?bs = (off + len) mod ?bs"
      using o2(2) unfolding mult_Suc by linarith
    then show ?thesis using final mx by (simp add: decode_range_def Let_def st en lm del: mult_Suc)
  next
    case mid
    then have "Suc (off div ?bs) * ?bs \<le> k * ?bs" by (intro mult_right_mono) auto
    then have mx: "max off (k * ?bs) = k * ?bs" using o1 unfolding mult_Suc by linarith
    have "Suc k \<le> (off + len) div ?bs" using mid by simp
    then have "Suc k * ?bs \<le> ((off + len) div ?bs) * ?bs" by (intro mult_right_mono) auto
    then have "min (off + len) (Suc k * ?bs) - k * ?bs = ?bs" using o2(1) unfolding mult_Suc by linarith
    then show ?thesis using mid mx by (simp add: decode_range_def Let_def st en del: mult_Suc) (rule e(3))
  qed
qed

text \<open>Where the range has got to before block \<open>k\<close>.\<close>

definition range_pos :: "erasure \<Rightarrow> nat \<Rightarrow> nat \<Rightarrow> nat \<Rightarrow> nat" where
  "range_pos e off len k = min (off + len) (max off (k * bS e))"

text \<open>The parallel reader before block \<open>k\<close> of a part with the content \<open>data\<close>, of which \<open>m\<close> blocks can
  be read.\<close>

definition decode_inv ::
  "('r \<Rightarrow> bytes list \<Rightarrow> nat option \<Rightarrow> bool) \<Rightarrow> ('r \<Rightarrow> bytes list \<Rightarrow> nat option \<Rightarrow> bool) \<Rightarrow> erasure \<Rightarrow> bytes
     \<Rightarrow> nat \<Rightarrow> nat set \<Rightarrow> nat \<Rightarrow> 'r pread \<Rightarrow> bool" where
  "decode_inv hon itc e data m Good k p \<longleftrightarrow>
     (\<exists>M. pread_ok hon itc (\<lambda>j. take m (shard_segs e data j)) Good (dB e + pB e) (dB e) k M p)
     \<and> pr_offset p = int (k * sS e) \<and> pr_shardSize p = int (sS e)
     \<and> pr_shardFileSize p = int (sF e (length data))"

definition heal_errors :: "xerr option set" where
  "heal_errors = {None, Some errFileNotFound, Some errFileCorrupt}"

lemma shard_bounds:
  assumes "wf_erasure e" and "int n + int (bS e) < 2 ^ 63"
  shows "int (sF e n) + int (sS e) < 2 ^ 63"
  using sF_le [OF assms(1), of n] sS_bounds [OF assms(1)] assms(2) by linarith

lemma take_drop_blk:
  assumes "k * bS e \<le> a" and "b \<le> Suc k * bS e" and "a \<le> b" and "b \<le> length data"
  shows "take (b - a) (drop (a - k * bS e) (blk e data k @ z)) = take (b - a) (drop a data)"
proof -
  have lb: "a - k * bS e + (b - a) \<le> length (blk e data k)"
    using assms unfolding length_blk mult_Suc by linarith
  then have "take (b - a) (drop (a - k * bS e) (blk e data k @ z)) = take (b - a) (drop (a - k * bS e) (blk e data k))"
    by simp
  also have "\<dots> = take (b - a) (take (bS e - (a - k * bS e)) (drop a data))"
    using assms(1) by (simp add: blk_def drop_take)
  also have "\<dots> = take (b - a) (drop a data)"
  proof -
    have "b - a \<le> bS e - (a - k * bS e)" using assms(1,2,3) unfolding mult_Suc by linarith
    then show ?thesis by (simp add: min_absorb1)
  qed
  finally show ?thesis .
qed

context shard_reader
begin

text \<open>One block.\<close>

lemma decode_block:
  assumes wf: "wf_erasure e" and rs: "rs_ok (encoder e) (dB e) (pB e)" and sz: "sz = sS e"
    and b: "int (length data) + int (bS e) < 2 ^ 63" and r: "off + len \<le> length data"
    and m: "m \<le> nblk e (length data)" "\<forall>k. k * bS e < off + len \<longrightarrow> k < m"
    and good: "dB e \<le> card Good" and k: "off div bS e \<le> k" "k * bS e < off + len"
    and inv: "decode_inv honest intact e data m Good k p"
    and read: "Read ra p bufs (p', bufs', err)"
  shows "bufs' \<noteq> []" and "err \<in> heal_errors"
    and "Suc k * bS e < off + len \<longrightarrow> decode_inv honest intact e data m Good (Suc k) p'"
    and "(\<forall>i<dB e + pB e. \<forall>ob. pr_readers p ! i = Some ob \<longrightarrow> ob \<in> Good) \<longrightarrow> err = None"
    and "\<exists>out. DecodeDataBlocks e bufs' = Inr out
      \<and> writeDataBlocks buffer_Write dst out (dataBlocks e) (int (range_pos e off len k - k * bS e))
            (int (range_pos e off len (Suc k) - range_pos e off len k))
          = (dst @ take (range_pos e off len (Suc k) - range_pos e off len k) (drop (range_pos e off len k) data),
             Inr (int (range_pos e off len (Suc k) - range_pos e off len k)))"
    and "org_kept Good p p'"
proof -
  let ?segs = "\<lambda>j. take m (shard_segs e data j)"
  note e = wf_erasure_int [OF wf]
  have km: "k < m" using m k by simp
  then have kn: "k < nblk e (length data)" using m by simp
  obtain M where ok: "pread_ok honest intact ?segs Good (dB e + pB e) (dB e) k M p"
    and off: "pr_offset p = int (k * sz)" and ss: "pr_shardSize p = int sz"
    and F: "pr_shardFileSize p = int (sF e (length data))"
    using inv sz by (auto simp: decode_inv_def)
  have so: "segs_ok ?segs (dB e + pB e) m sz (sF e (length data))"
    using shard_segs_ok [OF wf rs m(1)] sz by simp
  have sz0: "0 < sz" and bd: "int (sF e (length data)) + int sz < 2 ^ 63"
    using sS_bounds [OF wf] shard_bounds [OF wf b] sz by simp_all
  note R = Read_ok [OF ok so km off ss sz0 F bd good read]
  have en: "map (\<lambda>j. ?segs j ! k) [0..<dB e + pB e] = enc_shards e (blk e data k)"
  proof -
    obtain enc z where "enc_shards e (blk e data k) = enc"
      "same_size (dB e + pB e) (cdiv (length (blk e data k)) (dB e)) enc"
      using EncodeData_ok [OF wf rs blk_nonempty [OF wf kn]] by metis
    then show ?thesis using km kn by (intro nth_equalityI) (simp_all add: same_size_def shard_segs_nth)
  qed
  have part: "partial_shards (enc_shards e (blk e data k)) bufs'" using R(1) en by simp
  have pres: "present bufs' = dB e" by (rule R(2))
  show "bufs' \<noteq> []" using pres e by (auto simp: present_def)
  show "org_kept Good p p'" by (rule R(8))
  show "err \<in> heal_errors" using R(3) by (simp add: heal_errors_def)
  show "(\<forall>i<dB e + pB e. \<forall>ob. pr_readers p ! i = Some ob \<longrightarrow> ob \<in> Good) \<longrightarrow> err = None" using R(7) by blast
  show "Suc k * bS e < off + len \<longrightarrow> decode_inv honest intact e data m Good (Suc k) p'"
  proof
    assume "Suc k * bS e < off + len"
    then have "Suc k < m" using m(2) by blast
    then show "decode_inv honest intact e data m Good (Suc k) p'"
      using R(4,5,6) sz by (simp add: decode_inv_def)
  qed
  obtain out z where out: "DecodeDataBlocks e bufs' = Inr out" "length out = dB e + pB e"
    "concat (take (dB e) out) = blk e data k @ z"
    using DecodeDataBlocks_partial [OF wf rs blk_nonempty [OF wf kn] part pres] by metis
  let ?a = "range_pos e off len k" and ?b = "range_pos e off len (Suc k)"
  have ord: "k * bS e \<le> ?a" "?b \<le> Suc k * bS e" "?a \<le> ?b" "?b \<le> length data"
  proof -
    have "off div bS e < Suc k" using k by simp
    then have "off < Suc k * bS e" using e(6) by (simp add: div_less_iff_less_mult)
    then show "k * bS e \<le> ?a" "?b \<le> Suc k * bS e" "?a \<le> ?b" "?b \<le> length data"
      using k(2) r unfolding range_pos_def mult_Suc by linarith+
  qed
  have "?a - k * bS e + (?b - ?a) \<le> length (concat (take (dB e) out))"
    using ord out(3) by (simp add: length_blk)
  then have "writeDataBlocks buffer_Write dst out (int (dB e)) (int (?a - k * bS e)) (int (?b - ?a))
      = (dst @ take (?b - ?a) (drop (?a - k * bS e) (blk e data k @ z)), Inr (int (?b - ?a)))"
    using writeDataBlocks_buffer [of "dB e" out "?a - k * bS e" "?b - ?a" dst] out(2,3) by simp
  then show "\<exists>out. DecodeDataBlocks e bufs' = Inr out
      \<and> writeDataBlocks buffer_Write dst out (dataBlocks e) (int (?a - k * bS e)) (int (?b - ?a))
          = (dst @ take (?b - ?a) (drop ?a data), Inr (int (?b - ?a)))"
    using out(1) take_drop_blk [OF ord] unfolding e(1) by auto
qed

lemma decode_step_facts:
  assumes wf: "wf_erasure e" and b: "int (length data) + int (bS e) < 2 ^ 63"
    and r: "off + len \<le> length data" "0 < len"
    and k: "off div bS e \<le> k"
  shows "k * bS e < off + len \<Longrightarrow> decode_range (blockSize e) (int off) (int len) (int k)
      = (int (range_pos e off len k - k * bS e), int (range_pos e off len (Suc k) - range_pos e off len k))"
    and "k * bS e < off + len \<Longrightarrow> range_pos e off len k < range_pos e off len (Suc k)"
    and "k * bS e < off + len \<Longrightarrow> int k \<le> go_div (wrap64 (int off + int len)) (blockSize e)"
    and "off + len \<le> k * bS e \<Longrightarrow> go_div (wrap64 (int off + int len)) (blockSize e) < int k
       \<or> snd (decode_range (blockSize e) (int off) (int len) (int k)) = 0"
    and "k * bS e < off + len \<Longrightarrow> wrap64 (int k + 1) = int (Suc k)"
    and "wrap64 (int (range_pos e off len k - off) + int (range_pos e off len (Suc k) - range_pos e off len k))
       = int (range_pos e off len (Suc k) - off)"
    and "take (range_pos e off len k - off) (drop off data)
        @ take (range_pos e off len (Suc k) - range_pos e off len k) (drop (range_pos e off len k) data)
      = take (range_pos e off len (Suc k) - off) (drop off data)"
proof -
  note e = wf_erasure_int [OF wf]
  have bol: "int (off + len) + int (bS e) < 2 ^ 63" using r b by linarith
  have w: "wrap64 (int off + int len) = int (off + len)" using wrap64_nat [of "off + len"] bol by simp
  have en: "go_div (wrap64 (int off + int len)) (blockSize e) = int ((off + len) div bS e)"
    unfolding w e(3) by (subst go_div_nonneg) (use e(6) in \<open>simp_all only: zdiv_int of_nat_0_le_iff of_nat_0_less_iff\<close>)
  have "off div bS e < Suc k" using k by simp
  then have ok: "off < Suc k * bS e" using e(6) by (simp add: div_less_iff_less_mult)
  have ol: "((off + len) div bS e) * bS e + (off + len) mod bS e = off + len" by simp
  show lt: "range_pos e off len k < range_pos e off len (Suc k)" if "k * bS e < off + len"
    using that ok e(6) r(2) unfolding range_pos_def mult_Suc by linarith
  have le: "k \<le> (off + len) div bS e" if "k * bS e < off + len"
    using that e(6) by (simp add: less_eq_div_iff_mult_less_eq)
  then show "int k \<le> go_div (wrap64 (int off + int len)) (blockSize e)" if "k * bS e < off + len"
    using that unfolding en by simp
  show "decode_range (blockSize e) (int off) (int len) (int k)
      = (int (range_pos e off len k - k * bS e), int (range_pos e off len (Suc k) - range_pos e off len k))"
    if "k * bS e < off + len"
  proof -
    have "max off (k * bS e) = range_pos e off len k" using that by (simp add: range_pos_def)
    moreover have "min (off + len) (Suc k * bS e) = range_pos e off len (Suc k)"
      using ok by (simp add: range_pos_def max_def del: mult_Suc)
    ultimately show ?thesis using decode_range_nat [OF wf bol k le [OF that]] by simp
  qed
  show "wrap64 (int k + 1) = int (Suc k)" if "k * bS e < off + len"
  proof -
    have "k \<le> k * bS e" using e(6) by simp
    then have "int (Suc k) < 2 ^ 63" using that bol e(6) by linarith
    then show ?thesis using wrap64_nat [of "Suc k"] by (simp add: add.commute)
  qed
  have mono: "range_pos e off len k \<le> range_pos e off len (Suc k)" "off \<le> range_pos e off len k"
    "range_pos e off len (Suc k) \<le> off + len"
    unfolding range_pos_def mult_Suc by linarith+
  show "wrap64 (int (range_pos e off len k - off) + int (range_pos e off len (Suc k) - range_pos e off len k))
       = int (range_pos e off len (Suc k) - off)"
  proof -
    have "int (range_pos e off len k - off) + int (range_pos e off len (Suc k) - range_pos e off len k)
        = int (range_pos e off len (Suc k) - off)" using mono by linarith
    moreover have "int (range_pos e off len (Suc k) - off) < 2 ^ 63" using mono bol by linarith
    ultimately show ?thesis using wrap64_nat by metis
  qed
  show "take (range_pos e off len k - off) (drop off data)
        @ take (range_pos e off len (Suc k) - range_pos e off len k) (drop (range_pos e off len k) data)
      = take (range_pos e off len (Suc k) - off) (drop off data)"
  proof -
    have eq: "range_pos e off len (Suc k) - off
        = (range_pos e off len k - off) + (range_pos e off len (Suc k) - range_pos e off len k)"
      using mono by linarith
    show ?thesis using mono(2) by (simp only: eq take_add drop_drop le_add_diff_inverse2)
  qed
  show "go_div (wrap64 (int off + int len)) (blockSize e) < int k
       \<or> snd (decode_range (blockSize e) (int off) (int len) (int k)) = 0" if "off + len \<le> k * bS e"
  proof (cases "(off + len) div bS e < k")
    case True
    then show ?thesis unfolding en by simp
  next
    case False
    then have le: "k \<le> (off + len) div bS e" by simp
    then have "k * bS e \<le> ((off + len) div bS e) * bS e" by (intro mult_right_mono) auto
    then have "k * bS e = off + len" using that ol by linarith
    then show ?thesis using decode_range_nat [OF wf bol k le] by simp
  qed
qed

text \<open>The loop.\<close>

lemma decode_loop_ok:
  assumes wf: "wf_erasure e" and rs: "rs_ok (encoder e) (dB e) (pB e)" and sz: "sz = sS e"
    and b: "int (length data) + int (bS e) < 2 ^ 63" and r: "off + len \<le> length data" "0 < len"
    and m: "m \<le> nblk e (length data)" "\<forall>k. k * bS e < off + len \<longrightarrow> k < m"
    and good: "dB e \<le> card Good" and k: "off div bS e \<le> k"
    and inv: "k * bS e < off + len \<longrightarrow> decode_inv honest intact e data m Good k p"
    and loop: "decode_loop ra buffer_Write e (int off) (int len) (int k) p bufs
        (dst @ take (range_pos e off len k - off) (drop off data)) (int (range_pos e off len k - off)) derr
        (p', dst', w, err)"
    and derr: "derr \<in> heal_errors"
  shows "dst' = dst @ take len (drop off data) \<and> w = int len \<and> err \<in> heal_errors \<and> org_kept Good p p'"
  using k inv loop derr
proof (induction "off + len - k * bS e" arbitrary: k p bufs derr rule: less_induct)
  case less
  note e = wf_erasure_int [OF wf]
  note f = decode_step_facts [OF wf b r less.prems(1)]
  show ?case
  proof (cases "k * bS e < off + len")
    case False
    then have "off + len \<le> k * bS e" by simp
    then have fin: "range_pos e off len k = off + len" and stop: "go_div (wrap64 (int off + int len)) (blockSize e) < int k
       \<or> snd (decode_range (blockSize e) (int off) (int len) (int k)) = 0"
      using f(4) by (simp_all add: range_pos_def)
    from less.prems(3) fin stop
    have "(p', dst', w, err) = (p, dst @ take len (drop off data), decode_done (int len) (int len) derr)"
      by (cases rule: decode_loop.cases) auto
    then show ?thesis using less.prems(4) by (simp add: decode_done_def org_kept_def)
  next
    case True
    note g = f(1)[OF True] f(2)[OF True] f(3)[OF True]
    have blk: "bufs' \<noteq> []" "rerr \<in> heal_errors"
      "Suc k * bS e < off + len \<longrightarrow> decode_inv honest intact e data m Good (Suc k) q"
      "\<exists>out. DecodeDataBlocks e bufs' = Inr out
      \<and> writeDataBlocks buffer_Write dd out (dataBlocks e) (int (range_pos e off len k - k * bS e))
            (int (range_pos e off len (Suc k) - range_pos e off len k))
          = (dd @ take (range_pos e off len (Suc k) - range_pos e off len k) (drop (range_pos e off len k) data),
             Inr (int (range_pos e off len (Suc k) - range_pos e off len k)))"
      "org_kept Good p q"
      if "Read ra p bufs (q, bufs', rerr)" for q bufs' rerr dd
      using decode_block [OF wf rs sz b r(1) m good less.prems(1) True _ that] less.prems(2) True by simp_all
    have go: "\<not> go_div (wrap64 (int off + int len)) (blockSize e) < int k"
      "snd (decode_range (blockSize e) (int off) (int len) (int k)) \<noteq> 0"
      using g by simp_all
    from less.prems(3) show ?thesis
    proof (cases rule: decode_loopE [consumes 1, case_names stop rd dec wrt step])
      case stop
      then show ?thesis using go by blast
    next
      case (rd rerr)
      then show ?thesis using blk(1) [OF rd(4)] by simp
    next
      case (dec bufs' rerr err')
      then show ?thesis using blk(4) [OF dec(4)] dec(6) by auto
    next
      case (wrt bo bl bufs' rerr out err')
      then show ?thesis using blk(4) [OF wrt(4)] g(1) wrt(2,6,7) by auto
    next
      case (step bo bl q bufs' rerr out d' n)
      from blk(4) [OF step(4)] g(1) step(2,6,7)
      have d': "d' = dst @ take (range_pos e off len (Suc k) - off) (drop off data)"
        and n: "n = int (range_pos e off len (Suc k) - range_pos e off len k)"
        using f(7) by auto
      have "(if bufs' \<noteq> [] \<and> heal_error rerr \<and> derr = None then rerr else derr) \<in> heal_errors"
        using blk(2) [OF step(4)] less.prems(4) by simp
      moreover have "off + len - Suc k * bS e < off + len - k * bS e" using True e(6) by simp
      moreover have "off div bS e \<le> Suc k" using less.prems(1) by simp
      ultimately show ?thesis
        using less.hyps [of "Suc k" q out] blk(3) [OF step(4)] step(8) d' n f(5)[OF True] f(6)
          org_kept_trans [OF blk(5) [OF step(4)]] by simp
    qed
  qed
qed

lemma decode_loop_exists:
  assumes wf: "wf_erasure e" and rs: "rs_ok (encoder e) (dB e) (pB e)" and sz: "sz = sS e"
    and b: "int (length data) + int (bS e) < 2 ^ 63" and r: "off + len \<le> length data" "0 < len"
    and m: "m \<le> nblk e (length data)" "\<forall>k. k * bS e < off + len \<longrightarrow> k < m"
    and good: "dB e \<le> card Good" and k: "off div bS e \<le> k"
    and inv: "k * bS e < off + len \<longrightarrow> decode_inv honest intact e data m Good k p"
  shows "\<exists>res. decode_loop ra buffer_Write e (int off) (int len) (int k) p bufs dst w derr res"
  using k inv
proof (induction "off + len - k * bS e" arbitrary: k p bufs dst w derr rule: less_induct)
  case less
  note e = wf_erasure_int [OF wf]
  note f = decode_step_facts [OF wf b r less.prems(1)]
  show ?case
  proof (cases "k * bS e < off + len")
    case False
    then have "decode_loop ra buffer_Write e (int off) (int len) (int k) p bufs dst w derr
        (p, dst, decode_done (int len) w derr)"
      by (intro decode_loop.dl_end f(4)) simp
    then show ?thesis by blast
  next
    case True
    note g = f(1)[OF True] f(2)[OF True] f(3)[OF True]
    have inv: "decode_inv honest intact e data m Good k p" using less.prems(2) True by simp
    have km: "k < m" using m True by simp
    obtain M where ok: "pread_ok honest intact (\<lambda>j. take m (shard_segs e data j)) Good (dB e + pB e) (dB e) k M p"
      and ps: "pr_offset p = int (k * sz)" "pr_shardSize p = int sz" "pr_shardFileSize p = int (sF e (length data))"
      using inv sz by (auto simp: decode_inv_def)
    have so: "segs_ok (\<lambda>j. take m (shard_segs e data j)) (dB e + pB e) m sz (sF e (length data))"
      using shard_segs_ok [OF wf rs m(1)] sz by simp
    have sz0: "0 < sz" and bd: "int (sF e (length data)) + int sz < 2 ^ 63"
      using sS_bounds [OF wf] shard_bounds [OF wf b] sz by simp_all
    obtain res0 where "Read ra p bufs res0"
      using Read_exists [OF ok so km ps(1,2) sz0 ps(3) bd] by blast
    then obtain q bufs' rerr where read: "Read ra p bufs (q, bufs', rerr)" by (cases res0) simp
    note blk = decode_block [OF wf rs sz b r(1) m good less.prems(1) True inv read]
    obtain out where out: "DecodeDataBlocks e bufs' = Inr out"
      "writeDataBlocks buffer_Write dst out (dataBlocks e) (int (range_pos e off len k - k * bS e))
            (int (range_pos e off len (Suc k) - range_pos e off len k))
          = (dst @ take (range_pos e off len (Suc k) - range_pos e off len k) (drop (range_pos e off len k) data),
             Inr (int (range_pos e off len (Suc k) - range_pos e off len k)))"
      using blk(5) by blast
    have "off + len - Suc k * bS e < off + len - k * bS e" using True e(6) by simp
    moreover have "off div bS e \<le> Suc k" using less.prems(1) by simp
    ultimately obtain res where res: "decode_loop ra buffer_Write e (int off) (int len) (int (Suc k)) q out
        (dst @ take (range_pos e off len (Suc k) - range_pos e off len k) (drop (range_pos e off len k) data))
        (wrap64 (w + int (range_pos e off len (Suc k) - range_pos e off len k)))
        (if bufs' \<noteq> [] \<and> heal_error rerr \<and> derr = None then rerr else derr) res"
      using less.hyps [of "Suc k" q] blk(3) by blast
    have "int (range_pos e off len (Suc k) - range_pos e off len k) \<noteq> 0" using g(2) by simp
    then have "decode_loop ra buffer_Write e (int off) (int len) (int k) p bufs dst w derr res"
      by (rule decode_loop.dl_next [OF g(3,1) _ read _ out]) (use blk(1) res f(5)[OF True] in simp_all)
    then show ?thesis by blast
  qed
qed

end

end
