(* ===== verification/Erasure_Roundtrip.thy ===== *)
theory Erasure_Roundtrip
  imports Erasure_Coding
begin

text \<open>
  What the pieces of the erasure code give together: the shard files that \<open>Encode\<close> writes, the
  readers that are made for a range of them, and \<open>Decode\<close> over these readers. The theorems are about
  drives that may be gone, may fail half way and may hold damaged files, as long as enough of them
  are intact.
\<close>

unbundle bit_operations_syntax

section \<open>The parallel reader at the start\<close>

lemma prefer_loop_none:
  "\<forall>ok\<in>set oks. \<not> ok \<Longrightarrow> prefer_loop i oks nx rs r2b = (rs, r2b)"
proof (induction oks arbitrary: i)
  case (Cons ok oks)
  then have "prefer_loop (Suc i) oks nx rs r2b = (rs, r2b)" by (metis list.set_intros(2))
  with Cons.prems show ?case by simp
qed simp

lemma distinct_filter_inj:
  assumes "distinct (filter P xs)" "i < length xs" "j < length xs" "xs ! i = xs ! j" "P (xs ! i)"
  shows "i = j"
  using assms
proof (induction xs arbitrary: i j)
  case (Cons x xs)
  have d: "distinct (filter P xs)" "P x \<longrightarrow> x \<notin> set xs" using Cons.prems(1) by (auto split: if_splits)
  show ?case
  proof (cases i; cases j)
    fix j' assume "i = 0" "j = Suc j'"
    then show ?thesis using Cons.prems d(2) nth_mem [of j' xs] by auto
  next
    fix i' assume "i = Suc i'" "j = 0"
    then show ?thesis using Cons.prems d(2) nth_mem [of i' xs] by auto
  next
    fix i' j' assume "i = Suc i'" "j = Suc j'"
    then show ?thesis using Cons.IH [OF d(1), of i' j'] Cons.prems by simp
  qed simp
qed simp

lemma reader_ptrs_distinct: "distinct (filter (\<lambda>x. x \<noteq> None) (reader_ptrs readers))"
proof -
  have "filter (\<lambda>x. x \<noteq> None) (map (\<lambda>i. case readers ! i of None \<Rightarrow> None | Some r \<Rightarrow> Some i) is)
      = map Some (filter (\<lambda>i. readers ! i \<noteq> None) is)" for "is" :: "nat list"
    by (induction "is") (auto split: option.split)
  then show ?thesis by (simp add: reader_ptrs_def distinct_map)
qed

text \<open>The caller prefers all the readers there are, or none.\<close>

definition prefer_ok :: "'r option list \<Rightarrow> bool list \<Rightarrow> bool" where
  "prefer_ok readers prefer \<longleftrightarrow>
     length prefer = length readers \<longrightarrow>
       (\<forall>j<length readers. readers ! j \<noteq> None \<longrightarrow> prefer ! j) \<or> (\<forall>ok\<in>set prefer. \<not> ok)"

lemma decode_reader_fields:
  assumes "prefer_ok readers prefer" and p_def: "p = decode_reader readers e off tot prefer"
  shows "length (pr_readers p) = length readers" "length (pr_readerToBuf p) = length readers"
    "mset (pr_readers p) = mset (reader_ptrs readers)" "buf_map_ok (pr_readers p) (pr_readerToBuf p)"
    "pr_obj p = readers" "pr_buf p = replicate (length readers) None" "pr_dataBlocks p = dataBlocks e"
    "pr_offset p = wrap64 (go_div off (blockSize e) * ShardSize e)" "pr_shardSize p = ShardSize e"
    "pr_shardFileSize p = ShardFileSize e tot" "pr_orgReaders p = reader_ptrs readers"
proof -
  let ?n = "length readers" and ?rp = "reader_ptrs readers"
  have id: "buf_map_ok ?rp [0..<?n]"
    by (auto simp: buf_map_ok_def reader_ptrs_nth split: option.splits)
  define q where "q = (if length prefer = ?n then prefer_loop 0 prefer 0 ?rp [0..<?n] else (?rp, [0..<?n]))"
  have p: "p = (newParallelReader readers e off tot)\<lparr>pr_readers := fst q, pr_readerToBuf := snd q\<rparr>"
    by (simp add: p_def q_def decode_reader_def preferReaders_def newParallelReader_def reader_ptrs_nth(1)
        split: prod.split)
  have "buf_map_ok (fst q) (snd q)"
  proof (cases "length prefer = ?n")
    case True
    with assms(1) consider "\<forall>j<?n. readers ! j \<noteq> None \<longrightarrow> prefer ! j" | "\<forall>ok\<in>set prefer. \<not> ok"
      unfolding prefer_ok_def by blast
    then show ?thesis
    proof cases
      case 1
      then have "buf_map_ok (fst (prefer_loop 0 prefer 0 ?rp [0..<?n])) (snd (prefer_loop 0 prefer 0 ?rp [0..<?n]))"
        using True by (intro prefer_loop_ok) (auto simp: reader_ptrs_nth split: option.splits)
      then show ?thesis using True by (simp add: q_def)
    next
      case 2
      then show ?thesis using True id by (simp add: q_def prefer_loop_none)
    qed
  qed (use id in \<open>simp add: q_def\<close>)
  moreover have "length (fst q) = ?n" "length (snd q) = ?n" "mset (fst q) = mset ?rp"
    using prefer_loop_length [of 0 "prefer" 0 ?rp "[0..<?n]"] prefer_loop_mset [of 0 "prefer" ?rp 0 "[0..<?n]"]
    by (simp_all add: q_def reader_ptrs_nth(1))
  ultimately show "length (pr_readers p) = ?n" "length (pr_readerToBuf p) = ?n"
    "mset (pr_readers p) = mset ?rp" "buf_map_ok (pr_readers p) (pr_readerToBuf p)"
    "pr_obj p = readers" "pr_buf p = replicate ?n None" "pr_dataBlocks p = dataBlocks e"
    "pr_offset p = wrap64 (go_div off (blockSize e) * ShardSize e)" "pr_shardSize p = ShardSize e"
    "pr_shardFileSize p = ShardFileSize e tot" "pr_orgReaders p = reader_ptrs readers"
    by (simp_all add: p newParallelReader_def)
qed

text \<open>Readers of the shard files of a part, of which the first \<open>m\<close> segments can be read: those that are
  there are honest, those in \<open>Good\<close> are there and intact.\<close>

definition readers_ok ::
  "('r \<Rightarrow> bytes list \<Rightarrow> nat option \<Rightarrow> bool) \<Rightarrow> ('r \<Rightarrow> bytes list \<Rightarrow> nat option \<Rightarrow> bool) \<Rightarrow> erasure \<Rightarrow> bytes
     \<Rightarrow> nat \<Rightarrow> nat set \<Rightarrow> 'r option list \<Rightarrow> bool" where
  "readers_ok hon itc e data m Good readers \<longleftrightarrow>
     length readers = dB e + pB e \<and> Good \<subseteq> {j. j < length readers \<and> readers ! j \<noteq> None}
     \<and> (\<forall>j<length readers. \<forall>r. readers ! j = Some r \<longrightarrow>
          hon r (take m (shard_segs e data j)) None
          \<and> (j \<in> Good \<longrightarrow> itc r (take m (shard_segs e data j)) None))"

lemma decode_reader_inv:
  assumes wf: "wf_erasure e" and b: "int (length data) + int (bS e) < 2 ^ 63" and off: "off \<le> length data"
    and rd: "readers_ok hon itc e data m Good readers" and pf: "prefer_ok readers prefer"
  shows "decode_inv hon itc e data m Good (off div bS e)
     (decode_reader readers e (int off) (int (length data)) prefer)"
proof -
  define p where "p = decode_reader readers e (int off) (int (length data)) prefer"
  note f = decode_reader_fields [OF pf p_def]
  note e = wf_erasure_int [OF wf]
  let ?n = "length readers" and ?rp = "reader_ptrs readers"
  have n: "?n = dB e + pB e" using rd by (simp add: readers_ok_def)
  have dist: "distinct (filter (\<lambda>x. x \<noteq> None) (pr_readers p))"
    using reader_ptrs_distinct [of readers] f(3) by (metis mset_eq_imp_distinct_iff mset_filter)
  have st: "set (pr_readers p) = set ?rp" using f(3) by (rule mset_eq_setD)
  have ob: "ob < ?n \<and> readers ! ob \<noteq> None" if "Some ob \<in> set ?rp" for ob
    using that by (auto simp: in_set_conv_nth reader_ptrs_nth split: option.splits)
  have "off div bS e * sS e \<le> off div bS e * bS e" using sS_bounds [OF wf] by (intro mult_left_mono) auto
  also have "\<dots> \<le> off" by simp
  finally have "int (off div bS e * sS e) < 2 ^ 63" using off b by linarith
  then have po: "pr_offset p = int (off div bS e * sS e)"
    using f(8) e wrap64_nat [of "off div bS e * sS e"] by (simp add: ShardSize_sS [OF wf] zdiv_int)
  have "int (length data) < 2 ^ 63" using b by linarith
  then have ps: "pr_shardFileSize p = int (sF e (length data))" "pr_shardSize p = int (sS e)"
    using f(9,10) ShardFileSize_sF [OF wf] ShardSize_sS [OF wf] by simp_all
  have "pread_shape ?n (dB e) p"
    unfolding pread_shape_def
  proof (intro conjI allI impI)
    fix i j ob assume "i < ?n" "j < ?n" "pr_readers p ! i = Some ob \<and> pr_readers p ! j = Some ob"
    then show "i = j" using distinct_filter_inj [OF dist, of i j] f(1) by simp
  qed (use f e n in simp_all)
  moreover have "rdr_slot_ok hon itc (\<lambda>j. take m (shard_segs e data j)) Good None p i" if i: "i < ?n" for i
    unfolding rdr_slot_ok_def
  proof (intro allI impI)
    fix ob assume s: "pr_readers p ! i = Some ob"
    then have "Some ob \<in> set ?rp" using st i f(1) nth_mem [of i "pr_readers p"] by simp
    then have "ob < ?n" "readers ! ob \<noteq> None" using ob by auto
    moreover have "pr_readerToBuf p ! i = ob" using f(1,4) i s by (simp add: buf_map_ok_def)
    ultimately show "ob < length (pr_readers p) \<and> pr_readerToBuf p ! i = ob
        \<and> (\<exists>r. pr_obj p ! ob = Some r \<and> hon r (take m (shard_segs e data ob)) None
            \<and> (ob \<in> Good \<longrightarrow> itc r (take m (shard_segs e data ob)) None))"
      using f(1,5) rd by (auto simp: readers_ok_def)
  qed
  moreover have "Good \<subseteq> {ob. \<exists>i<?n. pr_readers p ! i = Some ob}"
  proof
    fix j assume "j \<in> Good"
    then have j: "j < ?n" "readers ! j \<noteq> None" using rd by (auto simp: readers_ok_def)
    then have "?rp ! j = Some j" by (auto simp: reader_ptrs_nth)
    then have "Some j \<in> set (pr_readers p)" using st j nth_mem [of j ?rp] by (simp add: reader_ptrs_nth)
    then show "j \<in> {ob. \<exists>i<?n. pr_readers p ! i = Some ob}" using f(1) by (auto simp: in_set_conv_nth)
  qed
  ultimately have "pread_ok hon itc (\<lambda>j. take m (shard_segs e data j)) Good ?n (dB e) (off div bS e) 0 p"
    by (simp add: pread_ok_def)
  then show ?thesis using po ps n by (auto simp: decode_inv_def p_def)
qed

section \<open>Decode\<close>

text \<open>The blocks that a reader has to deliver for a range that ends at \<open>till\<close>.\<close>

definition need :: "erasure \<Rightarrow> nat \<Rightarrow> nat \<Rightarrow> nat" where
  "need e till n = min (Suc (till div bS e)) (nblk e n)"

lemma need_ok:
  assumes "wf_erasure e" and "till \<le> n"
  shows "need e till n \<le> nblk e n" and "\<forall>k. k * bS e < till \<longrightarrow> k < need e till n"
proof -
  note e = wf_erasure_int [OF assms(1)]
  show "need e till n \<le> nblk e n" by (simp add: need_def)
  show "\<forall>k. k * bS e < till \<longrightarrow> k < need e till n"
  proof (intro allI impI)
    fix k assume k: "k * bS e < till"
    then have "k \<le> till div bS e" using e by (simp add: less_eq_div_iff_mult_less_eq)
    moreover have "k < nblk e n" using k assms(2) nblk_less [OF assms(1)] by simp
    ultimately show "k < need e till n" by (simp add: need_def)
  qed
qed

context shard_reader
begin

lemma Decode_ok:
  assumes wf: "wf_erasure e" and rs: "rs_ok (encoder e) (dB e) (pB e)" and sz: "sz = sS e"
    and b: "int (length data) + int (bS e) < 2 ^ 63" and r: "off + len \<le> length data"
    and rd: "readers_ok honest intact e data (need e (off + len) (length data)) Good readers"
    and good: "dB e \<le> card Good" and pf: "prefer_ok readers prefer"
    and dec: "Decode ra buffer_Write e dst readers (int off) (int len) (int (length data)) prefer
       (org, dst', w, err)"
  shows "dst' = dst @ take len (drop off data) \<and> w = int len \<and> err \<in> heal_errors
     \<and> length org = length readers \<and> (\<forall>j\<in>Good. org ! j = Some j)"
proof -
  have "int (off + len) < 2 ^ 63" using r b by linarith
  then have w: "wrap64 (int off + int len) = int (off + len)" using wrap64_nat [of "off + len"] by simp
  then have valid: "\<not> (int off < 0 \<or> int len < 0 \<or> int (length data) < wrap64 (int off + int len))"
    using r by simp
  have g: "reader_ptrs readers ! j = Some j" if "j \<in> Good" for j
    using rd that by (auto simp: readers_ok_def reader_ptrs_nth)
  note org0 = decode_reader_fields(11) [OF pf refl]
  from dec valid show ?thesis
  proof (cases rule: Decode.cases)
    case Decode_empty
    then show ?thesis using g by (simp add: heal_errors_def reader_ptrs_nth)
  next
    case (Decode_run p')
    have "off \<le> length data" using r by simp
    note inv = decode_reader_inv [OF wf b this rd pf]
    have st: "range_pos e off len (off div bS e) = off"
      by (simp add: range_pos_def)
    have fd: "go_div (int off) (blockSize e) = int (off div bS e)"
      using wf_erasure_int [OF wf] by (simp add: zdiv_int)
    have ok: "dst' = dst @ take len (drop off data) \<and> w = int len \<and> err \<in> heal_errors
        \<and> org_kept Good (decode_reader readers e (int off) (int (length data)) prefer) p'"
      by (rule decode_loop_ok [OF wf rs sz b r _ need_ok [OF wf r] good order.refl, where derr = None and bufs = "[]"])
        (use Decode_run inv st fd in \<open>simp_all add: heal_errors_def\<close>)
    then show ?thesis using Decode_run(1) g by (simp add: org_kept_def org0 reader_ptrs_nth)
  qed simp
qed

lemma Decode_exists:
  assumes wf: "wf_erasure e" and rs: "rs_ok (encoder e) (dB e) (pB e)" and sz: "sz = sS e"
    and b: "int (length data) + int (bS e) < 2 ^ 63" and r: "off + len \<le> length data"
    and rd: "readers_ok honest intact e data (need e (off + len) (length data)) Good readers"
    and good: "dB e \<le> card Good" and pf: "prefer_ok readers prefer"
  shows "\<exists>ans. Decode ra buffer_Write e dst readers (int off) (int len) (int (length data)) prefer ans"
proof (cases "len = 0")
  case True
  have "int off < 2 ^ 63" using r b by linarith
  then have "wrap64 (int off) = int off" by (rule wrap64_nat)
  then have "Decode ra buffer_Write e dst readers (int off) 0 (int (length data)) prefer
      (reader_ptrs readers, dst, 0, None)"
    using r True by (intro Decode_empty) simp_all
  then show ?thesis using True by auto
next
  case False
  have "int (off + len) < 2 ^ 63" using r b by linarith
  then have w: "wrap64 (int off + int len) = int (off + len)" using wrap64_nat [of "off + len"] by simp
  have "off \<le> length data" using r by simp
  note inv = decode_reader_inv [OF wf b this rd pf]
  have fd: "go_div (int off) (blockSize e) = int (off div bS e)"
    using wf_erasure_int [OF wf] by (simp add: zdiv_int)
  obtain res where "decode_loop ra buffer_Write e (int off) (int len) (int (off div bS e))
      (decode_reader readers e (int off) (int (length data)) prefer) [] dst 0 None res"
    using decode_loop_exists [OF wf rs sz b r _ need_ok [OF wf r] good order.refl] False inv by blast
  then have "Decode ra buffer_Write e dst readers (int off) (int len) (int (length data)) prefer
      (pr_orgReaders (fst res), fst (snd res), fst (snd (snd res)), snd (snd (snd res)))"
    using False r w fd by (intro Decode_run) simp_all
  then show ?thesis by blast
qed

end

section \<open>Readers of the files that Encode wrote\<close>

lemma segs_length:
  assumes "\<forall>k<length xs. k * s < F \<and> length (xs ! k) = min s (F - k * s)"
  shows "length (concat xs) = min (length xs * s) F"
  using assms
proof (induction xs rule: rev_induct)
  case (snoc x xs)
  have "length (concat xs) = min (length xs * s) F"
  proof (rule snoc.IH, intro allI impI)
    fix k assume "k < length xs"
    then show "k * s < F \<and> length (xs ! k) = min s (F - k * s)"
      using snoc.prems[rule_format, of k] by (simp add: nth_append)
  qed
  moreover have "length xs * s < F" "length x = min s (F - length xs * s)"
    using snoc.prems[rule_format, of "length xs"] by auto
  ultimately show ?case unfolding length_append_singleton mult_Suc by (simp only: concat_append length_append) auto
qed simp

lemma nblk_covers:
  assumes "wf_erasure e"
  shows "sF e n \<le> nblk e n * sS e"
proof (cases "n mod bS e = 0")
  case True
  then show ?thesis by (simp add: sF_def nblk_def cdiv_def)
next
  case False
  have "cdiv (n mod bS e) (dB e) \<le> sS e"
    unfolding sS_def using wf_erasure_int(6) [OF assms] by (intro cdiv_mono) simp
  then show ?thesis using False by (simp add: sF_def nblk_def cdiv_def)
qed

lemma ShardFileOffset_need:
  assumes wf: "wf_erasure e" and rs: "rs_ok (encoder e) (dB e) (pB e)"
    and b: "int (length data) + int (bS e) < 2 ^ 63" and r: "off + len \<le> length data" and j: "j < dB e + pB e"
  shows "ShardFileOffset e (int off) (int len) (int (length data))
     = int (length (concat (take (need e (off + len) (length data)) (shard_segs e data j))))"
proof -
  note e = wf_erasure_int [OF wf]
  let ?n = "length data" and ?t = "off + len"
  define q where "q = ?t div bS e"
  let ?m = "need e ?t ?n"
  have "segs_ok (\<lambda>j. take ?m (shard_segs e data j)) (dB e + pB e) ?m (sS e) (sF e ?n)"
    by (rule shard_segs_ok [OF wf rs need_ok(1) [OF wf r]])
  then have "length (concat (take ?m (shard_segs e data j))) = min (?m * sS e) (sF e ?n)"
    using j segs_length [of "take ?m (shard_segs e data j)" "sS e" "sF e ?n"] by (auto simp: segs_ok_def)
  also have "\<dots> = min (Suc q * sS e) (sF e ?n)"
  proof (cases "Suc q \<le> nblk e ?n")
    case False
    then have "nblk e ?n * sS e \<le> Suc q * sS e" by (intro mult_right_mono) auto
    then show ?thesis using False nblk_covers [OF wf, of ?n] by (simp add: need_def q_def min_def)
  qed (simp add: need_def q_def)
  finally have L: "length (concat (take ?m (shard_segs e data j))) = min (Suc q * sS e) (sF e ?n)" .
  have ib: "int ?n < 2 ^ 63" "int ?t < 2 ^ 63" using b r by linarith+
  have w: "wrap64 (int off + int len) = int ?t" using wrap64_nat [OF ib(2)] by simp
  have "q * sS e \<le> q * bS e" using sS_bounds [OF wf] by (intro mult_left_mono) auto
  also have "\<dots> \<le> ?t" by (simp add: q_def)
  finally have "int (Suc q * sS e) < 2 ^ 63" using r b sS_bounds [OF wf] unfolding mult_Suc by linarith
  then have "wrap64 (int q * int (sS e) + int (sS e)) = int (Suc q * sS e)"
    using wrap64_nat [of "Suc q * sS e"] by (simp add: algebra_simps)
  moreover have "go_div (wrap64 (int off + int len)) (blockSize e) = int q"
    unfolding w e(3) using e(6) by (simp add: q_def zdiv_int)
  ultimately have "ShardFileOffset e (int off) (int len) (int ?n)
      = (if int (sF e ?n) < int (Suc q * sS e) then int (sF e ?n) else int (Suc q * sS e))"
    by (simp only: ShardFileOffset_def Let_def ShardSize_sS [OF wf] ShardFileSize_sF [OF wf ib(1)])
  then show ?thesis unfolding L by (simp only: min_def of_nat_less_iff) auto
qed

lemma shard_segs_uniform:
  assumes wf: "wf_erasure e" and rs: "rs_ok (encoder e) (dB e) (pB e)" and j: "j < dB e + pB e"
    and m: "m \<le> nblk e (length data)"
  shows "uniform (sS e) (take m (shard_segs e data j))"
proof -
  have so: "segs_ok (\<lambda>j. take m (shard_segs e data j)) (dB e + pB e) m (sS e) (sF e (length data))"
    by (rule shard_segs_ok [OF wf rs m])
  have k: "k * sS e < sF e (length data)
      \<and> length (take m (shard_segs e data j) ! k) = min (sS e) (sF e (length data) - k * sS e)" if "k < m" for k
    using so j that unfolding segs_ok_def by blast
  show ?thesis
    unfolding uniform_def
  proof (intro conjI allI impI)
    show s0: "0 < sS e" using sS_bounds [OF wf] by simp
    fix i assume i: "i < length (take m (shard_segs e data j))"
    then have im: "i < m" by simp
    show "0 < length (take m (shard_segs e data j) ! i)" "length (take m (shard_segs e data j) ! i) \<le> sS e"
      using k [OF im] s0 by simp_all
    assume "Suc i < length (take m (shard_segs e data j))"
    then have "Suc i * sS e < sF e (length data)" using k [of "Suc i"] by simp
    then show "length (take m (shard_segs e data j) ! i) = sS e" using k [OF im] by simp
  qed
qed

text \<open>A reader that delivers the segments of the file delivers nothing else.\<close>

lemma intact_honest_stream:
  "hashes_ok H \<Longrightarrow> intact_stream H a st segs \<Longrightarrow> honest_stream H a st segs"
proof (induction segs arbitrary: st)
  case (Cons c cs)
  obtain rest where rest: "fst st = H a c @ c @ bitrot_file H a cs @ rest"
    using Cons.prems(2) by (auto simp: intact_stream_def)
  have h: "length (H a c) = hash_Size a" using Cons.prems(1) by (simp add: hashes_ok_def)
  have "intact_stream H a (bitrot_file H a cs @ rest, snd st) cs" by (simp add: intact_stream_def)
  then have "honest_stream H a (bitrot_file H a cs @ rest, snd st) cs" by (rule Cons.IH [OF Cons.prems(1)])
  then show ?case using rest h by (cases st) (simp add: ReadFull_def)
qed simp

lemma streaming_intact_honest:
  assumes "streaming_intact H sz b segs None"
  shows "streaming_honest H sz b segs None"
proof -
  have H: "hashes_ok H" using assms by (simp add: streaming_intact_def stream_shape_def)
  have sh: "stream_shape H sz b segs" and rc: "br_rc b = None"
    and all: "\<forall>k<length segs. \<exists>st. open_stream b (int (k * sz)) = Inr st
            \<and> intact_stream H (br_algo b) st (drop k segs)"
    using assms by (simp_all add: streaming_intact_def stream_at_def)
  have "honest_stream H (br_algo b) st (drop k segs)"
    if k: "k < length segs" and st: "open_stream b (int (k * sz)) = Inr st" for k st
  proof -
    obtain st' where "open_stream b (int (k * sz)) = Inr st'" "intact_stream H (br_algo b) st' (drop k segs)"
      using all k by blast
    then show ?thesis using st intact_honest_stream [OF H] by simp
  qed
  then show ?thesis using sh rc by (simp add: streaming_honest_def)
qed

text \<open>The reader that is made for a range, of a file on a drive or of data kept with the metadata.\<close>

lemma shard_reader_intact:
  assumes wf: "wf_erasure e" and rs: "rs_ok (encoder e) (dB e) (pB e)" and H: "hashes_ok H"
    and b: "int (length data) + int (bS e) < 2 ^ 63"
      "int (length (bitrot_file H HighwayHash256S (shard_segs e data j))) < 2 ^ 63"
    and r: "off + len \<le> length data" and j: "j < dB e + pB e"
    and src: "inl = [] \<and> holds_file disk volume path (bitrot_file H HighwayHash256S (shard_segs e data j))
       \<or> inl = bitrot_file H HighwayHash256S (shard_segs e data j) \<and> inl \<noteq> []"
    and rdr_def: "rdr = newBitrotReader disk inl volume path (ShardFileOffset e (int off) (int len) (int (length data)))
      HighwayHash256S sm (ShardSize e)"
    and segs_def: "segs = take (need e (off + len) (length data)) (shard_segs e data j)"
  shows "br_intact H (sS e) rdr segs None \<and> br_honest H (sS e) rdr segs None"
proof -
  let ?m = "need e (off + len) (length data)"
  note m = need_ok(1) [OF wf r]
  have split: "shard_segs e data j = segs @ drop ?m (shard_segs e data j)" by (simp add: segs_def)
  have "length (bitrot_file H HighwayHash256S segs) \<le> length (bitrot_file H HighwayHash256S (shard_segs e data j))"
    by (subst split) (simp add: bitrot_file_append)
  then have l1: "int (length (bitrot_file H HighwayHash256S segs)) < 2 ^ 63" using b(2) by linarith
  have "?m \<le> Suc (length data div bS e)"
    using r by (simp add: need_def div_le_mono le_SucI min.coboundedI1)
  then have "?m * sS e \<le> Suc (length data div bS e) * bS e"
    using sS_bounds [OF wf] by (intro mult_mono) auto
  also have "\<dots> \<le> length data + bS e" by (simp add: add.commute)
  finally have "?m * sS e \<le> length data + bS e" .
  moreover have "length segs = ?m" using m by (simp add: segs_def)
  ultimately have l2: "int (length segs * sS e) < 2 ^ 63" using b(1) by (metis of_nat_add of_nat_le_iff order_le_less_trans)
  have "streaming_intact H (sS e) (newStreamingBitrotReader disk inl volume path
      (ShardFileOffset e (int off) (int len) (int (length data))) HighwayHash256S (int (sS e))) segs None"
    by (rule new_streaming_intact [OF H _ _ _ l1 l2, where tls = "drop ?m (shard_segs e data j)"])
      (use shard_segs_uniform [OF wf rs j m] src split ShardFileOffset_need [OF wf rs b(1) r j]
        in \<open>simp_all add: segs_def\<close>)
  then show ?thesis
    using streaming_intact_honest by (simp add: rdr_def newBitrotReader_def ShardSize_sS [OF wf])
qed

section \<open>Encode\<close>

lemma Encode_ok:
  assumes wf: "wf_erasure e" and rs: "rs_ok (encoder e) (dB e) (pB e)"
    and buf: "buf_ok e n (length data)" and L: "int (length data) < 2 ^ 63"
    and N: "length writers = dB e + pB e" and w0: "\<forall>w\<in>set writers. w = None \<or> w = Some []"
    and q: "quorum \<le> int (online writers)"
  shows "\<exists>pw. Encode (shard_Write cl H a) ord e (data, EOF) writers n quorum = Some (pw, Inr (int (length data)))
     \<and> length (pw_writers pw) = length writers
     \<and> (\<forall>j<length writers. pw_writers pw ! j = (case writers ! j of None \<Rightarrow> None
          | Some w \<Rightarrow> Some (bitrot_file H a (shard_segs e data j))))"
proof -
  let ?pw = "\<lparr>pw_writers = writers, pw_writeQuorum = quorum, pw_errs = replicate (length writers) None\<rparr>"
  have up: "written_upto H a e data writers 0 ?pw"
    using w0 by (auto simp: written_upto_def in_set_conv_nth split: option.splits)
  have "0 = nblk e (length data) \<longrightarrow> 0 * n = length data"
    using nblk_less [OF wf, of 0 "length data"] by auto
  then obtain pw where "Encode (shard_Write cl H a) ord e (data, EOF) writers n quorum
        = Some (pw, Inr (int (length data)))"
    and "written_upto H a e data writers (nblk e (length data)) pw"
    using encode_loop_ok [OF wf rs buf L N _ _ _ up, where cl = cl and ord = ord] q
    by (auto simp: Encode_def)
  moreover have "take (nblk e (length data)) (shard_segs e data j) = shard_segs e data j" for j by simp
  ultimately show ?thesis by (auto simp: written_upto_def split: option.split)
qed

section \<open>Heal\<close>

inductive_cases heal_loopE: "heal_loop ra wr ord e endBlock block p bufs writers derr (ws, err)"

abbreviation heal_writer :: "'w option list \<Rightarrow> 'w parallelWriter" where
  "heal_writer ws \<equiv> \<lparr>pw_writers = ws, pw_writeQuorum = 1, pw_errs = replicate (length ws) None\<rparr>"

lemma heal_blocks_nblk:
  assumes "wf_erasure e" and "int n + int (bS e) < 2 ^ 63"
  shows "heal_blocks e (int n) = int (nblk e n)"
proof -
  note e = wf_erasure_int [OF assms(1)]
  have "n div bS e \<le> n" by simp
  then have "int (Suc (n div bS e)) < 2 ^ 63" using assms(2) e(6) by linarith
  then have "wrap64 (int (n div bS e) + 1) = int (Suc (n div bS e))"
    using wrap64_nat [of "Suc (n div bS e)"] by (simp add: add.commute)
  moreover have "go_div (int n) (blockSize e) = int (n div bS e)" "go_mod (int n) (blockSize e) = int (n mod bS e)"
    using e by (simp_all add: zdiv_int zmod_int)
  ultimately show ?thesis by (simp add: heal_blocks_def Let_def nblk_def cdiv_def del: of_nat_Suc)
qed

lemma Reconstruct_partial:
  assumes wf: "wf_erasure e" and rs: "rs_ok (encoder e) (dB e) (pB e)" and b: "b \<noteq> []"
    and part: "partial_shards (enc_shards e b) bufs" and pres: "dB e \<le> present bufs"
  shows "DecodeDataAndParityBlocks e bufs = Inr (enc_shards e b)"
proof -
  obtain enc z where "enc_shards e b = enc"
    "\<And>bufs. partial_shards enc bufs \<Longrightarrow> dB e \<le> present bufs \<Longrightarrow>
       (\<exists>out. rs_ReconstructData (encoder e) bufs = Inr out \<and> length out = dB e + pB e
           \<and> take (dB e) out = take (dB e) enc) \<and> rs_Reconstruct (encoder e) bufs = Inr enc"
    using EncodeData_ok [OF wf rs b] by metis
  then show ?thesis using part pres by (simp add: DecodeDataAndParityBlocks_def)
qed

lemma written_heal:
  "written_upto H a e data writers k pw \<Longrightarrow> written_upto H a e data writers k (heal_writer (pw_writers pw))"
  by (simp add: written_upto_def)

context shard_reader
begin

lemma heal_block:
  assumes wf: "wf_erasure e" and rs: "rs_ok (encoder e) (dB e) (pB e)" and sz: "sz = sS e"
    and b: "int (length data) + int (bS e) < 2 ^ 63" and good: "dB e \<le> card Good"
    and k: "k < nblk e (length data)"
    and inv: "decode_inv honest intact e data (nblk e (length data)) Good k p"
    and read: "Read ra p bufs (p', bufs', err)"
  shows "bufs' \<noteq> []" and "err \<in> heal_errors"
    and "Suc k < nblk e (length data) \<longrightarrow> decode_inv honest intact e data (nblk e (length data)) Good (Suc k) p'"
    and "DecodeDataAndParityBlocks e bufs' = Inr (enc_shards e (blk e data k))"
proof -
  let ?m = "nblk e (length data)"
  let ?segs = "\<lambda>j. take ?m (shard_segs e data j)"
  obtain M where ok: "pread_ok honest intact ?segs Good (dB e + pB e) (dB e) k M p"
    and off: "pr_offset p = int (k * sz)" and ss: "pr_shardSize p = int sz"
    and F: "pr_shardFileSize p = int (sF e (length data))"
    using inv sz by (auto simp: decode_inv_def)
  have so: "segs_ok ?segs (dB e + pB e) ?m sz (sF e (length data))"
    using shard_segs_ok [OF wf rs order.refl] sz by simp
  have sz0: "0 < sz" and bd: "int (sF e (length data)) + int sz < 2 ^ 63"
    using sS_bounds [OF wf] shard_bounds [OF wf b] sz by simp_all
  note R = Read_ok [OF ok so k off ss sz0 F bd good read]
  have en: "map (\<lambda>j. ?segs j ! k) [0..<dB e + pB e] = enc_shards e (blk e data k)"
  proof -
    obtain enc z where "enc_shards e (blk e data k) = enc"
      "same_size (dB e + pB e) (cdiv (length (blk e data k)) (dB e)) enc"
      using EncodeData_ok [OF wf rs blk_nonempty [OF wf k]] by metis
    then show ?thesis using k by (intro nth_equalityI) (simp_all add: same_size_def shard_segs_nth)
  qed
  show "bufs' \<noteq> []" using R(2) wf_erasure_int [OF wf] by (auto simp: present_def)
  show "err \<in> heal_errors" using R(3) by (simp add: heal_errors_def)
  show "Suc k < ?m \<longrightarrow> decode_inv honest intact e data ?m Good (Suc k) p'"
    using R(4,5,6) sz by (simp add: decode_inv_def)
  show "DecodeDataAndParityBlocks e bufs' = Inr (enc_shards e (blk e data k))"
    by (rule Reconstruct_partial [OF wf rs blk_nonempty [OF wf k]]) (use R(1,2) en in simp_all)
qed

lemma heal_next:
  assumes wf: "wf_erasure e" and rs: "rs_ok (encoder e) (dB e) (pB e)"
    and N: "length writers = dB e + pB e" and on: "1 \<le> online writers" and k: "k < nblk e (length data)"
    and up: "written_upto H a e data writers k (heal_writer ws)"
  shows "\<exists>pw. parallel_Write (shard_Write cl H a) ord (heal_writer ws) (enc_shards e (blk e data k)) = Some (pw, None)
     \<and> written_upto H a e data writers (Suc k) (heal_writer (pw_writers pw))"
proof -
  obtain enc z where enc: "enc_shards e (blk e data k) = enc"
    "same_size (dB e + pB e) (cdiv (length (blk e data k)) (dB e)) enc"
    using EncodeData_ok [OF wf rs blk_nonempty [OF wf k]] by metis
  have "0 < cdiv (length (blk e data k)) (dB e)"
    using blk_nonempty [OF wf k] wf_erasure_int [OF wf] by (simp add: cdiv_pos)
  then have "length enc = dB e + pB e" "\<forall>j<dB e + pB e. enc ! j \<noteq> []"
    using enc(2) by (auto simp: same_size_def list_all_length)
  then show ?thesis
    using written_next [OF up k, where cl = cl and ord = ord] written_heal N on enc(1) by auto
qed

lemma heal_loop_ok:
  assumes wf: "wf_erasure e" and rs: "rs_ok (encoder e) (dB e) (pB e)" and sz: "sz = sS e"
    and b: "int (length data) + int (bS e) < 2 ^ 63" and good: "dB e \<le> card Good"
    and N: "length writers = dB e + pB e" and on: "1 \<le> online writers" and k: "k \<le> nblk e (length data)"
    and inv: "k < nblk e (length data) \<longrightarrow> decode_inv honest intact e data (nblk e (length data)) Good k p"
    and up: "written_upto H a e data writers k (heal_writer ws)"
    and loop: "heal_loop ra (shard_Write cl H a) ord e (int (nblk e (length data))) (int k) p bufs ws derr (ws', err)"
    and derr: "derr \<in> heal_errors"
  shows "written_upto H a e data writers (nblk e (length data)) (heal_writer ws') \<and> err \<in> heal_errors"
  using k inv up loop derr
proof (induction "nblk e (length data) - k" arbitrary: k p bufs ws derr rule: less_induct)
  case less
  let ?m = "nblk e (length data)"
  show ?case
  proof (cases "k < ?m")
    case False
    with less.prems(1) have km: "k = ?m" by simp
    from less.prems(4) have "ws' = ws \<and> err = derr"
      by (cases rule: heal_loopE [consumes 1]) (use km in simp_all)
    then show ?thesis using less.prems(3,5) km by simp
  next
    case True
    have inv': "decode_inv honest intact e data ?m Good k p" using less.prems(2) True by simp
    note blk = heal_block [OF wf rs sz b good True inv']
    obtain pw where pw: "parallel_Write (shard_Write cl H a) ord (heal_writer ws) (enc_shards e (blk e data k)) = Some (pw, None)"
      "written_upto H a e data writers (Suc k) (heal_writer (pw_writers pw))"
      using heal_next [OF wf rs N on True less.prems(3)] by blast
    from less.prems(4) show ?thesis
    proof (cases rule: heal_loopE [consumes 1, case_names stop rd dec wrt step])
      case stop
      then show ?thesis using True by simp
    next
      case (rd q rerr)
      then show ?thesis using blk(1) [OF rd(4)] by simp
    next
      case (dec q bufs' rerr err')
      then show ?thesis using blk(4) [OF dec(4)] by simp
    next
      case (wrt q bufs' rerr out pw' err')
      then show ?thesis using blk(4) [OF wrt(2)] pw(1) by simp
    next
      case (step q bufs' rerr out pw')
      have out: "out = enc_shards e (blk e data k)" using blk(4) [OF step(2)] step(4) by simp
      then have "pw' = pw" using pw(1) step(5) by simp
      moreover have "(if bufs' \<noteq> [] \<and> heal_error rerr \<and> derr = None then rerr else derr) \<in> heal_errors"
        using blk(2) [OF step(2)] less.prems(5) by simp
      moreover have "?m - Suc k < ?m - k" using True by simp
      moreover have "int k + 1 = int (Suc k)" by simp
      ultimately show ?thesis
        using less.hyps [of "Suc k" q "pw_writers pw" out] True blk(3) [OF step(2)] pw(2) step(6)
        by (simp add: add.commute [of 1])
    qed
  qed
qed

lemma heal_loop_exists:
  assumes wf: "wf_erasure e" and rs: "rs_ok (encoder e) (dB e) (pB e)" and sz: "sz = sS e"
    and b: "int (length data) + int (bS e) < 2 ^ 63" and good: "dB e \<le> card Good"
    and N: "length writers = dB e + pB e" and on: "1 \<le> online writers" and k: "k \<le> nblk e (length data)"
    and inv: "k < nblk e (length data) \<longrightarrow> decode_inv honest intact e data (nblk e (length data)) Good k p"
    and up: "written_upto H a e data writers k (heal_writer ws)"
  shows "\<exists>res. heal_loop ra (shard_Write cl H a) ord e (int (nblk e (length data))) (int k) p bufs ws derr res"
  using k inv up
proof (induction "nblk e (length data) - k" arbitrary: k p bufs ws derr rule: less_induct)
  case less
  let ?m = "nblk e (length data)"
  show ?case
  proof (cases "k < ?m")
    case False
    then show ?thesis using heal_loop.hl_end [of "int ?m" "int k"] by (metis not_less of_nat_le_iff)
  next
    case True
    have inv': "decode_inv honest intact e data ?m Good k p" using less.prems(2) True by simp
    obtain M where ok: "pread_ok honest intact (\<lambda>j. take ?m (shard_segs e data j)) Good (dB e + pB e) (dB e) k M p"
      and ps: "pr_offset p = int (k * sz)" "pr_shardSize p = int sz" "pr_shardFileSize p = int (sF e (length data))"
      using inv' sz by (auto simp: decode_inv_def)
    have so: "segs_ok (\<lambda>j. take ?m (shard_segs e data j)) (dB e + pB e) ?m sz (sF e (length data))"
      using shard_segs_ok [OF wf rs order.refl] sz by simp
    have sz0: "0 < sz" and bd: "int (sF e (length data)) + int sz < 2 ^ 63"
      using sS_bounds [OF wf] shard_bounds [OF wf b] sz by simp_all
    obtain res0 where "Read ra p bufs res0" using Read_exists [OF ok so True ps(1,2) sz0 ps(3) bd] by blast
    then obtain q bufs' rerr where read: "Read ra p bufs (q, bufs', rerr)" by (cases res0) simp
    note blk = heal_block [OF wf rs sz b good True inv' read]
    obtain pw where pw: "parallel_Write (shard_Write cl H a) ord (heal_writer ws) (enc_shards e (blk e data k)) = Some (pw, None)"
      "written_upto H a e data writers (Suc k) (heal_writer (pw_writers pw))"
      using heal_next [OF wf rs N on True less.prems(3)] by blast
    have "?m - Suc k < ?m - k" using True by simp
    then obtain res where res: "heal_loop ra (shard_Write cl H a) ord e (int ?m) (int (Suc k)) q
        (enc_shards e (blk e data k)) (pw_writers pw)
        (if bufs' \<noteq> [] \<and> heal_error rerr \<and> derr = None then rerr else derr) res"
      using less.hyps [of "Suc k" q "pw_writers pw"] True blk(3) pw(2) by (metis Suc_leI)
    have "heal_loop ra (shard_Write cl H a) ord e (int ?m) (int k) p bufs ws derr res"
      by (rule heal_loop.hl_next [OF _ read _ blk(4) pw(1)]) (use True blk(1) res in \<open>simp_all add: add.commute\<close>)
    then show ?thesis by blast
  qed
qed

end

section \<open>A codec\<close>

text \<open>Two data shards and their exclusive or: a codec that keeps the promises, for the examples.\<close>

definition xor_shards :: "bytes \<Rightarrow> bytes \<Rightarrow> bytes" where
  "xor_shards a b = map2 (\<lambda>x y. x XOR y) a b"

definition xor_rebuild :: "bytes list \<Rightarrow> (xerr, bytes list) result" where
  "xor_rebuild bufs =
     (case bufs of
        [a, b, c] \<Rightarrow>
          (let a' = (if a = [] then xor_shards b c else a);
               b' = (if b = [] then xor_shards a c else b)
           in Inr [a', b', xor_shards a' b'])
      | _ \<Rightarrow> Inl ErrTooFewShards)"

definition xor_codec :: rs_codec where
  "xor_codec =
     \<lparr>rs_Split = (\<lambda>data. if data = [] then Inl ErrShortData else Inr (split_shards 2 1 data)),
      rs_Encode = (\<lambda>sh. case sh of [a, b, c] \<Rightarrow> Inr [a, b, xor_shards a b] | _ \<Rightarrow> Inl ErrTooFewShards),
      rs_ReconstructData = xor_rebuild, rs_Reconstruct = xor_rebuild\<rparr>"

lemma xor_shards_cancel:
  "length a = length b \<Longrightarrow> xor_shards b (xor_shards a b) = a"
  "length a = length b \<Longrightarrow> xor_shards a (xor_shards a b) = b"
  "length (xor_shards a b) = min (length a) (length b)"
proof -
  show "length a = length b \<Longrightarrow> xor_shards b (xor_shards a b) = a"
    by (auto simp: xor_shards_def xor.left_commute intro!: nth_equalityI)
  show "length a = length b \<Longrightarrow> xor_shards a (xor_shards a b) = b"
    by (auto simp: xor_shards_def xor.assoc [symmetric] intro!: nth_equalityI)
qed (simp add: xor_shards_def)

lemma xor_codec_ok: "rs_ok xor_codec 2 1"
proof -
  have "\<exists>enc. rs_Encode xor_codec shards = Inr enc \<and> same_size 3 s enc \<and> take 2 enc = take 2 shards
      \<and> (\<forall>bufs. partial_shards enc bufs \<and> 2 \<le> present bufs \<longrightarrow> xor_rebuild bufs = Inr enc)"
    if s: "0 < s" "same_size 3 s shards" for s shards
  proof -
    obtain a b c where sh: "shards = [a, b, c]" and len: "length a = s" "length b = s"
      using s(2) by (auto simp: same_size_def numeral_3_eq_3 length_Suc_conv)
    let ?x = "xor_shards a b"
    have "xor_rebuild bufs = Inr [a, b, ?x]" if p: "partial_shards [a, b, ?x] bufs" "2 \<le> present bufs" for bufs
    proof -
      obtain a' b' c' where bufs: "bufs = [a', b', c']" and o: "a' = [] \<or> a' = a" "b' = [] \<or> b' = b" "c' = [] \<or> c' = ?x"
        using p(1) by (auto simp: partial_shards_def list_all2_Cons2)
      have ne: "a \<noteq> []" "b \<noteq> []" using len s(1) by auto
      show ?thesis
        using o p(2) ne xor_shards_cancel(1,2) [of a b] len
        by (auto simp: bufs xor_rebuild_def Let_def present_def split: if_splits)
    qed
    then show ?thesis
      using sh len xor_shards_cancel(3) [of a b]
      by (intro exI [of _ "[a, b, ?x]"]) (simp add: xor_codec_def same_size_def)
  qed
  note enc = this
  have rec: "rs_ReconstructData xor_codec = xor_rebuild" "rs_Reconstruct xor_codec = xor_rebuild"
    by (simp_all add: xor_codec_def)
  show ?thesis
    unfolding rs_ok_def rec
  proof (intro conjI allI impI)
    fix s shards assume "0 < s \<and> same_size (2 + 1) s shards"
    then obtain en where en: "rs_Encode xor_codec shards = Inr en" "same_size 3 s en" "take 2 en = take 2 shards"
      and re: "\<forall>bufs. partial_shards en bufs \<and> 2 \<le> present bufs \<longrightarrow> xor_rebuild bufs = Inr en"
      using enc [of s shards] by auto
    have l: "length en = 2 + 1" using en(2) by (simp add: same_size_def)
    with re have "\<forall>bufs. partial_shards en bufs \<and> 2 \<le> present bufs \<longrightarrow>
        (\<exists>out. xor_rebuild bufs = Inr out \<and> length out = 2 + 1 \<and> take 2 out = take 2 en)
        \<and> xor_rebuild bufs = Inr en" by metis
    with en l show "\<exists>enc. rs_Encode xor_codec shards = Inr enc \<and> same_size (2 + 1) s enc \<and> take 2 enc = take 2 shards
        \<and> (\<forall>bufs. partial_shards enc bufs \<and> 2 \<le> present bufs \<longrightarrow>
            (\<exists>out. xor_rebuild bufs = Inr out \<and> length out = 2 + 1 \<and> take 2 out = take 2 enc)
            \<and> xor_rebuild bufs = Inr enc)"
      by (intro exI [of _ en]) simp
  qed (simp add: xor_codec_def)
qed

section \<open>Properties\<close>

lemma shard_file_length:
  assumes wf: "wf_erasure e" and rs: "rs_ok (encoder e) (dB e) (pB e)" and H: "hashes_ok H"
    and j: "j < dB e + pB e"
  shows "length (bitrot_file H a (shard_segs e data j))
     = nblk e (length data) * hash_Size a + sF e (length data)"
proof -
  let ?m = "nblk e (length data)"
  have tk: "take ?m (shard_segs e data j) = shard_segs e data j" by simp
  have "segs_ok (\<lambda>j. take ?m (shard_segs e data j)) (dB e + pB e) ?m (sS e) (sF e (length data))"
    by (rule shard_segs_ok [OF wf rs order.refl])
  then have "length (concat (shard_segs e data j)) = min (?m * sS e) (sF e (length data))"
    using j segs_length [of "shard_segs e data j" "sS e" "sF e (length data)"] by (auto simp: segs_ok_def tk)
  then show ?thesis
    using nblk_covers [OF wf, of "length data"] length_bitrot_file [OF H, of a "shard_segs e data j"] by simp
qed

text \<open>C8. Reading a range of an erasure-coded part. When at least \<open>dB e\<close> (the number of data shards) of
  the shard files are intact and the other drives are missing, fail at any point, or hold files whose
  damage the checksums detect, \<open>Decode\<close> returns, whatever the order in which the drives answer; it
  writes exactly the bytes of the range and reports their number; the error it gives is at most a
  request to heal; and the readers of the intact files stay in the list of the caller. All the readers that
  are there are preferred, or none, as its caller does.\<close>

theorem Decode_correct:
  assumes "wf_erasure e" and "rs_ok (encoder e) (dB e) (pB e)"
    and "int (length data) + int (bS e) < 2 ^ 63" and "off + len \<le> length data"
    and "readers_ok (br_honest H (sS e)) (br_intact H (sS e)) e data (need e (off + len) (length data)) Good readers"
    and "dB e \<le> card Good" and "prefer_ok readers prefer"
  shows "(\<exists>ans. Decode (ReadAt H) buffer_Write e dst readers (int off) (int len) (int (length data)) prefer ans)
     \<and> (\<forall>org dst' w err. Decode (ReadAt H) buffer_Write e dst readers (int off) (int len) (int (length data))
            prefer (org, dst', w, err)
          \<longrightarrow> dst' = dst @ take len (drop off data) \<and> w = int len
            \<and> err \<in> {None, Some errFileNotFound, Some errFileCorrupt} \<and> (\<forall>j\<in>Good. org ! j = Some j))"
  using shards.Decode_exists [OF assms(1,2) refl assms(3-7), where dst = dst]
    shards.Decode_ok [OF assms(1,2) refl assms(3-7), where dst = dst]
  by (simp add: heal_errors_def)

text \<open>The set of the examples: two data drives and one parity drive, blocks of four bytes.\<close>

definition xor_set :: erasure where
  "xor_set = \<lparr>encoder = xor_codec, dataBlocks = 2, parityBlocks = 1, blockSize = 4\<rparr>"

lemma xor_set_ok: "wf_erasure xor_set" "rs_ok (encoder xor_set) (dB xor_set) (pB xor_set)"
  "dB xor_set = 2" "pB xor_set = 1" "bS xor_set = 4"
  using xor_codec_ok by (simp_all add: xor_set_def wf_erasure_def dB_def pB_def bS_def)

definition gone_drive :: storage_api where
  "gone_drive = \<lparr>ReadFileStream = (\<lambda>v f off len. Inl errFileNotFound), ReadFile = (\<lambda>v f off len vf. Inl errFileNotFound)\<rparr>"

lemma xor_file:
  assumes "data \<noteq> []" "length data < 100" "j < 3"
  shows "bitrot_file zero_hash HighwayHash256S (shard_segs xor_set data j) \<noteq> []"
    and "int (length (bitrot_file zero_hash HighwayHash256S (shard_segs xor_set data j))) < 2 ^ 63"
proof -
  have l: "length (bitrot_file zero_hash HighwayHash256S (shard_segs xor_set data j))
      = nblk xor_set (length data) * 32 + sF xor_set (length data)"
    using shard_file_length [OF xor_set_ok(1,2) zero_hash_ok, of j HighwayHash256S data] assms(3)
    by (simp add: xor_set_ok)
  have "0 < nblk xor_set (length data)" using nblk_less [OF xor_set_ok(1), of 0 "length data"] assms(1) by simp
  then show "bitrot_file zero_hash HighwayHash256S (shard_segs xor_set data j) \<noteq> []" using l by auto
  have "\<not> 100 < nblk xor_set (length data)"
    using nblk_less [OF xor_set_ok(1), of 100 "length data"] assms(2) xor_set_ok(5) by simp
  moreover have "sF xor_set (length data) < 100" using sF_le [OF xor_set_ok(1), of "length data"] assms(2) by linarith
  ultimately have "length (bitrot_file zero_hash HighwayHash256S (shard_segs xor_set data j)) < 4000" using l by linarith
  then show "int (length (bitrot_file zero_hash HighwayHash256S (shard_segs xor_set data j))) < 2 ^ 63" by simp
qed

text \<open>Readers for the range of \<open>len\<close> bytes at \<open>off\<close>: the first drive has lost its file, the others
  have theirs with the metadata.\<close>

definition xor_readers :: "bytes \<Rightarrow> nat \<Rightarrow> nat \<Rightarrow> bitrot_reader option list" where
  "xor_readers data off len = map (\<lambda>j. Some (newBitrotReader gone_drive
       (if j = 0 then [] else bitrot_file zero_hash HighwayHash256S (shard_segs xor_set data j)) ''b'' ''o''
       (ShardFileOffset xor_set (int off) (int len) (int (length data))) HighwayHash256S [] (ShardSize xor_set)))
     [0, 1, 2]"

lemma gone_reader_honest:
  assumes "hashes_ok H" "uniform sz segs" "int (length segs * sz) < 2 ^ 63"
  shows "br_honest H sz (newBitrotReader gone_drive [] v f tillOffset HighwayHash256S sm (int sz)) segs None"
proof -
  let ?b = "newStreamingBitrotReader gone_drive [] v f tillOffset HighwayHash256S (int sz)"
  have "honest_stream H HighwayHash256S st (drop k segs)"
    if k: "k < length segs" and o: "open_stream ?b (int (k * sz)) = Inr st" for k st
  proof -
    have "fst st = []" using o
      by (auto simp: open_stream_def Let_def newStreamingBitrotReader_def gone_drive_def split: if_splits)
    then show ?thesis using k by (cases st) (simp add: ReadFull_def flip: Cons_nth_drop_Suc)
  qed
  then show ?thesis using assms(1-3)
    by (simp add: newBitrotReader_def newStreamingBitrotReader_def streaming_honest_def stream_shape_def)
qed

lemma xor_readers_ok:
  assumes d: "data \<noteq> []" "length data < 100" and r: "off + len \<le> length data"
  shows "readers_ok (br_honest zero_hash (sS xor_set)) (br_intact zero_hash (sS xor_set)) xor_set data
    (need xor_set (off + len) (length data)) {1, 2} (xor_readers data off len)"
proof -
  let ?e = xor_set and ?m = "need xor_set (off + len) (length data)"
  have b: "int (length data) + int (bS ?e) < 2 ^ 63" using d(2) xor_set_ok(5) by simp
  note ri = shard_reader_intact [OF xor_set_ok(1,2) zero_hash_ok b xor_file(2) [OF d] r _ _ refl refl]
  have good: "br_intact zero_hash (sS ?e) (newBitrotReader gone_drive
        (bitrot_file zero_hash HighwayHash256S (shard_segs ?e data j)) ''b'' ''o''
        (ShardFileOffset ?e (int off) (int len) (int (length data))) HighwayHash256S [] (ShardSize ?e))
        (take ?m (shard_segs ?e data j)) None
      \<and> br_honest zero_hash (sS ?e) (newBitrotReader gone_drive
        (bitrot_file zero_hash HighwayHash256S (shard_segs ?e data j)) ''b'' ''o''
        (ShardFileOffset ?e (int off) (int len) (int (length data))) HighwayHash256S [] (ShardSize ?e))
        (take ?m (shard_segs ?e data j)) None" if "j < 3" for j
    by (rule ri) (use that xor_file(1) [OF d that] xor_set_ok in simp_all)
  have m: "?m \<le> nblk ?e (length data)" by (rule need_ok(1) [OF xor_set_ok(1) r])
  have u: "uniform (sS ?e) (take ?m (shard_segs ?e data 0))"
    by (rule shard_segs_uniform [OF xor_set_ok(1,2) _ m]) (simp add: xor_set_ok)
  have "\<not> 100 < nblk ?e (length data)"
    using nblk_less [OF xor_set_ok(1), of 100 "length data"] d(2) xor_set_ok(5) by simp
  then have "?m \<le> 100" using m by simp
  moreover have "sS ?e \<le> 4" using sS_bounds [OF xor_set_ok(1)] xor_set_ok(5) by simp
  ultimately have "?m * sS ?e \<le> 100 * 4" by (intro mult_mono) simp_all
  then have "int (?m * sS ?e) \<le> int (100 * 4)" by (simp only: of_nat_le_iff)
  also have "\<dots> < 2 ^ 63" by simp
  finally have "int (?m * sS ?e) < 2 ^ 63" .
  then have "int (length (take ?m (shard_segs ?e data 0)) * sS ?e) < 2 ^ 63" using m by (simp add: min_absorb2)
  then have bad: "br_honest zero_hash (sS ?e) (newBitrotReader gone_drive [] ''b'' ''o''
      (ShardFileOffset ?e (int off) (int len) (int (length data))) HighwayHash256S [] (int (sS ?e)))
      (take ?m (shard_segs ?e data 0)) None"
    using gone_reader_honest [OF zero_hash_ok u] by blast
  have three: "j = 0 \<or> j = 1 \<or> j = 2" if "j < 3" for j :: nat using that by auto
  show ?thesis
    unfolding readers_ok_def
  proof (intro conjI allI impI)
    fix j r assume j: "j < length (xor_readers data off len)" and rd: "xor_readers data off len ! j = Some r"
    then have "j < 3" by (simp add: xor_readers_def)
    then consider "j = 0" | "j = 1" | "j = 2" using three by blast
    then show "br_honest zero_hash (sS ?e) r (take ?m (shard_segs ?e data j)) None"
      using good [of j] bad rd by cases (auto simp: xor_readers_def ShardSize_sS [OF xor_set_ok(1)])
    assume "j \<in> {1, 2}"
    then show "br_intact zero_hash (sS ?e) r (take ?m (shard_segs ?e data j)) None"
      using good [of j] rd by (auto simp: xor_readers_def)
  qed (auto simp: xor_readers_def xor_set_ok)
qed

text \<open>A relation with one answer, for the examples.\<close>

lemma one_answer:
  assumes "\<exists>ans. P ans" and "\<forall>org d w err. P (org, d, w, err) \<longrightarrow> d = x \<and> w = y \<and> Q org err"
  shows "{(d, w). \<exists>org err. P (org, d, w, err)} = {(x, y)}"
proof -
  obtain org d w err where "P (org, d, w, err)" using assms(1) by auto
  with assms(2) show ?thesis by blast
qed

theorem Decode_correct_witness:
  "{(dst', w). \<exists>org err. Decode (ReadAt zero_hash) buffer_Write xor_set []
      (xor_readers [1, 2, 3, 4, 5, 6] 3 2) 3 2 6 [] (org, dst', w, err)} = {([4, 5], 2)}"
proof -
  let ?d = "[1, 2, 3, 4, 5, 6] :: bytes"
  have "prefer_ok (xor_readers ?d 3 2) []" by (simp add: prefer_ok_def xor_readers_def)
  moreover have "int (length ?d) + int (bS xor_set) < 2 ^ 63" "dB xor_set \<le> card {1, 2 :: nat}" "3 + 2 \<le> length ?d"
    by (simp_all add: xor_set_ok)
  moreover have "readers_ok (br_honest zero_hash (sS xor_set)) (br_intact zero_hash (sS xor_set)) xor_set ?d
      (need xor_set (3 + 2) (length ?d)) {1, 2} (xor_readers ?d 3 2)"
    by (rule xor_readers_ok) simp_all
  ultimately show ?thesis
    using Decode_correct [OF xor_set_ok(1,2), of ?d 3 2 zero_hash "{1, 2}" "xor_readers ?d 3 2" "[]" "[]"]
    by (intro one_answer [where Q = "\<lambda>org err. True"]) simp_all
qed

text \<open>A reader of the shard file \<open>f\<close>, made for a range of a part of \<open>n\<close> bytes: the file is on a drive,
  or kept with the metadata.\<close>

definition reads_file :: "erasure \<Rightarrow> nat \<Rightarrow> nat \<Rightarrow> nat \<Rightarrow> bytes \<Rightarrow> bitrot_reader \<Rightarrow> bool" where
  "reads_file e n off len f rdr \<longleftrightarrow>
     (\<exists>disk inl volume path sm. (inl = [] \<and> holds_file disk volume path f \<or> inl = f \<and> f \<noteq> [])
        \<and> rdr = newBitrotReader disk inl volume path (ShardFileOffset e (int off) (int len) (int n))
                  HighwayHash256S sm (ShardSize e))"

lemma written_readers_ok:
  assumes wf: "wf_erasure e" and rs: "rs_ok (encoder e) (dB e) (pB e)" and H: "hashes_ok H"
    and b: "int (length data) + int (bS e) < 2 ^ 63"
      "int (nblk e (length data) * 32 + sF e (length data)) < 2 ^ 63"
    and r: "off + len \<le> length data" and n: "length readers = dB e + pB e"
    and good: "\<forall>j\<in>Good. j < length readers \<and> (\<exists>rdr. readers ! j = Some rdr
        \<and> reads_file e (length data) off len (bitrot_file H HighwayHash256S (shard_segs e data j)) rdr)"
    and others: "\<forall>j<length readers. j \<notin> Good \<longrightarrow> (\<forall>rdr. readers ! j = Some rdr
        \<longrightarrow> br_honest H (sS e) rdr (take (need e (off + len) (length data)) (shard_segs e data j)) None)"
  shows "readers_ok (br_honest H (sS e)) (br_intact H (sS e)) e data (need e (off + len) (length data)) Good readers"
proof -
  have ok: "br_intact H (sS e) rdr (take (need e (off + len) (length data)) (shard_segs e data j)) None
      \<and> br_honest H (sS e) rdr (take (need e (off + len) (length data)) (shard_segs e data j)) None"
    if j: "j \<in> Good" and rd: "readers ! j = Some rdr" for j rdr
  proof -
    have jn: "j < dB e + pB e" using good j n by auto
    have "reads_file e (length data) off len (bitrot_file H HighwayHash256S (shard_segs e data j)) rdr"
      using good j rd by auto
    then obtain disk inl volume path sm where
      src: "inl = [] \<and> holds_file disk volume path (bitrot_file H HighwayHash256S (shard_segs e data j))
          \<or> inl = bitrot_file H HighwayHash256S (shard_segs e data j) \<and> inl \<noteq> []"
      and rdr: "rdr = newBitrotReader disk inl volume path
          (ShardFileOffset e (int off) (int len) (int (length data))) HighwayHash256S sm (ShardSize e)"
      unfolding reads_file_def by blast
    have fb: "int (length (bitrot_file H HighwayHash256S (shard_segs e data j))) < 2 ^ 63"
      using b(2) shard_file_length [OF wf rs H jn, of HighwayHash256S data] by simp
    show ?thesis by (rule shard_reader_intact [OF wf rs H b(1) fb r jn src rdr refl])
  qed
  show ?thesis
    unfolding readers_ok_def
  proof (intro conjI allI impI)
    show "Good \<subseteq> {j. j < length readers \<and> readers ! j \<noteq> None}" using good by auto
    fix j rdr assume j: "j < length readers" and rd: "readers ! j = Some rdr"
    then show "br_honest H (sS e) rdr (take (need e (off + len) (length data)) (shard_segs e data j)) None"
      using others ok by (cases "j \<in> Good") auto
    assume "j \<in> Good"
    then show "br_intact H (sS e) rdr (take (need e (off + len) (length data)) (shard_segs e data j)) None"
      using ok rd by simp
  qed (rule n)
qed

text \<open>C5. From the drives and back. \<open>Encode\<close> succeeds when a write quorum of drives is there, and
  afterwards any \<open>dB e\<close> of the files it wrote are enough: whichever of the drives still have their
  files (the set \<open>Good\<close>), and whatever has become of the others as long as the checksums detect it,
  \<open>Decode\<close> over readers made for the range returns, and what it returns is the range of the data. All the
  readers that are there are preferred, or none, as its caller does.\<close>

theorem erasure_roundtrip:
  assumes "wf_erasure e" and "rs_ok (encoder e) (dB e) (pB e)" and "hashes_ok H"
    and "int (length data) + int (bS e) < 2 ^ 63"
    and "int (nblk e (length data) * 32 + sF e (length data)) < 2 ^ 63"
    and "buf_ok e n (length data)" and "length writers = dB e + pB e"
    and "\<forall>w\<in>set writers. w = None \<or> w = Some []" and "quorum \<le> int (online writers)"
    and "Good \<subseteq> {j. j < length writers \<and> writers ! j \<noteq> None}" and "dB e \<le> card Good"
    and "off + len \<le> length data" and "length readers = length writers" and "prefer_ok readers prefer"
    and "\<forall>j<length readers. j \<notin> Good \<longrightarrow> (\<forall>rdr. readers ! j = Some rdr
        \<longrightarrow> br_honest H (sS e) rdr (take (need e (off + len) (length data)) (shard_segs e data j)) None)"
  shows "\<exists>pw. Encode (streaming_Write buffer_Write cl H HighwayHash256S) ord e (data, EOF) writers n quorum
       = Some (pw, Inr (int (length data)))
     \<and> ((\<forall>j\<in>Good. \<exists>f rdr. pw_writers pw ! j = Some f \<and> readers ! j = Some rdr
            \<and> reads_file e (length data) off len f rdr)
        \<longrightarrow> (\<exists>ans. Decode (ReadAt H) buffer_Write e dst readers (int off) (int len) (int (length data)) prefer ans)
          \<and> (\<forall>org dst' w err. Decode (ReadAt H) buffer_Write e dst readers (int off) (int len) (int (length data))
                prefer (org, dst', w, err)
             \<longrightarrow> dst' = dst @ take len (drop off data) \<and> w = int len
               \<and> err \<in> {None, Some errFileNotFound, Some errFileCorrupt}))"
proof -
  have "int (length data) < 2 ^ 63" using assms(4) by linarith
  then obtain pw where enc: "Encode (shard_Write cl H HighwayHash256S) ord e (data, EOF) writers n quorum
        = Some (pw, Inr (int (length data)))"
    and files: "\<forall>j<length writers. pw_writers pw ! j = (case writers ! j of None \<Rightarrow> None
          | Some w \<Rightarrow> Some (bitrot_file H HighwayHash256S (shard_segs e data j)))"
    using Encode_ok [OF assms(1,2,6) _ assms(7,8,9), where cl = cl and H = H and a = HighwayHash256S and ord = ord]
    by blast
  have "(\<exists>ans. Decode (ReadAt H) buffer_Write e dst readers (int off) (int len) (int (length data)) prefer ans)
      \<and> (\<forall>org dst' w err. Decode (ReadAt H) buffer_Write e dst readers (int off) (int len) (int (length data))
            prefer (org, dst', w, err)
         \<longrightarrow> dst' = dst @ take len (drop off data) \<and> w = int len \<and> err \<in> heal_errors)"
    if rd: "\<forall>j\<in>Good. \<exists>f rdr. pw_writers pw ! j = Some f \<and> readers ! j = Some rdr
            \<and> reads_file e (length data) off len f rdr"
  proof -
    have "\<forall>j\<in>Good. j < length readers \<and> (\<exists>rdr. readers ! j = Some rdr
        \<and> reads_file e (length data) off len (bitrot_file H HighwayHash256S (shard_segs e data j)) rdr)"
    proof
      fix j assume "j \<in> Good"
      moreover from this have "j < length writers" "writers ! j \<noteq> None" using assms(10) by auto
      moreover from this have "pw_writers pw ! j = Some (bitrot_file H HighwayHash256S (shard_segs e data j))"
        using files by auto
      ultimately show "j < length readers \<and> (\<exists>rdr. readers ! j = Some rdr
        \<and> reads_file e (length data) off len (bitrot_file H HighwayHash256S (shard_segs e data j)) rdr)"
        using rd assms(13) by fastforce
    qed
    note ok = written_readers_ok [OF assms(1-5,12) _ this assms(15)]
    have ro: "readers_ok (br_honest H (sS e)) (br_intact H (sS e)) e data (need e (off + len) (length data)) Good readers"
      by (rule ok) (simp add: assms(7,13))
    show ?thesis
      using shards.Decode_exists [OF assms(1,2) refl assms(4,12) ro assms(11,14), where dst = dst]
        shards.Decode_ok [OF assms(1,2) refl assms(4,12) ro assms(11,14), where dst = dst] by blast
  qed
  with enc show ?thesis unfolding heal_errors_def by blast
qed

theorem erasure_roundtrip_witness:
  "\<exists>pw. Encode (streaming_Write buffer_Write (\<lambda>w e. w) zero_hash HighwayHash256S) (\<lambda>xs. xs) xor_set
        ([1, 2, 3, 4, 5, 6], EOF) [Some [], Some [], Some []] 4 2 = Some (pw, Inr 6)
     \<and> {(dst', w). \<exists>org err. Decode (ReadAt zero_hash) buffer_Write xor_set []
          (xor_readers [1, 2, 3, 4, 5, 6] 3 2) 3 2 6 [] (org, dst', w, err)} = {([4, 5], 2)}"
proof -
  let ?e = xor_set and ?d = "[1, 2, 3, 4, 5, 6] :: bytes" and ?ws = "[Some [], Some [], Some []] :: bytes option list"
  let ?enc = "Encode (streaming_Write buffer_Write (\<lambda>w e. w) zero_hash HighwayHash256S) (\<lambda>xs. xs) ?e (?d, EOF) ?ws 4 2"
  have buf: "buf_ok ?e 4 (length ?d)" by (simp add: buf_ok_def xor_set_ok)
  have n: "length ?ws = dB ?e + pB ?e" by (simp add: xor_set_ok)
  have q: "2 \<le> int (online ?ws)" by (simp add: online_def)
  have w0: "\<forall>w\<in>set ?ws. w = None \<or> w = Some []" by simp
  have b: "int (length ?d) + int (bS ?e) < 2 ^ 63"
    "int (nblk ?e (length ?d) * 32 + sF ?e (length ?d)) < 2 ^ 63"
  proof -
    show "int (length ?d) + int (bS ?e) < 2 ^ 63" by (simp add: xor_set_ok)
    have "dB ?e = 2" "pB ?e = 1" by (simp_all add: xor_set_ok)
    then show "int (nblk ?e (length ?d) * 32 + sF ?e (length ?d)) < 2 ^ 63"
      using xor_file(2) [of ?d 0] shard_file_length [OF xor_set_ok(1,2) zero_hash_ok, of 0 HighwayHash256S ?d] by simp
  qed
  have hon: "\<forall>j<length (xor_readers ?d 3 2). j \<notin> {1, 2} \<longrightarrow> (\<forall>rdr. xor_readers ?d 3 2 ! j = Some rdr
      \<longrightarrow> br_honest zero_hash (sS ?e) rdr (take (need ?e (3 + 2) (length ?d)) (shard_segs ?e ?d j)) None)"
    using xor_readers_ok [of ?d 3 2] by (simp add: readers_ok_def)
  have l: "length (xor_readers ?d 3 2) = length ?ws" and p: "prefer_ok (xor_readers ?d 3 2) []"
    by (simp_all add: xor_readers_def prefer_ok_def)
  have g: "{1, 2} \<subseteq> {j. j < length ?ws \<and> ?ws ! j \<noteq> None}" by auto
  have c: "dB ?e \<le> card {1, 2 :: nat}" and r: "3 + 2 \<le> length ?d" by (simp_all add: xor_set_ok)
  obtain pw where pw: "?enc = Some (pw, Inr (int (length ?d)))"
    and dec: "(\<forall>j\<in>{1, 2}. \<exists>f rdr. pw_writers pw ! j = Some f \<and> xor_readers ?d 3 2 ! j = Some rdr
            \<and> reads_file ?e (length ?d) 3 2 f rdr)
        \<longrightarrow> (\<exists>ans. Decode (ReadAt zero_hash) buffer_Write ?e [] (xor_readers ?d 3 2) (int 3) (int 2) (int (length ?d)) [] ans)
          \<and> (\<forall>org dst' w err. Decode (ReadAt zero_hash) buffer_Write ?e [] (xor_readers ?d 3 2) (int 3) (int 2)
                (int (length ?d)) [] (org, dst', w, err)
             \<longrightarrow> dst' = [] @ take 2 (drop 3 ?d) \<and> w = int 2
               \<and> err \<in> {None, Some errFileNotFound, Some errFileCorrupt})"
    using erasure_roundtrip [OF xor_set_ok(1,2) zero_hash_ok b buf n w0 q g c r l p hon,
        where cl = "\<lambda>w e. w" and ord = "\<lambda>xs. xs" and dst = "[]"]
    by (elim exE conjE) (rule that)
  obtain pw' where "?enc = Some (pw', Inr (int (length ?d)))"
    and f: "\<forall>j<length ?ws. pw_writers pw' ! j = (case ?ws ! j of None \<Rightarrow> None
          | Some w \<Rightarrow> Some (bitrot_file zero_hash HighwayHash256S (shard_segs ?e ?d j)))"
    using Encode_ok [OF xor_set_ok(1,2) buf _ n w0 q, where cl = "\<lambda>w e. w" and H = zero_hash
        and a = HighwayHash256S and ord = "\<lambda>xs. xs"] by auto
  then have "pw' = pw" using pw by simp
  with f have f: "pw_writers pw ! j = Some (bitrot_file zero_hash HighwayHash256S (shard_segs ?e ?d j))"
    if "j \<in> {1, 2}" for j using that by auto
  have "\<forall>j\<in>{1, 2}. \<exists>f rdr. pw_writers pw ! j = Some f \<and> xor_readers ?d 3 2 ! j = Some rdr
      \<and> reads_file ?e (length ?d) 3 2 f rdr"
  proof
    fix j :: nat assume j: "j \<in> {1, 2}"
    then have "xor_readers ?d 3 2 ! j = Some (newBitrotReader gone_drive
        (bitrot_file zero_hash HighwayHash256S (shard_segs ?e ?d j)) ''b'' ''o''
        (ShardFileOffset ?e (int 3) (int 2) (int (length ?d))) HighwayHash256S [] (ShardSize ?e))"
      by (auto simp: xor_readers_def)
    moreover have "bitrot_file zero_hash HighwayHash256S (shard_segs ?e ?d j) \<noteq> []"
      using xor_file(1) [of ?d j] j by auto
    ultimately show "\<exists>f rdr. pw_writers pw ! j = Some f \<and> xor_readers ?d 3 2 ! j = Some rdr
        \<and> reads_file ?e (length ?d) 3 2 f rdr"
      using f [OF j] unfolding reads_file_def by blast
  qed
  with dec have "{(dst', w). \<exists>org err. Decode (ReadAt zero_hash) buffer_Write xor_set []
      (xor_readers ?d 3 2) 3 2 6 [] (org, dst', w, err)} = {([4, 5], 2)}"
    by (intro one_answer [where Q = "\<lambda>org err. True"]) simp_all
  with pw show ?thesis by (intro exI [of _ pw]) simp
qed

lemma need_all: "need e n n = nblk e n"
  by (simp add: need_def nblk_def cdiv_def)

text \<open>C17. Healing. When at least \<open>dB e\<close> of the shard files are intact, \<open>Heal\<close> returns, and every file
  it was asked to write again has, byte for byte and checksum for checksum, the content that \<open>Encode\<close>
  gave it when the part was written.\<close>

theorem Heal_restores:
  assumes "wf_erasure e" and "rs_ok (encoder e) (dB e) (pB e)"
    and "int (length data) + int (bS e) < 2 ^ 63"
    and "readers_ok (br_honest H (sS e)) (br_intact H (sS e)) e data (nblk e (length data)) Good readers"
    and "dB e \<le> card Good" and "length writers = dB e + pB e"
    and "\<forall>w\<in>set writers. w = None \<or> w = Some []" and "1 \<le> online writers"
  shows "(\<exists>ans. Heal (ReadAt H) (streaming_Write buffer_Write cl H a) ord e writers readers (int (length data)) ans)
     \<and> (\<forall>ws err. Heal (ReadAt H) (streaming_Write buffer_Write cl H a) ord e writers readers (int (length data)) (ws, err)
          \<longrightarrow> length ws = length writers
            \<and> (\<forall>j<length writers. ws ! j = (case writers ! j of None \<Rightarrow> None
                 | Some w \<Rightarrow> Some (bitrot_file H a (shard_segs e data j))))
            \<and> err \<in> {None, Some errFileNotFound, Some errFileCorrupt})"
proof -
  let ?m = "nblk e (length data)" and ?n = "int (length data)"
  note e = wf_erasure_int [OF assms(1)]
  have rn: "length readers = dB e + pB e" using assms(4) by (simp add: readers_ok_def)
  then have ne: "readers \<noteq> []" using e(4) by auto
  then have pr: "newParallelReader readers e 0 ?n = decode_reader readers e (int 0) ?n []"
    and pf: "prefer_ok readers []"
    by (simp_all add: decode_reader_def prefer_ok_def)
  have inv: "decode_inv (br_honest H (sS e)) (br_intact H (sS e)) e data ?m Good 0 (newParallelReader readers e 0 ?n)"
    using decode_reader_inv [OF assms(1,3) _ assms(4) pf, of 0] pr by simp
  have up: "written_upto H a e data writers 0 (heal_writer writers)"
    using assms(7) by (auto simp: written_upto_def in_set_conv_nth split: option.splits)
  have nw: "int (length writers) = parityBlocks e + dataBlocks e" using assms(6) e by simp
  note hb = heal_blocks_nblk [OF assms(1,3)]
  have seg: "take ?m (shard_segs e data j) = shard_segs e data j" for j by simp
  have "\<exists>res. heal_loop (ReadAt H) (shard_Write cl H a) ord e (int ?m) (int 0)
      (newParallelReader readers e 0 ?n) [] writers None res"
    by (rule shards.heal_loop_exists [OF assms(1,2) refl assms(3,5,6,8) le0 _ up]) (use inv in simp)
  then obtain res where "heal_loop (ReadAt H) (shard_Write cl H a) ord e (int ?m) (int 0)
      (newParallelReader readers e 0 ?n) [] writers None res" by blast
  then have "Heal (ReadAt H) (shard_Write cl H a) ord e writers readers ?n res"
    by (intro Heal_run) (simp_all add: nw hb)
  moreover have "length ws = length writers
      \<and> (\<forall>j<length writers. ws ! j = (case writers ! j of None \<Rightarrow> None
           | Some w \<Rightarrow> Some (bitrot_file H a (shard_segs e data j))))
      \<and> err \<in> heal_errors"
    if "Heal (ReadAt H) (shard_Write cl H a) ord e writers readers ?n (ws, err)" for ws err
    using that
  proof (cases rule: Heal.cases)
    case Heal_run
    then have "heal_loop (ReadAt H) (shard_Write cl H a) ord e (int ?m) (int 0)
        (newParallelReader readers e 0 ?n) [] writers None (ws, err)" by (simp add: hb)
    from shards.heal_loop_ok [OF assms(1,2) refl assms(3,5,6,8) le0 _ up this]
    have "written_upto H a e data writers ?m (heal_writer ws) \<and> err \<in> heal_errors"
      using inv by (simp add: heal_errors_def)
    then show ?thesis unfolding written_upto_def seg by simp
  qed (use nw in simp)
  ultimately show ?thesis unfolding heal_errors_def by blast
qed

lemma one_outcome:
  assumes "P (ws0, err0)" and "\<And>ws err. P (ws, err) \<Longrightarrow> g ws = x"
  shows "{g ws |ws err. P (ws, err)} = {x}"
  using assms by blast

theorem Heal_restores_witness:
  "{(length ws, ws ! 0) |ws err. Heal (ReadAt zero_hash)
      (streaming_Write buffer_Write (\<lambda>w e. w) zero_hash HighwayHash256S) (\<lambda>xs. xs)
      xor_set [Some [], None, None] (xor_readers [1, 2, 3, 4, 5, 6] 0 6) 6 (ws, err)}
   = {(3, Some (bitrot_file zero_hash HighwayHash256S (shard_segs xor_set [1, 2, 3, 4, 5, 6] 0)))}"
proof -
  let ?d = "[1, 2, 3, 4, 5, 6] :: bytes" and ?ws = "[Some [], None, None] :: bytes option list"
  have ro: "readers_ok (br_honest zero_hash (sS xor_set)) (br_intact zero_hash (sS xor_set)) xor_set ?d
      (nblk xor_set (length ?d)) {1, 2} (xor_readers ?d 0 6)"
  proof -
    have "0 + 6 = length ?d" by simp
    then show ?thesis using xor_readers_ok [of ?d 0 6] need_all [of xor_set "length ?d"] by (simp only: order.refl) simp
  qed
  have b: "int (length ?d) + int (bS xor_set) < 2 ^ 63" and c: "dB xor_set \<le> card {1, 2 :: nat}"
    and n: "length ?ws = dB xor_set + pB xor_set" and w0: "\<forall>w\<in>set ?ws. w = None \<or> w = Some []"
    and on: "1 \<le> online ?ws"
    by (simp_all add: xor_set_ok online_def)
  let ?heal = "Heal (ReadAt zero_hash) (streaming_Write buffer_Write (\<lambda>w e. w) zero_hash HighwayHash256S) (\<lambda>xs. xs)
      xor_set ?ws (xor_readers ?d 0 6) (int (length ?d))"
  note h = Heal_restores [OF xor_set_ok(1,2) b ro c n w0 on, where cl = "\<lambda>w e. w" and a = HighwayHash256S
        and ord = "\<lambda>xs. xs"]
  obtain ws0 err0 where ex: "?heal (ws0, err0)" using h by (metis surj_pair)
  have all: "length ws = 3 \<and> ws ! 0 = Some (bitrot_file zero_hash HighwayHash256S (shard_segs xor_set ?d 0))"
    if "?heal (ws, err)" for ws err using h that by simp
  have "{(length ws, ws ! 0) |ws err. ?heal (ws, err)}
      = {(3, Some (bitrot_file zero_hash HighwayHash256S (shard_segs xor_set ?d 0)))}"
    by (rule one_outcome [of ?heal, OF ex]) (use all in simp)
  then show ?thesis by simp
qed

end
