(* ===== verification/Storage_Class.thy ===== *)
theory Storage_Class
  imports Go_Strings
begin

text \<open>
  Storage classes (\<open>internal/config/storageclass/storage-class.go\<close>): how many drives of an erasure set
  hold parity. A configuration is looked up in a list of keys and values and in the environment,
  parsed and validated against the number of drives of a set; \<open>cmd/format-erasure.go\<close> has the parity
  of a set without configuration.
\<close>

section \<open>Keys and values\<close>

type_synonym kvs = "(string \<times> string) list"

definition kvs_Lookup :: "kvs \<Rightarrow> string \<Rightarrow> string option" where
  "kvs_Lookup kvs key = map_of kvs key"

definition kvs_Get :: "kvs \<Rightarrow> string \<Rightarrow> string" where
  "kvs_Get kvs key = (case kvs_Lookup kvs key of None \<Rightarrow> [] | Some v \<Rightarrow> v)"

text \<open>\<open>Delete\<close> removes the first entry with the key.\<close>

fun kvs_Delete :: "kvs \<Rightarrow> string \<Rightarrow> kvs" where
  "kvs_Delete [] key = []"
| "kvs_Delete ((k, v) # kvs) key = (if k = key then kvs else (k, v) # kvs_Delete kvs key)"

text \<open>The keys that \<open>CheckValidKeys\<close> complains about; the key of comments is always allowed.\<close>

definition invalid_keys :: "kvs \<Rightarrow> kvs \<Rightarrow> kvs" where
  "invalid_keys kv validKVS =
     filter (\<lambda>(k, v). k \<noteq> ''comment'' \<and> kvs_Lookup validKVS k = None) kv"

section \<open>Storage classes\<close>

definition RRS :: string where "RRS = ''REDUCED_REDUNDANCY''"
definition STANDARD :: string where "STANDARD = ''STANDARD''"
definition ClassStandard :: string where "ClassStandard = ''standard''"
definition ClassRRS :: string where "ClassRRS = ''rrs''"
definition RRSEnv :: string where "RRSEnv = ''MINIO_STORAGE_CLASS_RRS''"
definition StandardEnv :: string where "StandardEnv = ''MINIO_STORAGE_CLASS_STANDARD''"
definition schemePrefix :: string where "schemePrefix = ''EC''"
definition minParityDisks :: int where "minParityDisks = 2"
definition defaultRRSParity :: int where "defaultRRSParity = minParityDisks"

definition DefaultKVS :: kvs where
  "DefaultKVS = [(ClassStandard, []), (ClassRRS, ''EC:2'')]"

text \<open>A class is its number of parity drives.\<close>

record StorageClass =
  Parity :: int

record sc_Config =
  cf_Standard :: StorageClass
  cf_RRS :: StorageClass

datatype sc_error =
    InvalidKeys kvs
  | TooManySections
  | TooFewSections
  | UnsupportedScheme
  | NotANumber
  | StandardTooLow
  | RRSTooLow
  | StandardTooHigh
  | RRSTooHigh
  | StandardBelowRRS

definition sc_IsValid :: "string \<Rightarrow> bool" where
  "sc_IsValid sc \<longleftrightarrow> sc = RRS \<or> sc = STANDARD"

definition sc_String :: "StorageClass \<Rightarrow> string" where
  "sc_String sc = (if Parity sc \<noteq> 0 then schemePrefix @ '':'' @ show_int (Parity sc) else [])"

definition parseStorageClass :: "string \<Rightarrow> (sc_error, StorageClass) result" where
  "parseStorageClass storageClassEnv =
     (let s = split_on (CHR '':'') storageClassEnv in
      if 2 < length s then Inl TooManySections
      else if length s < 2 then Inl TooFewSections
      else if s ! 0 \<noteq> schemePrefix then Inl UnsupportedScheme
      else case ParseInt64 (s ! 1) of None \<Rightarrow> Inl NotANumber | Some n \<Rightarrow> Inr \<lparr>Parity = n\<rparr>)"

definition sc_UnmarshalText :: "StorageClass \<Rightarrow> string \<Rightarrow> StorageClass \<times> sc_error option" where
  "sc_UnmarshalText sc scStr =
     (if scStr = [] then (sc, None)
      else case parseStorageClass scStr of
             Inl err \<Rightarrow> (sc, Some err)
           | Inr s \<Rightarrow> (sc\<lparr>Parity := Parity s\<rparr>, None))"

definition ValidateParity :: "int \<Rightarrow> int \<Rightarrow> sc_error option" where
  "ValidateParity ssParity setDriveCount =
     (if 0 < ssParity \<and> ssParity < minParityDisks then Some StandardTooLow
      else if go_div setDriveCount 2 < ssParity then Some StandardTooHigh
      else None)"

definition validateParity_both :: "int \<Rightarrow> int \<Rightarrow> int \<Rightarrow> sc_error option" where
  "validateParity_both ssParity rrsParity setDriveCount =
     (if 0 < ssParity \<and> ssParity < minParityDisks then Some StandardTooLow
      else if 0 < rrsParity \<and> rrsParity < minParityDisks then Some RRSTooLow
      else if go_div setDriveCount 2 < ssParity then Some StandardTooHigh
      else if go_div setDriveCount 2 < rrsParity then Some RRSTooHigh
      else if 0 < ssParity \<and> 0 < rrsParity \<and> ssParity < rrsParity then Some StandardBelowRRS
      else None)"

definition GetParityForSC :: "sc_Config \<Rightarrow> string \<Rightarrow> int" where
  "GetParityForSC sCfg sc =
     (if TrimSpace sc = RRS then
        (if Parity (cf_RRS sCfg) = 0 then defaultRRSParity else Parity (cf_RRS sCfg))
      else Parity (cf_Standard sCfg))"

definition sc_Update :: "sc_Config \<Rightarrow> sc_Config \<Rightarrow> sc_Config" where
  "sc_Update sCfg newCfg = sCfg\<lparr>cf_RRS := cf_RRS newCfg, cf_Standard := cf_Standard newCfg\<rparr>"

definition sc_Enabled :: "kvs \<Rightarrow> bool" where
  "sc_Enabled kvs \<longleftrightarrow> kvs_Get kvs ClassStandard \<noteq> [] \<or> kvs_Get kvs ClassRRS \<noteq> []"

definition no_class :: StorageClass where
  "no_class = \<lparr>Parity = 0\<rparr>"

definition no_config :: sc_Config where
  "no_config = \<lparr>cf_Standard = no_class, cf_RRS = no_class\<rparr>"

definition parse_setting :: "string \<Rightarrow> (sc_error, StorageClass) result" where
  "parse_setting s = (if s \<noteq> [] then parseStorageClass s else Inr no_class)"

text \<open>\<open>env k d\<close> is the environment variable \<open>k\<close>, or \<open>d\<close> when it is not set.\<close>

definition sc_LookupConfig ::
  "(string \<Rightarrow> string \<Rightarrow> string) \<Rightarrow> kvs \<Rightarrow> int \<Rightarrow> (sc_error, sc_Config) result" where
  "sc_LookupConfig env kvs0 setDriveCount =
     (let kvs = kvs_Delete kvs0 ''dma'' in
      if invalid_keys kvs DefaultKVS \<noteq> [] then Inl (InvalidKeys (invalid_keys kvs DefaultKVS))
      else case parse_setting (env StandardEnv (kvs_Get kvs ClassStandard)) of
        Inl err \<Rightarrow> Inl err
      | Inr standard \<Rightarrow>
          (case parse_setting (env RRSEnv (kvs_Get kvs ClassRRS)) of
             Inl err \<Rightarrow> Inl err
           | Inr rrs0 \<Rightarrow>
               (let rrs = (if Parity rrs0 = 0 then rrs0\<lparr>Parity := defaultRRSParity\<rparr> else rrs0)
                in case validateParity_both (Parity standard) (Parity rrs) setDriveCount of
                     Some err \<Rightarrow> Inl err
                   | None \<Rightarrow> Inr \<lparr>cf_Standard = standard, cf_RRS = rrs\<rparr>)))"

section \<open>Sets without configuration\<close>

definition getDefaultParityBlocks :: "int \<Rightarrow> int" where
  "getDefaultParityBlocks drive =
     (if drive = 3 \<or> drive = 2 then 1
      else if drive = 4 \<or> drive = 5 then 2
      else if drive = 6 \<or> drive = 7 then 3
      else 4)"

text \<open>An error of the lookup is ignored and leaves the zero configuration.\<close>

definition ecDrivesNoConfig :: "(string \<Rightarrow> string \<Rightarrow> string) \<Rightarrow> int \<Rightarrow> int" where
  "ecDrivesNoConfig env setDriveCount =
     (let sc = (case sc_LookupConfig env [] setDriveCount of Inl err \<Rightarrow> no_config | Inr c \<Rightarrow> c);
          ecDrives = GetParityForSC sc STANDARD
      in if ecDrives \<le> 0 then getDefaultParityBlocks setDriveCount else ecDrives)"

section \<open>What a configuration gives\<close>

text \<open>A configuration that fits sets of \<open>n\<close> drives.\<close>

definition fits :: "sc_Config \<Rightarrow> int \<Rightarrow> bool" where
  "fits cfg n \<longleftrightarrow> Parity (cf_Standard cfg) \<le> n div 2 \<and> Parity (cf_RRS cfg) \<le> n div 2
     \<and> Parity (cf_RRS cfg) \<noteq> 0"

lemma validateParity_fits:
  assumes "0 \<le> n" and "validateParity_both s r n = None"
  shows "s \<le> n div 2" "r \<le> n div 2"
  using assms by (auto simp: validateParity_both_def split: if_splits)

lemma LookupConfig_fits:
  assumes "sc_LookupConfig env kvs n = Inr cfg" and "0 \<le> n"
  shows "fits cfg n"
proof -
  obtain s r0 where s: "parse_setting (env StandardEnv (kvs_Get (kvs_Delete kvs ''dma'') ClassStandard)) = Inr s"
    and r0: "parse_setting (env RRSEnv (kvs_Get (kvs_Delete kvs ''dma'') ClassRRS)) = Inr r0"
    using assms(1) by (auto simp: sc_LookupConfig_def Let_def split: if_splits sum.splits)
  define r where "r = (if Parity r0 = 0 then r0\<lparr>Parity := defaultRRSParity\<rparr> else r0)"
  have "validateParity_both (Parity s) (Parity r) n = None" and cfg: "cfg = \<lparr>cf_Standard = s, cf_RRS = r\<rparr>"
    using assms(1) s r0 by (auto simp: sc_LookupConfig_def Let_def r_def split: if_splits option.splits)
  moreover have "Parity r \<noteq> 0" by (simp add: r_def defaultRRSParity_def minParityDisks_def)
  ultimately show ?thesis using validateParity_fits [OF assms(2)] by (simp add: fits_def)
qed

lemma GetParityForSC_fits: "fits cfg n \<Longrightarrow> GetParityForSC cfg sc \<le> n div 2"
  by (simp add: fits_def GetParityForSC_def)

lemma getDefaultParityBlocks_fits:
  assumes "2 \<le> n"
  shows "1 \<le> getDefaultParityBlocks n \<and> getDefaultParityBlocks n \<le> n div 2"
  using assms by (auto simp: getDefaultParityBlocks_def)

lemma ecDrivesNoConfig_fits:
  assumes "2 \<le> n"
  shows "1 \<le> ecDrivesNoConfig env n \<and> ecDrivesNoConfig env n \<le> n div 2"
proof -
  define sc where "sc = (case sc_LookupConfig env [] n of Inl err \<Rightarrow> no_config | Inr c \<Rightarrow> c)"
  have "GetParityForSC sc STANDARD \<le> n div 2"
  proof (cases "sc_LookupConfig env [] n")
    case (Inl err)
    have "TrimSpace STANDARD \<noteq> RRS" unfolding STANDARD_def RRS_def by code_simp
    then show ?thesis using Inl assms by (simp add: sc_def GetParityForSC_def no_config_def no_class_def)
  next
    case (Inr c)
    then show ?thesis using LookupConfig_fits [OF Inr] assms GetParityForSC_fits by (simp add: sc_def)
  qed
  then show ?thesis
    using getDefaultParityBlocks_fits [OF assms] by (simp add: ecDrivesNoConfig_def Let_def flip: sc_def)
qed

text \<open>The default of a set is not half of its drives once there are ten or more.\<close>

lemma ecDrivesNoConfig_ten: "ecDrivesNoConfig (\<lambda>k d. d) 10 = 4"
  by code_simp

text \<open>In a set of two or three drives even the defaults are refused: the parity of the reduced class
  is 2, more than half of the drives.\<close>

lemma LookupConfig_small: "sc_LookupConfig (\<lambda>k d. d) DefaultKVS 3 = Inl RRSTooHigh"
  by code_simp

text \<open>Printing a class and parsing it again.\<close>

lemma parse_sc_String:
  assumes "0 < Parity sc" and "Parity sc < 2 ^ 63"
  shows "parseStorageClass (sc_String sc) = Inr sc"
proof -
  define k where "k = nat (Parity sc)"
  have k: "Parity sc = int k" "int k < 2 ^ 63" "0 < k" using assms by (simp_all add: k_def)
  have "digit_val (CHR '':'') = None" by code_simp
  then have "CHR '':'' \<notin> set (Itoa k)" by (rule Itoa_no_sep)
  then have "split_on (CHR '':'') (''EC'' @ CHR '':'' # Itoa k) = [''EC'', Itoa k]"
    by (simp add: split_on_no_sep)
  then show ?thesis
    using k ParseInt64_Itoa [OF k(2)]
    by (cases sc) (simp add: parseStorageClass_def sc_String_def Let_def schemePrefix_def show_int_def)
qed

end
