(* ===== verification/Go_Time.thy ===== *)
theory Go_Time
  imports Go_Strings
begin

text \<open>
  Times and durations of Go as far as the sources use them. A \<open>time.Time\<close> is its zero value (1 January of
  the year 1) or a time given by its nanoseconds since 1970; all times are later than the zero value. A
  \<open>time.Duration\<close> is an \<open>int64\<close> of nanoseconds.
\<close>

datatype gotime = ZeroTime | At int

definition IsZero :: "gotime \<Rightarrow> bool" where
  "IsZero t \<longleftrightarrow> t = ZeroTime"

text \<open>\<open>UnixNano\<close>: for the zero value the number of nanoseconds does not fit and wraps around.\<close>

fun UnixNano :: "gotime \<Rightarrow> int" where
  "UnixNano ZeroTime = -6795364578871345152"
| "UnixNano (At n) = n"

fun Before :: "gotime \<Rightarrow> gotime \<Rightarrow> bool" where
  "Before (At a) (At b) \<longleftrightarrow> a < b"
| "Before ZeroTime (At b) \<longleftrightarrow> True"
| "Before t ZeroTime \<longleftrightarrow> False"

definition After :: "gotime \<Rightarrow> gotime \<Rightarrow> bool" where
  "After t u \<longleftrightarrow> Before u t"

text \<open>\<open>Sub\<close> saturates.\<close>

definition clamp64 :: "int \<Rightarrow> int" where
  "clamp64 d = (if d < - (2 ^ 63) then - (2 ^ 63) else if 2 ^ 63 \<le> d then 2 ^ 63 - 1 else d)"

text \<open>The zero value in nanoseconds, as an unbounded number.\<close>

definition zero_nano :: int where
  "zero_nano = -62135596800000000000"

fun nanos :: "gotime \<Rightarrow> int" where
  "nanos ZeroTime = zero_nano"
| "nanos (At n) = n"

definition time_Sub :: "gotime \<Rightarrow> gotime \<Rightarrow> int" where
  "time_Sub t u = clamp64 (nanos t - nanos u)"

text \<open>\<open>Add\<close>.\<close>

definition time_Add :: "gotime \<Rightarrow> int \<Rightarrow> gotime" where
  "time_Add t d = (let n = nanos t + d in if n = zero_nano then ZeroTime else At n)"

lemma Before_irrefl [simp]: "\<not> Before t t"
  by (cases t) simp_all

lemma Before_trans: "Before t u \<Longrightarrow> Before u v \<Longrightarrow> Before t v"
  by (cases t; cases u; cases v) simp_all

lemma Before_total: "Before t u \<or> t = u \<or> Before u t"
  by (cases t; cases u) auto

section \<open>Splitting in two\<close>

text \<open>\<open>strings.SplitN(s, sep, 2)\<close> for a one-byte separator.\<close>

definition split2 :: "char \<Rightarrow> string \<Rightarrow> string list" where
  "split2 c s = (case dropWhile (\<lambda>x. x \<noteq> c) s of [] \<Rightarrow> [s] | _ # t \<Rightarrow> [takeWhile (\<lambda>x. x \<noteq> c) s, t])"

lemma split2_sep: "c \<notin> set a \<Longrightarrow> split2 c (a @ c # b) = [a, b]"
proof -
  assume c: "c \<notin> set a"
  then have "dropWhile (\<lambda>x. x \<noteq> c) (a @ c # b) = c # b" "takeWhile (\<lambda>x. x \<noteq> c) (a @ c # b) = a"
    by (induction a) auto
  then show ?thesis by (simp add: split2_def)
qed

lemma split2_none: "c \<notin> set s \<Longrightarrow> split2 c s = [s]"
  by (simp add: split2_def split: list.split) (metis (mono_tags, lifting) dropWhile_eq_Nil_conv list.distinct(1))

end
