(* ===== verification/Restore_Status.thy ===== *)
theory Restore_Status
  imports Go_Time
begin

text \<open>
  The header that tells how far the restore of an object from a remote tier is
  (\<open>cmd/bucket-lifecycle.go\<close>). Printing and reading a time in the form \<open>http.TimeFormat\<close> are the parameters
  \<open>tfmt\<close> and \<open>tparse\<close>; \<open>now\<close> is the time at which the code looks at the clock.
\<close>

type_synonym time_fmt = "gotime \<Rightarrow> string"
type_synonym time_parse = "string \<Rightarrow> gotime option"

record restoreObjStatus =
  rs_ongoing :: bool
  rs_expiry :: gotime

definition ongoingRestoreObj :: restoreObjStatus where
  "ongoingRestoreObj = \<lparr>rs_ongoing = True, rs_expiry = ZeroTime\<rparr>"

definition completedRestoreObj :: "gotime \<Rightarrow> restoreObjStatus" where
  "completedRestoreObj expiry = \<lparr>rs_ongoing = False, rs_expiry = expiry\<rparr>"

definition restore_String :: "time_fmt \<Rightarrow> restoreObjStatus \<Rightarrow> string" where
  "restore_String tfmt r =
     (if rs_ongoing r then ''ongoing-request=true''
      else ''ongoing-request=false, expiry-date='' @ tfmt (rs_expiry r))"

definition restore_Expiry :: "restoreObjStatus \<Rightarrow> gotime \<times> bool" where
  "restore_Expiry r = (if rs_ongoing r then (ZeroTime, False) else (rs_expiry r, True))"

definition OnDisk :: "gotime \<Rightarrow> restoreObjStatus \<Rightarrow> bool" where
  "OnDisk now r = (case restore_Expiry r of (expiry, ok) \<Rightarrow> ok \<and> Before now expiry)"

text \<open>\<open>None\<close> is the error \<open>errRestoreHDRMalformed\<close>.\<close>

definition parseRestoreObjStatus :: "time_parse \<Rightarrow> string \<Rightarrow> restoreObjStatus option" where
  "parseRestoreObjStatus tparse restoreHdr =
     (let tokens = split2 (CHR '','') restoreHdr;
          progressTokens = split2 (CHR ''='') (hd tokens)
      in if length progressTokens \<noteq> 2 then None
         else if TrimSpace (progressTokens ! 0) \<noteq> ''ongoing-request'' then None
         else if progressTokens ! 1 = ''true'' then (if length tokens = 1 then Some ongoingRestoreObj else None)
         else if progressTokens ! 1 = ''false'' then
           (if length tokens \<noteq> 2 then None
            else let expiryTokens = split2 (CHR ''='') (tokens ! 1)
                 in if length expiryTokens \<noteq> 2 then None
                    else if TrimSpace (expiryTokens ! 0) \<noteq> ''expiry-date'' then None
                    else case tparse (expiryTokens ! 1) of
                           None \<Rightarrow> None
                         | Some expiry \<Rightarrow> Some (completedRestoreObj expiry))
         else None)"

definition AmzRestore :: string where
  "AmzRestore = ''x-amz-restore''"

definition isRestoredObjectOnDisk :: "time_parse \<Rightarrow> gotime \<Rightarrow> (string \<times> string) list \<Rightarrow> bool" where
  "isRestoredObjectOnDisk tparse now meta =
     (case map_of meta AmzRestore of
        None \<Rightarrow> False
      | Some restoreHdr \<Rightarrow>
          (case parseRestoreObjStatus tparse restoreHdr of None \<Rightarrow> False | Some st \<Rightarrow> OnDisk now st))"

section \<open>The header round-trips\<close>

lemma trim_header:
  "TrimSpace ''ongoing-request'' = ''ongoing-request''" "TrimSpace '' expiry-date'' = ''expiry-date''"
  by code_simp+

text \<open>A status that was printed is read back, whatever the form of the time is.\<close>

lemma parse_restore_String:
  assumes "tparse (tfmt t) = Some t"
  shows "parseRestoreObjStatus tparse (restore_String tfmt ongoingRestoreObj) = Some ongoingRestoreObj"
    and "parseRestoreObjStatus tparse (restore_String tfmt (completedRestoreObj t)) = Some (completedRestoreObj t)"
  using assms by (simp_all add: parseRestoreObjStatus_def restore_String_def split2_def trim_header
      ongoingRestoreObj_def completedRestoreObj_def)

text \<open>A restored copy is on the drives until it expires.\<close>

lemma restored_until:
  assumes "tparse (tfmt t) = Some t" "map_of meta AmzRestore = Some (restore_String tfmt (completedRestoreObj t))"
  shows "isRestoredObjectOnDisk tparse now meta \<longleftrightarrow> Before now t"
  using parse_restore_String(2) [of tparse tfmt t] assms(1) assms(2)
  by (simp add: isRestoredObjectOnDisk_def OnDisk_def restore_Expiry_def completedRestoreObj_def)

end
