(* ===== verification/Erasure_Metadata.thy ===== *)
theory Erasure_Metadata
  imports Bitrot Error_Quorum Storage_Class Restore_Status "HOL-Library.AList"
begin

text \<open>
  The metadata of an object, of which every drive of a set keeps its own copy
  (\<open>cmd/storage-datatypes.go\<close>, \<open>cmd/erasure-metadata.go\<close>, \<open>cmd/erasure-metadata-utils.go\<close>,
  \<open>cmd/erasure-healing-common.go\<close>): how shards are assigned to drives, which copy is the latest, which
  drives have it, and when an object counts as lost. A \<open>nil\<close> drive is \<open>None\<close>; a call that would index
  out of range is \<open>None\<close> as well. The sum of SHA-256 in hexadecimal and the order in which Go visits a
  map are parameters.
\<close>

section \<open>Times\<close>

text \<open>The beginning of Unix time stands for no time.\<close>

definition timeSentinel :: gotime where
  "timeSentinel = At 0"

definition bootModtimes :: "nat \<Rightarrow> gotime list" where
  "bootModtimes diskCount = replicate diskCount timeSentinel"

section \<open>The metadata of an object\<close>

record ErasureInfo =
  ei_Algorithm :: string
  ei_DataBlocks :: int
  ei_ParityBlocks :: int
  ei_BlockSize :: int
  ei_Index :: int
  ei_Distribution :: "int list"
  ei_Checksums :: "ChecksumInfo list"

text \<open>The part of the replication state that is compared or hashed.\<close>

record ReplicationState =
  rst_ReplicaStatus :: string
  rst_ReplicationTimeStamp :: gotime
  rst_ReplicaTimeStamp :: gotime
  rst_ReplicationStatusInternal :: string
  rst_VersionPurgeStatusInternal :: string

type_synonym metadata = "(string \<times> string) list"

definition meta_get :: "metadata \<Rightarrow> string \<Rightarrow> string" where
  "meta_get md k = (case map_of md k of None \<Rightarrow> [] | Some v \<Rightarrow> v)"

text \<open>The fields of a \<open>FileInfo\<close> that the code below reads.\<close>

record FileInfo =
  fi_Name :: string
  fi_VersionID :: string
  fi_IsLatest :: bool
  fi_Deleted :: bool
  fi_TransitionStatus :: string
  fi_TransitionedObjName :: string
  fi_TransitionTier :: string
  fi_TransitionVersionID :: string
  fi_DataDir :: string
  fi_XLV1 :: bool
  fi_ModTime :: gotime
  fi_Size :: int
  fi_Metadata :: metadata
  fi_Parts :: "ObjectPartInfo list"
  fi_Erasure :: ErasureInfo
  fi_MarkDeleted :: bool
  fi_ReplicationState :: ReplicationState
  fi_Data :: bytes
  fi_Fresh :: bool
  fi_DiskMTime :: gotime

definition noErasureInfo :: ErasureInfo where
  "noErasureInfo = \<lparr>ei_Algorithm = [], ei_DataBlocks = 0, ei_ParityBlocks = 0, ei_BlockSize = 0, ei_Index = 0,
     ei_Distribution = [], ei_Checksums = []\<rparr>"

text \<open>\<open>FileInfo{}\<close>.\<close>

definition noFileInfo :: FileInfo where
  "noFileInfo = \<lparr>fi_Name = [], fi_VersionID = [], fi_IsLatest = False, fi_Deleted = False,
     fi_TransitionStatus = [], fi_TransitionedObjName = [], fi_TransitionTier = [], fi_TransitionVersionID = [],
     fi_DataDir = [], fi_XLV1 = False, fi_ModTime = ZeroTime, fi_Size = 0, fi_Metadata = [], fi_Parts = [],
     fi_Erasure = noErasureInfo, fi_MarkDeleted = False,
     fi_ReplicationState = \<lparr>rst_ReplicaStatus = [], rst_ReplicationTimeStamp = ZeroTime,
        rst_ReplicaTimeStamp = ZeroTime, rst_ReplicationStatusInternal = [], rst_VersionPurgeStatusInternal = []\<rparr>,
     fi_Data = [], fi_Fresh = False, fi_DiskMTime = ZeroTime\<rparr>"

definition IsValid :: "FileInfo \<Rightarrow> bool" where
  "IsValid fi \<longleftrightarrow>
     fi_Deleted fi \<or>
     (let e = fi_Erasure fi; dataBlocks = ei_DataBlocks e; parityBlocks = ei_ParityBlocks e;
          correctIndexes = (0 < ei_Index e \<and> ei_Index e \<le> wrap64 (dataBlocks + parityBlocks)
            \<and> int (length (ei_Distribution e)) = wrap64 (dataBlocks + parityBlocks))
      in parityBlocks \<le> dataBlocks \<and> dataBlocks \<noteq> 0 \<and> parityBlocks \<noteq> 0 \<and> correctIndexes)"

definition GetDataDir :: "FileInfo \<Rightarrow> string" where
  "GetDataDir fi =
     (if fi_Deleted fi then ''delete-marker''
      else if fi_XLV1 fi \<and> fi_DataDir fi = [] then ''legacy''
      else fi_DataDir fi)"

definition inlineKey :: string where
  "inlineKey = ''x-minio-internal-inline-data''"

definition InlineData :: "FileInfo \<Rightarrow> bool" where
  "InlineData fi \<longleftrightarrow> map_of (fi_Metadata fi) inlineKey \<noteq> None"

definition SetInlineData :: "FileInfo \<Rightarrow> FileInfo" where
  "SetInlineData fi = fi\<lparr>fi_Metadata := AList.update inlineKey ''true'' (fi_Metadata fi)\<rparr>"

definition DataShardFixed :: "FileInfo \<Rightarrow> bool" where
  "DataShardFixed fi \<longleftrightarrow> meta_get (fi_Metadata fi) ''x-minio-internal-data-shard-fix'' = ''true''"

definition AcceptableDelta :: "FileInfo \<Rightarrow> gotime \<Rightarrow> int \<Rightarrow> bool" where
  "AcceptableDelta fi maxTime delta \<longleftrightarrow>
     (let diff = time_Sub maxTime (fi_DiskMTime fi); diff' = (if diff < 0 then wrap64 (- diff) else diff)
      in diff' < delta)"

definition TransitionInfoEquals :: "FileInfo \<Rightarrow> FileInfo \<Rightarrow> bool" where
  "TransitionInfoEquals fi ofi \<longleftrightarrow>
     \<not> (fi_TransitionStatus fi \<noteq> fi_TransitionStatus ofi \<or> fi_TransitionTier fi \<noteq> fi_TransitionTier ofi
        \<or> fi_TransitionedObjName fi \<noteq> fi_TransitionedObjName ofi
        \<or> fi_TransitionVersionID fi \<noteq> fi_TransitionVersionID ofi)"

definition MetadataEquals :: "FileInfo \<Rightarrow> FileInfo \<Rightarrow> bool" where
  "MetadataEquals fi ofi \<longleftrightarrow>
     length (fi_Metadata fi) = length (fi_Metadata ofi)
     \<and> list_all (\<lambda>(k, v). map_of (fi_Metadata ofi) k = Some v) (fi_Metadata fi)"

definition ReplicationInfoEquals :: "FileInfo \<Rightarrow> FileInfo \<Rightarrow> bool" where
  "ReplicationInfoEquals fi ofi \<longleftrightarrow>
     \<not> (fi_MarkDeleted fi \<noteq> fi_MarkDeleted ofi \<or> fi_ReplicationState fi \<noteq> fi_ReplicationState ofi)"

definition Equals :: "FileInfo \<Rightarrow> FileInfo \<Rightarrow> bool" where
  "Equals fi ofi \<longleftrightarrow>
     MetadataEquals fi ofi \<and> ReplicationInfoEquals fi ofi \<and> TransitionInfoEquals fi ofi \<and> fi_ModTime fi = fi_ModTime ofi"

definition TransitionComplete :: string where
  "TransitionComplete = ''complete''"

text \<open>The parameter \<open>restored\<close> is \<open>isRestoredObjectOnDisk\<close> at the time of the call.\<close>

definition IsRemote :: "(metadata \<Rightarrow> bool) \<Rightarrow> FileInfo \<Rightarrow> bool" where
  "IsRemote restored fi \<longleftrightarrow> fi_TransitionStatus fi = TransitionComplete \<and> \<not> restored (fi_Metadata fi)"

section \<open>Assigning shards to drives\<close>

text \<open>\<open>crc\<close> is \<open>crc32.Checksum\<close> of the key with the IEEE polynomial.\<close>

definition hashOrder :: "(string \<Rightarrow> 32 word) \<Rightarrow> string \<Rightarrow> int \<Rightarrow> int list" where
  "hashOrder crc key cardinality =
     (if cardinality \<le> 0 then []
      else let start = uint (crc key mod word_of_int cardinality)
           in map (\<lambda>i. 1 + (start + int i) mod cardinality) [1..<Suc (nat cardinality)])"

definition erasureAlgorithm :: string where
  "erasureAlgorithm = ''rs-vandermonde''"

definition blockSizeV2 :: int where
  "blockSizeV2 = 1048576"

definition newFileInfo :: "(string \<Rightarrow> 32 word) \<Rightarrow> string \<Rightarrow> int \<Rightarrow> int \<Rightarrow> FileInfo" where
  "newFileInfo crc object dataB parityB =
     noFileInfo\<lparr>fi_Erasure := \<lparr>ei_Algorithm = erasureAlgorithm, ei_DataBlocks = dataB,
        ei_ParityBlocks = parityB, ei_BlockSize = blockSizeV2, ei_Index = 0,
        ei_Distribution = hashOrder crc object (dataB + parityB), ei_Checksums = []\<rparr>\<rparr>"

text \<open>\<open>put xs k v\<close> is \<open>xs[k-1] = v\<close>.\<close>

definition put_at :: "'a list \<Rightarrow> int \<Rightarrow> 'a \<Rightarrow> 'a list option" where
  "put_at xs k v = (if 0 < k \<and> k \<le> int (length xs) then Some (xs[nat (k - 1) := v]) else None)"

fun shuffle_loop :: "'a list \<Rightarrow> int list \<Rightarrow> 'a list \<Rightarrow> 'a list option" where
  "shuffle_loop [] dist out = Some out"
| "shuffle_loop (x # xs) dist out =
     (case dist of [] \<Rightarrow> None
      | d # ds \<Rightarrow> (case put_at out d x of None \<Rightarrow> None | Some out' \<Rightarrow> shuffle_loop xs ds out'))"

text \<open>A \<open>nil\<close> distribution is the empty one.\<close>

definition shuffleDisks :: "'d option list \<Rightarrow> int list \<Rightarrow> 'd option list option" where
  "shuffleDisks disks distribution =
     (if distribution = [] then Some disks
      else shuffle_loop disks distribution (replicate (length disks) None))"

definition shufflePartsMetadata :: "FileInfo list \<Rightarrow> int list \<Rightarrow> FileInfo list option" where
  "shufflePartsMetadata partsMetadata distribution =
     (if distribution = [] then Some partsMetadata
      else shuffle_loop partsMetadata distribution (replicate (length partsMetadata) noFileInfo))"

text \<open>A copy that the read phase skips.\<close>

definition skip_meta :: "FileInfo \<Rightarrow> FileInfo \<Rightarrow> bool" where
  "skip_meta fi meta \<longleftrightarrow>
     \<not> IsValid meta \<or> length (fi_Data fi) \<noteq> length (fi_Data meta) \<or> fi_XLV1 fi \<noteq> fi_XLV1 meta"

fun shuffle_both :: "('d option \<times> FileInfo) list \<Rightarrow> int list \<Rightarrow> FileInfo \<Rightarrow> bool \<Rightarrow> 'd option list \<Rightarrow> FileInfo list
     \<Rightarrow> ('d option list \<times> FileInfo list) option" where
  "shuffle_both [] dist fi ini ds ms = Some (ds, ms)"
| "shuffle_both ((d, meta) # xs) dist fi ini ds ms =
     (if d = None \<or> \<not> ini \<and> skip_meta fi meta then shuffle_both xs (tl dist) fi ini ds ms
      else case dist of [] \<Rightarrow> None
           | k # ks \<Rightarrow>
               (case (put_at ms k meta, put_at ds k d) of
                  (Some ms', Some ds') \<Rightarrow> shuffle_both xs ks fi ini ds' ms'
                | _ \<Rightarrow> None))"

definition shuffleDisksAndPartsMetadata ::
  "'d option list \<Rightarrow> FileInfo list \<Rightarrow> FileInfo \<Rightarrow> ('d option list \<times> FileInfo list) option" where
  "shuffleDisksAndPartsMetadata disks partsMetadata fi =
     (if length disks < length partsMetadata then None
      else shuffle_both (zip disks partsMetadata) (ei_Distribution (fi_Erasure fi)) fi
             (fi_ModTime fi = ZeroTime) (replicate (length disks) None)
             (replicate (length partsMetadata) noFileInfo))"

text \<open>The loop that goes by the index in each copy, with the number of inconsistent copies.\<close>

fun index_loop :: "('d option \<times> FileInfo) list \<Rightarrow> int list \<Rightarrow> FileInfo \<Rightarrow> nat \<Rightarrow> 'd option list \<Rightarrow> FileInfo list
     \<Rightarrow> (nat \<times> 'd option list \<times> FileInfo list) option" where
  "index_loop [] dist fi bad ds ms = Some (bad, ds, ms)"
| "index_loop ((d, meta) # xs) dist fi bad ds ms =
     (if d = None \<or> skip_meta fi meta then index_loop xs (tl dist) fi (Suc bad) ds ms
      else case dist of [] \<Rightarrow> None
           | k # ks \<Rightarrow>
               if k \<noteq> ei_Index (fi_Erasure meta) then index_loop xs ks fi (Suc bad) ds ms
               else case (put_at ds k d, put_at ms k meta) of
                      (Some ds', Some ms') \<Rightarrow> index_loop xs ks fi bad ds' ms'
                    | _ \<Rightarrow> None)"

definition shuffleDisksAndPartsMetadataByIndex ::
  "'d option list \<Rightarrow> FileInfo list \<Rightarrow> FileInfo \<Rightarrow> ('d option list \<times> FileInfo list) option" where
  "shuffleDisksAndPartsMetadataByIndex disks metaArr fi =
     (if length disks < length metaArr then None
      else case index_loop (zip disks metaArr) (ei_Distribution (fi_Erasure fi)) fi 0
                  (replicate (length disks) None) (replicate (length disks) noFileInfo) of
             None \<Rightarrow> None
           | Some (inconsistent, ds, ms) \<Rightarrow>
               if int inconsistent < ei_ParityBlocks (fi_Erasure fi) then Some (ds, ms)
               else shuffleDisksAndPartsMetadata disks metaArr fi)"

definition evalDisks :: "'d option list \<Rightarrow> xerr option list \<Rightarrow> 'd option list" where
  "evalDisks disks errs =
     (if length errs \<noteq> length disks then []
      else map2 (\<lambda>d e. if e = None then d else None) disks errs)"

definition diskCount :: "'d option list \<Rightarrow> nat" where
  "diskCount disks = length (filter (\<lambda>d. d \<noteq> None) disks)"

section \<open>Reading and writing all copies\<close>

text \<open>\<open>rv\<close> is \<open>ReadVersion\<close> of a drive; a drive that fails may still answer with metadata.\<close>

definition readAllFileInfo ::
  "('d \<Rightarrow> FileInfo \<times> xerr option) \<Rightarrow> 'd option list \<Rightarrow> FileInfo list \<times> xerr option list" where
  "readAllFileInfo rv disks =
     (let res = map (\<lambda>d. case d of None \<Rightarrow> (noFileInfo, Some errDiskNotFound) | Some x \<Rightarrow> rv x) disks
      in (map fst res, map snd res))"

text \<open>\<open>wm\<close> is \<open>WriteMetadata\<close>. The drives afterwards, and those that have the metadata.\<close>

definition writeUniqueFileInfo ::
  "('d \<Rightarrow> FileInfo \<Rightarrow> 'd \<times> xerr option) \<Rightarrow> err_order \<Rightarrow> 'd option list \<Rightarrow> FileInfo list \<Rightarrow> int
     \<Rightarrow> 'd option list \<times> 'd option list \<times> xerr option" where
  "writeUniqueFileInfo wm ord disks files quorum =
     (let res = map (\<lambda>i. case disks ! i of
            None \<Rightarrow> (None, Some errDiskNotFound)
          | Some d \<Rightarrow>
              (let fi = (files ! i)\<lparr>fi_Erasure := (fi_Erasure (files ! i))\<lparr>ei_Index := int i + 1\<rparr>\<rparr>
               in if IsValid fi then (case wm d fi of (d', e) \<Rightarrow> (Some d', e))
                  else (Some d, Some errCorruptedFormat))) [0..<length disks];
          mErrs = map snd res
      in (map fst res, evalDisks (map fst res) mErrs, reduceWriteQuorumErrs ord mErrs objectOpIgnoredErrs quorum))"

section \<open>The most common time\<close>

definition near :: "int \<Rightarrow> int \<Rightarrow> int \<Rightarrow> bool" where
  "near grp k nano \<longleftrightarrow>
     k \<noteq> nano \<and> (let diff = wrap64 (k - nano); diff' = (if diff < 0 then wrap64 (- diff) else diff) in diff' < grp)"

definition add_time :: "int \<Rightarrow> (int \<times> nat) list \<Rightarrow> gotime \<Rightarrow> (int \<times> nat) list" where
  "add_time grp occ t =
     (if t = timeSentinel then occ
      else let nano = UnixNano t;
               occ' = (if 0 < grp then map (\<lambda>(k, c). if near grp k nano then (k, Suc c) else (k, c)) occ else occ)
           in bump nano occ')"

fun max_time :: "(int \<times> nat) list \<Rightarrow> nat \<Rightarrow> int \<Rightarrow> nat \<times> int" where
  "max_time [] maxima latest = (maxima, latest)"
| "max_time ((nano, c) # xs) maxima latest =
     (if c < maxima then max_time xs maxima latest
      else if maxima < c \<or> latest < nano then max_time xs c nano
      else max_time xs maxima latest)"

type_synonym time_order = "(int \<times> nat) list \<Rightarrow> (int \<times> nat) list"

definition commonTimeAndOccurence :: "time_order \<Rightarrow> gotime list \<Rightarrow> int \<Rightarrow> gotime \<times> nat" where
  "commonTimeAndOccurence ord ts grp =
     (case max_time (ord (foldl (add_time grp) [] ts)) 0 0 of (maxima, latest) \<Rightarrow> (At latest, maxima))"

definition commonTime :: "time_order \<Rightarrow> gotime list \<Rightarrow> gotime" where
  "commonTime ord modTimes = fst (commonTimeAndOccurence ord modTimes 0)"

definition listObjectModtimes :: "FileInfo list \<Rightarrow> xerr option list \<Rightarrow> gotime list" where
  "listObjectModtimes partsMetadata errs =
     map2 (\<lambda>m e. if e \<noteq> None then timeSentinel else fi_ModTime m) partsMetadata errs"

definition listObjectDiskMtimes :: "FileInfo list \<Rightarrow> gotime list" where
  "listObjectDiskMtimes partsMetadata =
     map (\<lambda>m. if IsValid m then fi_DiskMTime m else timeSentinel) partsMetadata"

text \<open>\<open>shardDiskTimeDelta\<close> is a setting of the server, a minute when none is given.\<close>

definition pickValidDiskTimeWithQuorum :: "time_order \<Rightarrow> int \<Rightarrow> FileInfo list \<Rightarrow> int \<Rightarrow> gotime" where
  "pickValidDiskTimeWithQuorum ord shardDiskTimeDelta metaArr quorum =
     (case commonTimeAndOccurence ord (listObjectDiskMtimes metaArr) shardDiskTimeDelta of
        (diskMTime, diskMaxima) \<Rightarrow> if quorum \<le> int diskMaxima then diskMTime else timeSentinel)"

definition filterOnlineDisksInplace :: "FileInfo \<Rightarrow> FileInfo list \<Rightarrow> 'd option list \<Rightarrow> 'd option list" where
  "filterOnlineDisksInplace fi partsMetadata onlineDisks =
     map2 (\<lambda>meta d. if fi_XLV1 fi = fi_XLV1 meta then d else None) partsMetadata onlineDisks"

definition listOnlineDisks ::
  "time_order \<Rightarrow> 'd option list \<Rightarrow> FileInfo list \<Rightarrow> xerr option list \<Rightarrow> 'd option list \<times> gotime" where
  "listOnlineDisks ord disks partsMetadata errs =
     (let modTimes = listObjectModtimes partsMetadata errs; modTime = commonTime ord modTimes
      in (map (\<lambda>i. if IsValid (partsMetadata ! i) \<and> modTimes ! i = modTime then disks ! i else None)
            [0..<length disks], modTime))"

section \<open>The latest metadata\<close>

definition getLatestFileInfo ::
  "err_order \<Rightarrow> time_order \<Rightarrow> FileInfo list \<Rightarrow> xerr option list \<Rightarrow> (xerr, FileInfo) result" where
  "getLatestFileInfo ord tord partsMetadata errs =
     (case reduceReadQuorumErrs ord errs objectOpIgnoredErrs (go_div (int (length partsMetadata)) 2) of
        Some err \<Rightarrow> Inl err
      | None \<Rightarrow>
          (let modTimes = listObjectModtimes partsMetadata errs; modTime = commonTime tord modTimes
           in if modTime = ZeroTime \<or> modTime = timeSentinel then Inl errErasureReadQuorum
              else let latest = filter (\<lambda>(m, t). IsValid m \<and> t = modTime) (zip partsMetadata modTimes);
                       latestFileInfo = (if latest = [] then noFileInfo else fst (last latest))
                   in if \<not> IsValid latestFileInfo then Inl errErasureReadQuorum
                      else if int (length latest) < ei_DataBlocks (fi_Erasure latestFileInfo)
                      then Inl errErasureReadQuorum
                      else Inr latestFileInfo))"

definition AmzStorageClass :: string where
  "AmzStorageClass = ''x-amz-storage-class''"

definition objectQuorumFromMeta ::
  "err_order \<Rightarrow> time_order \<Rightarrow> sc_Config \<Rightarrow> FileInfo list \<Rightarrow> xerr option list \<Rightarrow> int \<Rightarrow> (xerr, int \<times> int) result" where
  "objectQuorumFromMeta ord tord sc partsMetaData errs defaultParityCount =
     (case getLatestFileInfo ord tord partsMetaData errs of
        Inl err \<Rightarrow> Inl err
      | Inr latest \<Rightarrow>
          (let p = GetParityForSC sc (meta_get (fi_Metadata latest) AmzStorageClass);
               parityBlocks = (if p \<le> 0 then defaultParityCount else p);
               d = ei_DataBlocks (fi_Erasure latest);
               dataBlocks = (if d = 0 then int (length partsMetaData) - parityBlocks else d);
               writeQuorum = (if dataBlocks = parityBlocks then dataBlocks + 1 else dataBlocks)
           in Inr (dataBlocks, writeQuorum)))"

definition show_bool :: "bool \<Rightarrow> string" where
  "show_bool b = (if b then ''true'' else ''false'')"

text \<open>What is hashed of a copy, by the parameter \<open>hsum\<close>: SHA-256 in hexadecimal. A time is printed by \<open>tfmt\<close>.\<close>

definition meta_text :: "time_fmt \<Rightarrow> FileInfo \<Rightarrow> string" where
  "meta_text tfmt meta =
     show_bool (fi_XLV1 meta) @ GetDataDir meta
     @ concat (map (\<lambda>part. ''part.'' @ show_int (p_Number part)) (fi_Parts meta))
     @ ''['' @ join_with '' '' (map show_int (ei_Distribution (fi_Erasure meta))) @ '']''
     @ Itoa (length (fi_Data meta))
     @ fi_TransitionStatus meta @ fi_TransitionTier meta @ fi_TransitionedObjName meta @ fi_TransitionVersionID meta
     @ show_bool (fi_MarkDeleted meta)
     @ (let r = fi_ReplicationState meta; g = meta_get (fi_Metadata meta) in
        g (rst_ReplicaStatus r) @ g (tfmt (rst_ReplicationTimeStamp r)) @ g (tfmt (rst_ReplicaTimeStamp r))
        @ g (rst_ReplicationStatusInternal r) @ g (rst_VersionPurgeStatusInternal r))"

definition meta_hash :: "time_fmt \<Rightarrow> (string \<Rightarrow> string) \<Rightarrow> gotime \<Rightarrow> FileInfo \<Rightarrow> string" where
  "meta_hash tfmt hsum modTime meta =
     (if IsValid meta \<and> fi_ModTime meta = modTime then hsum (meta_text tfmt meta) else [])"

fun max_hash :: "(string \<times> nat) list \<Rightarrow> string \<Rightarrow> nat \<Rightarrow> string \<times> nat" where
  "max_hash [] maxHash maxCount = (maxHash, maxCount)"
| "max_hash ((h, n) # xs) maxHash maxCount =
     (if maxCount < n then max_hash xs h n else max_hash xs maxHash maxCount)"

type_synonym hash_order = "(string \<times> nat) list \<Rightarrow> (string \<times> nat) list"

definition findFileInfoInQuorum ::
  "hash_order \<Rightarrow> time_fmt \<Rightarrow> (string \<Rightarrow> string) \<Rightarrow> FileInfo list \<Rightarrow> gotime \<Rightarrow> int \<Rightarrow> (xerr, FileInfo) result" where
  "findFileInfoInQuorum ord tfmt hsum metaArr modTime quorum =
     (if quorum < 2 then Inl errErasureReadQuorum
      else let metaHashes = map (meta_hash tfmt hsum modTime) metaArr
           in case max_hash (ord (tally (filter (\<lambda>h. h \<noteq> []) metaHashes))) [] 0 of
                (maxHash, maxCount) \<Rightarrow>
                  if int maxCount < quorum then Inl errErasureReadQuorum
                  else case find (\<lambda>meta. meta_hash tfmt hsum modTime meta = maxHash \<and> IsValid meta) metaArr of
                         None \<Rightarrow> Inl errErasureReadQuorum
                       | Some meta \<Rightarrow> Inr meta)"

definition pickValidFileInfo ::
  "hash_order \<Rightarrow> time_fmt \<Rightarrow> (string \<Rightarrow> string) \<Rightarrow> FileInfo list \<Rightarrow> gotime \<Rightarrow> int \<Rightarrow> (xerr, FileInfo) result" where
  "pickValidFileInfo ord tfmt hsum metaArr modTime quorum = findFileInfoInQuorum ord tfmt hsum metaArr modTime quorum"

section \<open>Shards on drives\<close>

text \<open>A distribution: each position once.\<close>

definition dist_ok :: "int list \<Rightarrow> bool" where
  "dist_ok dist \<longleftrightarrow> distinct dist \<and> set dist = {1..int (length dist)}"

lemma hashOrder_ok:
  assumes "0 < n" "n < 2 ^ 32"
  shows "length (hashOrder crc key n) = nat n" "dist_ok (hashOrder crc key n)"
proof -
  define s where "s = uint (crc key mod word_of_int n)"
  define f where "f i = 1 + (s + int i) mod n" for i :: nat
  have h: "hashOrder crc key n = map f [1..<Suc (nat n)]"
    using assms by (simp add: hashOrder_def f_def s_def Let_def)
  then show l: "length (hashOrder crc key n) = nat n" by simp
  have inj: "inj_on f {1..<Suc (nat n)}"
  proof (rule inj_onI)
    fix i j assume ij: "i \<in> {1..<Suc (nat n)}" "j \<in> {1..<Suc (nat n)}" "f i = f j"
    then have "(s + int i) mod n = (s + int j) mod n" by (simp add: f_def)
    then have "n dvd (s + int i) - (s + int j)" by (simp add: mod_eq_dvd_iff)
    then have "n dvd int i - int j" by simp
    moreover have "\<bar>int i - int j\<bar> < n" using ij(1,2) assms(1) by auto
    ultimately have "int i - int j = 0" using zdvd_imp_le [of n "\<bar>int i - int j\<bar>"] by fastforce
    then show "i = j" by simp
  qed
  have "f ` {1..<Suc (nat n)} \<subseteq> {1..n}" 
  proof (rule image_subsetI)
    fix i show "f i \<in> {1..n}"
      using pos_mod_bound [OF assms(1), of "s + int i"] pos_mod_sign [OF assms(1), of "s + int i"] by (simp add: f_def)
  qed
  moreover have "card (f ` {1..<Suc (nat n)}) = card {1..n}" using inj by (simp add: card_image)
  ultimately have "f ` {1..<Suc (nat n)} = {1..n}" by (intro card_subset_eq) simp_all
  then show "dist_ok (hashOrder crc key n)" using inj l assms(1) by (simp add: h dist_ok_def distinct_map del: upt_Suc)
qed

lemma put_at_Some: "0 < k \<Longrightarrow> k \<le> int (length xs) \<Longrightarrow> put_at xs k v = Some (xs[nat (k - 1) := v])"
  by (simp add: put_at_def)

lemma shuffle_loop_ok:
  "distinct dist \<Longrightarrow> set dist \<subseteq> {1..int (length out)} \<Longrightarrow> length xs = length dist \<Longrightarrow>
   \<exists>r. shuffle_loop xs dist out = Some r \<and> length r = length out
     \<and> (\<forall>i<length xs. r ! nat (dist ! i - 1) = xs ! i)
     \<and> (\<forall>j<length out. int j + 1 \<notin> set dist \<longrightarrow> r ! j = out ! j)"
proof (induction xs dist out rule: shuffle_loop.induct)
  case (2 x xs dist out)
  then obtain d ds where dist: "dist = d # ds" by (cases dist) auto
  define out' where "out' = out[nat (d - 1) := x]"
  have p: "put_at out d x = Some out'" using 2(3) dist by (simp add: put_at_Some out'_def)
  obtain r where r: "shuffle_loop xs ds out' = Some r" "length r = length out'"
      "\<forall>i<length xs. r ! nat (ds ! i - 1) = xs ! i" "\<forall>j<length out'. int j + 1 \<notin> set ds \<longrightarrow> r ! j = out' ! j"
    using 2(1) [OF dist p] 2(2-4) dist by (auto simp: out'_def)
  have d: "1 \<le> d" "d \<le> int (length out)" "d \<notin> set ds" using 2(2,3) dist by auto
  have "r ! nat (d - 1) = x" using r(4) d by (simp add: out'_def)
  then have "\<forall>i<length (x # xs). r ! nat (dist ! i - 1) = (x # xs) ! i"
    using r(3) dist by (simp add: nth_Cons split: nat.split)
  moreover have "r ! j = out ! j" if j: "j < length out" "int j + 1 \<notin> set dist" for j
  proof -
    have "nat (d - 1) \<noteq> j" "int j + 1 \<notin> set ds" using j(2) d(1) dist by auto
    then show ?thesis using r(4) j(1) by (simp add: out'_def)
  qed
  ultimately show ?case using r(1,2) dist p by (simp add: out'_def)
qed simp

lemma shuffleDisks_ok:
  assumes "dist_ok dist" "length dist = length disks"
  shows "\<exists>r. shuffleDisks disks dist = Some r \<and> length r = length disks
     \<and> (\<forall>i<length disks. r ! nat (dist ! i - 1) = disks ! i)"
proof (cases "dist = []")
  case False
  have "set dist \<subseteq> {1..int (length (replicate (length disks) (None :: 'a option)))}"
    using assms by (simp add: dist_ok_def)
  from shuffle_loop_ok [OF _ this, of disks] show ?thesis
    using False assms by (fastforce simp: dist_ok_def shuffleDisks_def)
qed (use assms in \<open>simp add: shuffleDisks_def\<close>)

text \<open>The loops that skip some drives do the same on the others.\<close>

lemma shuffle_loop_pairs:
  assumes "distinct (map g ps)" "g ` set ps \<subseteq> {1..int (length out)}"
  shows "\<exists>r. shuffle_loop (map f ps) (map g ps) out = Some r \<and> length r = length out
     \<and> (\<forall>p\<in>set ps. r ! nat (g p - 1) = f p) \<and> (\<forall>j<length out. int j + 1 \<notin> g ` set ps \<longrightarrow> r ! j = out ! j)"
proof -
  obtain r where r: "shuffle_loop (map f ps) (map g ps) out = Some r" "length r = length out"
      "\<forall>i<length ps. r ! nat (map g ps ! i - 1) = map f ps ! i" "\<forall>j<length out. int j + 1 \<notin> g ` set ps \<longrightarrow> r ! j = out ! j"
    using shuffle_loop_ok [of "map g ps" out "map f ps"] assms by auto
  have "r ! nat (g p - 1) = f p" if "p \<in> set ps" for p
    using that r(3) by (auto simp: in_set_conv_nth)
  then show ?thesis using r(1,2,4) by blast
qed

definition placed :: "('d option \<times> FileInfo \<Rightarrow> int \<Rightarrow> bool) \<Rightarrow> ('d option \<times> FileInfo) list \<Rightarrow> int list
     \<Rightarrow> (('d option \<times> FileInfo) \<times> int) list" where
  "placed keep xs dist = filter (\<lambda>(x, k). keep x k) (zip xs dist)"

definition place_both :: "(('d option \<times> FileInfo) \<times> int) list \<Rightarrow> 'd option list \<Rightarrow> FileInfo list
     \<Rightarrow> ('d option list \<times> FileInfo list) option" where
  "place_both ps ds ms =
     (case (shuffle_loop (map (fst \<circ> fst) ps) (map snd ps) ds, shuffle_loop (map (snd \<circ> fst) ps) (map snd ps) ms) of
        (Some ds', Some ms') \<Rightarrow> Some (ds', ms') | _ \<Rightarrow> None)"

lemma place_both_simps:
  "place_both [] ds ms = Some (ds, ms)"
  "place_both (((d, meta), k) # ps) ds ms =
     (case (put_at ds k d, put_at ms k meta) of (Some ds', Some ms') \<Rightarrow> place_both ps ds' ms' | _ \<Rightarrow> None)"
  by (auto simp: place_both_def split: option.splits)

definition keeps_both :: "FileInfo \<Rightarrow> bool \<Rightarrow> 'd option \<times> FileInfo \<Rightarrow> int \<Rightarrow> bool" where
  "keeps_both fi ini x k \<longleftrightarrow> fst x \<noteq> None \<and> (ini \<or> \<not> skip_meta fi (snd x))"

definition keeps_index :: "FileInfo \<Rightarrow> 'd option \<times> FileInfo \<Rightarrow> int \<Rightarrow> bool" where
  "keeps_index fi x k \<longleftrightarrow> fst x \<noteq> None \<and> \<not> skip_meta fi (snd x) \<and> k = ei_Index (fi_Erasure (snd x))"

lemma shuffle_both_placed:
  "length xs = length dist \<Longrightarrow>
   shuffle_both xs dist fi ini ds ms = place_both (placed (keeps_both fi ini) xs dist) ds ms"
proof (induction xs dist fi ini ds ms rule: shuffle_both.induct)
  case (2 d meta xs dist fi ini ds ms)
  then obtain k ks where "dist = k # ks" by (cases dist) auto
  then show ?case using 2
    by (auto simp: placed_def keeps_both_def place_both_simps split: option.splits)
qed (simp add: placed_def place_both_simps)

lemma index_loop_placed:
  "length xs = length dist \<Longrightarrow>
   \<exists>c. index_loop xs dist fi bad ds ms
     = map_option (\<lambda>(ds', ms'). (c, ds', ms')) (place_both (placed (keeps_index fi) xs dist) ds ms)"
proof (induction xs dist fi bad ds ms rule: index_loop.induct)
  case (2 d meta xs dist fi bad ds ms)
  then obtain k ks where "dist = k # ks" by (cases dist) auto
  then show ?case using 2
    by (auto simp: placed_def keeps_index_def place_both_simps split: option.splits)
qed (simp add: placed_def place_both_simps)

text \<open>What the shuffled lists have at the position of a drive.\<close>

definition shuffled :: "'d option list \<Rightarrow> FileInfo list \<Rightarrow> int list \<Rightarrow> (nat \<Rightarrow> bool) \<Rightarrow> 'd option list \<times> FileInfo list \<Rightarrow> bool"
  where
  "shuffled disks metaArr dist good r \<longleftrightarrow>
     length (fst r) = length disks \<and> length (snd r) = length disks
     \<and> (\<forall>i<length disks. (fst r ! nat (dist ! i - 1) = disks ! i \<and> snd r ! nat (dist ! i - 1) = metaArr ! i)
          \<or> \<not> good i \<and> fst r ! nat (dist ! i - 1) = None \<and> snd r ! nat (dist ! i - 1) = noFileInfo)"

lemma place_both_shuffled:
  assumes "dist_ok dist" "length dist = length disks" "length metaArr = length disks"
    and "\<And>i. i < length disks \<Longrightarrow> good i \<Longrightarrow> keep (disks ! i, metaArr ! i) (dist ! i)"
  shows "\<exists>r. place_both (placed keep (zip disks metaArr) dist) (replicate (length disks) None)
         (replicate (length disks) noFileInfo) = Some r \<and> shuffled disks metaArr dist good r"
proof -
  let ?ps = "placed keep (zip disks metaArr) dist" and ?n = "length disks"
  have z: "zip (zip disks metaArr) dist = map (\<lambda>i. ((disks ! i, metaArr ! i), dist ! i)) [0..<?n]"
    using assms(2,3) by (intro nth_equalityI) simp_all
  have ps: "set ?ps = {((disks ! i, metaArr ! i), dist ! i) |i. i < ?n \<and> keep (disks ! i, metaArr ! i) (dist ! i)}"
    by (auto simp: placed_def z)
  have "map snd (zip (zip disks metaArr) dist) = dist" using assms(2,3) by simp
  then have d: "distinct (map snd ?ps)"
    using assms(1) distinct_map_filter [of snd "zip (zip disks metaArr) dist"] by (simp add: placed_def dist_ok_def)
  have sub: "snd ` set ?ps \<subseteq> {1..int ?n}"
    using assms(1,2) nth_mem by (fastforce simp: ps dist_ok_def)
  obtain ds where ds: "shuffle_loop (map (fst \<circ> fst) ?ps) (map snd ?ps) (replicate ?n None) = Some ds" "length ds = ?n"
      "\<forall>p\<in>set ?ps. ds ! nat (snd p - 1) = (fst \<circ> fst) p" "\<forall>j<?n. int j + 1 \<notin> snd ` set ?ps \<longrightarrow> ds ! j = None"
    using shuffle_loop_pairs [OF d, of "replicate ?n None" "fst \<circ> fst"] sub by (auto simp del: map_map)
  obtain ms where ms: "shuffle_loop (map (snd \<circ> fst) ?ps) (map snd ?ps) (replicate ?n noFileInfo) = Some ms" "length ms = ?n"
      "\<forall>p\<in>set ?ps. ms ! nat (snd p - 1) = (snd \<circ> fst) p" "\<forall>j<?n. int j + 1 \<notin> snd ` set ?ps \<longrightarrow> ms ! j = noFileInfo"
    using shuffle_loop_pairs [OF d, of "replicate ?n noFileInfo" "snd \<circ> fst"] sub by (auto simp del: map_map)
  have "(ds ! nat (dist ! i - 1) = disks ! i \<and> ms ! nat (dist ! i - 1) = metaArr ! i)
      \<or> \<not> good i \<and> ds ! nat (dist ! i - 1) = None \<and> ms ! nat (dist ! i - 1) = noFileInfo" if i: "i < ?n" for i
  proof (cases "keep (disks ! i, metaArr ! i) (dist ! i)")
    case True
    then have "((disks ! i, metaArr ! i), dist ! i) \<in> set ?ps" using i by (auto simp: ps)
    then show ?thesis using ds(3) ms(3) by fastforce
  next
    case False
    have di: "1 \<le> dist ! i" "dist ! i \<le> int ?n" using assms(1,2) i nth_mem [of i dist] by (auto simp: dist_ok_def)
    have "dist ! i \<notin> snd ` set ?ps"
    proof
      assume "dist ! i \<in> snd ` set ?ps"
      then obtain k where "k < ?n" "keep (disks ! k, metaArr ! k) (dist ! k)" "dist ! i = dist ! k" by (auto simp: ps)
      then show False using False i assms(1,2) by (auto simp: dist_ok_def nth_eq_iff_index_eq)
    qed
    then have "ds ! nat (dist ! i - 1) = None \<and> ms ! nat (dist ! i - 1) = noFileInfo"
      using ds(4) ms(4) di by (auto dest!: spec [of _ "nat (dist ! i - 1)"])
    then show ?thesis using False i assms(4) by blast
  qed
  then show ?thesis using ds(1,2) ms(1,2) by (auto simp: place_both_def shuffled_def)
qed

text \<open>A copy that the read phase uses: its drive answered, it agrees with the chosen copy, and its index is
  the position that the distribution gives the drive.\<close>

definition good_copy :: "'d option list \<Rightarrow> FileInfo list \<Rightarrow> FileInfo \<Rightarrow> nat \<Rightarrow> bool" where
  "good_copy disks metaArr fi i \<longleftrightarrow>
     keeps_index fi (disks ! i, metaArr ! i) (ei_Distribution (fi_Erasure fi) ! i)"

lemma shuffleByIndex_ok:
  assumes "dist_ok (ei_Distribution (fi_Erasure fi))" "length (ei_Distribution (fi_Erasure fi)) = length disks"
    "length metaArr = length disks"
  shows "\<exists>r. shuffleDisksAndPartsMetadataByIndex disks metaArr fi = Some r
     \<and> shuffled disks metaArr (ei_Distribution (fi_Erasure fi)) (good_copy disks metaArr fi) r"
proof -
  let ?dist = "ei_Distribution (fi_Erasure fi)" and ?N = "replicate (length disks) None"
    and ?F = "replicate (length disks) noFileInfo"
  have len: "length (zip disks metaArr) = length ?dist" using assms(2,3) by simp
  obtain r where r: "place_both (placed (keeps_index fi) (zip disks metaArr) ?dist) ?N ?F = Some r"
      "shuffled disks metaArr ?dist (good_copy disks metaArr fi) r"
    using place_both_shuffled [OF assms, of "good_copy disks metaArr fi" "keeps_index fi"]
    by (auto simp: good_copy_def)
  obtain q where q: "place_both (placed (keeps_both fi (fi_ModTime fi = ZeroTime)) (zip disks metaArr) ?dist) ?N ?F = Some q"
      "shuffled disks metaArr ?dist (good_copy disks metaArr fi) q"
    using place_both_shuffled [OF assms, of "good_copy disks metaArr fi" "keeps_both fi (fi_ModTime fi = ZeroTime)"]
    by (auto simp: good_copy_def keeps_index_def keeps_both_def)
  obtain c where "index_loop (zip disks metaArr) ?dist fi 0 ?N ?F = Some (c, r)"
    using index_loop_placed [OF len, of fi 0 ?N ?F] r(1) by (cases r) auto
  then show ?thesis
    using r(2) q assms(3) shuffle_both_placed [OF len, of fi "fi_ModTime fi = ZeroTime" ?N ?F]
    by (cases r; cases q) (auto simp: shuffleDisksAndPartsMetadataByIndex_def shuffleDisksAndPartsMetadata_def)
qed

section \<open>The most common time\<close>

lemma occurrences_tally:
  "foldl (add_time 0) acc ts = fold bump (map UnixNano (filter (\<lambda>t. t \<noteq> timeSentinel) ts)) acc"
  by (induction ts arbitrary: acc) (simp_all add: add_time_def Let_def)

text \<open>The order in which the maximum is taken: by the number of occurrences, then by the time.\<close>

definition lex_le :: "int \<times> nat \<Rightarrow> int \<times> nat \<Rightarrow> bool" where
  "lex_le p q \<longleftrightarrow> snd p < snd q \<or> snd p = snd q \<and> fst p \<le> fst q"

lemma max_time_spec:
  "max_time xs maxima latest = (m, l) \<Longrightarrow>
   ((l, m) = (latest, maxima) \<or> (l, m) \<in> set xs) \<and> lex_le (latest, maxima) (l, m) \<and> (\<forall>p\<in>set xs. lex_le p (l, m))"
proof (induction xs maxima latest rule: max_time.induct)
  case (2 nano c xs maxima latest)
  then show ?case by (auto simp: lex_le_def split: if_splits)
qed (simp add: lex_le_def)

lemma max_time_unique:
  assumes "any_order ord" "xs \<noteq> []" "\<forall>p\<in>set xs. 0 < snd p"
  shows "\<exists>m l. max_time (ord xs) 0 0 = (m, l) \<and> (l, m) \<in> set xs \<and> (\<forall>p\<in>set xs. lex_le p (l, m))"
proof -
  obtain m l where ml: "max_time (ord xs) 0 0 = (m, l)" by (cases "max_time (ord xs) 0 0") auto
  have set: "set (ord xs) = set xs" using assms(1) mset_eq_setD by (auto simp: any_order_def)
  obtain p where "p \<in> set xs" using assms(2) by (cases xs) auto
  then have "0 < m" using max_time_spec [OF ml] assms(3) set by (force simp: lex_le_def)
  then show ?thesis using ml max_time_spec [OF ml] set by auto
qed

text \<open>The common time is the one that most drives have, the latest of them if there are several. It does
  not depend on the order of the map; without any time it is the sentinel.\<close>

definition real_nanos :: "gotime list \<Rightarrow> int list" where
  "real_nanos ts = map UnixNano (filter (\<lambda>t. t \<noteq> timeSentinel) ts)"

lemma commonTime_spec:
  assumes "any_order ord"
  shows "if real_nanos ts = [] then commonTimeAndOccurence ord ts 0 = (timeSentinel, 0)
     else \<exists>l\<in>set (real_nanos ts). commonTimeAndOccurence ord ts 0 = (At l, count_list (real_nanos ts) l)
        \<and> (\<forall>k. lex_le (k, count_list (real_nanos ts) k) (l, count_list (real_nanos ts) l) \<or> count_list (real_nanos ts) k = 0)"
proof -
  let ?ns = "real_nanos ts"
  have f: "foldl (add_time 0) [] ts = tally ?ns" by (simp add: occurrences_tally tally_def real_nanos_def)
  show ?thesis
  proof (cases "?ns = []")
    case True
    have "ord [] = []" using assms unfolding any_order_def by (metis mset_zero_iff)
    then show ?thesis using True by (simp add: commonTimeAndOccurence_def f tally_def timeSentinel_def)
  next
    case False
    have mem: "(k, n) \<in> set (tally ?ns) \<longleftrightarrow> k \<in> set ?ns \<and> n = count_list ?ns k" for k n by (rule set_tally)
    have "(hd ?ns, count_list ?ns (hd ?ns)) \<in> set (tally ?ns)" using False by (simp add: mem)
    then have ne: "tally ?ns \<noteq> []" by auto
    have pos: "\<forall>p\<in>set (tally ?ns). 0 < snd p" using mem by (auto simp: neq0_conv [symmetric] count_list_0_iff simp del: neq0_conv)
    obtain m l where ml: "max_time (ord (tally ?ns)) 0 0 = (m, l)" "(l, m) \<in> set (tally ?ns)"
        "\<forall>p\<in>set (tally ?ns). lex_le p (l, m)"
      using max_time_unique [OF assms ne pos] by blast
    have m: "l \<in> set ?ns" "m = count_list ?ns l" using ml(2) mem by auto
    have "lex_le (k, count_list ?ns k) (l, m)" if "k \<in> set ?ns" for k using ml(3) mem that by blast
    then show ?thesis using False m ml(1) by (auto simp: commonTimeAndOccurence_def f count_list_0_iff)
  qed
qed

section \<open>Metadata in quorum\<close>

text \<open>The copies that take part: valid, and of the time asked for.\<close>

definition candidate :: "gotime \<Rightarrow> FileInfo \<Rightarrow> bool" where
  "candidate modTime meta \<longleftrightarrow> IsValid meta \<and> fi_ModTime meta = modTime"

text \<open>How many copies agree with one.\<close>

definition agreeing :: "time_fmt \<Rightarrow> gotime \<Rightarrow> FileInfo list \<Rightarrow> FileInfo \<Rightarrow> nat" where
  "agreeing tfmt modTime metaArr fi =
     length (filter (\<lambda>m. candidate modTime m \<and> meta_text tfmt m = meta_text tfmt fi) metaArr)"

text \<open>The sums are not empty, and different texts among those of the copies have different sums.\<close>

definition sums_ok :: "time_fmt \<Rightarrow> (string \<Rightarrow> string) \<Rightarrow> FileInfo list \<Rightarrow> bool" where
  "sums_ok tfmt hsum metaArr \<longleftrightarrow> (\<forall>t. hsum t \<noteq> []) \<and> inj_on hsum (meta_text tfmt ` set metaArr)"

lemma max_hash_spec:
  "max_hash xs h n = (h', n') \<Longrightarrow>
   ((h', n') = (h, n) \<or> (h', n') \<in> set xs) \<and> n \<le> n' \<and> (\<forall>p\<in>set xs. snd p \<le> n')"
proof (induction xs h n rule: max_hash.induct)
  case (2 g k xs h n)
  then show ?case by (auto split: if_splits)
qed simp

definition sums :: "time_fmt \<Rightarrow> (string \<Rightarrow> string) \<Rightarrow> FileInfo list \<Rightarrow> gotime \<Rightarrow> string list" where
  "sums tfmt hsum metaArr modTime = filter (\<lambda>h. h \<noteq> []) (map (meta_hash tfmt hsum modTime) metaArr)"

lemma count_sums:
  assumes "sums_ok tfmt hsum metaArr" "fi \<in> set metaArr"
  shows "count_list (sums tfmt hsum metaArr modTime) (hsum (meta_text tfmt fi)) = agreeing tfmt modTime metaArr fi"
proof -
  have "meta_hash tfmt hsum modTime m = hsum (meta_text tfmt fi)
      \<longleftrightarrow> candidate modTime m \<and> meta_text tfmt m = meta_text tfmt fi" if "m \<in> set metaArr" for m
    using assms that inj_onD [of hsum "meta_text tfmt ` set metaArr" "meta_text tfmt m" "meta_text tfmt fi"]
    by (auto simp: sums_ok_def meta_hash_def candidate_def eq_commute [of "[]"])
  then have "filter (\<lambda>m. meta_hash tfmt hsum modTime m = hsum (meta_text tfmt fi)) metaArr
      = filter (\<lambda>m. candidate modTime m \<and> meta_text tfmt m = meta_text tfmt fi) metaArr"
    by (intro filter_cong) auto
  moreover have "count_list (sums tfmt hsum metaArr modTime) h
      = length (filter (\<lambda>m. meta_hash tfmt hsum modTime m = h) metaArr)" if "h \<noteq> []" for h
    using that by (induction metaArr) (auto simp: sums_def)
  ultimately show ?thesis using assms(1) by (simp add: agreeing_def sums_ok_def)
qed

lemma sums_mem:
  "h \<in> set (sums tfmt hsum metaArr modTime) \<Longrightarrow>
   \<exists>m\<in>set metaArr. candidate modTime m \<and> h = hsum (meta_text tfmt m)"
  by (auto simp: sums_def meta_hash_def candidate_def split: if_splits)

text \<open>The result is a copy that a quorum agrees with; there is one when a quorum agrees. When the quorum is
  a majority all such copies agree, so that the order of the map makes no difference.\<close>

lemma findFileInfoInQuorum_spec:
  assumes "any_order ord" "sums_ok tfmt hsum metaArr" "2 \<le> quorum"
  shows "(\<exists>fi\<in>set metaArr. candidate modTime fi \<and> quorum \<le> int (agreeing tfmt modTime metaArr fi)
       \<and> findFileInfoInQuorum ord tfmt hsum metaArr modTime quorum = Inr fi)
     \<or> (\<forall>fi\<in>set metaArr. candidate modTime fi \<longrightarrow> int (agreeing tfmt modTime metaArr fi) < quorum)
       \<and> findFileInfoInQuorum ord tfmt hsum metaArr modTime quorum = Inl errErasureReadQuorum"
proof -
  let ?hs = "sums tfmt hsum metaArr modTime"
  obtain h n where hn: "max_hash (ord (tally ?hs)) [] 0 = (h, n)" by (cases "max_hash (ord (tally ?hs)) [] 0") auto
  have set: "set (ord (tally ?hs)) = set (tally ?hs)" using assms(1) mset_eq_setD by (auto simp: any_order_def)
  have mem: "(k, c) \<in> set (tally ?hs) \<longleftrightarrow> k \<in> set ?hs \<and> c = count_list ?hs k" for k c by (rule set_tally)
  have mx: "(h, n) = ([], 0) \<or> (h, n) \<in> set (tally ?hs)" using max_hash_spec [OF hn] unfolding set by simp
  have mx2: "count_list ?hs k \<le> n" if "k \<in> set ?hs" for k
    using max_hash_spec [OF hn] mem [of k "count_list ?hs k"] that unfolding set by fastforce
  have f: "findFileInfoInQuorum ord tfmt hsum metaArr modTime quorum
      = (if int n < quorum then Inl errErasureReadQuorum
         else case find (\<lambda>m. meta_hash tfmt hsum modTime m = h \<and> IsValid m) metaArr of
           None \<Rightarrow> Inl errErasureReadQuorum | Some m \<Rightarrow> Inr m)"
    using assms(3) hn by (simp add: findFileInfoInQuorum_def sums_def Let_def)
  have in_hs: "hsum (meta_text tfmt m) \<in> set ?hs" if "m \<in> set metaArr" "candidate modTime m" for m
    using that assms(2) by (force simp: sums_def meta_hash_def candidate_def sums_ok_def)
  show ?thesis
  proof (cases "int n < quorum")
    case True
    then show ?thesis using f mx2 [OF in_hs] count_sums [OF assms(2)] by fastforce
  next
    case False
    then have hm: "h \<in> set ?hs" "n = count_list ?hs h" using mx mem assms(3) by auto
    obtain m where m: "m \<in> set metaArr" "candidate modTime m" "h = hsum (meta_text tfmt m)" using sums_mem [OF hm(1)] by blast
    then have mh: "meta_hash tfmt hsum modTime m = h \<and> IsValid m" by (simp add: meta_hash_def candidate_def)
    obtain r where r: "find (\<lambda>m. meta_hash tfmt hsum modTime m = h \<and> IsValid m) metaArr = Some r"
      using mh m(1) by (cases "find (\<lambda>m. meta_hash tfmt hsum modTime m = h \<and> IsValid m) metaArr") (auto simp: find_None_iff)
    then have r': "r \<in> set metaArr" "meta_hash tfmt hsum modTime r = h" by (auto simp: find_Some_iff)
    have "h \<noteq> []" using m(3) assms(2) by (simp add: sums_ok_def)
    then have c: "candidate modTime r" "h = hsum (meta_text tfmt r)" using r'(2) by (auto simp: meta_hash_def candidate_def split: if_splits)
    have "quorum \<le> int (agreeing tfmt modTime metaArr r)" using count_sums [OF assms(2) r'(1)] c(2) hm(2) False by simp
    then show ?thesis using f False r r'(1) c(1) by auto
  qed
qed

end
