(* ===== verification/Erasure_Healing.thy ===== *)
theory Erasure_Healing
  imports Erasure_Metadata
begin

text \<open>
  The decisions of healing (\<open>cmd/erasure-healing.go\<close>, \<open>cmd/erasure-healing-common.go\<close>): which drives
  have all parts of an object, which have to be healed, and when an object is lost for good, so that it may
  be removed. What a drive answers to \<open>VerifyFile\<close> and \<open>CheckParts\<close> are parameters.
\<close>

section \<open>Drives with all parts\<close>

datatype scan_mode = HealUnknownScan | HealNormalScan | HealDeepScan

text \<open>The storage calls that look for the parts of an object on a drive.\<close>

record 'd part_checks =
  VerifyFile :: "'d \<Rightarrow> FileInfo \<Rightarrow> xerr option"
  CheckParts :: "'d \<Rightarrow> FileInfo \<Rightarrow> xerr option"

definition ei_ShardSize :: "ErasureInfo \<Rightarrow> int" where
  "ei_ShardSize e = ceilFrac (ei_BlockSize e) (ei_DataBlocks e)"

definition ei_ShardFileSize :: "ErasureInfo \<Rightarrow> int \<Rightarrow> int" where
  "ei_ShardFileSize e totalLength =
     (if totalLength = 0 then 0
      else if totalLength = -1 then -1
      else let numShards = go_div totalLength (ei_BlockSize e);
               lastBlockSize = go_mod totalLength (ei_BlockSize e);
               lastShardSize = ceilFrac lastBlockSize (ei_DataBlocks e)
           in wrap64 (numShards * ei_ShardSize e + lastShardSize))"

text \<open>Does the index of the copy of drive \<open>i\<close> contradict its distribution?\<close>

definition inconsistent_copy :: "nat \<Rightarrow> nat \<Rightarrow> FileInfo \<Rightarrow> bool" where
  "inconsistent_copy n i meta \<longleftrightarrow>
     (let dist = ei_Distribution (fi_Erasure meta)
      in \<not> fi_Deleted meta \<and> (length dist \<noteq> n \<or> dist ! i \<noteq> ei_Index (fi_Erasure meta)))"

definition distribution_reliable :: "nat \<Rightarrow> FileInfo list \<Rightarrow> bool" where
  "distribution_reliable n partsMetadata \<longleftrightarrow>
     length (filter (\<lambda>i. IsValid (partsMetadata ! i) \<and> inconsistent_copy n i (partsMetadata ! i))
               [0..<length partsMetadata]) \<le> length partsMetadata div 2"

text \<open>The checks of one drive, in the order of the loop: whether the drive is available, its error, whether
  its metadata is dropped, and whether the reason is the time of its shard.\<close>

definition check_drive ::
  "hashes \<Rightarrow> (metadata \<Rightarrow> bool) \<Rightarrow> 'd part_checks \<Rightarrow> int \<Rightarrow> scan_mode \<Rightarrow> nat \<Rightarrow> bool \<Rightarrow> gotime \<Rightarrow> FileInfo
     \<Rightarrow> nat \<Rightarrow> 'd option \<Rightarrow> xerr option \<Rightarrow> FileInfo \<Rightarrow> bool \<times> xerr option \<times> bool \<times> bool" where
  "check_drive H restored pc delta scanMode n reliable diskMTime latestMeta i onlineDisk err meta =
     (if err \<noteq> None then (False, err, False, False)
      else case onlineDisk of
        None \<Rightarrow> (False, Some errDiskNotFound, False, False)
      | Some d \<Rightarrow>
          if fi_ModTime meta \<noteq> fi_ModTime latestMeta \<or> fi_DataDir meta \<noteq> fi_DataDir latestMeta
          then (False, Some errFileCorrupt, True, False)
          else if reliable \<and> (\<not> IsValid meta \<or> inconsistent_copy n i meta)
          then (False, Some errFileCorrupt, True, False)
          else if diskMTime \<noteq> timeSentinel \<and> \<not> IsZero diskMTime \<and> \<not> AcceptableDelta meta diskMTime delta
          then (False, Some errFileCorrupt, True, True)
          else let de =
                 (if (fi_Data meta \<noteq> [] \<or> fi_Size meta = 0) \<and> fi_Parts meta \<noteq> [] then
                    (let ck = GetChecksumInfo (ei_Checksums (fi_Erasure meta)) (p_Number (hd (fi_Parts meta)))
                     in bitrotVerify H (fi_Data meta, EOF) (int (length (fi_Data meta)))
                          (ei_ShardFileSize (fi_Erasure meta) (fi_Size meta)) (c_Algorithm ck) (c_Hash ck)
                          (ei_ShardSize (fi_Erasure meta)))
                  else if fi_Deleted meta \<or> IsRemote restored meta then None
                  else case scanMode of
                         HealDeepScan \<Rightarrow> VerifyFile pc d meta
                       | HealNormalScan \<Rightarrow> CheckParts pc d meta
                       | HealUnknownScan \<Rightarrow> None)
               in (de = None, de, de \<noteq> None, False))"

record 'd all_parts =
  ap_available :: "'d option list"
  ap_dataErrs :: "xerr option list"
  ap_meta :: "FileInfo list"
  ap_mtime :: gotime

text \<open>\<open>partsMetadata\<close> is changed in place; its new content is a part of the result.\<close>

definition disksWithAllParts ::
  "time_order \<Rightarrow> hashes \<Rightarrow> (metadata \<Rightarrow> bool) \<Rightarrow> 'd part_checks \<Rightarrow> int \<Rightarrow> 'd option list \<Rightarrow> FileInfo list
     \<Rightarrow> xerr option list \<Rightarrow> FileInfo \<Rightarrow> scan_mode \<Rightarrow> 'd all_parts" where
  "disksWithAllParts tord H restored pc delta onlineDisks partsMetadata errs latestMeta scanMode =
     (let n = length onlineDisks;
          diskMTime = (if DataShardFixed latestMeta then ZeroTime
            else pickValidDiskTimeWithQuorum tord delta partsMetadata (ei_DataBlocks (fi_Erasure latestMeta)));
          reliable = distribution_reliable n partsMetadata;
          res = map (\<lambda>i. check_drive H restored pc delta scanMode n reliable diskMTime latestMeta i
                       (onlineDisks ! i) (errs ! i) (partsMetadata ! i)) [0..<n]
      in \<lparr>ap_available = map2 (\<lambda>d r. if fst r then d else None) onlineDisks res,
          ap_dataErrs = map (\<lambda>r. fst (snd r)) res,
          ap_meta = map2 (\<lambda>m r. if fst (snd (snd r)) then noFileInfo else m) partsMetadata res,
          ap_mtime = (if list_ex (\<lambda>r. snd (snd (snd r))) res then diskMTime else timeSentinel)\<rparr>)"

definition shouldHealObjectOnDisk ::
  "(metadata \<Rightarrow> bool) \<Rightarrow> xerr option \<Rightarrow> xerr option \<Rightarrow> FileInfo \<Rightarrow> FileInfo \<Rightarrow> bool" where
  "shouldHealObjectOnDisk restored erErr dataErr meta latestMeta \<longleftrightarrow>
     IsErr erErr [errFileNotFound, errFileVersionNotFound, errFileCorrupt]
     \<or> erErr = None \<and>
       (fi_XLV1 meta
        \<or> \<not> fi_Deleted meta \<and> \<not> IsRemote restored meta
          \<and> IsErr dataErr [errFileNotFound, errFileVersionNotFound, errFileCorrupt]
        \<or> \<not> Equals latestMeta meta)"

section \<open>Lost objects\<close>

text \<open>As many errors as drives are given, for the data no errors or as many.\<close>

definition danglingErrsCount :: "xerr option list \<Rightarrow> nat \<times> nat" where
  "danglingErrsCount cerrs =
     (length (filter (\<lambda>e. IsErr e [errFileNotFound, errFileVersionNotFound]) cerrs),
      length (filter (\<lambda>e. \<not> IsErr e [errFileNotFound, errFileVersionNotFound] \<and> IsErr e [errFileCorrupt]) cerrs))"

definition isObjectDangling ::
  "(metadata \<Rightarrow> bool) \<Rightarrow> FileInfo list \<Rightarrow> xerr option list \<Rightarrow> xerr option list \<Rightarrow> FileInfo \<times> bool" where
  "isObjectDangling restored metaArr errs dataErrs =
     (let ndataErrs = map2 (\<lambda>e de. if e \<noteq> de then de else None) errs dataErrs;
          (notFoundMetaErrs, corruptedMetaErrs) = danglingErrsCount errs;
          (notFoundPartsErrs, corruptedPartsErrs) = danglingErrsCount ndataErrs;
          validMeta = (case find IsValid metaArr of None \<Rightarrow> noFileInfo | Some m \<Rightarrow> m)
      in if \<not> IsValid validMeta then (validMeta, False)
         else if fi_Deleted validMeta
         then (validMeta, length errs div 2 < corruptedMetaErrs + notFoundMetaErrs)
         else let totalErrs = (if IsRemote restored validMeta then notFoundMetaErrs + corruptedMetaErrs
                else notFoundMetaErrs + corruptedMetaErrs + notFoundPartsErrs + corruptedPartsErrs)
              in (validMeta, ei_ParityBlocks (fi_Erasure validMeta) < int totalErrs))"

definition isAllNotFound :: "xerr option list \<Rightarrow> bool" where
  "isAllNotFound errs \<longleftrightarrow>
     errs \<noteq> [] \<and> list_all (\<lambda>e. e = Some errFileNotFound \<or> e = Some errVolumeNotFound \<or> e = Some errFileVersionNotFound) errs"

lemma dangling_total:
  "danglingErrsCount es = (a, b) \<Longrightarrow> a + b = length (filter (\<lambda>e. IsErr e [errFileNotFound, errFileVersionNotFound, errFileCorrupt]) es)"
proof (induction es arbitrary: a b)
  case (Cons e es)
  then show ?case by (cases e) (auto simp: danglingErrsCount_def IsErr_def split: if_splits)
qed (simp add: danglingErrsCount_def)

text \<open>A drive that is available gave neither error; any other drive with an error counts once.\<close>

lemma check_drive_errs:
  assumes "check_drive H restored pc delta sm n rel t latest i d err meta = (av, de, dr, sf)"
  shows "av \<Longrightarrow> err = None \<and> de = None \<and> d \<noteq> None" and "err \<noteq> None \<Longrightarrow> de = err"
  using assms by (auto simp: check_drive_def Let_def split: option.splits if_splits)

text \<open>The drives that answered well, and those that a loss is counted for, are different drives.\<close>

lemma losses_and_available:
  fixes onlineDisks :: "'d option list"
  assumes ap_def: "ap = disksWithAllParts tord H restored pc delta onlineDisks partsMetadata errs latestMeta sm"
    and len: "length errs = length onlineDisks"
    and P_def: "P = (\<lambda>e. IsErr e [errFileNotFound, errFileVersionNotFound, errFileCorrupt])"
  shows "length (filter P errs) + length (filter P (map2 (\<lambda>e de. if e \<noteq> de then de else None) errs (ap_dataErrs ap)))
       + diskCount (ap_available ap) \<le> length onlineDisks"
proof -
  let ?n = "length onlineDisks" and ?nd = "map2 (\<lambda>e de. if e \<noteq> de then de else None) errs (ap_dataErrs ap)"
  define r where "r i = check_drive H restored pc delta sm ?n (distribution_reliable ?n partsMetadata)
      (if DataShardFixed latestMeta then ZeroTime
       else pickValidDiskTimeWithQuorum tord delta partsMetadata (ei_DataBlocks (fi_Erasure latestMeta)))
      latestMeta i (onlineDisks ! i) (errs ! i) (partsMetadata ! i)" for i
  have de: "ap_dataErrs ap = map (\<lambda>i. fst (snd (r i))) [0..<?n]" by (simp add: ap_def disksWithAllParts_def Let_def r_def)
  have av: "length (ap_available ap) = ?n" "ap_available ap ! i = (if fst (r i) then onlineDisks ! i else None)" if "i < ?n" for i
    using that by (simp_all add: ap_def disksWithAllParts_def Let_def r_def)
  have avl: "length (ap_available ap) = ?n" by (simp add: ap_def disksWithAllParts_def Let_def)
  have ok: "errs ! i = None \<and> fst (snd (r i)) = None" if "fst (r i)" for i
    using check_drive_errs(1) [of H restored pc delta sm ?n _ _ latestMeta i "onlineDisks ! i" "errs ! i" "partsMetadata ! i"]
      that by (metis prod.collapse r_def)
  have same: "fst (snd (r i)) = errs ! i" if "errs ! i \<noteq> None" for i
    using check_drive_errs(2) [of H restored pc delta sm ?n _ _ latestMeta i "onlineDisks ! i" "errs ! i" "partsMetadata ! i"]
      that by (metis prod.collapse r_def)
  have PN: "\<not> P None" by (simp add: P_def IsErr_def)
  define A where "A = {i. i < ?n \<and> P (errs ! i)}"
  define B where "B = {i. i < ?n \<and> P (if errs ! i \<noteq> fst (snd (r i)) then fst (snd (r i)) else None)}"
  define C where "C = {i. i < ?n \<and> ap_available ap ! i \<noteq> None}"
  have a: "length (filter P errs) = card A" using len by (simp add: A_def length_filter_conv_card)
  define nd where "nd = ?nd"
  have nd: "length nd = ?n" "\<And>i. i < ?n \<Longrightarrow> nd ! i = (if errs ! i \<noteq> fst (snd (r i)) then fst (snd (r i)) else None)"
    using len by (simp_all add: de nd_def)
  have "{i. i < length nd \<and> P (nd ! i)} = B" unfolding B_def nd(1) using nd(2) by (intro Collect_cong conj_cong) auto
  then have b: "length (filter P ?nd) = card B" using length_filter_conv_card [of P nd] by (simp only: nd_def)
  have c: "diskCount (ap_available ap) = card C" by (simp add: diskCount_def C_def length_filter_conv_card avl)
  have "A \<inter> B = {}" using same PN unfolding A_def B_def by (auto split: if_splits) (metis option.exhaust_sel)+
  moreover have "(A \<union> B) \<inter> C = {}"
    using ok PN av(2) unfolding A_def B_def C_def by (auto split: if_splits)
  moreover have "finite A" "finite B" "finite C" by (simp_all add: A_def B_def C_def)
  ultimately have "card A + card B + card C = card ((A \<union> B) \<union> C)" by (simp add: card_Un_disjoint)
  also have "\<dots> \<le> card {..<?n}" by (rule card_mono) (auto simp: A_def B_def C_def)
  finally show ?thesis using a b c by simp
qed

text \<open>C7. Healing never takes an object for lost that can still be read: when the checks of the drives make it
  dangling, fewer drives than there are data shards have all its parts (for a delete marker, fewer than half
  of the drives have it), whatever mixture of missing metadata, missing parts and corrupted parts was
  counted, and no drive was counted twice.\<close>

theorem dangling_unrecoverable:
  assumes ap_def: "ap = disksWithAllParts tord H restored pc delta onlineDisks partsMetadata errs latestMeta sm"
    and len: "length errs = length onlineDisks"
    and "isObjectDangling restored (ap_meta ap) errs (ap_dataErrs ap) = (m, True)"
  shows "if fi_Deleted m then 2 * diskCount (ap_available ap) < length onlineDisks
     else int (diskCount (ap_available ap)) + ei_ParityBlocks (fi_Erasure m) < int (length onlineDisks)"
proof -
  let ?nd = "map2 (\<lambda>e de. if e \<noteq> de then de else None) errs (ap_dataErrs ap)"
  obtain a b where ab: "danglingErrsCount errs = (a, b)" by (cases "danglingErrsCount errs")
  obtain c d where cd: "danglingErrsCount ?nd = (c, d)" by (cases "danglingErrsCount ?nd")
  have bound: "a + b + (c + d) + diskCount (ap_available ap) \<le> length onlineDisks"
    using losses_and_available [OF ap_def len refl] dangling_total [OF ab] dangling_total [OF cd] by simp
  show ?thesis
  proof (cases "fi_Deleted m")
    case True
    then have "length errs div 2 < b + a" using assms(3) ab cd by (auto simp: isObjectDangling_def Let_def split: if_splits)
    then show ?thesis using True bound len by simp
  next
    case False
    then have "ei_ParityBlocks (fi_Erasure m) < int (a + b + c + d)"
      using assms(3) ab cd by (auto simp: isObjectDangling_def Let_def split: if_splits)
    then show ?thesis using False bound by simp
  qed
qed

text \<open>Three drives, two data shards and one parity shard; two drives do not have the object.\<close>

definition lost_copy :: FileInfo where
  "lost_copy = noFileInfo\<lparr>fi_DataDir := ''d'', fi_Size := 5, fi_ModTime := At 7,
     fi_Erasure := \<lparr>ei_Algorithm = erasureAlgorithm, ei_DataBlocks = 2, ei_ParityBlocks = 1, ei_BlockSize = 4,
       ei_Index = 1, ei_Distribution = [1, 2, 3], ei_Checksums = []\<rparr>\<rparr>"

definition lost_checks :: "nat part_checks" where
  "lost_checks = \<lparr>VerifyFile = (\<lambda>d m. None), CheckParts = (\<lambda>d m. None)\<rparr>"

definition lost_parts :: "hashes \<Rightarrow> nat all_parts" where
  "lost_parts H = disksWithAllParts rev H (\<lambda>m. False) lost_checks 0 [Some 0, Some 1, Some 2] [lost_copy, noFileInfo, noFileInfo]
     [None, Some errFileNotFound, Some errFileVersionNotFound] lost_copy HealNormalScan"

theorem dangling_unrecoverable_witness:
  "isObjectDangling (\<lambda>m. False) (ap_meta (lost_parts (\<lambda>alg bs. []))) [None, Some errFileNotFound, Some errFileVersionNotFound]
       (ap_dataErrs (lost_parts (\<lambda>alg bs. []))) = (lost_copy, True)
     \<and> int (diskCount (ap_available (lost_parts (\<lambda>alg bs. [])))) + 1 < 3"
proof -
  have d: "isObjectDangling (\<lambda>m. False) (ap_meta (lost_parts (\<lambda>alg bs. []))) [None, Some errFileNotFound, Some errFileVersionNotFound]
       (ap_dataErrs (lost_parts (\<lambda>alg bs. []))) = (lost_copy, True)"
    by code_simp
  have "\<not> fi_Deleted lost_copy" "ei_ParityBlocks (fi_Erasure lost_copy) = 1" by (simp_all add: lost_copy_def noFileInfo_def)
  then show ?thesis
    using dangling_unrecoverable [OF lost_parts_def _ d] d by simp
qed

end
