(* ===== verification/Object_Errors.thy ===== *)
theory Object_Errors
  imports Erasure_Geometry
begin

text \<open>
  The errors of the object layer and their origin in the errors of the drives
  (\<open>cmd/object-api-errors.go\<close>), and the names of directory objects (\<open>cmd/utils.go\<close>).
\<close>

section \<open>Directory objects\<close>

definition globalDirSuffix :: string where
  "globalDirSuffix = ''__XLDIR__''"

definition encodeDirObject :: "string \<Rightarrow> string" where
  "encodeDirObject object = (if HasSuffix object ''/'' then TrimSuffix object ''/'' @ globalDirSuffix else object)"

definition decodeDirObject :: "string \<Rightarrow> string" where
  "decodeDirObject object =
     (if HasSuffix object globalDirSuffix then TrimSuffix object globalDirSuffix @ ''/'' else object)"

lemma suffix_append: "HasSuffix (a @ b) b" "TrimSuffix (a @ b) b = a"
  by (simp_all add: HasSuffix_def TrimSuffix_def)

lemma suffix_obtain: "HasSuffix s t \<Longrightarrow> s = TrimSuffix s t @ t"
  by (simp add: HasSuffix_def TrimSuffix_def) (metis append_take_drop_id)

text \<open>A name is read back unless it has the suffix by itself; then it is taken for a directory.\<close>

lemma decode_encodeDirObject:
  "\<not> HasSuffix object globalDirSuffix \<Longrightarrow> decodeDirObject (encodeDirObject object) = object"
  using suffix_obtain [of object "''/''"] by (auto simp: decodeDirObject_def encodeDirObject_def suffix_append)

lemma encodeDirObject_collides: "encodeDirObject (name @ ''/'') = encodeDirObject (name @ globalDirSuffix)"
  by (simp add: encodeDirObject_def suffix_append) (simp add: HasSuffix_def globalDirSuffix_def)

section \<open>Errors of the object layer\<close>

text \<open>Each with the bucket, object and version or upload it names. \<open>RawErr\<close> is an error that is passed on
  as it is.\<close>

datatype objerr =
    BucketNotFound string
  | BucketNotEmpty string
  | BucketExists string
  | StorageFull
  | SlowDown
  | PrefixAccessDenied string string
  | ObjectExistsAsDirectory string string
  | VersionNotFound string string string
  | MethodNotAllowed string string
  | ObjectNotFound string string
  | InvalidUploadID string string string
  | ObjectNameInvalid string string
  | ObjectTooLarge string string
  | ObjectTooSmall string string
  | InsufficientReadQuorum string string
  | InsufficientWriteQuorum string string
  | IncompleteBody string string
  | RangeErr int int int
  | RawErr xerr

text \<open>The parameter at a position, as far as there is one.\<close>

definition err_param :: "string list \<Rightarrow> nat \<Rightarrow> string" where
  "err_param params i = (if i < length params then params ! i else [])"

definition err_object :: "string list \<Rightarrow> string" where
  "err_object params = (if 2 \<le> length params then decodeDirObject (params ! 1) else [])"

text \<open>The errors are told apart by their texts; an error that wraps another has a text of its own.\<close>

fun toObjectErr :: "xerr \<Rightarrow> string list \<Rightarrow> objerr" where
  "toObjectErr errVolumeNotFound ps = BucketNotFound (err_param ps 0)"
| "toObjectErr errVolumeNotEmpty ps = BucketNotEmpty (err_param ps 0)"
| "toObjectErr errVolumeExists ps = BucketExists (err_param ps 0)"
| "toObjectErr errDiskFull ps = StorageFull"
| "toObjectErr errTooManyOpenFiles ps = SlowDown"
| "toObjectErr errFileAccessDenied ps = PrefixAccessDenied (err_param ps 0) (err_object ps)"
| "toObjectErr errIsNotRegular ps = ObjectExistsAsDirectory (err_param ps 0) (err_object ps)"
| "toObjectErr errFileVersionNotFound ps = VersionNotFound (err_param ps 0) (err_object ps) (err_param ps 2)"
| "toObjectErr errMethodNotAllowed ps = MethodNotAllowed (err_param ps 0) (err_object ps)"
| "toObjectErr errFileNotFound ps = ObjectNotFound (err_param ps 0) (err_object ps)"
| "toObjectErr errUploadIDNotFound ps = InvalidUploadID (err_param ps 0) (err_object ps) (err_param ps 2)"
| "toObjectErr errFileNameTooLong ps = ObjectNameInvalid (err_param ps 0) (err_object ps)"
| "toObjectErr errDataTooLarge ps = ObjectTooLarge (err_param ps 0) (err_object ps)"
| "toObjectErr errDataTooSmall ps = ObjectTooSmall (err_param ps 0) (err_object ps)"
| "toObjectErr errErasureReadQuorum ps = InsufficientReadQuorum (err_param ps 0) (err_object ps)"
| "toObjectErr errErasureWriteQuorum ps = InsufficientWriteQuorum (err_param ps 0) (err_object ps)"
| "toObjectErr ErrUnexpectedEOF ps = IncompleteBody (err_param ps 0) (err_object ps)"
| "toObjectErr ErrShortWrite ps = IncompleteBody (err_param ps 0) (err_object ps)"
| "toObjectErr ContextCanceled ps = IncompleteBody (err_param ps 0) (err_object ps)"
| "toObjectErr ContextDeadlineExceeded ps = IncompleteBody (err_param ps 0) (err_object ps)"
| "toObjectErr e ps = RawErr e"

end
