(* ===== verification/Erasure_Object.thy ===== *)
theory Erasure_Object
  imports Erasure_Roundtrip Erasure_Healing Object_Errors Go_Path
begin

text \<open>
  Reading an object of an erasure set (\<open>cmd/erasure-object.go\<close>): the copies of the metadata are read from
  all drives and reduced to one, the drives are put in the order of the shards, and the parts that a range
  touches are decoded one after the other. \<open>H\<close> are the hash functions, \<open>new\<close> makes a Reed-Solomon codec,
  \<open>loc\<close> tells whether a drive is local (its \<open>Hostname\<close> is empty).
\<close>

section \<open>Reading a range of an object\<close>

text \<open>The reader of a part on one drive.\<close>

definition part_reader ::
  "erasure \<Rightarrow> string \<Rightarrow> string \<Rightarrow> string \<Rightarrow> int \<Rightarrow> int \<Rightarrow> storage_api \<Rightarrow> FileInfo \<Rightarrow> bitrot_reader" where
  "part_reader e bucket object dataDir partNumber tillOffset disk meta =
     (let checksumInfo = GetChecksumInfo (ei_Checksums (fi_Erasure meta)) partNumber;
          partPath = pathJoin [object, dataDir, ''part.'' @ show_int partNumber]
      in newBitrotReader disk (fi_Data meta) bucket partPath tillOffset (c_Algorithm checksumInfo)
           (c_Hash checksumInfo) (ShardSize e))"

definition part_readers ::
  "erasure \<Rightarrow> string \<Rightarrow> string \<Rightarrow> string \<Rightarrow> int \<Rightarrow> int \<Rightarrow> storage_api option list \<Rightarrow> FileInfo list
     \<Rightarrow> bitrot_reader option list" where
  "part_readers e bucket object dataDir partNumber tillOffset onlineDisks metaArr =
     map2 (\<lambda>disk meta. case disk of None \<Rightarrow> None
        | Some d \<Rightarrow> if IsValid meta then Some (part_reader e bucket object dataDir partNumber tillOffset d meta)
                    else None) onlineDisks metaArr"

definition part_prefer :: "(storage_api \<Rightarrow> bool) \<Rightarrow> storage_api option list \<Rightarrow> FileInfo list \<Rightarrow> bool list" where
  "part_prefer loc onlineDisks metaArr =
     map2 (\<lambda>disk meta. case disk of None \<Rightarrow> False | Some d \<Rightarrow> IsValid meta \<and> loc d) onlineDisks metaArr"

text \<open>The healing that an error of \<open>Decode\<close> asks for.\<close>

definition heal_scan :: "xerr \<Rightarrow> scan_mode" where
  "heal_scan err = (if errors_Is err errFileNotFound then HealNormalScan
     else if errors_Is err errFileCorrupt then HealDeepScan else HealUnknownScan)"

text \<open>The error that is left after \<open>Decode\<close>: none if everything was written and healing can be asked for.\<close>

definition left_error :: "int \<Rightarrow> int \<Rightarrow> xerr option \<Rightarrow> xerr option" where
  "left_error written partLength err = (case err of None \<Rightarrow> None
     | Some e \<Rightarrow> if written = partLength \<and> heal_scan e \<noteq> HealUnknownScan then None else Some e)"

text \<open>\<open>healOnce\<close>: the first scan that was asked for. The heal itself runs on its own.\<close>

definition heal_once :: "scan_mode option \<Rightarrow> xerr option \<Rightarrow> scan_mode option" where
  "heal_once once err = (case (once, err) of (None, Some e) \<Rightarrow> Some (heal_scan e) | _ \<Rightarrow> once)"

definition part_length :: "ObjectPartInfo \<Rightarrow> int \<Rightarrow> int \<Rightarrow> int \<Rightarrow> int" where
  "part_length part partOffset len totalBytesRead =
     (let partLength = wrap64 (p_Size part - partOffset)
      in if wrap64 (len - totalBytesRead) < partLength then wrap64 (len - totalBytesRead) else partLength)"

text \<open>The loop over the parts, from part \<open>partIndex\<close>: its answer is what was written, the scan that was asked
  for and the error. A part that is not there has no answer: the code panics.\<close>

inductive get_loop ::
  "hashes \<Rightarrow> (storage_api \<Rightarrow> bool) \<Rightarrow> 'w write_fn \<Rightarrow> erasure \<Rightarrow> string \<Rightarrow> string \<Rightarrow> FileInfo \<Rightarrow> FileInfo list \<Rightarrow> int
     \<Rightarrow> nat \<Rightarrow> nat \<Rightarrow> int \<Rightarrow> int \<Rightarrow> storage_api option list \<Rightarrow> 'w \<Rightarrow> scan_mode option
     \<Rightarrow> 'w \<times> scan_mode option \<times> objerr option \<Rightarrow> bool"
  for H loc wr e bucket object fi metaArr len lastPartIndex where
  gl_end: "lastPartIndex < partIndex \<or> len = totalBytesRead
     \<Longrightarrow> get_loop H loc wr e bucket object fi metaArr len lastPartIndex partIndex partOffset totalBytesRead
           disks dst once (dst, once, None)"
| gl_fail: "partIndex \<le> lastPartIndex \<Longrightarrow> len \<noteq> totalBytesRead \<Longrightarrow> partIndex < length (fi_Parts fi)
     \<Longrightarrow> part = fi_Parts fi ! partIndex \<Longrightarrow> partLength = part_length part partOffset len totalBytesRead
     \<Longrightarrow> tillOffset = ShardFileOffset e partOffset partLength (p_Size part)
     \<Longrightarrow> Decode (ReadAt H) wr e dst
           (part_readers e bucket object (fi_DataDir fi) (p_Number part) tillOffset disks metaArr)
           partOffset partLength (p_Size part) (part_prefer loc disks metaArr) (org, dst', written, err)
     \<Longrightarrow> left_error written partLength err = Some err'
     \<Longrightarrow> get_loop H loc wr e bucket object fi metaArr len lastPartIndex partIndex partOffset totalBytesRead
           disks dst once (dst', once, Some (toObjectErr err' [bucket, object]))"
| gl_next: "partIndex \<le> lastPartIndex \<Longrightarrow> len \<noteq> totalBytesRead \<Longrightarrow> partIndex < length (fi_Parts fi)
     \<Longrightarrow> part = fi_Parts fi ! partIndex \<Longrightarrow> partLength = part_length part partOffset len totalBytesRead
     \<Longrightarrow> tillOffset = ShardFileOffset e partOffset partLength (p_Size part)
     \<Longrightarrow> Decode (ReadAt H) wr e dst
           (part_readers e bucket object (fi_DataDir fi) (p_Number part) tillOffset disks metaArr)
           partOffset partLength (p_Size part) (part_prefer loc disks metaArr) (org, dst', written, err)
     \<Longrightarrow> left_error written partLength err = None
     \<Longrightarrow> get_loop H loc wr e bucket object fi metaArr len lastPartIndex (Suc partIndex) 0
           (wrap64 (totalBytesRead + partLength)) (map2 (\<lambda>d r. if r = None then None else d) disks org) dst'
           (heal_once once err) res
     \<Longrightarrow> get_loop H loc wr e bucket object fi metaArr len lastPartIndex partIndex partOffset totalBytesRead
           disks dst once res"

record get_plan =
  gp_e :: erasure
  gp_disks :: "storage_api option list"
  gp_meta :: "FileInfo list"
  gp_len :: int
  gp_part :: nat
  gp_off :: int
  gp_last :: nat

text \<open>What is done before the loop; \<open>None\<close> is a panic.\<close>

definition plan_get ::
  "(int \<Rightarrow> int \<Rightarrow> rs_codec) \<Rightarrow> string \<Rightarrow> string \<Rightarrow> int \<Rightarrow> int \<Rightarrow> FileInfo \<Rightarrow> FileInfo list \<Rightarrow> storage_api option list
     \<Rightarrow> (objerr, get_plan) result option" where
  "plan_get new bucket object startOffset len fi metaArr onlineDisks =
     (case shuffleDisksAndPartsMetadataByIndex onlineDisks metaArr fi of
        None \<Rightarrow> None
      | Some (disks, metas) \<Rightarrow>
          (let len' = (if len < 0 then wrap64 (fi_Size fi - startOffset) else len);
               range_err = RangeErr startOffset len' (fi_Size fi)
           in if fi_Size fi < startOffset \<or> fi_Size fi < wrap64 (startOffset + len') then Some (Inl range_err)
              else case ObjectToPartOffset (fi_Parts fi) startOffset of
                Inl err \<Rightarrow> Some (Inl range_err)
              | Inr (partIndex, partOffset) \<Rightarrow>
                  let endOffset = (if 0 < len' then wrap64 (startOffset + wrap64 (len' - 1)) else startOffset)
                  in case ObjectToPartOffset (fi_Parts fi) endOffset of
                       Inl err \<Rightarrow> Some (Inl range_err)
                     | Inr (lastPartIndex, _) \<Rightarrow>
                         (case NewErasure new (ei_DataBlocks (fi_Erasure fi)) (ei_ParityBlocks (fi_Erasure fi))
                                 (ei_BlockSize (fi_Erasure fi)) of
                            Inl err \<Rightarrow> Some (Inl (toObjectErr err [bucket, object]))
                          | Inr e \<Rightarrow> Some (Inr \<lparr>gp_e = e, gp_disks = disks, gp_meta = metas, gp_len = len',
                              gp_part = partIndex, gp_off = partOffset, gp_last = lastPartIndex\<rparr>))))"

inductive getObjectWithFileInfo ::
  "hashes \<Rightarrow> (int \<Rightarrow> int \<Rightarrow> rs_codec) \<Rightarrow> (storage_api \<Rightarrow> bool) \<Rightarrow> 'w write_fn \<Rightarrow> string \<Rightarrow> string \<Rightarrow> int \<Rightarrow> int
     \<Rightarrow> 'w \<Rightarrow> FileInfo \<Rightarrow> FileInfo list \<Rightarrow> storage_api option list
     \<Rightarrow> 'w \<times> scan_mode option \<times> objerr option \<Rightarrow> bool"
  for H new loc wr bucket object startOffset len dst fi metaArr onlineDisks where
  gow_error: "plan_get new bucket object startOffset len fi metaArr onlineDisks = Some (Inl err)
     \<Longrightarrow> getObjectWithFileInfo H new loc wr bucket object startOffset len dst fi metaArr onlineDisks
           (dst, None, Some err)"
| gow_run: "plan_get new bucket object startOffset len fi metaArr onlineDisks = Some (Inr gp)
     \<Longrightarrow> get_loop H loc wr (gp_e gp) bucket object fi (gp_meta gp) (gp_len gp) (gp_last gp) (gp_part gp) (gp_off gp) 0
           (gp_disks gp) dst None res
     \<Longrightarrow> getObjectWithFileInfo H new loc wr bucket object startOffset len dst fi metaArr onlineDisks res"

section \<open>Parts\<close>

text \<open>The parts of an object have the contents \<open>datas\<close>; \<open>plen datas k\<close> is where part \<open>k\<close> starts.\<close>

definition plen :: "bytes list \<Rightarrow> nat \<Rightarrow> nat" where
  "plen datas k = length (concat (take k datas))"

lemma plen_simps: "plen datas 0 = 0" "plen (d # ds) (Suc k) = length d + plen ds k"
  by (simp_all add: plen_def)

lemma plen_Suc: "k < length datas \<Longrightarrow> plen datas (Suc k) = plen datas k + length (datas ! k)"
  by (simp add: plen_def take_Suc_conv_app_nth)

lemma plen_mono: "k \<le> m \<Longrightarrow> plen datas k \<le> plen datas m"
proof -
  assume "k \<le> m"
  then have "take m datas = take k datas @ drop k (take m datas)" by (metis append_take_drop_id min.absorb1 take_take)
  then show ?thesis unfolding plen_def by (metis concat_append length_append le_add1)
qed

lemma plen_le: "plen datas k \<le> length (concat datas)"
  unfolding plen_def by (metis append_take_drop_id concat_append length_append le_add1)

lemma part_le: "k < length (datas :: bytes list) \<Longrightarrow> length (datas ! k) \<le> length (concat datas)"
  using plen_Suc [of k datas] plen_le [of datas "Suc k"] by linarith

lemma drop_parts:
  assumes "k < length datas" "off \<le> length (datas ! k)"
  shows "drop (plen datas k + off) (concat datas) = drop off (datas ! k) @ drop (plen datas (Suc k)) (concat datas)"
proof -
  have split: "concat datas = concat (take k datas) @ datas ! k @ concat (drop (Suc k) datas)"
    using assms(1) by (metis id_take_nth_drop concat.simps(2) concat_append)
  have "drop (plen datas (Suc k)) (concat datas) = concat (drop (Suc k) datas)"
    by (simp add: split plen_Suc [OF assms(1)]) (simp add: plen_def)
  moreover have "drop (plen datas k + off) (concat datas) = drop off (datas ! k) @ concat (drop (Suc k) datas)"
    using assms(2) by (simp add: split plen_def)
  ultimately show ?thesis by simp
qed

definition parts_are :: "ObjectPartInfo list \<Rightarrow> bytes list \<Rightarrow> bool" where
  "parts_are ps datas \<longleftrightarrow> list_all2 (\<lambda>p d. p_Size p = int (length d)) ps datas"

lemma part_offset_ok:
  "parts_are ps datas \<Longrightarrow> int (length (concat datas)) < 2 ^ 63 \<Longrightarrow> off < length (concat datas) \<Longrightarrow>
   \<exists>k po. part_offset_from i ps (int off) = Inr (i + k, int po) \<and> k < length datas \<and> off = plen datas k + po
     \<and> po < length (datas ! k)"
proof (induction ps arbitrary: datas i off)
  case (Cons p ps)
  then obtain d ds where datas: "datas = d # ds" "p_Size p = int (length d)" "parts_are ps ds"
    by (cases datas) (auto simp: parts_are_def)
  show ?case
  proof (cases "off < length d")
    case True
    then show ?thesis using datas by (intro exI [of _ 0] exI [of _ off]) (simp add: plen_simps)
  next
    case False
    then have o: "int off - int (length d) = int (off - length d)" by simp
    have "int (off - length d) < 2 ^ 63" using Cons.prems(2,3) by linarith
    then have w: "wrap64 (int off - p_Size p) = int (off - length d)"
      unfolding datas(2) o by (rule wrap64_nat)
    have "off - length d < length (concat ds)" "int (length (concat ds)) < 2 ^ 63"
      using False Cons.prems(2,3) datas(1) by simp_all
    then obtain k po where "part_offset_from (Suc i) ps (int (off - length d)) = Inr (Suc i + k, int po)"
        "k < length ds" "off - length d = plen ds k + po" "po < length (ds ! k)"
      using Cons.IH [OF datas(3)] by blast
    then show ?thesis using datas(1,2) False w
      by (intro exI [of _ "Suc k"] exI [of _ po]) (simp add: plen_simps)
  qed
qed (simp add: parts_are_def)

lemma ObjectToPartOffset_ok:
  assumes "parts_are ps datas" "int (length (concat datas)) < 2 ^ 63" "off < length (concat datas)"
    "\<forall>d\<in>set datas. d \<noteq> []"
  shows "\<exists>k po. ObjectToPartOffset ps (int off) = Inr (k, int po) \<and> k < length datas \<and> off = plen datas k + po
     \<and> po < length (datas ! k)"
proof (cases "off = 0")
  case True
  have "datas \<noteq> []" using assms(3) by auto
  then have "datas ! 0 \<noteq> []" using assms(4) by simp
  then show ?thesis using True \<open>datas \<noteq> []\<close>
    by (intro exI [of _ 0]) (simp add: ObjectToPartOffset_def plen_simps)
next
  case False
  then show ?thesis using part_offset_ok [OF assms(1-3), of 0] by (simp add: ObjectToPartOffset_def)
qed

section \<open>Drives of an object\<close>

text \<open>The segments of a part that a reader for a range has to deliver.\<close>

definition range_segs :: "erasure \<Rightarrow> bytes \<Rightarrow> nat \<Rightarrow> nat \<Rightarrow> bytes list" where
  "range_segs e data j till = take (need e till (length data)) (shard_segs e data j)"

text \<open>The reader of a range of part \<open>k\<close>.\<close>

definition range_reader ::
  "erasure \<Rightarrow> string \<Rightarrow> string \<Rightarrow> FileInfo \<Rightarrow> bytes list \<Rightarrow> nat \<Rightarrow> nat \<Rightarrow> nat \<Rightarrow> storage_api \<Rightarrow> FileInfo \<Rightarrow> bitrot_reader"
  where
  "range_reader e bucket object fi datas k off len d meta =
     part_reader e bucket object (fi_DataDir fi) (p_Number (fi_Parts fi ! k))
       (ShardFileOffset e (int off) (int len) (int (length (datas ! k)))) d meta"

text \<open>What a drive with a valid copy at position \<open>j\<close> gives for every range of every part: what the checksums let
  through is the content of shard \<open>j\<close>, and a good drive delivers all of it.\<close>

definition drive_ok ::
  "hashes \<Rightarrow> erasure \<Rightarrow> string \<Rightarrow> string \<Rightarrow> FileInfo \<Rightarrow> bytes list \<Rightarrow> nat \<Rightarrow> bool \<Rightarrow> storage_api \<Rightarrow> FileInfo \<Rightarrow> bool" where
  "drive_ok H e bucket object fi datas j good d meta \<longleftrightarrow>
     (\<forall>k<length datas. \<forall>off len. off + len \<le> length (datas ! k) \<longrightarrow>
        br_honest H (sS e) (range_reader e bucket object fi datas k off len d meta) (range_segs e (datas ! k) j (off + len)) None
        \<and> (good \<longrightarrow>
          br_intact H (sS e) (range_reader e bucket object fi datas k off len d meta) (range_segs e (datas ! k) j (off + len)) None))"

definition drives_ok ::
  "hashes \<Rightarrow> erasure \<Rightarrow> string \<Rightarrow> string \<Rightarrow> FileInfo \<Rightarrow> bytes list \<Rightarrow> nat set \<Rightarrow> storage_api option list \<Rightarrow> FileInfo list \<Rightarrow> bool"
  where
  "drives_ok H e bucket object fi datas Good ds ms \<longleftrightarrow>
     length ds = dB e + pB e \<and> length ms = dB e + pB e \<and> dB e \<le> card Good
     \<and> (\<forall>j\<in>Good. j < length ds \<and> ds ! j \<noteq> None \<and> IsValid (ms ! j))
     \<and> (\<forall>j<length ds. \<forall>d. ds ! j = Some d \<longrightarrow> IsValid (ms ! j) \<longrightarrow>
          drive_ok H e bucket object fi datas j (j \<in> Good) d (ms ! j))"

lemma part_readers_nth:
  assumes "length ms = length ds" "j < length ds"
  shows "part_readers e bucket object dir n till ds ms ! j = (case ds ! j of None \<Rightarrow> None
     | Some d \<Rightarrow> if IsValid (ms ! j) then Some (part_reader e bucket object dir n till d (ms ! j)) else None)"
  using assms by (simp add: part_readers_def)

lemma part_readers_ok:
  assumes ok: "drives_ok H e bucket object fi datas Good ds ms" and k: "k < length datas"
    and r: "off + len \<le> length (datas ! k)"
  shows "readers_ok (br_honest H (sS e)) (br_intact H (sS e)) e (datas ! k) (need e (off + len) (length (datas ! k))) Good
     (part_readers e bucket object (fi_DataDir fi) (p_Number (fi_Parts fi ! k))
        (ShardFileOffset e (int off) (int len) (int (length (datas ! k)))) ds ms)"
proof -
  define rd where "rd = part_readers e bucket object (fi_DataDir fi) (p_Number (fi_Parts fi ! k))
        (ShardFileOffset e (int off) (int len) (int (length (datas ! k)))) ds ms"
  have l: "length ds = dB e + pB e" "length ms = length ds" using ok by (simp_all add: drives_ok_def)
  have lr: "length rd = dB e + pB e" using l by (simp add: rd_def part_readers_def)
  have nth: "rd ! j = (case ds ! j of None \<Rightarrow> None
     | Some d \<Rightarrow> if IsValid (ms ! j) then Some (range_reader e bucket object fi datas k off len d (ms ! j)) else None)"
    if "j < length ds" for j
    unfolding rd_def range_reader_def by (rule part_readers_nth [OF l(2) that])
  have d: "drive_ok H e bucket object fi datas j (j \<in> Good) d (ms ! j)"
    if "j < length ds" "ds ! j = Some d" "IsValid (ms ! j)" for j d
    using ok that unfolding drives_ok_def by blast
  have rdr: "br_honest H (sS e) r (range_segs e (datas ! k) j (off + len)) None
      \<and> (j \<in> Good \<longrightarrow> br_intact H (sS e) r (range_segs e (datas ! k) j (off + len)) None)"
    if j: "j < length rd" and rj: "rd ! j = Some r" for j r
  proof -
    have j': "j < length ds" using j lr l by simp
    from rj nth [OF j'] obtain x where x: "ds ! j = Some x" "IsValid (ms ! j)"
        "r = range_reader e bucket object fi datas k off len x (ms ! j)"
      by (auto split: option.splits if_splits)
    show ?thesis using d [OF j' x(1,2)] k r unfolding drive_ok_def x(3) by blast
  qed
  have g: "j < length rd \<and> rd ! j \<noteq> None" if "j \<in> Good" for j
  proof -
    have "j < length ds" "ds ! j \<noteq> None" "IsValid (ms ! j)" using ok that unfolding drives_ok_def by blast+
    then show ?thesis using nth [of j] lr l by auto
  qed
  show ?thesis
    unfolding readers_ok_def rd_def [symmetric]
    using lr g rdr by (auto simp: range_segs_def)
qed

lemma drives_ok_drop:
  assumes ok: "drives_ok H e bucket object fi datas Good ds ms" and "length org = length ds" "\<forall>j\<in>Good. org ! j = Some j"
  shows "drives_ok H e bucket object fi datas Good (map2 (\<lambda>d r. if r = None then None else d) ds org) ms"
proof -
  let ?ds = "map2 (\<lambda>d r. if r = None then None else d) ds org"
  have l: "length ?ds = length ds" using assms(2) by simp
  have nth: "?ds ! j = (if org ! j = None then None else ds ! j)" if "j < length ds" for j using that assms(2) by simp
  have "j < length ?ds \<and> ?ds ! j \<noteq> None \<and> IsValid (ms ! j)" if j: "j \<in> Good" for j
  proof -
    have "j < length ds" "ds ! j \<noteq> None" "IsValid (ms ! j)" using ok j unfolding drives_ok_def by blast+
    then show ?thesis using nth [of j] l assms(3) j by simp
  qed
  moreover have "drive_ok H e bucket object fi datas j (j \<in> Good) d (ms ! j)"
    if j: "j < length ?ds" "?ds ! j = Some d" "IsValid (ms ! j)" for j d
  proof -
    have "j < length ds" using j(1) l by simp
    moreover from this have "(if org ! j = None then None else ds ! j) = Some d" using nth [of j] j(2) by metis
    then have "ds ! j = Some d" by (cases "org ! j") simp_all
    ultimately show ?thesis using ok j(3) unfolding drives_ok_def by blast
  qed
  moreover have "length ds = dB e + pB e" "length ms = dB e + pB e" "dB e \<le> card Good" using ok by (simp_all add: drives_ok_def)
  ultimately show ?thesis using l unfolding drives_ok_def by metis
qed

text \<open>All drives are local, or none is.\<close>

definition same_place :: "(storage_api \<Rightarrow> bool) \<Rightarrow> storage_api option list \<Rightarrow> bool" where
  "same_place loc ds \<longleftrightarrow> (\<forall>d. Some d \<in> set ds \<longrightarrow> loc d) \<or> (\<forall>d. Some d \<in> set ds \<longrightarrow> \<not> loc d)"

lemma same_place_drop:
  "same_place loc ds \<Longrightarrow> same_place loc (map2 (\<lambda>d r. if r = None then None else d) ds org)"
  by (auto simp: same_place_def set_zip split: if_splits dest!: nth_mem)

lemma part_prefer_ok:
  assumes "same_place loc ds" "length ms = length ds"
  shows "prefer_ok (part_readers e bucket object dir n till ds ms) (part_prefer loc ds ms)"
proof -
  have p: "part_prefer loc ds ms ! j \<longleftrightarrow> (\<exists>d. ds ! j = Some d \<and> IsValid (ms ! j) \<and> loc d)" if "j < length ds" for j
    using that assms(2) by (simp add: part_prefer_def split: option.splits)
  have lp: "length (part_prefer loc ds ms) = length ds" "length (part_readers e bucket object dir n till ds ms) = length ds"
    using assms(2) by (simp_all add: part_prefer_def part_readers_def)
  from assms(1) consider "\<forall>d. Some d \<in> set ds \<longrightarrow> loc d" | "\<forall>d. Some d \<in> set ds \<longrightarrow> \<not> loc d"
    unfolding same_place_def by blast
  then show ?thesis
  proof cases
    case 1
    have "part_prefer loc ds ms ! j"
      if j: "j < length ds" and r: "part_readers e bucket object dir n till ds ms ! j \<noteq> None" for j
    proof -
      obtain d where d: "ds ! j = Some d" "IsValid (ms ! j)"
        using r part_readers_nth [OF assms(2) j] by (auto split: option.splits if_splits)
      then have "loc d" using 1 j nth_mem by metis
      then show ?thesis using p [OF j] d by blast
    qed
    then show ?thesis using lp unfolding prefer_ok_def by simp
  next
    case 2
    have "\<not> part_prefer loc ds ms ! j" if "j < length ds" for j using p [OF that] 2 that nth_mem by metis
    then have "\<forall>x\<in>set (part_prefer loc ds ms). \<not> x" using lp by (metis in_set_conv_nth)
    then show ?thesis unfolding prefer_ok_def by blast
  qed
qed

section \<open>The loop over the parts\<close>

text \<open>The object and its drives, as far as the loop does not change them.\<close>

definition object_ok :: "erasure \<Rightarrow> FileInfo \<Rightarrow> bytes list \<Rightarrow> bool" where
  "object_ok e fi datas \<longleftrightarrow>
     wf_erasure e \<and> rs_ok (encoder e) (dB e) (pB e) \<and> parts_are (fi_Parts fi) datas
     \<and> int (length (concat datas)) + int (bS e) < 2 ^ 63"

text \<open>The loop is at offset \<open>po\<close> of part \<open>k\<close> with \<open>n\<close> bytes to go, which end in part \<open>last\<close>.\<close>

definition at_pos :: "bytes list \<Rightarrow> nat \<Rightarrow> nat \<Rightarrow> nat \<Rightarrow> nat \<Rightarrow> bool" where
  "at_pos datas lst k po n \<longleftrightarrow>
     lst < length datas \<and> plen datas k + po + n \<le> plen datas (Suc lst) \<and> (k \<le> lst \<longrightarrow> po \<le> length (datas ! k))"

lemma at_pos_next:
  assumes "at_pos datas lst k po n" "k \<le> lst" and m: "m = min (length (datas ! k) - po) n"
  shows "at_pos datas lst (Suc k) 0 (n - m)" and "m \<le> length (datas ! k) - po" and "m \<le> n"
    and "take n (drop (plen datas k + po) (concat datas)) = take m (drop po (datas ! k))
       @ take (n - m) (drop (plen datas (Suc k)) (concat datas))"
proof -
  have k: "k < length datas" "po \<le> length (datas ! k)" using assms by (auto simp: at_pos_def)
  show "m \<le> length (datas ! k) - po" "m \<le> n" by (simp_all add: m)
  have "plen datas (Suc k) + (n - m) \<le> plen datas (Suc lst)"
    using assms k plen_Suc [OF k(1)] plen_mono [of "Suc k" "Suc lst" datas] by (auto simp: at_pos_def min_def)
  then show "at_pos datas lst (Suc k) 0 (n - m)" using assms(1) by (simp add: at_pos_def)
  show "take n (drop (plen datas k + po) (concat datas)) = take m (drop po (datas ! k))
       @ take (n - m) (drop (plen datas (Suc k)) (concat datas))"
    unfolding drop_parts [OF k] m by (cases "length (datas ! k) - po \<le> n") (simp_all add: min_def)
qed

lemma part_length_ok:
  assumes "object_ok e fi datas" "at_pos datas lst k po (len - t)" "k \<le> lst" "t \<le> len" "int len < 2 ^ 63"
    and m: "m = min (length (datas ! k) - po) (len - t)"
  shows "part_length (fi_Parts fi ! k) (int po) (int len) (int t) = int m"
    and "p_Size (fi_Parts fi ! k) = int (length (datas ! k))" and "k < length (fi_Parts fi)"
proof -
  have k: "k < length datas" "po \<le> length (datas ! k)" using assms(2,3) by (auto simp: at_pos_def)
  have p: "length (fi_Parts fi) = length datas" "p_Size (fi_Parts fi ! k) = int (length (datas ! k))"
    using assms(1) k(1) by (auto simp: object_ok_def parts_are_def list_all2_conv_all_nth)
  show "p_Size (fi_Parts fi ! k) = int (length (datas ! k))" "k < length (fi_Parts fi)" using p k(1) by simp_all
  have "int (length (datas ! k)) < 2 ^ 63" using part_le [OF k(1)] assms(1) unfolding object_ok_def by linarith
  then have b: "int (length (datas ! k) - po) < 2 ^ 63" "int (len - t) < 2 ^ 63" using assms(5) by linarith+
  have s: "int (length (datas ! k)) - int po = int (length (datas ! k) - po)" "int len - int t = int (len - t)"
    using k(2) assms(4) by simp_all
  show "part_length (fi_Parts fi ! k) (int po) (int len) (int t) = int m"
    unfolding m part_length_def Let_def p(2) s wrap64_nat [OF b(1)] wrap64_nat [OF b(2)] by (simp add: min_def)
qed

lemma left_error_healed: "err \<in> heal_errors \<Longrightarrow> left_error w w err = None"
  by (auto simp: heal_errors_def left_error_def heal_scan_def)

text \<open>One part: whatever \<open>Decode\<close> answers, the bytes of the range in this part are written, no error is left and
  the good drives are still there.\<close>

lemma get_part:
  assumes o: "object_ok e fi datas" and d: "drives_ok H e bucket object fi datas Good ds ms" and sp: "same_place loc ds"
    and k: "k < length datas" and m: "m \<le> length (datas ! k) - po" "po \<le> length (datas ! k)"
    and rd_def: "rd = part_readers e bucket object (fi_DataDir fi) (p_Number (fi_Parts fi ! k))
       (ShardFileOffset e (int po) (int m) (int (length (datas ! k)))) ds ms"
  shows "\<exists>ans. Decode (ReadAt H) buffer_Write e dst rd (int po) (int m) (int (length (datas ! k))) (part_prefer loc ds ms) ans"
    and "Decode (ReadAt H) buffer_Write e dst rd (int po) (int m) (int (length (datas ! k))) (part_prefer loc ds ms)
       (org, dst', w, err) \<Longrightarrow>
     dst' = dst @ take m (drop po (datas ! k)) \<and> left_error w (int m) err = None \<and> w = int m
       \<and> drives_ok H e bucket object fi datas Good (map2 (\<lambda>d r. if r = None then None else d) ds org) ms"
proof -
  have wf: "wf_erasure e" and rs: "rs_ok (encoder e) (dB e) (pB e)" using o by (simp_all add: object_ok_def)
  have b: "int (length (datas ! k)) + int (bS e) < 2 ^ 63" using part_le [OF k] o unfolding object_ok_def by linarith
  have r: "po + m \<le> length (datas ! k)" using m by linarith
  have ro: "readers_ok (br_honest H (sS e)) (br_intact H (sS e)) e (datas ! k) (need e (po + m) (length (datas ! k))) Good rd"
    unfolding rd_def by (rule part_readers_ok [OF d k r])
  have g: "dB e \<le> card Good" and l: "length ms = length ds" using d by (simp_all add: drives_ok_def)
  have pf: "prefer_ok rd (part_prefer loc ds ms)" unfolding rd_def by (rule part_prefer_ok [OF sp l])
  have lr: "length rd = length ds" using l by (simp add: rd_def part_readers_def)
  show "\<exists>ans. Decode (ReadAt H) buffer_Write e dst rd (int po) (int m) (int (length (datas ! k))) (part_prefer loc ds ms) ans"
    by (rule shards.Decode_exists [OF wf rs refl b r ro g pf])
  assume "Decode (ReadAt H) buffer_Write e dst rd (int po) (int m) (int (length (datas ! k))) (part_prefer loc ds ms)
       (org, dst', w, err)"
  from shards.Decode_ok [OF wf rs refl b r ro g pf this]
  show "dst' = dst @ take m (drop po (datas ! k)) \<and> left_error w (int m) err = None \<and> w = int m
       \<and> drives_ok H e bucket object fi datas Good (map2 (\<lambda>d r. if r = None then None else d) ds org) ms"
    using left_error_healed drives_ok_drop [OF d] lr by auto
qed

lemma get_loop_ok:
  assumes "get_loop H loc buffer_Write e bucket object fi ms (int len) lst k po' t' ds dst once res"
    and "object_ok e fi datas" and "int len < 2 ^ 63"
    and "po' = int po" "t' = int t" "t \<le> len" "at_pos datas lst k po (len - t)"
    and "drives_ok H e bucket object fi datas Good ds ms" "same_place loc ds"
  shows "fst res = dst @ take (len - t) (drop (plen datas k + po) (concat datas)) \<and> snd (snd res) = None"
  using assms
proof (induction arbitrary: po t rule: get_loop.induct)
  case (gl_end partIndex totalBytesRead partOffset disks dst once)
  have "len - t = 0"
  proof (cases "lst < partIndex")
    case True
    then have "plen datas (Suc lst) \<le> plen datas partIndex" by (intro plen_mono) simp
    then show ?thesis using gl_end.prems(6) unfolding at_pos_def by linarith
  qed (use gl_end in simp)
  then show ?case by simp
next
  case (gl_fail partIndex totalBytesRead part partLength partOffset tillOffset dst disks org dst' written err err' once)
  define m where "m = min (length (datas ! partIndex) - po) (len - t)"
  note pl = part_length_ok [OF gl_fail.prems(1,6) gl_fail.hyps(1) gl_fail.prems(5,2) m_def]
  note np = at_pos_next [OF gl_fail.prems(6) gl_fail.hyps(1) m_def]
  have k: "partIndex < length datas" "po \<le> length (datas ! partIndex)"
    using gl_fail.prems(6) gl_fail.hyps(1) by (auto simp: at_pos_def)
  have pm: "partLength = int m" unfolding gl_fail.hyps(5,4) gl_fail.prems(3,4) by (rule pl(1))
  note dec = gl_fail.hyps(7) [unfolded gl_fail.hyps(6) pm gl_fail.prems(3) gl_fail.hyps(4) pl(2)]
  have "left_error written partLength err = None"
    unfolding pm using get_part(2) [OF gl_fail.prems(1,7,8) k(1) np(2) k(2) refl dec] by (rule conjunct1 [OF conjunct2])
  then show ?case using gl_fail.hyps(8) by simp
next
  case (gl_next partIndex totalBytesRead part partLength partOffset tillOffset dst disks org dst' written err once res)
  define m where "m = min (length (datas ! partIndex) - po) (len - t)"
  note pl = part_length_ok [OF gl_next.prems(1,6) gl_next.hyps(1) gl_next.prems(5,2) m_def]
  note np = at_pos_next [OF gl_next.prems(6) gl_next.hyps(1) m_def]
  have k: "partIndex < length datas" "po \<le> length (datas ! partIndex)"
    using gl_next.prems(6) gl_next.hyps(1) by (auto simp: at_pos_def)
  have pm: "partLength = int m" unfolding gl_next.hyps(5,4) gl_next.prems(3,4) by (rule pl(1))
  note dec = gl_next.hyps(7) [unfolded gl_next.hyps(6) pm gl_next.prems(3) gl_next.hyps(4) pl(2)]
  note gp = get_part(2) [OF gl_next.prems(1,7,8) k(1) np(2) k(2) refl dec]
  have d': "drives_ok H e bucket object fi datas Good (map2 (\<lambda>d r. if r = None then None else d) disks org) ms"
    using gp by blast
  have tm: "t + m \<le> len" "len - (t + m) = len - t - m" using gl_next.prems(5) np(3) by linarith+
  then have "int (t + m) < 2 ^ 63" using gl_next.prems(2) by linarith
  then have w: "wrap64 (totalBytesRead + partLength) = int (t + m)"
    unfolding pm gl_next.prems(4) of_nat_add [symmetric] by (rule wrap64_nat)
  have z: "(0 :: int) = int 0" by simp
  have ap: "at_pos datas lst (Suc partIndex) 0 (len - (t + m))" unfolding tm(2) by (rule np(1))
  have "fst res = dst' @ take (len - (t + m)) (drop (plen datas (Suc partIndex) + 0) (concat datas)) \<and> snd (snd res) = None"
    by (rule gl_next.IH [OF gl_next.prems(1,2) z w tm(1) ap d' same_place_drop [OF gl_next.prems(8)]])
  then show ?case using gp unfolding np(4) tm(2) by simp
qed

lemma get_loop_exists:
  assumes "object_ok e fi datas" and "int len < 2 ^ 63" "t \<le> len" "at_pos datas lst k po (len - t)"
    and "drives_ok H e bucket object fi datas Good ds ms" "same_place loc ds"
  shows "\<exists>res. get_loop H loc buffer_Write e bucket object fi ms (int len) lst k (int po) (int t) ds dst once res"
  using assms
proof (induction "Suc lst - k" arbitrary: k po t ds dst once)
  case 0
  then have "get_loop H loc buffer_Write e bucket object fi ms (int len) lst k (int po) (int t) ds dst once (dst, once, None)"
    by (intro gl_end) simp
  then show ?case by blast
next
  case (Suc x)
  show ?case
  proof (cases "len = t")
    case True
    then have "get_loop H loc buffer_Write e bucket object fi ms (int len) lst k (int po) (int t) ds dst once (dst, once, None)"
      by (intro gl_end) simp
    then show ?thesis by blast
  next
    case False
    define m where "m = min (length (datas ! k) - po) (len - t)"
    have kl: "k \<le> lst" using Suc.hyps(2) by simp
    note pl = part_length_ok [OF Suc.prems(1,4) kl Suc.prems(3,2) m_def]
    note np = at_pos_next [OF Suc.prems(4) kl m_def]
    have k: "k < length datas" "po \<le> length (datas ! k)" using Suc.prems(4) kl by (auto simp: at_pos_def)
    note gp = get_part [OF Suc.prems(1,5,6) k(1) np(2) k(2) refl]
    obtain org dst' w err where dec: "Decode (ReadAt H) buffer_Write e dst
        (part_readers e bucket object (fi_DataDir fi) (p_Number (fi_Parts fi ! k))
           (ShardFileOffset e (int po) (int m) (int (length (datas ! k)))) ds ms)
        (int po) (int m) (int (length (datas ! k))) (part_prefer loc ds ms) (org, dst', w, err)"
      using gp(1) by (metis prod_cases4)
    note ok = gp(2) [OF dec]
    have tm: "t + m \<le> len" "len - (t + m) = len - t - m" using Suc.prems(3) np(3) by linarith+
    then have "int (t + m) < 2 ^ 63" using Suc.prems(2) by linarith
    then have wr: "wrap64 (int t + int m) = int (t + m)" unfolding of_nat_add [symmetric] by (rule wrap64_nat)
    have x: "x = Suc lst - Suc k" using Suc.hyps(2) by simp
    have ap: "at_pos datas lst (Suc k) 0 (len - (t + m))" unfolding tm(2) by (rule np(1))
    have d': "drives_ok H e bucket object fi datas Good (map2 (\<lambda>d r. if r = None then None else d) ds org) ms"
      using ok by blast
    obtain res where lp: "get_loop H loc buffer_Write e bucket object fi ms (int len) lst (Suc k) (int 0) (int (t + m))
        (map2 (\<lambda>d r. if r = None then None else d) ds org) dst' (heal_once once err) res"
      using Suc.hyps(1) [OF x Suc.prems(1,2) tm(1) ap d' same_place_drop [OF Suc.prems(6)]] by blast
    have le: "left_error w (int m) err = None" using ok by blast
    have "int len \<noteq> int t" using False by simp
    then have "get_loop H loc buffer_Write e bucket object fi ms (int len) lst k (int po) (int t) ds dst once res"
      by (rule gl_next [OF kl _ pl(3) refl refl refl])
        (use dec le lp [simplified] in \<open>simp_all only: pl(1,2) wr of_nat_add\<close>)
    then show ?thesis by blast
  qed
qed

section \<open>From the drives of the set to the shards\<close>

definition spot :: "int list \<Rightarrow> nat \<Rightarrow> nat" where
  "spot dist i = nat (dist ! i - 1)"

lemma spot_bij:
  assumes "dist_ok dist"
  shows "bij_betw (spot dist) {..<length dist} {..<length dist}"
proof -
  have d: "distinct dist" "set dist = {1..int (length dist)}" using assms by (simp_all add: dist_ok_def)
  have r: "1 \<le> dist ! i \<and> dist ! i \<le> int (length dist)" if "i < length dist" for i
    using nth_mem [OF that] d(2) by auto
  have inj: "inj_on (spot dist) {..<length dist}"
  proof (rule inj_onI)
    fix i j assume ij: "i \<in> {..<length dist}" "j \<in> {..<length dist}" "spot dist i = spot dist j"
    then have "dist ! i = dist ! j" using r [of i] r [of j] unfolding spot_def by auto
    then show "i = j" using ij d(1) by (simp add: nth_eq_iff_index_eq)
  qed
  have sub: "spot dist ` {..<length dist} \<subseteq> {..<length dist}"
  proof (rule image_subsetI)
    fix i assume "i \<in> {..<length dist}"
    then show "spot dist i \<in> {..<length dist}" using r [of i] by (simp add: spot_def) linarith
  qed
  have "card (spot dist ` {..<length dist}) = card {..<length dist}" using inj by (rule card_image)
  then have "spot dist ` {..<length dist} = {..<length dist}" using sub by (intro card_subset_eq) simp_all
  then show ?thesis using inj by (simp add: bij_betw_def)
qed

lemma shuffled_drives_ok:
  assumes dist: "dist_ok dist" "length dist = length disks" "length disks = dB e + pB e"
    and sh: "shuffled disks metaArr dist (good_copy disks metaArr fi) (ds, ms)"
    and good: "Good \<subseteq> {i. i < length disks \<and> good_copy disks metaArr fi i}" "dB e \<le> card Good"
    and drv: "\<And>i d. i < length disks \<Longrightarrow> disks ! i = Some d \<Longrightarrow> IsValid (metaArr ! i)
       \<Longrightarrow> drive_ok H e bucket object fi datas (spot dist i) (i \<in> Good) d (metaArr ! i)"
  shows "drives_ok H e bucket object fi datas (spot dist ` Good) ds ms" and "same_place loc disks \<Longrightarrow> same_place loc ds"
proof -
  note bij = spot_bij [OF dist(1)]
  have l: "length ds = length disks" "length ms = length disks" using sh by (simp_all add: shuffled_def)
  have pos: "ds ! spot dist i = disks ! i \<and> ms ! spot dist i = metaArr ! i
      \<or> \<not> good_copy disks metaArr fi i \<and> ds ! spot dist i = None" if "i < length disks" for i
    using sh that unfolding shuffled_def spot_def by auto
  have inv: "\<exists>i<length disks. j = spot dist i" if "j < length disks" for j
    using bij that dist(2) by (auto simp: bij_betw_def image_iff set_eq_iff)
  have inj: "inj_on (spot dist) {..<length disks}" using bij dist(2) by (simp add: bij_betw_def)
  have sub: "Good \<subseteq> {..<length disks}" using good(1) by auto
  have mem: "spot dist i \<in> spot dist ` Good \<longleftrightarrow> i \<in> Good" if "i < length disks" for i
    using inj_on_image_mem_iff [OF inj _ sub, of i] that by simp
  have card: "card (spot dist ` Good) = card Good" using inj_on_subset [OF inj sub] by (rule card_image)
  have "j < length ds \<and> ds ! j \<noteq> None \<and> IsValid (ms ! j)" if "j \<in> spot dist ` Good" for j
  proof -
    from that obtain i where i: "i \<in> Good" "j = spot dist i" by blast
    then have gi: "i < length disks" "good_copy disks metaArr fi i" using good(1) by auto
    have "j < length disks" using bij gi(1) dist(2) i(2) by (auto simp: bij_betw_def)
    moreover have "disks ! i \<noteq> None" "IsValid (metaArr ! i)"
      using gi(2) by (simp_all add: good_copy_def keeps_index_def skip_meta_def)
    ultimately show ?thesis using pos [OF gi(1)] gi(2) i(2) l(1) by simp
  qed
  moreover have "drive_ok H e bucket object fi datas j (j \<in> spot dist ` Good) d (ms ! j)"
    if j: "j < length ds" "ds ! j = Some d" "IsValid (ms ! j)" for j d
  proof -
    obtain i where i: "i < length disks" "j = spot dist i" using inv j(1) l(1) by auto
    then have "disks ! i = Some d" "ms ! j = metaArr ! i" using pos [OF i(1)] j(2) by auto
    then show ?thesis using drv [OF i(1)] j(3) mem [OF i(1)] i(2) by simp
  qed
  ultimately show "drives_ok H e bucket object fi datas (spot dist ` Good) ds ms"
    using l dist(3) good(2) card unfolding drives_ok_def by auto
  have "Some d \<in> set disks" if "Some d \<in> set ds" for d
  proof -
    from that obtain j where j: "j < length ds" "ds ! j = Some d" by (metis in_set_conv_nth)
    then obtain i where i: "i < length disks" "j = spot dist i" using inv l(1) by auto
    then have "disks ! i = Some d" using pos [OF i(1)] j(2) by auto
    then show ?thesis using i(1) nth_mem by metis
  qed
  then show "same_place loc disks \<Longrightarrow> same_place loc ds" unfolding same_place_def by blast
qed

text \<open>A drive that has the files of shard \<open>j\<close>, or the only one of them with its metadata.\<close>

definition holds_shards ::
  "hashes \<Rightarrow> erasure \<Rightarrow> string \<Rightarrow> string \<Rightarrow> FileInfo \<Rightarrow> bytes list \<Rightarrow> nat \<Rightarrow> storage_api \<Rightarrow> FileInfo \<Rightarrow> bool" where
  "holds_shards H e bucket object fi datas j d meta \<longleftrightarrow>
     (\<forall>k<length datas.
        c_Algorithm (GetChecksumInfo (ei_Checksums (fi_Erasure meta)) (p_Number (fi_Parts fi ! k))) = HighwayHash256S
        \<and> (let f = bitrot_file H HighwayHash256S (shard_segs e (datas ! k) j)
           in fi_Data meta = []
                \<and> holds_file d bucket
                    (pathJoin [object, fi_DataDir fi, ''part.'' @ show_int (p_Number (fi_Parts fi ! k))]) f
              \<or> fi_Data meta = f \<and> f \<noteq> []))"

lemma holds_shards_ok:
  assumes o: "object_ok e fi datas" and H: "hashes_ok H" and j: "j < dB e + pB e"
    and b: "\<forall>k<length datas. int (nblk e (length (datas ! k)) * 32 + sF e (length (datas ! k))) < 2 ^ 63"
    and h: "holds_shards H e bucket object fi datas j d meta"
  shows "drive_ok H e bucket object fi datas j good d meta"
proof -
  have wf: "wf_erasure e" and rs: "rs_ok (encoder e) (dB e) (pB e)" using o by (simp_all add: object_ok_def)
  have "br_intact H (sS e) (range_reader e bucket object fi datas k off len d meta) (range_segs e (datas ! k) j (off + len)) None
      \<and> br_honest H (sS e) (range_reader e bucket object fi datas k off len d meta) (range_segs e (datas ! k) j (off + len)) None"
    if k: "k < length datas" and r: "off + len \<le> length (datas ! k)" for k off len
  proof -
    have b1: "int (length (datas ! k)) + int (bS e) < 2 ^ 63" using part_le [OF k] o unfolding object_ok_def by linarith
    have b2: "int (length (bitrot_file H HighwayHash256S (shard_segs e (datas ! k) j))) < 2 ^ 63"
      using b k shard_file_length [OF wf rs H j, of HighwayHash256S "datas ! k"] by simp
    define path where "path = pathJoin [object, fi_DataDir fi, ''part.'' @ show_int (p_Number (fi_Parts fi ! k))]"
    have a: "c_Algorithm (GetChecksumInfo (ei_Checksums (fi_Erasure meta)) (p_Number (fi_Parts fi ! k))) = HighwayHash256S"
      and src: "fi_Data meta = [] \<and> holds_file d bucket path (bitrot_file H HighwayHash256S (shard_segs e (datas ! k) j))
          \<or> fi_Data meta = bitrot_file H HighwayHash256S (shard_segs e (datas ! k) j) \<and> fi_Data meta \<noteq> []"
      using h k unfolding holds_shards_def Let_def path_def by auto
    show ?thesis
      by (rule shard_reader_intact [OF wf rs H b1 b2 r j src, where
            sm = "c_Hash (GetChecksumInfo (ei_Checksums (fi_Erasure meta)) (p_Number (fi_Parts fi ! k)))"])
        (simp_all add: range_reader_def part_reader_def Let_def a path_def range_segs_def)
  qed
  then show ?thesis unfolding drive_ok_def by blast
qed

section \<open>The object is read\<close>

text \<open>The chosen metadata describes an object with the contents \<open>datas\<close>, encoded with \<open>e\<close> for as many drives as
  there are.\<close>

definition describes :: "(int \<Rightarrow> int \<Rightarrow> rs_codec) \<Rightarrow> erasure \<Rightarrow> FileInfo \<Rightarrow> bytes list \<Rightarrow> nat \<Rightarrow> bool" where
  "describes new e fi datas n \<longleftrightarrow>
     NewErasure new (ei_DataBlocks (fi_Erasure fi)) (ei_ParityBlocks (fi_Erasure fi)) (ei_BlockSize (fi_Erasure fi)) = Inr e
     \<and> object_ok e fi datas \<and> fi_Size fi = int (length (concat datas)) \<and> list_all (\<lambda>d. d \<noteq> []) datas
     \<and> dB e + pB e = n \<and> length (ei_Distribution (fi_Erasure fi)) = n \<and> dist_ok (ei_Distribution (fi_Erasure fi))"

text \<open>The length asked for: a negative one stands for all the rest.\<close>

definition asks :: "int \<Rightarrow> nat \<Rightarrow> nat \<Rightarrow> nat \<Rightarrow> bool" where
  "asks len start n tot \<longleftrightarrow> 0 < n \<and> start + n \<le> tot \<and> (len = int n \<or> len < 0 \<and> start + n = tot)"

lemma plan_get_ok:
  assumes d: "describes new e fi datas (length disks)" and l: "length metaArr = length disks"
    and a: "asks len start n (length (concat datas))"
    and sh: "shuffleDisksAndPartsMetadataByIndex disks metaArr fi = Some (ds, ms)"
  shows "\<exists>k po lst. plan_get new bucket object (int start) len fi metaArr disks
       = Some (Inr \<lparr>gp_e = e, gp_disks = ds, gp_meta = ms, gp_len = int n, gp_part = k, gp_off = int po, gp_last = lst\<rparr>)
     \<and> plen datas k + po = start \<and> at_pos datas lst k po n"
proof -
  let ?L = "length (concat datas)"
  have ps: "parts_are (fi_Parts fi) datas" and b: "int ?L < 2 ^ 63" and ne: "\<forall>d\<in>set datas. d \<noteq> []"
    and sz: "fi_Size fi = int ?L"
    using d by (auto simp: describes_def object_ok_def list_all_iff)
  have sn: "0 < n" "start + n \<le> ?L" using a by (simp_all add: asks_def)
  have len': "(if len < 0 then wrap64 (fi_Size fi - int start) else len) = int n"
  proof (cases "len < 0")
    case True
    then have "int ?L - int start = int n" using a by (auto simp: asks_def)
    moreover have "int n < 2 ^ 63" using sn b by linarith
    ultimately show ?thesis using True wrap64_nat [of n] sz by simp
  qed (use a in \<open>auto simp: asks_def\<close>)
  have w1: "wrap64 (int start + int n) = int (start + n)"
    unfolding of_nat_add [symmetric] by (rule wrap64_nat) (use sn b in linarith)
  have i1: "int n - 1 = int (n - 1)" "int start + int (n - 1) = int (start + n - 1)" using sn by simp_all
  have "int (n - 1) < 2 ^ 63" "int (start + n - 1) < 2 ^ 63" using sn b by linarith+
  then have w2: "wrap64 (int start + wrap64 (int n - 1)) = int (start + n - 1)"
    unfolding i1(1) by (simp only: wrap64_nat i1(2))
  define en where "en = start + n - 1"
  have "start < ?L" "en < ?L" using sn unfolding en_def by linarith+
  obtain k po where k: "ObjectToPartOffset (fi_Parts fi) (int start) = Inr (k, int po)" "k < length datas"
      "start = plen datas k + po" "po < length (datas ! k)"
    using ObjectToPartOffset_ok [OF ps b \<open>start < ?L\<close> ne] by blast
  obtain lst lo where lst: "ObjectToPartOffset (fi_Parts fi) (int en) = Inr (lst, int lo)" "lst < length datas"
      "en = plen datas lst + lo" "lo < length (datas ! lst)"
    using ObjectToPartOffset_ok [OF ps b \<open>en < ?L\<close> ne] by blast
  have "plen datas k + po + n \<le> plen datas (Suc lst)" using plen_Suc [OF lst(2)] lst(3,4) k(3) sn unfolding en_def by linarith
  then have at: "at_pos datas lst k po n" using lst(2) k(4) by (simp add: at_pos_def)
  have new: "NewErasure new (ei_DataBlocks (fi_Erasure fi)) (ei_ParityBlocks (fi_Erasure fi)) (ei_BlockSize (fi_Erasure fi)) = Inr e"
    using d by (simp add: describes_def)
  have "plan_get new bucket object (int start) len fi metaArr disks
       = Some (Inr \<lparr>gp_e = e, gp_disks = ds, gp_meta = ms, gp_len = int n, gp_part = k, gp_off = int po, gp_last = lst\<rparr>)"
    unfolding plan_get_def sh option.case prod.case Let_def len' w1 w2 en_def [symmetric]
    using sn k(1) lst(1) new sz by simp
  then show ?thesis using at k(3) by blast
qed

lemma get_range:
  assumes "describes new e fi datas (length disks)" and "length metaArr = length disks" and "hashes_ok H"
    and "\<forall>k<length datas. int (nblk e (length (datas ! k)) * 32 + sF e (length (datas ! k))) < 2 ^ 63"
    and "asks len start n (length (concat datas))"
    and "Good \<subseteq> {i. i < length disks \<and> good_copy disks metaArr fi i}" and "dB e \<le> card Good"
    and "\<forall>i\<in>Good. \<forall>d. disks ! i = Some d
       \<longrightarrow> holds_shards H e bucket object fi datas (spot (ei_Distribution (fi_Erasure fi)) i) d (metaArr ! i)"
    and "\<forall>i<length disks. i \<notin> Good \<longrightarrow> (\<forall>d. disks ! i = Some d \<longrightarrow> IsValid (metaArr ! i)
       \<longrightarrow> drive_ok H e bucket object fi datas (spot (ei_Distribution (fi_Erasure fi)) i) False d (metaArr ! i))"
    and "same_place loc disks"
  shows "(\<exists>ans. getObjectWithFileInfo H new loc buffer_Write bucket object (int start) len dst fi metaArr disks ans)
     \<and> (\<forall>dst' once err. getObjectWithFileInfo H new loc buffer_Write bucket object (int start) len dst fi metaArr disks
            (dst', once, err)
          \<longrightarrow> dst' = dst @ take n (drop start (concat datas)) \<and> err = None)"
proof -
  let ?dist = "ei_Distribution (fi_Erasure fi)"
  have dist: "dist_ok ?dist" "length ?dist = length disks" "length disks = dB e + pB e" and o: "object_ok e fi datas"
    using assms(1) by (simp_all add: describes_def)
  obtain ds ms where sh: "shuffleDisksAndPartsMetadataByIndex disks metaArr fi = Some (ds, ms)"
      "shuffled disks metaArr ?dist (good_copy disks metaArr fi) (ds, ms)"
    using shuffleByIndex_ok [OF dist(1,2) assms(2)] by auto
  have drv: "drive_ok H e bucket object fi datas (spot ?dist i) (i \<in> Good) d (metaArr ! i)"
    if i: "i < length disks" "disks ! i = Some d" "IsValid (metaArr ! i)" for i d
  proof (cases "i \<in> Good")
    case True
    have "spot ?dist i < dB e + pB e" using spot_bij [OF dist(1)] dist(2,3) i(1) by (auto simp: bij_betw_def)
    then show ?thesis using holds_shards_ok [OF o assms(3) _ assms(4)] assms(8) True i(2) by blast
  qed (use assms(9) i in auto)
  note dok = shuffled_drives_ok [OF dist sh(2) assms(6,7) drv]
  have sp: "same_place loc ds" by (rule dok(2)) (use assms(10) in blast)+
  have dr: "drives_ok H e bucket object fi datas (spot ?dist ` Good) ds ms" by (rule dok(1))
  obtain k po lst where plan: "plan_get new bucket object (int start) len fi metaArr disks
       = Some (Inr \<lparr>gp_e = e, gp_disks = ds, gp_meta = ms, gp_len = int n, gp_part = k, gp_off = int po, gp_last = lst\<rparr>)"
      and pos: "plen datas k + po = start" "at_pos datas lst k po n"
    using plan_get_ok [OF assms(1,2,5) sh(1)] by blast
  have b: "int n < 2 ^ 63" using assms(5) o unfolding asks_def object_ok_def by linarith
  have at: "at_pos datas lst k po (n - 0)" using pos(2) by simp
  obtain res where "get_loop H loc buffer_Write e bucket object fi ms (int n) lst k (int po) (int 0) ds dst None res"
    using get_loop_exists [OF o b le0 at dr sp] by blast
  then have "getObjectWithFileInfo H new loc buffer_Write bucket object (int start) len dst fi metaArr disks res"
    by (intro gow_run [OF plan]) simp
  moreover have "dst' = dst @ take n (drop start (concat datas)) \<and> err = None"
    if "getObjectWithFileInfo H new loc buffer_Write bucket object (int start) len dst fi metaArr disks (dst', once, err)"
    for dst' once err
    using that
  proof cases
    case (gow_run gp)
    have gp: "gp = \<lparr>gp_e = e, gp_disks = ds, gp_meta = ms, gp_len = int n, gp_part = k, gp_off = int po, gp_last = lst\<rparr>"
      using plan gow_run(1) by simp
    have "get_loop H loc buffer_Write e bucket object fi ms (int n) lst k (int po) 0 ds dst None (dst', once, err)"
      using gow_run(2) unfolding gp by simp
    from get_loop_ok [OF this o b refl _ le0 at dr sp] show ?thesis using pos(1) by simp
  qed (use plan in simp)
  ultimately show ?thesis by blast
qed

text \<open>C4. Reading a range of an object. The chosen metadata describes the object; the drives in \<open>Good\<close>, at least
  as many as there are data shards, answered with copies that agree with it and hold the shard files of all
  parts; the other drives may be gone, have other metadata or damaged files, as long as the checksums detect the
  damage. Then the read ends without an error, and it has written exactly the bytes of the range, across the
  boundaries of parts and whichever drives answer first. The drives are all local or all remote.\<close>

theorem getObject_range:
  assumes "describes new e fi datas (length disks)" and "length metaArr = length disks" and "hashes_ok H"
    and "\<forall>k<length datas. int (nblk e (length (datas ! k)) * 32 + sF e (length (datas ! k))) < 2 ^ 63"
    and "asks len start n (length (concat datas))"
    and "Good \<subseteq> {i. i < length disks \<and> good_copy disks metaArr fi i}" and "dB e \<le> card Good"
    and "\<forall>i\<in>Good. \<forall>d. disks ! i = Some d
       \<longrightarrow> holds_shards H e bucket object fi datas (spot (ei_Distribution (fi_Erasure fi)) i) d (metaArr ! i)"
    and "\<forall>i<length disks. i \<notin> Good \<longrightarrow> (\<forall>d. disks ! i = Some d \<longrightarrow> IsValid (metaArr ! i)
       \<longrightarrow> drive_ok H e bucket object fi datas (spot (ei_Distribution (fi_Erasure fi)) i) False d (metaArr ! i))"
    and "same_place loc disks"
  shows "(\<exists>ans. getObjectWithFileInfo H new loc buffer_Write bucket object (int start) len dst fi metaArr disks ans)
     \<and> (\<forall>dst' once err. getObjectWithFileInfo H new loc buffer_Write bucket object (int start) len dst fi metaArr disks
            (dst', once, err)
          \<longrightarrow> dst' = dst @ take n (drop start (concat datas)) \<and> err = None)"
  by (rule get_range [OF assms])

text \<open>An object of two parts on three drives, one of which is gone.\<close>

definition file_drive :: "(string \<times> bytes) list \<Rightarrow> storage_api" where
  "file_drive fs = \<lparr>ReadFileStream = (\<lambda>v f off len. case map_of fs f of None \<Rightarrow> Inl errFileNotFound
       | Some x \<Rightarrow> Inr (take (nat len) (drop (nat off) x), EOF)),
     ReadFile = (\<lambda>v f off len vf. Inl errFileNotFound)\<rparr>"

lemma file_drive_holds: "map_of fs f = Some x \<Longrightarrow> holds_file (file_drive fs) v f x"
  by (simp add: holds_file_def file_drive_def)

definition two_parts :: "bytes list" where
  "two_parts = [[1, 2, 3, 4, 5], [6, 7]]"

definition two_part_copy :: "int \<Rightarrow> FileInfo" where
  "two_part_copy i = noFileInfo\<lparr>fi_DataDir := ''d'', fi_Size := 7, fi_ModTime := At 1,
     fi_Parts := [\<lparr>p_ETag = [], p_Number = 1, p_Size = 5, p_ActualSize = 5\<rparr>,
                  \<lparr>p_ETag = [], p_Number = 2, p_Size = 2, p_ActualSize = 2\<rparr>],
     fi_Erasure := \<lparr>ei_Algorithm = erasureAlgorithm, ei_DataBlocks = 2, ei_ParityBlocks = 1, ei_BlockSize = 4, ei_Index = i,
        ei_Distribution = [2, 3, 1],
        ei_Checksums = [\<lparr>c_PartNumber = 1, c_Algorithm = HighwayHash256S, c_Hash = []\<rparr>,
                        \<lparr>c_PartNumber = 2, c_Algorithm = HighwayHash256S, c_Hash = []\<rparr>]\<rparr>\<rparr>"

definition two_part_drive :: "nat \<Rightarrow> storage_api" where
  "two_part_drive j = file_drive
     [(''o/d/part.1'', bitrot_file zero_hash HighwayHash256S (shard_segs xor_set (two_parts ! 0) j)),
      (''o/d/part.2'', bitrot_file zero_hash HighwayHash256S (shard_segs xor_set (two_parts ! 1) j))]"

lemma two_part_paths:
  "pathJoin [''o'', ''d'', ''part.'' @ show_int 1] = ''o/d/part.1''"
  "pathJoin [''o'', ''d'', ''part.'' @ show_int 2] = ''o/d/part.2''"
  by code_simp+

lemma two_part_numbers:
  "fi_DataDir (two_part_copy i) = ''d''" "fi_Data (two_part_copy i) = []"
  "p_Number (fi_Parts (two_part_copy i) ! 0) = 1" "p_Number (fi_Parts (two_part_copy i) ! 1) = 2"
  by (simp_all add: two_part_copy_def noFileInfo_def)

lemma two_part_holds:
  "holds_shards zero_hash xor_set ''b'' ''o'' (two_part_copy i) two_parts j (two_part_drive j) (two_part_copy i')"
proof -
  let ?path = "\<lambda>k. pathJoin [''o'', fi_DataDir (two_part_copy i), ''part.'' @ show_int (p_Number (fi_Parts (two_part_copy i) ! k))]"
  let ?f = "\<lambda>k. bitrot_file zero_hash HighwayHash256S (shard_segs xor_set (two_parts ! k) j)"
  have h: "holds_file (two_part_drive j) ''b'' (?path 0) (?f 0)" "holds_file (two_part_drive j) ''b'' (?path 1) (?f 1)"
    unfolding two_part_numbers two_part_paths two_part_drive_def by (rule file_drive_holds; simp)+
  have "k = 0 \<or> k = 1" if "k < length two_parts" for k using that by (auto simp: two_parts_def)
  then have "holds_file (two_part_drive j) ''b'' (?path k) (?f k)" if "k < length two_parts" for k using h that by blast
  moreover have "c_Algorithm (GetChecksumInfo (ei_Checksums (fi_Erasure (two_part_copy i'))) (p_Number (fi_Parts (two_part_copy i) ! k)))
      = HighwayHash256S" if "k < length two_parts" for k
    using that by (auto simp: two_parts_def two_part_copy_def nth_Cons split: nat.split)
  ultimately show ?thesis by (simp only: holds_shards_def Let_def two_part_numbers(2)) blast
qed

lemma two_part_describes: "describes (\<lambda>d p. xor_codec) xor_set (two_part_copy i) two_parts 3"
proof -
  have "{2, 3, 1} = {1..3 :: int}" by auto
  moreover have "NewErasure (\<lambda>d p. xor_codec) 2 1 4 = Inr xor_set" by (simp add: NewErasure_def xor_set_def wrap64_def)
  ultimately show ?thesis
    using xor_set_ok
    by (simp add: describes_def two_part_copy_def object_ok_def parts_are_def two_parts_def dist_ok_def)
qed

lemma only_outcome:
  assumes "(\<exists>ans. P ans) \<and> (\<forall>d c err. P (d, c, err) \<longrightarrow> d = x \<and> err = y)"
  shows "{(d, err). \<exists>c. P (d, c, err)} = {(x, y)}"
proof -
  obtain d c err where "P (d, c, err)" using assms by auto
  with assms show ?thesis by blast
qed

theorem getObject_range_witness:
  "{(dst', err). \<exists>once. getObjectWithFileInfo zero_hash (\<lambda>d p. xor_codec) (\<lambda>d. True) buffer_Write ''b'' ''o'' 3 3 []
      (two_part_copy 1) [noFileInfo, two_part_copy 3, two_part_copy 1]
      [None, Some (two_part_drive 2), Some (two_part_drive 0)] (dst', once, err)} = {([4, 5, 6], None)}"
proof -
  let ?fi = "two_part_copy 1" and ?disks = "[None, Some (two_part_drive 2), Some (two_part_drive 0)]"
    and ?ms = "[noFileInfo, two_part_copy 3, two_part_copy 1]"
  have d: "describes (\<lambda>d p. xor_codec) xor_set ?fi two_parts (length ?disks)"
    using two_part_describes [of 1] by (simp add: numeral_3_eq_3)
  have l: "length ?ms = length ?disks" by simp
  have small: "\<forall>k<length two_parts. int (nblk xor_set (length (two_parts ! k)) * 32 + sF xor_set (length (two_parts ! k))) < 2 ^ 63"
    by (auto simp: two_parts_def nth_Cons nblk_def sF_def cdiv_def xor_set_ok sS_def split: nat.split)
  have asks: "asks 3 3 3 (length (concat two_parts))" by (simp add: asks_def two_parts_def)
  have dist: "ei_Distribution (fi_Erasure ?fi) = [2, 3, 1]" by (simp add: two_part_copy_def)
  have valid: "IsValid (two_part_copy 1)" "IsValid (two_part_copy 3)"
    by (simp_all add: IsValid_def two_part_copy_def noFileInfo_def wrap64_def)
  have good: "{1, 2} \<subseteq> {i. i < length ?disks \<and> good_copy ?disks ?ms ?fi i}"
    using valid by (auto simp: good_copy_def keeps_index_def skip_meta_def dist two_part_numbers)
      (simp_all add: two_part_copy_def)
  have card: "dB xor_set \<le> card {1, 2 :: nat}" by (simp add: xor_set_ok)
  have holds: "\<forall>i\<in>{1, 2}. \<forall>d. ?disks ! i = Some d \<longrightarrow>
      holds_shards zero_hash xor_set ''b'' ''o'' ?fi two_parts (spot (ei_Distribution (fi_Erasure ?fi)) i) d (?ms ! i)"
    by (simp add: dist spot_def two_part_holds)
  have rest: "\<forall>i<length ?disks. i \<notin> {1, 2} \<longrightarrow> (\<forall>d. ?disks ! i = Some d \<longrightarrow> IsValid (?ms ! i) \<longrightarrow>
      drive_ok zero_hash xor_set ''b'' ''o'' ?fi two_parts (spot (ei_Distribution (fi_Erasure ?fi)) i) False d (?ms ! i))"
    by (auto simp: less_Suc_eq numeral_3_eq_3)
  have sp: "same_place (\<lambda>d. True) ?disks" by (simp add: same_place_def)
  note r = getObject_range [OF d l zero_hash_ok small asks good card holds rest sp, of "[]"]
  have "take 3 (drop 3 (concat two_parts)) = [4, 5, 6]" by (simp add: two_parts_def)
  then show ?thesis using r by (intro only_outcome) simp
qed

end
