(* ===== verification/Erasure_Put.thy ===== *)
theory Erasure_Put
  imports Erasure_Object
begin

text \<open>
  Writing an object to an erasure set (\<open>putObject\<close> in \<open>cmd/erasure-object.go\<close>): parity and quorums, the
  shard files written to a temporary place or kept with the metadata, and the rename that commits them on
  every drive. Drives may fail at any point.
\<close>

section \<open>Writing to drives that fail\<close>

text \<open>Where a shard writer writes to: an inline buffer takes everything; the pipe to \<open>CreateFile\<close> of a drive takes
  bytes until the drive gives up with an error (\<open>newStreamingBitrotWriter\<close>).\<close>

record sink =
  sk_got :: bytes
  sk_room :: "nat option"
  sk_err :: xerr

definition sink_Write :: "sink write_fn" where
  "sink_Write s p =
     (case sk_room s of
        None \<Rightarrow> (s\<lparr>sk_got := sk_got s @ p\<rparr>, length p, None)
      | Some room \<Rightarrow>
          if length p \<le> room then (s\<lparr>sk_got := sk_got s @ p, sk_room := Some (room - length p)\<rparr>, length p, None)
          else (s\<lparr>sk_got := sk_got s @ take room p, sk_room := Some 0\<rparr>, room, Some (sk_err s)))"

text \<open>\<open>CloseWithError\<close>: nothing is taken any more.\<close>

definition sink_Close :: "sink \<Rightarrow> xerr \<Rightarrow> sink" where
  "sink_Close s err = s\<lparr>sk_room := Some 0, sk_err := err\<rparr>"

definition shard_Writer :: "hashes \<Rightarrow> sink write_fn" where
  "shard_Writer H = streaming_Write sink_Write sink_Close H HighwayHash256S"

text \<open>What the encoder relies on: a write that reports success has appended the checksum and the data.\<close>

locale shard_writer =
  fixes wr :: "'w write_fn" and out :: "'w \<Rightarrow> bytes" and H :: hashes and a :: BitrotAlgorithm
  assumes written: "wr w p = (w', n, None) \<Longrightarrow> out w' = out w @ (if p = [] then [] else H a p @ p)"

lemma shard_Writer_written:
  "shard_Writer H w p = (w', n, None) \<Longrightarrow>
   sk_got w' = sk_got w @ (if p = [] then [] else H HighwayHash256S p @ p)"
  by (auto simp: shard_Writer_def streaming_Write_def sink_Write_def sink_Close_def split: option.splits if_splits)

interpretation sinks: shard_writer "shard_Writer H" sk_got H HighwayHash256S for H
  by unfold_locales (rule shard_Writer_written)

interpretation buffers: shard_writer "streaming_Write buffer_Write cl H alg" "\<lambda>w. w" H alg for cl H alg
  by unfold_locales (auto simp: streaming_Write_def buffer_Write_def split: if_splits)

lemma votes_None: "votes errs ig None = countErrs errs None"
  by (induction errs) (auto simp: votes_def counted_def countErrs_def IsErrIgnored_def IsErr_def err_key_def split: option.splits)

lemma reduce_success:
  assumes "any_order ord" "reduceQuorumErrs ord errs ig quorum qe = None"
  shows "quorum \<le> int (countErrs errs None)"
proof -
  obtain m r where mr: "reduceErrs ord errs ig = (m, r)" by (cases "reduceErrs ord errs ig")
  then have "quorum \<le> int m" "r = None" using assms(2) by (auto simp: reduceQuorumErrs_def split: if_splits)
  moreover have "m = votes errs ig r" if "0 < m" using reduceErrs_max(2) [OF assms(1) mr that] by simp
  ultimately show ?thesis using votes_None [of errs ig] by (cases "0 < m") auto
qed

definition writers_have :: "('w \<Rightarrow> bytes) \<Rightarrow> nat \<Rightarrow> (nat \<Rightarrow> bytes) \<Rightarrow> 'w option list \<Rightarrow> 'w parallelWriter \<Rightarrow> bool" where
  "writers_have out N f writers pw \<longleftrightarrow>
     length (pw_writers pw) = N \<and> length (pw_errs pw) = N
     \<and> (\<forall>j<N. \<forall>w. pw_writers pw ! j = Some w \<longrightarrow> writers ! j \<noteq> None \<and> pw_errs pw ! j = None \<and> out w = f j)"

definition writers_enough :: "'w parallelWriter \<Rightarrow> bool" where
  "writers_enough pw \<longleftrightarrow> pw_writeQuorum pw \<le> int (online (pw_writers pw))"

context shard_writer
begin

lemma parallel_Write_faulty:
  assumes wh: "writers_have out N f writers pw" and ord: "any_order ord" and "N \<le> length blocks"
  shows "\<exists>pw' r. parallel_Write wr ord pw blocks = Some (pw', r) \<and> pw_writeQuorum pw' = pw_writeQuorum pw
     \<and> writers_have out N (\<lambda>j. f j @ (if blocks ! j = [] then [] else H a (blocks ! j) @ blocks ! j)) writers pw'
     \<and> (r = None \<longrightarrow> writers_enough pw')"
proof -
  have len: "length (pw_writers pw) = N" using wh by (simp add: writers_have_def)
  define res where "res = map (\<lambda>i. write_one wr (pw_writers pw ! i) (pw_errs pw ! i) (blocks ! i)) [0..<N]"
  define pw' where "pw' = pw\<lparr>pw_writers := map fst res, pw_errs := map snd res\<rparr>"
  have lr: "length res = N" by (simp add: res_def)
  have one: "res ! j = write_one wr (pw_writers pw ! j) (pw_errs pw ! j) (blocks ! j)" if "j < N" for j
    using that by (simp add: res_def)
  have w: "pw_errs pw ! j = None" if "j < N" "pw_writers pw ! j = Some w" for j w
    using wh that by (simp add: writers_have_def)
  have sync: "fst (res ! j) \<noteq> None \<longleftrightarrow> snd (res ! j) = None" if j: "j < N" for j
    using one [OF j] w [OF j] by (cases "pw_writers pw ! j") (auto simp: write_one_def split: prod.splits option.splits)
  have ok: "writers ! j \<noteq> None \<and> out w' = f j @ (if blocks ! j = [] then [] else H a (blocks ! j) @ blocks ! j)"
    if j: "j < N" "fst (res ! j) = Some w'" for j w'
  proof -
    obtain x where x: "pw_writers pw ! j = Some x"
      using j one [OF j(1)] by (cases "pw_writers pw ! j") (auto simp: write_one_def)
    obtain n where "wr x (blocks ! j) = (w', n, None)"
      using j one [OF j(1)] x w [OF j(1) x] by (auto simp: write_one_def split: prod.splits option.splits if_splits)
    from written [OF this] show ?thesis using wh x j(1) by (simp add: writers_have_def)
  qed
  have wh': "writers_have out N (\<lambda>j. f j @ (if blocks ! j = [] then [] else H a (blocks ! j) @ blocks ! j)) writers pw'"
    unfolding writers_have_def pw'_def using ok sync lr by auto
  define r where "r = (if pw_writeQuorum pw' \<le> int (countErrs (pw_errs pw') None) then None
      else reduceWriteQuorumErrs ord (pw_errs pw') objectOpIgnoredErrs (pw_writeQuorum pw'))"
  have pq: "pw_writeQuorum pw' = pw_writeQuorum pw" by (simp add: pw'_def)
  have pwr: "parallel_Write wr ord pw blocks = Some (pw', r)"
    using assms(3) len by (simp add: parallel_Write_def Let_def pw'_def res_def r_def)
  have cnt: "pw_writeQuorum pw' \<le> int (countErrs (pw_errs pw') None)" if "r = None"
    using that reduce_success [OF ord, of "pw_errs pw'"] by (auto simp: r_def reduceWriteQuorumErrs_def split: if_splits)
  have "{j. j < N \<and> snd (res ! j) = None} = {j. j < N \<and> fst (res ! j) \<noteq> None}" using sync by auto
  then have "countErrs (pw_errs pw') None = online (pw_writers pw')"
    using lr by (simp add: pw'_def countErrs_def online_def length_filter_conv_card cong: conj_cong)
  then have "r = None \<longrightarrow> writers_enough pw'" using cnt by (simp add: writers_enough_def)
  with pwr pq wh' show ?thesis by blast
qed

lemma encode_loop_faulty:
  assumes wf: "wf_erasure e" and rs: "rs_ok (encoder e) (dB e) (pB e)"
    and buf: "buf_ok e n (length data)" and L: "int (length data) < 2 ^ 63"
    and N: "N = dB e + pB e" and ord: "any_order ord"
    and k: "k \<le> nblk e (length data)" "k * n \<le> length data" "k = nblk e (length data) \<longrightarrow> k * n = length data"
    and wh: "writers_have out N (\<lambda>j. bitrot_file H a (take k (shard_segs e data j))) writers pw"
    and en: "k \<noteq> 0 \<longrightarrow> writers_enough pw"
  shows "\<exists>pw' r. encode_loop wr ord e n (drop (k * n) data, EOF) pw (int (k * n)) = Some (pw', r)
     \<and> length (pw_writers pw') = N \<and> pw_writeQuorum pw' = pw_writeQuorum pw
     \<and> (\<forall>m. r = Inr m \<longrightarrow> m = int (length data) \<and> writers_enough pw'
          \<and> writers_have out N (\<lambda>j. bitrot_file H a (shard_segs e data j)) writers pw')"
  using k wh en
proof (induction "nblk e (length data) - k" arbitrary: k pw rule: less_induct)
  case less
  note e = wf_erasure_int [OF wf]
  let ?loop = "encode_loop wr ord e n (drop (k * n) data, EOF) pw (int (k * n))"
  have all: "take (nblk e (length data)) (shard_segs e data j) = shard_segs e data j" for j by simp
  show ?case
  proof (cases "k = nblk e (length data)")
    case True
    then have rest: "k * n = length data" using less.prems(3) by simp
    then have dr: "drop (k * n) data = []" by simp
    have rd: "ReadFullBuf ([], EOF) n = (([], EOF), [], Some EOF)"
      using buf by (simp add: ReadFullBuf_def buf_ok_def)
    show ?thesis
    proof (cases "length data = 0")
      case False
      then have "?loop = Some (pw, Inr (int (k * n)))"
        using rest unfolding dr by (subst encode_loop.simps) (simp add: rd)
      then have lp: "?loop = Some (pw, Inr (int (length data)))" by (simp only: rest)
      have "k \<noteq> 0" using rest False by (cases k) simp_all
      then have en: "writers_enough pw" using less.prems(5) by blast
      have wh2: "writers_have out N (\<lambda>j. bitrot_file H a (shard_segs e data j)) writers pw"
        using less.prems(4) unfolding True all .
      then have "length (pw_writers pw) = N" by (simp add: writers_have_def)
      then show ?thesis using lp wh2 en by blast
    next
      case T0: True
      then have nb: "nblk e (length data) = 0" by (simp add: nblk_def)
      define zs :: "bytes list" where "zs = replicate (dB e + pB e) []"
      have enc: "EncodeData e [] = Inr zs" using e by (simp add: EncodeData_def nat_add_distrib zs_def)
      have len: "N \<le> length zs" using N by (simp add: zs_def)
      obtain pw' r where pw': "parallel_Write wr ord pw zs = Some (pw', r)"
          "pw_writeQuorum pw' = pw_writeQuorum pw" "r = None \<longrightarrow> writers_enough pw'"
        and wh': "writers_have out N (\<lambda>j. bitrot_file H a (take k (shard_segs e data j))
            @ (if zs ! j = [] then [] else H a (zs ! j) @ zs ! j)) writers pw'"
        using parallel_Write_faulty [OF less.prems(4) ord len] by blast
      have "zs ! j = []" if "j < N" for j using that N by (simp add: zs_def)
      then have wh2: "writers_have out N (\<lambda>j. bitrot_file H a (shard_segs e data j)) writers pw'"
        using wh' True all unfolding writers_have_def by simp
      have "?loop = Some (pw', case r of None \<Rightarrow> Inr 0 | Some err \<Rightarrow> Inl err)"
        using True nb unfolding dr by (subst encode_loop.simps) (simp add: rd enc pw'(1) split: option.split)
      then show ?thesis using pw'(2,3) wh2 T0 by (cases r) (auto simp: writers_have_def)
    qed
  next
    case False
    then have kn: "k < nblk e (length data)" using less.prems(1) by simp
    note bb = buf_block [OF wf buf kn less.prems(2)]
    have ne: "blk e data k \<noteq> []" by (rule blk_nonempty [OF wf kn])
    obtain enc z where enc: "EncodeData e (blk e data k) = Inr enc" "enc_shards e (blk e data k) = enc"
      "same_size (dB e + pB e) (cdiv (length (blk e data k)) (dB e)) enc"
      using EncodeData_ok [OF wf rs ne] by metis
    have "0 < cdiv (length (blk e data k)) (dB e)" using ne e by (simp add: cdiv_pos)
    then have sh: "length enc = dB e + pB e" "\<forall>j<dB e + pB e. enc ! j \<noteq> []"
      using enc(3) by (auto simp: same_size_def list_all_length)
    have len: "N \<le> length enc" using sh N by simp
    obtain pw' r where pw': "parallel_Write wr ord pw enc = Some (pw', r)" "pw_writeQuorum pw' = pw_writeQuorum pw"
        "r = None \<longrightarrow> writers_enough pw'"
      and wh': "writers_have out N (\<lambda>j. bitrot_file H a (take k (shard_segs e data j))
            @ (if enc ! j = [] then [] else H a (enc ! j) @ enc ! j)) writers pw'"
      using parallel_Write_faulty [OF less.prems(4) ord len] by blast
    have "bitrot_file H a (take k (shard_segs e data j)) @ (if enc ! j = [] then [] else H a (enc ! j) @ enc ! j)
        = bitrot_file H a (take (Suc k) (shard_segs e data j))" if "j < N" for j
      using kn that N sh(2) enc(2) by (simp add: take_Suc_conv_app_nth shard_segs_nth bitrot_file_append)
    then have wh2: "writers_have out N (\<lambda>j. bitrot_file H a (take (Suc k) (shard_segs e data j))) writers pw'"
      using wh' unfolding writers_have_def by simp
    have lw: "length (pw_writers pw') = N" using wh2 by (simp add: writers_have_def)
    show ?thesis
    proof (cases "Suc k * n \<le> length data")
      case True
      have rd: "ReadFullBuf (drop (k * n) data, EOF) n = ((drop (Suc k * n) data, EOF), blk e data k, None)"
        using True bb(1) by (simp add: ReadFullBuf_def add.commute)
      have lb: "length (blk e data k) = n" using True bb(1) by simp
      have "int (Suc k * n) < 2 ^ 63" using True L by linarith
      then have wr64: "wrap64 (int (k * n) + int n) = int (Suc k * n)"
        using wrap64_nat [of "Suc k * n"] by (simp add: add.commute)
      have lp: "?loop = (case r of Some err \<Rightarrow> Some (pw', Inl err)
          | None \<Rightarrow> encode_loop wr ord e n (drop (Suc k * n) data, EOF) pw' (int (Suc k * n)))"
        using ne lb wr64 by (subst encode_loop.simps) (simp add: rd enc(1) pw'(1) del: of_nat_mult mult_Suc split: option.split)
      show ?thesis
      proof (cases r)
        case (Some err)
        then show ?thesis using lp lw pw'(2) by simp
      next
        case None
        have "Suc k = nblk e (length data) \<longrightarrow> Suc k * n = length data"
        proof
          assume "Suc k = nblk e (length data)"
          then have "length data \<le> Suc k * bS e" using nblk_less [OF wf, of "Suc k" "length data"] by simp
          then show "Suc k * n = length data"
            using True buf less.prems(2) kn nblk_less [OF wf, of k "length data"]
            by (cases "n = bS e") (auto simp: buf_ok_def)
        qed
        then show ?thesis
          using less.hyps [of "Suc k" pw'] kn True pw' wh2 None lp by simp
      qed
    next
      case F: False
      have nb: "Suc k = nblk e (length data)" by (rule bb(2)) (use F in simp)
      have b: "blk e data k = drop (k * n) data" using F bb(1) by simp
      then have "drop (k * n) data \<noteq> []" using ne by simp
      then have rd: "ReadFullBuf (drop (k * n) data, EOF) n = (([], EOF), blk e data k, Some ErrUnexpectedEOF)"
        using F b by (simp add: ReadFullBuf_def)
      have "int (k * n) + int (length (blk e data k)) = int (length data)" using b less.prems(2) by simp
      then have "wrap64 (int (k * n) + int (length (blk e data k))) = int (length data)" using wrap64_nat [OF L] by simp
      then have lp: "?loop = Some (pw', case r of Some err \<Rightarrow> Inl err | None \<Rightarrow> Inr (int (length data)))"
        using ne by (subst encode_loop.simps) (simp add: rd enc(1) pw'(1) del: of_nat_mult split: option.split)
      have wh3: "writers_have out N (\<lambda>j. bitrot_file H a (shard_segs e data j)) writers pw'" using wh2 nb all by simp
      show ?thesis using lp lw pw'(2,3) wh3 by (cases r) simp_all
    qed
  qed
qed

lemma Encode_faulty:
  assumes wf: "wf_erasure e" and rs: "rs_ok (encoder e) (dB e) (pB e)"
    and buf: "buf_ok e n (length data)" and L: "int (length data) < 2 ^ 63"
    and N: "length writers = dB e + pB e" and w0: "\<And>w. Some w \<in> set writers \<Longrightarrow> out w = []" and ord: "any_order ord"
  shows "\<exists>pw r. Encode wr ord e (data, EOF) writers n quorum = Some (pw, r) \<and> length (pw_writers pw) = length writers
     \<and> (\<forall>m. r = Inr m \<longrightarrow> m = int (length data) \<and> quorum \<le> int (online (pw_writers pw))
          \<and> (\<forall>j<length writers. \<forall>w. pw_writers pw ! j = Some w
               \<longrightarrow> writers ! j \<noteq> None \<and> out w = bitrot_file H a (shard_segs e data j)))"
proof -
  let ?pw = "\<lparr>pw_writers = writers, pw_writeQuorum = quorum, pw_errs = replicate (length writers) None\<rparr>"
  have wh: "writers_have out (length writers) (\<lambda>j. bitrot_file H a (take 0 (shard_segs e data j))) writers ?pw"
    using w0 by (auto simp: writers_have_def dest!: nth_mem)
  have nb: "0 = nblk e (length data) \<longrightarrow> 0 * n = length data" using nblk_less [OF wf, of 0 "length data"] by auto
  obtain pw r where lp: "encode_loop wr ord e n (drop (0 * n) data, EOF) ?pw (int (0 * n)) = Some (pw, r)"
      "length (pw_writers pw) = length writers" "pw_writeQuorum pw = pw_writeQuorum ?pw"
      "\<forall>m. r = Inr m \<longrightarrow> m = int (length data) \<and> writers_enough pw
          \<and> writers_have out (length writers) (\<lambda>j. bitrot_file H a (shard_segs e data j)) writers pw"
    using encode_loop_faulty [OF wf rs buf L N ord _ _ nb wh] by auto
  have en: "Encode wr ord e (data, EOF) writers n quorum = Some (pw, r)" using lp(1) by (simp add: Encode_def)
  show ?thesis
  proof (intro exI conjI allI impI)
    show "Encode wr ord e (data, EOF) writers n quorum = Some (pw, r)" by (rule en)
    show "length (pw_writers pw) = length writers" by (rule lp(2))
    fix m assume "r = Inr m"
    then have w: "m = int (length data)" "writers_enough pw"
        "writers_have out (length writers) (\<lambda>j. bitrot_file H a (shard_segs e data j)) writers pw" using lp(4) by auto
    show "m = int (length data)" "quorum \<le> int (online (pw_writers pw))" using w(1,2) lp(3) by (simp_all add: writers_enough_def)
    fix j w assume "j < length writers" "pw_writers pw ! j = Some w"
    then show "writers ! j \<noteq> None" "out w = bitrot_file H a (shard_segs e data j)"
      using \<open>writers_have out (length writers) (\<lambda>j. bitrot_file H a (shard_segs e data j)) writers pw\<close>
      by (auto simp: writers_have_def)
  qed
qed

end

section \<open>Parity and quorums\<close>

text \<open>The parity of a new object: that of its storage class, and one more for every drive that is not usable, but at
  most half of the drives. The counting goroutines only increment, so that their order does not matter. Also the
  parity before the increase.\<close>

definition put_parity :: "sc_Config \<Rightarrow> int \<Rightarrow> bool \<Rightarrow> string \<Rightarrow> bool list \<Rightarrow> int \<times> int" where
  "put_parity sc defaultParityCount maxParity class usable =
     (let half = go_div (int (length usable)) 2
      in if maxParity then (half, half)
         else let p = GetParityForSC sc class;
                  parityOrig = (if p \<le> 0 then defaultParityCount else p);
                  parityDrives = parityOrig + int (length (filter (\<lambda>u. \<not> u) usable))
              in (parityOrig, if half \<le> parityDrives then half else parityDrives))"

definition put_quorum :: "int \<Rightarrow> int \<Rightarrow> int" where
  "put_quorum dataDrives parityDrives = (if dataDrives = parityDrives then dataDrives + 1 else dataDrives)"

text \<open>The buffer for \<open>Encode\<close>; buffers of the pool have the size of a block.\<close>

definition put_buffer :: "int \<Rightarrow> int \<Rightarrow> nat" where
  "put_buffer sz actualSize =
     nat (min blockSizeV2
       (if sz = 0 then 1
        else if sz = -1 then (if 0 < actualSize \<and> actualSize < blockSizeV2 then actualSize + 256 else blockSizeV2)
        else if blockSizeV2 \<le> sz then blockSizeV2 else sz))"

definition smallFileThreshold :: int where
  "smallFileThreshold = 131072"

text \<open>Is the object so small that its shards are kept with the metadata?\<close>

definition put_inline :: "erasure \<Rightarrow> bool \<Rightarrow> int \<Rightarrow> int \<Rightarrow> bool" where
  "put_inline e versioned sz actualSize =
     (let small = (\<lambda>s. if \<not> versioned \<and> s < smallFileThreshold then True else s < go_div smallFileThreshold 8);
          shardFileSize = ShardFileSize e sz
      in if 0 \<le> shardFileSize then small shardFileSize
         else let s = ShardFileSize e actualSize in 0 < s \<and> small s)"

lemma put_quorums:
  assumes "put_parity sc dflt mp class usable = (orig, p)" "0 \<le> dflt" "n = int (length usable)" "d = n - p"
  shows "0 \<le> p" "2 * p \<le> n" "p \<le> d" "n < 2 * put_quorum d p" "n < d + put_quorum d p"
proof -
  have "0 \<le> n div 2" using assms(3) by simp
  moreover have g: "go_div n 2 = n div 2" using assms(3) by simp
  ultimately have "0 \<le> p \<and> p \<le> n div 2"
    using assms(1,2) unfolding put_parity_def Let_def assms(3) [symmetric] g by (auto split: if_splits)
  then show p: "0 \<le> p" "2 * p \<le> n" by linarith+
  then show "p \<le> d" "n < 2 * put_quorum d p" "n < d + put_quorum d p"
    using assms(4) by (auto simp: put_quorum_def)
qed

text \<open>C29. The quorums of \<open>PutObject\<close> overlap: for every class and every set of usable drives at most half of
  the drives have parity, two sets of drives that make a write quorum share a drive, and so do a write
  quorum and as many drives as a read needs.\<close>

theorem PutObject_quorums:
  assumes "put_parity sc dflt mp class usable = (orig, p)" "0 \<le> dflt" "n = int (length usable)" "d = n - p"
    and "finite W" "finite W'" "finite R" "int (card (W \<union> W')) \<le> n" "int (card (W \<union> R)) \<le> n"
    and "put_quorum d p \<le> int (card W)" "put_quorum d p \<le> int (card W')" "d \<le> int (card R)"
  shows "0 \<le> p \<and> 2 * p \<le> n \<and> W \<inter> W' \<noteq> {} \<and> W \<inter> R \<noteq> {}"
proof -
  note q = put_quorums [OF assms(1-4)]
  have "card W + card W' = card (W \<union> W') + card (W \<inter> W')" "card W + card R = card (W \<union> R) + card (W \<inter> R)"
    using assms(5-7) by (blast intro: card_Un_Int)+
  then have "0 < card (W \<inter> W')" "0 < card (W \<inter> R)" using q assms(8-12) by linarith+
  then show ?thesis using q by auto
qed

theorem PutObject_quorums_witness:
  "put_parity no_config 2 False [] [True, True, False, True] = (2, 2) \<and> {0::nat, 1, 3} \<inter> {1, 2, 3} \<noteq> {} \<and> {0::nat, 1, 3} \<inter> {2, 3} \<noteq> {}"
proof -
  have p: "put_parity no_config 2 False [] [True, True, False, True] = (2, 2)" by code_simp
  have "put_quorum 2 2 = 3" by code_simp
  then have "(0::int) \<le> 2 \<and> 2 * 2 \<le> (4::int) \<and> {0::nat, 1, 3} \<inter> {1, 2, 3} \<noteq> {} \<and> {0::nat, 1, 3} \<inter> {2, 3} \<noteq> {}"
    using PutObject_quorums [OF p _ _ _, of 4 2 "{0::nat, 1, 3}" "{1, 2, 3}" "{2, 3}"] by simp
  then show ?thesis using p by simp
qed

section \<open>Committing on the drives\<close>

definition tierFVID :: string where
  "tierFVID = ''x-minio-internal-tier-free-versionID''"

definition SetTierFreeVersionID :: "string \<Rightarrow> FileInfo \<Rightarrow> FileInfo" where
  "SetTierFreeVersionID v fi = fi\<lparr>fi_Metadata := AList.update tierFVID v (fi_Metadata fi)\<rparr>"

text \<open>The metadata that the drive at position \<open>j\<close> gets.\<close>

definition rename_meta :: "string \<Rightarrow> nat \<Rightarrow> FileInfo \<Rightarrow> FileInfo" where
  "rename_meta fvID j meta =
     (let fi = SetTierFreeVersionID fvID meta
      in if ei_Index (fi_Erasure fi) = 0 then fi\<lparr>fi_Erasure := (fi_Erasure fi)\<lparr>ei_Index := int j + 1\<rparr>\<rparr> else fi)"

text \<open>\<open>rn\<close> is \<open>RenameData\<close> of a drive.\<close>

definition rename_one :: "('d \<Rightarrow> FileInfo \<Rightarrow> 'd \<times> xerr option) \<Rightarrow> 'd option \<Rightarrow> FileInfo \<Rightarrow> 'd option \<times> xerr option" where
  "rename_one rn disk fi =
     (case disk of
        None \<Rightarrow> (None, Some errDiskNotFound)
      | Some d \<Rightarrow> if IsValid fi then (case rn d fi of (d', e) \<Rightarrow> (Some d', e)) else (Some d, Some errFileCorrupt))"

text \<open>The result: the drives afterwards, those that have the object, and the
  error.\<close>

definition renameData ::
  "('d \<Rightarrow> FileInfo \<Rightarrow> 'd \<times> xerr option) \<Rightarrow> err_order \<Rightarrow> string \<Rightarrow> 'd option list \<Rightarrow> FileInfo list \<Rightarrow> int
     \<Rightarrow> 'd option list \<times> 'd option list \<times> xerr option" where
  "renameData rn ord fvID disks meta writeQuorum =
     (let res = map (\<lambda>j. rename_one rn (disks ! j) (rename_meta fvID j (meta ! j))) [0..<length disks];
          errs = map snd res
      in (map fst res, evalDisks (map fst res) errs, reduceWriteQuorumErrs ord errs objectOpIgnoredErrs writeQuorum))"

lemma renameData_ok:
  assumes "any_order ord" "renameData rn ord fvID disks meta q = (after, onl, None)"
  shows "q \<le> int (diskCount onl)" "length onl = length disks"
    and "j < length disks \<Longrightarrow> onl ! j = Some d' \<Longrightarrow>
       \<exists>d. disks ! j = Some d \<and> IsValid (rename_meta fvID j (meta ! j)) \<and> rn d (rename_meta fvID j (meta ! j)) = (d', None)"
proof -
  define res where "res = map (\<lambda>j. rename_one rn (disks ! j) (rename_meta fvID j (meta ! j))) [0..<length disks]"
  have onl: "onl = evalDisks (map fst res) (map snd res)"
    and red: "reduceQuorumErrs ord (map snd res) objectOpIgnoredErrs q errErasureWriteQuorum = None"
    using assms(2) unfolding renameData_def res_def [symmetric] Let_def reduceWriteQuorumErrs_def by auto
  have l: "length res = length disks" by (simp add: res_def)
  have nth: "onl ! j = (if snd (res ! j) = None then fst (res ! j) else None)" if "j < length disks" for j
    using that l by (simp add: onl evalDisks_def split: prod.split)
  have lo: "length onl = length disks" using l by (simp add: onl evalDisks_def)
  then show "length onl = length disks" .
  have some: "snd (res ! j) = None \<longrightarrow> fst (res ! j) \<noteq> None" if "j < length disks" for j
    using that by (auto simp: res_def rename_one_def split: option.splits prod.splits if_splits)
  have "{j. j < length disks \<and> snd (res ! j) = None} = {j. j < length disks \<and> onl ! j \<noteq> None}"
    using nth some by (auto split: if_splits)
  then have "countErrs (map snd res) None = diskCount onl"
    using l lo by (simp add: countErrs_def diskCount_def length_filter_conv_card cong: conj_cong)
  then show "q \<le> int (diskCount onl)" using reduce_success [OF assms(1) red] by simp
  show "\<exists>d. disks ! j = Some d \<and> IsValid (rename_meta fvID j (meta ! j)) \<and> rn d (rename_meta fvID j (meta ! j)) = (d', None)"
    if "j < length disks" "onl ! j = Some d'"
    using that nth [OF that(1)] by (auto simp: res_def rename_one_def split: option.splits prod.splits if_splits)
qed

section \<open>Writing an object\<close>

record put_opts =
  po_Versioned :: bool
  po_VersionID :: string
  po_UserDefined :: metadata
  po_MTime :: gotime
  po_MaxParity :: bool

text \<open>What the call finds: settings, fresh identifiers, the clock, the outcome of taking the lock, and the drives: whether
  a drive counts as usable when the parity is chosen, whether it is online when it is written to, what its file
  takes, and its \<open>RenameData\<close>.\<close>

record 'd put_env =
  pe_sc :: sc_Config
  pe_defaultParityCount :: int
  pe_crc :: "string \<Rightarrow> 32 word"
  pe_new :: "int \<Rightarrow> int \<Rightarrow> rs_codec"
  pe_H :: hashes
  pe_ord :: err_order
  pe_versionUUID :: string
  pe_dataDirUUID :: string
  pe_tmpUUID :: string
  pe_fvID :: string
  pe_now :: gotime
  pe_etag :: string
  pe_ctype :: string
  pe_lock :: "objerr option"
  pe_usable :: "'d \<Rightarrow> bool"
  pe_online :: "'d \<Rightarrow> bool"
  pe_sink :: "'d \<Rightarrow> sink"
  pe_rename :: "'d \<Rightarrow> FileInfo \<Rightarrow> 'd \<times> xerr option"

record 'd put_out =
  pu_err :: "objerr option"
  pu_fi :: FileInfo
  pu_disks :: "'d option list"
  pu_meta :: "FileInfo list"
  pu_files :: "sink option list"
  pu_partial :: bool

definition put_failed :: "objerr \<Rightarrow> 'd put_out" where
  "put_failed err = \<lparr>pu_err = Some err, pu_fi = noFileInfo, pu_disks = [], pu_meta = [], pu_files = [], pu_partial = False\<rparr>"

definition default_entry :: "string \<Rightarrow> string \<Rightarrow> metadata \<Rightarrow> metadata" where
  "default_entry k v md = (if meta_get md k = [] then AList.update k v md else md)"

definition put_writers :: "'d put_env \<Rightarrow> bool \<Rightarrow> 'd option list \<Rightarrow> sink option list" where
  "put_writers env inline onlineDisks =
     map (\<lambda>d. case d of None \<Rightarrow> None
        | Some x \<Rightarrow> if \<not> pe_online env x then None
            else Some (if inline then \<lparr>sk_got = [], sk_room = None, sk_err = EOF\<rparr> else pe_sink env x)) onlineDisks"

text \<open>The metadata after the shards are written: for a drive whose writer is still there with the data, the part and
  its checksum.\<close>

definition put_part_meta :: "bool \<Rightarrow> int \<Rightarrow> int \<Rightarrow> FileInfo \<Rightarrow> sink option \<Rightarrow> FileInfo" where
  "put_part_meta inline n actualSize meta w =
     (case w of None \<Rightarrow> meta
      | Some s \<Rightarrow> meta\<lparr>fi_Data := (if inline then sk_got s else []),
          fi_Parts := AddObjectPart (fi_Parts meta) 1 [] n actualSize,
          fi_Erasure := (fi_Erasure meta)\<lparr>ei_Checksums := AddChecksumInfo (ei_Checksums (fi_Erasure meta))
            \<lparr>c_PartNumber = 1, c_Algorithm = HighwayHash256S, c_Hash = []\<rparr>\<rparr>\<rparr>)"

definition put_final_meta :: "bool \<Rightarrow> metadata \<Rightarrow> int \<Rightarrow> gotime \<Rightarrow> FileInfo \<Rightarrow> FileInfo" where
  "put_final_meta inline ud n modTime meta =
     (let m = meta\<lparr>fi_Metadata := ud, fi_Size := n, fi_ModTime := modTime\<rparr> in if inline then SetInlineData m else m)"

definition put_fileinfo :: "'d put_env \<Rightarrow> put_opts \<Rightarrow> string \<Rightarrow> string \<Rightarrow> int \<Rightarrow> int \<Rightarrow> FileInfo" where
  "put_fileinfo env opts bucket object dataDrives parityDrives =
     (newFileInfo (pe_crc env) (pathJoin [bucket, object]) dataDrives parityDrives)
       \<lparr>fi_VersionID := (if po_Versioned opts \<and> po_VersionID opts = [] then pe_versionUUID env else po_VersionID opts),
        fi_DataDir := pe_dataDirUUID env\<rparr>"

definition PutReplicationState :: "metadata \<Rightarrow> ReplicationState" where
  "PutReplicationState ud = (fi_ReplicationState noFileInfo)
     \<lparr>rst_ReplicationStatusInternal := meta_get ud ''x-minio-internal-replication-status''\<rparr>"

text \<open>From the shard files to the end. The map of the metadata is shared by all copies.\<close>

definition put_commit ::
  "'d put_env \<Rightarrow> put_opts \<Rightarrow> FileInfo \<Rightarrow> metadata \<Rightarrow> string \<Rightarrow> string \<Rightarrow> bool \<Rightarrow> int \<Rightarrow> int \<Rightarrow> int \<Rightarrow> 'd option list \<Rightarrow> FileInfo list
     \<Rightarrow> sink option list \<Rightarrow> 'd put_out" where
  "put_commit env opts fi0 ud bucket object inline n actualSize writeQuorum onlineDisks partsMetadata writers =
     (let disks = map2 (\<lambda>d w. if w = None then None else d) onlineDisks writers;
          metas = map2 (put_part_meta inline n actualSize) partsMetadata writers;
          ud1 = default_entry ''etag'' (pe_etag env) ud;
          ud2 = default_entry ''content-type'' (pe_ctype env) ud1;
          modTime = (if IsZero (po_MTime opts) then pe_now env else po_MTime opts);
          finals = map (put_final_meta inline ud2 n modTime) metas
      in case renameData (pe_rename env) (pe_ord env) (pe_fvID env) disks finals writeQuorum of
           (after, onl, Some err) \<Rightarrow>
             put_failed (toObjectErr (if errors_Is err errFileNotFound then errErasureWriteQuorum else err) [bucket, object])
         | (after, onl, None) \<Rightarrow>
             (let up = map (\<lambda>d. case d of None \<Rightarrow> False | Some x \<Rightarrow> pe_online env x) onl;
                  fi = (case find (\<lambda>j. up ! j) [0..<length onl] of
                          None \<Rightarrow> fi0
                        | Some j \<Rightarrow> SetTierFreeVersionID (pe_fvID env) (finals ! j))
              in \<lparr>pu_err = None, pu_fi = fi\<lparr>fi_ReplicationState := PutReplicationState ud2, fi_IsLatest := True\<rparr>, pu_disks = onl,
                  pu_meta = map (\<lambda>j. rename_meta (pe_fvID env) j (finals ! j)) [0..<length finals],
                  pu_files = writers, pu_partial = list_ex (\<lambda>u. \<not> u) up\<rparr>))"

definition minioMetaTmpBucket :: string where
  "minioMetaTmpBucket = ''.minio.sys/tmp''"

definition minIOErasureUpgraded :: string where
  "minIOErasureUpgraded = ''x-minio-internal-erasure-upgraded''"

text \<open>The metadata of the request, with a note if the parity was increased.\<close>

definition put_userdefined :: "put_opts \<Rightarrow> int \<Rightarrow> int \<Rightarrow> metadata" where
  "put_userdefined opts parityOrig parityDrives =
     (if \<not> po_MaxParity opts \<and> parityOrig \<noteq> parityDrives
      then AList.update minIOErasureUpgraded (show_int parityOrig @ ''->'' @ show_int parityDrives) (po_UserDefined opts)
      else po_UserDefined opts)"

text \<open>\<open>putObject\<close> with the stream \<open>src\<close>, its announced size (or -1) and its size before compression; \<open>None\<close> is
  a call that never returns, or panics.\<close>

definition putObject ::
  "'d put_env \<Rightarrow> put_opts \<Rightarrow> string \<Rightarrow> string \<Rightarrow> stream \<Rightarrow> int \<Rightarrow> int \<Rightarrow> 'd option list \<Rightarrow> 'd put_out option" where
  "putObject env opts bucket object src sz actualSize storageDisks =
     (let usable = map (\<lambda>d. case d of None \<Rightarrow> False | Some x \<Rightarrow> pe_usable env x) storageDisks;
          (parityOrig, parityDrives) = put_parity (pe_sc env) (pe_defaultParityCount env) (po_MaxParity opts)
            (meta_get (po_UserDefined opts) AmzStorageClass) usable;
          ud = put_userdefined opts parityOrig parityDrives;
          dataDrives = int (length storageDisks) - parityDrives;
          writeQuorum = put_quorum dataDrives parityDrives;
          fi = put_fileinfo env opts bucket object dataDrives parityDrives
      in if sz < -1 then Some (put_failed (toObjectErr errInvalidArgument []))
         else case shuffleDisksAndPartsMetadata storageDisks (replicate (length storageDisks) fi) fi of
           None \<Rightarrow> None
         | Some (onlineDisks, partsMetadata) \<Rightarrow>
             (case NewErasure (pe_new env) dataDrives parityDrives blockSizeV2 of
                Inl err \<Rightarrow> Some (put_failed (toObjectErr err [bucket, object]))
              | Inr e \<Rightarrow>
                  (let inline = put_inline e (po_Versioned opts) sz actualSize
                   in case Encode (shard_Writer (pe_H env)) (pe_ord env) e src (put_writers env inline onlineDisks)
                             (put_buffer sz actualSize) writeQuorum of
                        None \<Rightarrow> None
                      | Some (pw, Inl err) \<Rightarrow>
                          Some (put_failed (toObjectErr err [minioMetaTmpBucket,
                            pathJoin [pe_tmpUUID env, pe_dataDirUUID env, ''part.1'']]))
                      | Some (pw, Inr n) \<Rightarrow>
                          if n < sz then Some (put_failed (IncompleteBody bucket object))
                          else case pe_lock env of
                            Some err \<Rightarrow> Some (put_failed err)
                          | None \<Rightarrow> Some (put_commit env opts fi ud bucket object inline n actualSize writeQuorum
                              onlineDisks partsMetadata (pw_writers pw)))))"

section \<open>What a successful put leaves behind\<close>

text \<open>The surroundings of a call: the orders of maps are orders, hashes have their sizes, new files are empty.\<close>

definition env_ok :: "'d put_env \<Rightarrow> bool" where
  "env_ok env \<longleftrightarrow>
     any_order (pe_ord env) \<and> 0 \<le> pe_defaultParityCount env \<and> hashes_ok (pe_H env)
     \<and> (\<forall>x. sk_got (pe_sink env x) = [])"

text \<open>The announced size is that of the stream; of a compressed stream it is not known, but the stream is not longer
  than what the buffer allows for.\<close>

definition size_ok :: "int \<Rightarrow> int \<Rightarrow> nat \<Rightarrow> bool" where
  "size_ok sz actualSize n \<longleftrightarrow>
     sz = int n \<or> sz = -1 \<and> (0 < actualSize \<and> actualSize < blockSizeV2 \<longrightarrow> int n \<le> actualSize + 256)"

lemma put_buffer_ok:
  assumes "size_ok sz actualSize L" "blockSize e = blockSizeV2"
  shows "buf_ok e (put_buffer sz actualSize) L"
proof -
  have b: "bS e = 1048576" using assms(2) by (simp add: bS_def blockSizeV2_def)
  show ?thesis
    using assms(1) unfolding size_ok_def put_buffer_def buf_ok_def b blockSizeV2_def by (auto simp: min_def)
qed

definition put_par :: "'d put_env \<Rightarrow> put_opts \<Rightarrow> 'd option list \<Rightarrow> int" where
  "put_par env opts disks = snd (put_parity (pe_sc env) (pe_defaultParityCount env) (po_MaxParity opts)
     (meta_get (po_UserDefined opts) AmzStorageClass)
     (map (\<lambda>d. case d of None \<Rightarrow> False | Some x \<Rightarrow> pe_usable env x) disks))"

definition put_dist :: "'d put_env \<Rightarrow> string \<Rightarrow> string \<Rightarrow> 'd option list \<Rightarrow> int list" where
  "put_dist env bucket object disks = hashOrder (pe_crc env) (pathJoin [bucket, object]) (int (length disks))"

text \<open>The copy of the metadata at position \<open>j\<close>, with the file \<open>f\<close>.\<close>

definition put_copy ::
  "'d put_env \<Rightarrow> string \<Rightarrow> string \<Rightarrow> 'd option list \<Rightarrow> int \<Rightarrow> bytes \<Rightarrow> int \<Rightarrow> bool \<Rightarrow> bytes \<Rightarrow> nat \<Rightarrow> FileInfo \<Rightarrow> bool" where
  "put_copy env bucket object disks p data actualSize inline f j meta \<longleftrightarrow>
     IsValid meta \<and> \<not> fi_Deleted meta \<and> \<not> fi_XLV1 meta \<and> fi_DataDir meta = pe_dataDirUUID env
     \<and> fi_Size meta = int (length data) \<and> fi_Data meta = (if inline then f else [])
     \<and> fi_Parts meta = [\<lparr>p_ETag = [], p_Number = 1, p_Size = int (length data), p_ActualSize = actualSize\<rparr>]
     \<and> fi_Erasure meta = \<lparr>ei_Algorithm = erasureAlgorithm, ei_DataBlocks = int (length disks) - p, ei_ParityBlocks = p,
          ei_BlockSize = blockSizeV2, ei_Index = int j + 1, ei_Distribution = put_dist env bucket object disks,
          ei_Checksums = [\<lparr>c_PartNumber = 1, c_Algorithm = HighwayHash256S, c_Hash = []\<rparr>]\<rparr>"

lemma put_copy_made:
  assumes f: "fi = put_fileinfo env opts bucket object (int (length disks) - p) p"
    and m: "meta = rename_meta v j (put_final_meta inline ud (int (length data)) t
        (put_part_meta inline (int (length data)) actualSize fi (Some w)))"
    and "IsValid meta"
  shows "put_copy env bucket object disks p data actualSize inline (sk_got w) j meta"
proof -
  have "fi_Erasure fi = \<lparr>ei_Algorithm = erasureAlgorithm, ei_DataBlocks = int (length disks) - p, ei_ParityBlocks = p,
          ei_BlockSize = blockSizeV2, ei_Index = 0, ei_Distribution = put_dist env bucket object disks, ei_Checksums = []\<rparr>"
    "fi_Parts fi = []" "\<not> fi_Deleted fi" "\<not> fi_XLV1 fi" "fi_DataDir fi = pe_dataDirUUID env"
    by (simp_all add: f put_fileinfo_def newFileInfo_def noFileInfo_def put_dist_def)
  then show ?thesis
    using assms(3)
    by (simp add: put_copy_def m rename_meta_def SetTierFreeVersionID_def put_final_meta_def put_part_meta_def SetInlineData_def
        AddObjectPart_def Let_def)
qed

lemma put_shuffle:
  assumes d: "dist_ok dist" "length dist = length disks" and fi: "ei_Distribution (fi_Erasure fi) = dist" "fi_ModTime fi = ZeroTime"
  shows "\<exists>ds ms. shuffleDisksAndPartsMetadata disks (replicate (length disks) fi) fi = Some (ds, ms)
     \<and> length ds = length disks \<and> length ms = length disks
     \<and> (\<forall>i<length disks. ds ! spot dist i = disks ! i \<and> (disks ! i \<noteq> None \<longrightarrow> ms ! spot dist i = fi))"
proof -
  let ?ms = "replicate (length disks) fi"
  have l: "length ?ms = length disks" by simp
  obtain r where r: "place_both (placed (keeps_both fi True) (zip disks ?ms) dist) (replicate (length disks) None)
         (replicate (length disks) noFileInfo) = Some r" "shuffled disks ?ms dist (\<lambda>i. disks ! i \<noteq> None) r"
    using place_both_shuffled [OF d l, of "\<lambda>i. disks ! i \<noteq> None" "keeps_both fi True"] by (auto simp: keeps_both_def)
  have "shuffle_both (zip disks ?ms) dist fi True (replicate (length disks) None) (replicate (length disks) noFileInfo) = Some r"
    using shuffle_both_placed [of "zip disks ?ms" dist fi True] d(2) r(1) by simp
  then have "shuffleDisksAndPartsMetadata disks ?ms fi = Some r" using fi by (simp add: shuffleDisksAndPartsMetadata_def)
  then show ?thesis using r(2) unfolding shuffled_def spot_def by (cases r) auto
qed

text \<open>The drive at position \<open>j\<close> has the object: its file is the shard file, \<open>RenameData\<close> took it with its copy of the
  metadata, and the copy describes the object.\<close>

definition has_object ::
  "'d put_env \<Rightarrow> string \<Rightarrow> string \<Rightarrow> 'd option list \<Rightarrow> int \<Rightarrow> erasure \<Rightarrow> bytes \<Rightarrow> int \<Rightarrow> bool \<Rightarrow> 'd put_out \<Rightarrow> nat \<Rightarrow> bool" where
  "has_object env bucket object disks p e data actualSize inline out j \<longleftrightarrow>
     (\<exists>i d d' s. i < length disks \<and> spot (put_dist env bucket object disks) i = j \<and> disks ! i = Some d
        \<and> pu_disks out ! j = Some d' \<and> pe_rename env d (pu_meta out ! j) = (d', None)
        \<and> pu_files out ! j = Some s \<and> sk_got s = bitrot_file (pe_H env) HighwayHash256S (shard_segs e data j)
        \<and> put_copy env bucket object disks p data actualSize inline (sk_got s) j (pu_meta out ! j))"

lemma spot_surj: "dist_ok dist \<Longrightarrow> j < length dist \<Longrightarrow> \<exists>i<length dist. spot dist i = j"
  using bij_betw_imp_surj_on [OF spot_bij, of dist] by (metis imageE lessThan_iff)

lemma spot_less: "dist_ok dist \<Longrightarrow> i < length dist \<Longrightarrow> spot dist i < length dist"
  using bij_betwE [OF spot_bij, of dist] by simp

lemma put_commit_ok:
  assumes "any_order (pe_ord env)"
    and fi: "fi = put_fileinfo env opts bucket object (int (length disks) - p) p"
    and l: "length ds = length disks" "length ms = length disks" "length ws = length disks"
    and sh: "\<forall>i<length disks. ds ! spot (put_dist env bucket object disks) i = disks ! i
          \<and> (disks ! i \<noteq> None \<longrightarrow> ms ! spot (put_dist env bucket object disks) i = fi)"
    and d: "dist_ok (put_dist env bucket object disks)" "length (put_dist env bucket object disks) = length disks"
    and files: "\<forall>j<length disks. \<forall>w. ws ! j = Some w \<longrightarrow> sk_got w = bitrot_file (pe_H env) HighwayHash256S (shard_segs e data j)"
    and out: "out = put_commit env opts fi ud bucket object inline (int (length data)) actualSize q ds ms ws" "pu_err out = None"
  shows "q \<le> int (diskCount (pu_disks out))" and "length (pu_disks out) = length disks"
    and "\<forall>j<length disks. pu_disks out ! j \<noteq> None
       \<longrightarrow> has_object env bucket object disks p e data actualSize inline out j"
proof -
  let ?dist = "put_dist env bucket object disks" and ?n = "int (length data)"
  define ud2 where "ud2 = default_entry ''content-type'' (pe_ctype env) (default_entry ''etag'' (pe_etag env) ud)"
  define t where "t = (if IsZero (po_MTime opts) then pe_now env else po_MTime opts)"
  define dd where "dd = map2 (\<lambda>d w. if w = None then None else d) ds ws"
  define finals where "finals = map (put_final_meta inline ud2 ?n t) (map2 (put_part_meta inline ?n actualSize) ms ws)"
  obtain after onl r where rn: "renameData (pe_rename env) (pe_ord env) (pe_fvID env) dd finals q = (after, onl, r)"
    by (metis prod_cases3)
  have rN: "r = None"
    using out rn unfolding put_commit_def Let_def ud2_def [symmetric] t_def [symmetric] dd_def [symmetric] finals_def [symmetric]
    by (cases r) (auto simp: put_failed_def)
  have o: "pu_disks out = onl" "pu_files out = ws"
      "pu_meta out = map (\<lambda>j. rename_meta (pe_fvID env) j (finals ! j)) [0..<length finals]"
    using out(1) rn rN unfolding put_commit_def Let_def ud2_def [symmetric] t_def [symmetric] dd_def [symmetric] finals_def [symmetric]
    by simp_all
  note ok = renameData_ok [OF assms(1) rn [unfolded rN]]
  have ldd: "length dd = length disks" "length finals = length disks" using l by (simp_all add: dd_def finals_def)
  show "q \<le> int (diskCount (pu_disks out))" "length (pu_disks out) = length disks" using ok(1,2) o ldd by simp_all
  show "\<forall>j<length disks. pu_disks out ! j \<noteq> None \<longrightarrow> has_object env bucket object disks p e data actualSize inline out j"
  proof (intro allI impI)
    fix j assume j: "j < length disks" "pu_disks out ! j \<noteq> None"
    then obtain d' where d': "onl ! j = Some d'" using o by auto
    obtain x where x: "dd ! j = Some x" "IsValid (rename_meta (pe_fvID env) j (finals ! j))"
        "pe_rename env x (rename_meta (pe_fvID env) j (finals ! j)) = (d', None)"
      using ok(3) [OF _ d'] j(1) ldd by auto
    have "dd ! j = (if ws ! j = None then None else ds ! j)" using j(1) l by (simp add: dd_def)
    then obtain w where w: "ws ! j = Some w" "ds ! j = Some x" using x(1) by (cases "ws ! j") simp_all
    obtain i where i: "i < length disks" "spot ?dist i = j" using spot_surj [OF d(1), of j] d(2) j(1) by auto
    then have di: "disks ! i = Some x" "ms ! j = fi" using sh w(2) by auto
    have fj: "finals ! j = put_final_meta inline ud2 ?n t (put_part_meta inline ?n actualSize fi (Some w))"
      using j(1) l w(1) di(2) by (simp add: finals_def)
    have mj: "pu_meta out ! j = rename_meta (pe_fvID env) j (finals ! j)" using o(3) j(1) ldd by simp
    have copy: "put_copy env bucket object disks p data actualSize inline (sk_got w) j (pu_meta out ! j)"
      by (rule put_copy_made [OF fi]) (use mj fj x(2) in simp_all)
    show "has_object env bucket object disks p e data actualSize inline out j"
      unfolding has_object_def using i di(1) d' o x(3) w(1) files j(1) copy mj by auto
  qed
qed

lemma put_writers_fresh:
  "env_ok env \<Longrightarrow> Some w \<in> set (put_writers env inline ds) \<Longrightarrow> sk_got w = []"
  by (auto simp: put_writers_def env_ok_def split: option.splits if_splits)

text \<open>The codec of a put with at least one parity drive.\<close>

lemma put_erasure:
  assumes rs: "rs_ok (pe_new env (n - p) p) (nat (n - p)) (nat p)"
    and e: "NewErasure (pe_new env) (n - p) p blockSizeV2 = Inr e" and n: "0 \<le> n" "n < 2 ^ 31"
  shows "wf_erasure e" "rs_ok (encoder e) (dB e) (pB e)" "int (dB e) = n - p" "int (pB e) = p" "blockSize e = blockSizeV2"
proof -
  have w: "wrap64 n = n" using n by (simp add: wrap64_def)
  have *: "0 < n - p" "0 < p" "n \<le> 256" and ee: "e = \<lparr>encoder = pe_new env (n - p) p, dataBlocks = n - p, parityBlocks = p, blockSize = blockSizeV2\<rparr>"
    using e w by (auto simp: NewErasure_def split: if_splits)
  show "wf_erasure e" "int (dB e) = n - p" "int (pB e) = p" "blockSize e = blockSizeV2"
    using * by (simp_all add: ee wf_erasure_def blockSizeV2_def dB_def pB_def)
  show "rs_ok (encoder e) (dB e) (pB e)" using rs by (simp add: ee dB_def pB_def)
qed

text \<open>A put with a stream that ends well: it returns, and if it reports success the object is on a write quorum of
  drives.\<close>

lemma putObject_ok:
  assumes env: "env_ok env" and sz: "size_ok sz actualSize (length data)" and L: "int (length data) < 2 ^ 63"
    and n: "0 < length disks" "int (length disks) < 2 ^ 31" and p: "p = put_par env opts disks"
    and rs: "rs_ok (pe_new env (int (length disks) - p) p) (nat (int (length disks) - p)) (nat p)"
  shows "\<exists>out. putObject env opts bucket object (data, EOF) sz actualSize disks = Some out \<and>
     (pu_err out = None \<longrightarrow>
       (\<exists>e. NewErasure (pe_new env) (int (length disks) - p) p blockSizeV2 = Inr e
          \<and> put_quorum (int (length disks) - p) p \<le> int (diskCount (pu_disks out))
          \<and> length (pu_disks out) = length disks
          \<and> (\<forall>j<length disks. pu_disks out ! j \<noteq> None
              \<longrightarrow> has_object env bucket object disks p e data actualSize (put_inline e (po_Versioned opts) sz actualSize) out j)))"
proof -
  let ?N = "int (length disks)" and ?dist = "put_dist env bucket object disks"
  obtain orig where pp: "put_parity (pe_sc env) (pe_defaultParityCount env) (po_MaxParity opts)
     (meta_get (po_UserDefined opts) AmzStorageClass)
     (map (\<lambda>d. case d of None \<Rightarrow> False | Some x \<Rightarrow> pe_usable env x) disks) = (orig, p)"
    using p unfolding put_par_def by (metis prod.collapse)
  define ud where "ud = put_userdefined opts orig p"
  define fi where "fi = put_fileinfo env opts bucket object (?N - p) p"
  have fid: "ei_Distribution (fi_Erasure fi) = ?dist" "fi_ModTime fi = ZeroTime"
    by (simp_all add: fi_def put_fileinfo_def newFileInfo_def put_dist_def noFileInfo_def)
  have "?N < 2 ^ 32" using n(2) by simp
  then have d: "dist_ok ?dist" "length ?dist = length disks"
    using hashOrder_ok [of ?N] n(1) by (simp_all add: put_dist_def)
  obtain ds ms where sh: "shuffleDisksAndPartsMetadata disks (replicate (length disks) fi) fi = Some (ds, ms)"
      "length ds = length disks" "length ms = length disks"
      "\<forall>i<length disks. ds ! spot ?dist i = disks ! i \<and> (disks ! i \<noteq> None \<longrightarrow> ms ! spot ?dist i = fi)"
    using put_shuffle [OF d fid] by blast
  have sz0: "\<not> sz < -1" using sz by (auto simp: size_ok_def)
  define rest where "rest e = (let inline = put_inline e (po_Versioned opts) sz actualSize
         in case Encode (shard_Writer (pe_H env)) (pe_ord env) e (data, EOF) (put_writers env inline ds)
                   (put_buffer sz actualSize) (put_quorum (?N - p) p) of
              None \<Rightarrow> None
            | Some (pw, Inl err) \<Rightarrow>
                Some (put_failed (toObjectErr err [minioMetaTmpBucket, pathJoin [pe_tmpUUID env, pe_dataDirUUID env, ''part.1'']]))
            | Some (pw, Inr m) \<Rightarrow>
                if m < sz then Some (put_failed (IncompleteBody bucket object))
                else case pe_lock env of
                  Some err \<Rightarrow> Some (put_failed err)
                | None \<Rightarrow> Some (put_commit env opts fi ud bucket object inline m actualSize (put_quorum (?N - p) p) ds ms (pw_writers pw)))" for e
  have put: "putObject env opts bucket object (data, EOF) sz actualSize disks =
      (case NewErasure (pe_new env) (?N - p) p blockSizeV2 of
         Inl err \<Rightarrow> Some (put_failed (toObjectErr err [bucket, object])) | Inr e \<Rightarrow> rest e)"
    unfolding putObject_def rest_def Let_def pp prod.case fi_def [symmetric] ud_def [symmetric]
    using sz0 sh(1) by simp
  show ?thesis
  proof (cases "NewErasure (pe_new env) (?N - p) p blockSizeV2")
    case (Inl err)
    then show ?thesis using put by (simp add: put_failed_def)
  next
    case (Inr e)
    define inline where "inline = put_inline e (po_Versioned opts) sz actualSize"
    note pe = put_erasure [OF rs Inr of_nat_0_le_iff n(2)]
    have N: "length (put_writers env inline ds) = dB e + pB e" using pe(3,4) sh(2) by (simp add: put_writers_def)
    have ord: "any_order (pe_ord env)" using env by (simp add: env_ok_def)
    have fresh: "\<And>w. Some w \<in> set (put_writers env inline ds) \<Longrightarrow> sk_got w = []" by (rule put_writers_fresh [OF env])
    obtain pw r where enc: "Encode (shard_Writer (pe_H env)) (pe_ord env) e (data, EOF) (put_writers env inline ds)
          (put_buffer sz actualSize) (put_quorum (?N - p) p) = Some (pw, r)"
        "length (pw_writers pw) = length (put_writers env inline ds)"
      and ok: "\<And>m j w. r = Inr m \<Longrightarrow> m = int (length data)"
        "\<And>m j w. r = Inr m \<Longrightarrow> j < length (put_writers env inline ds) \<Longrightarrow> pw_writers pw ! j = Some w
          \<Longrightarrow> sk_got w = bitrot_file (pe_H env) HighwayHash256S (shard_segs e data j)"
      using sinks.Encode_faulty [OF pe(1,2) put_buffer_ok [OF sz pe(5)] L N fresh ord,
          where H = "pe_H env" and quorum = "put_quorum (?N - p) p"] by blast
    have lw: "length (pw_writers pw) = length disks" "length (put_writers env inline ds) = length disks"
      using enc(2) sh(2) by (simp_all add: put_writers_def)
    show ?thesis
    proof (cases r)
      case (Inl err)
      then show ?thesis using put Inr enc(1) by (simp add: rest_def inline_def put_failed_def)
    next
      case (Inr m)
      have m: "m = int (length data)" "\<not> m < sz" using ok(1) [OF Inr] sz by (auto simp: size_ok_def)
      show ?thesis
      proof (cases "pe_lock env")
        case (Some err)
        then show ?thesis
          using put \<open>NewErasure _ _ _ _ = Inr e\<close> enc(1) Inr m by (simp add: rest_def inline_def put_failed_def)
      next
        case None
        define out where "out = put_commit env opts fi ud bucket object inline (int (length data)) actualSize
            (put_quorum (?N - p) p) ds ms (pw_writers pw)"
        have po: "putObject env opts bucket object (data, EOF) sz actualSize disks = Some out"
          using put \<open>NewErasure _ _ _ _ = Inr e\<close> enc(1) Inr m None by (simp add: rest_def inline_def out_def)
        have files: "\<forall>j<length disks. \<forall>w. pw_writers pw ! j = Some w
            \<longrightarrow> sk_got w = bitrot_file (pe_H env) HighwayHash256S (shard_segs e data j)"
          using ok(2) [OF Inr] lw by simp
        note pc = put_commit_ok [OF ord fi_def sh(2,3) lw(1) sh(4) d files out_def]
        show ?thesis
        proof (rule exI [of _ out], intro conjI impI)
          show "putObject env opts bucket object (data, EOF) sz actualSize disks = Some out" by (rule po)
          assume "pu_err out = None"
          from pc [OF this] show "\<exists>e. NewErasure (pe_new env) (?N - p) p blockSizeV2 = Inr e
              \<and> put_quorum (?N - p) p \<le> int (diskCount (pu_disks out)) \<and> length (pu_disks out) = length disks
              \<and> (\<forall>j<length disks. pu_disks out ! j \<noteq> None
                  \<longrightarrow> has_object env bucket object disks p e data actualSize (put_inline e (po_Versioned opts) sz actualSize) out j)"
            using \<open>NewErasure _ _ _ _ = Inr e\<close> unfolding inline_def by (intro exI [of _ e]) simp
        qed
      qed
    qed
  qed
qed

section \<open>What was put can be read\<close>

text \<open>A drive of a later read that still has what the put left on it: it answers with its copy of the metadata, and
  it delivers its file unless the data is in the metadata.\<close>

definition still_has ::
  "'d put_env \<Rightarrow> string \<Rightarrow> string \<Rightarrow> 'd option list \<Rightarrow> bool \<Rightarrow> 'd put_out \<Rightarrow> storage_api option list \<Rightarrow> FileInfo list \<Rightarrow> nat \<Rightarrow> bool" where
  "still_has env bucket object disks inline out rdisks metaArr i \<longleftrightarrow>
     (let j = spot (put_dist env bucket object disks) i
      in pu_disks out ! j \<noteq> None \<and> metaArr ! i = pu_meta out ! j
         \<and> (\<exists>d. rdisks ! i = Some d
              \<and> (inline \<or> holds_file d bucket (pathJoin [object, pe_dataDirUUID env, ''part.'' @ show_int 1])
                   (sk_got (the (pu_files out ! j))))))"

lemma put_described:
  assumes c: "put_copy env bucket object disks p data actualSize inline f j fi"
    and e: "NewErasure (pe_new env) (int (length disks) - p) p blockSizeV2 = Inr e"
    and rs: "rs_ok (pe_new env (int (length disks) - p) p) (nat (int (length disks) - p)) (nat p)"
    and n: "0 < length disks" "int (length disks) < 2 ^ 31" and L: "data \<noteq> []" "int (length data) + blockSizeV2 < 2 ^ 63"
  shows "describes (pe_new env) e fi [data] (length disks)"
proof -
  note pe = put_erasure [OF rs e of_nat_0_le_iff n(2)]
  have "int (length disks) < 2 ^ 32" using n(2) by simp
  then have d: "dist_ok (put_dist env bucket object disks)" "length (put_dist env bucket object disks) = length disks"
    using hashOrder_ok [of "int (length disks)"] n(1) by (simp_all add: put_dist_def)
  have "bS e = 1048576" using pe(5) by (simp add: bS_def blockSizeV2_def)
  then show ?thesis
    using c e pe d L by (simp add: describes_def object_ok_def put_copy_def parts_are_def blockSizeV2_def)
qed

lemma put_good_copy:
  assumes c: "put_copy env bucket object disks p data actualSize inline f j fi"
    and c': "put_copy env bucket object disks p data actualSize inline f' j' meta"
    and l: "length f = length f'" and "rdisks ! i = Some d" "metaArr ! i = meta"
    and j: "int j' + 1 = put_dist env bucket object disks ! i"
  shows "good_copy rdisks metaArr fi i"
  using assms by (auto simp: good_copy_def keeps_index_def skip_meta_def put_copy_def)

lemma put_holds:
  assumes c: "put_copy env bucket object disks p data actualSize inline f j fi"
    and c': "put_copy env bucket object disks p data actualSize inline f' j' meta"
    and f: "f' = bitrot_file H HighwayHash256S (shard_segs e data j')" "f' \<noteq> []"
    and h: "inline \<or> holds_file d bucket (pathJoin [object, pe_dataDirUUID env, ''part.'' @ show_int 1]) f'"
  shows "holds_shards H e bucket object fi [data] j' d meta"
  using assms unfolding holds_shards_def Let_def put_copy_def by (cases inline) simp_all

text \<open>C1. Put, then get. A put that returns without an error has the object on a write quorum of drives. Later
  \<open>Good\<close> are drives that still have what the put left there, at least as many as there are data shards, and
  whichever of their copies was chosen: the other drives may be gone, or hold anything that the checksums tell
  from the object. Then a get of any range returns, without an error, and gives the bytes that were put. The size of
  the data is announced, or, if it is not, the data are not more than 256 bytes longer than their announced actual
  size when that is less than a block (\<open>size_ok\<close>); the drives are all local or all remote (\<open>same_place\<close>).\<close>

theorem put_get:
  assumes "env_ok env" and "size_ok sz actualSize (length data)" and "data \<noteq> []"
    and "int (length data) + blockSizeV2 < 2 ^ 63" and "0 < length disks" and "int (length disks) < 2 ^ 31"
    and "int (nblk e (length data) * 32 + sF e (length data)) < 2 ^ 63"
    and "p = put_par env opts disks" and "NewErasure (pe_new env) (int (length disks) - p) p blockSizeV2 = Inr e"
    and "inline = put_inline e (po_Versioned opts) sz actualSize"
    and "putObject env opts bucket object (data, EOF) sz actualSize disks = Some out" and "pu_err out = None"
    and "length rdisks = length disks" and "length metaArr = length disks"
    and "Good \<subseteq> {i. i < length disks \<and> still_has env bucket object disks inline out rdisks metaArr i}"
    and "dB e \<le> card Good" and "g \<in> Good" and "fi = metaArr ! g"
    and "\<forall>i<length disks. i \<notin> Good \<longrightarrow> (\<forall>d. rdisks ! i = Some d \<longrightarrow> IsValid (metaArr ! i)
       \<longrightarrow> drive_ok (pe_H env) e bucket object fi [data] (spot (put_dist env bucket object disks) i) False d (metaArr ! i))"
    and "same_place loc rdisks" and "asks len start n (length data)"
    and "rs_ok (pe_new env (int (length disks) - p) p) (nat (int (length disks) - p)) (nat p)"
  shows "put_quorum (int (length disks) - p) p \<le> int (diskCount (pu_disks out))
     \<and> (\<exists>ans. getObjectWithFileInfo (pe_H env) (pe_new env) loc buffer_Write bucket object (int start) len dst fi metaArr rdisks ans)
     \<and> (\<forall>dst' once err. getObjectWithFileInfo (pe_H env) (pe_new env) loc buffer_Write bucket object (int start) len dst fi
            metaArr rdisks (dst', once, err)
          \<longrightarrow> dst' = dst @ take n (drop start data) \<and> err = None)"
proof -
  let ?N = "int (length disks)" and ?dist = "put_dist env bucket object disks"
  have L: "int (length data) < 2 ^ 63" using assms(4) by (simp add: blockSizeV2_def)
  note ok = putObject_ok [OF assms(1,2) L assms(5,6,8,22), where bucket = bucket and object = object]
  have q: "put_quorum (?N - p) p \<le> int (diskCount (pu_disks out))" using ok assms(9-12) by auto
  have ho: "has_object env bucket object disks p e data actualSize inline out j"
    if "j < length disks" "pu_disks out ! j \<noteq> None" for j
    using ok assms(9-12) that by auto
  note pe = put_erasure [OF assms(22,9) of_nat_0_le_iff assms(6)]
  have H: "hashes_ok (pe_H env)" using assms(1) by (simp add: env_ok_def)
  have "?N < 2 ^ 32" using assms(6) by simp
  then have d: "dist_ok ?dist" "length ?dist = length disks"
    using hashOrder_ok [of ?N] assms(5) by (simp_all add: put_dist_def)
  define sfile where "sfile j = bitrot_file (pe_H env) HighwayHash256S (shard_segs e data j)" for j
  have has: "\<exists>d. int (spot ?dist i) + 1 = ?dist ! i \<and> rdisks ! i = Some d
      \<and> put_copy env bucket object disks p data actualSize inline (sfile (spot ?dist i)) (spot ?dist i) (metaArr ! i)
      \<and> (inline \<or> holds_file d bucket (pathJoin [object, pe_dataDirUUID env, ''part.'' @ show_int 1]) (sfile (spot ?dist i)))"
    if i: "i \<in> Good" for i
  proof -
    have iN: "i < length disks" and st: "still_has env bucket object disks inline out rdisks metaArr i" using assms(15) i by auto
    have "?dist ! i \<in> set ?dist" using iN d(2) by simp
    then have r: "1 \<le> ?dist ! i" "?dist ! i \<le> int (length disks)" using d by (auto simp: dist_ok_def)
    then have j: "spot ?dist i < length disks" "int (spot ?dist i) + 1 = ?dist ! i" by (simp_all add: spot_def)
    have on: "pu_disks out ! spot ?dist i \<noteq> None" using st by (simp add: still_has_def Let_def)
    obtain s where s: "pu_files out ! spot ?dist i = Some s" "sk_got s = sfile (spot ?dist i)"
        "put_copy env bucket object disks p data actualSize inline (sk_got s) (spot ?dist i) (pu_meta out ! spot ?dist i)"
      using ho [OF j(1) on] unfolding has_object_def sfile_def by blast
    then show ?thesis using st j(2) unfolding still_has_def Let_def by auto
  qed
  have gN: "spot ?dist i < dB e + pB e" if "i \<in> Good" for i
  proof -
    have "i < length disks" using assms(15) that by auto
    then show ?thesis using spot_less [OF d(1), of i] d(2) pe(3,4) by simp
  qed
  have fl: "length (sfile j) = nblk e (length data) * 32 + sF e (length data)" if "j < dB e + pB e" for j
    using shard_file_length [OF pe(1,2) H that, of HighwayHash256S data] by (simp add: sfile_def)
  have "0 < nblk e (length data)" using nblk_less [OF pe(1), of 0 "length data"] assms(3) by simp
  then have ne: "sfile j \<noteq> []" if "j < dB e + pB e" for j using fl [OF that] by auto
  have cg: "put_copy env bucket object disks p data actualSize inline (sfile (spot ?dist g)) (spot ?dist g) fi"
    using has [OF assms(17)] assms(18) by blast
  have de: "describes (pe_new env) e fi [data] (length rdisks)"
    using put_described [OF cg assms(9,22,5,6,3,4)] assms(13) by simp
  have fd: "ei_Distribution (fi_Erasure fi) = ?dist" using cg by (simp add: put_copy_def)
  have good: "Good \<subseteq> {i. i < length rdisks \<and> good_copy rdisks metaArr fi i}"
  proof
    fix i assume i: "i \<in> Good"
    obtain x where x: "int (spot ?dist i) + 1 = ?dist ! i" "rdisks ! i = Some x"
        "put_copy env bucket object disks p data actualSize inline (sfile (spot ?dist i)) (spot ?dist i) (metaArr ! i)"
      using has [OF i] by blast
    have "good_copy rdisks metaArr fi i"
      by (rule put_good_copy [OF cg x(3) _ x(2) refl x(1)]) (use fl gN i assms(17) in simp)
    then show "i \<in> {i. i < length rdisks \<and> good_copy rdisks metaArr fi i}" using assms(13,15) i by auto
  qed
  have holds: "\<forall>i\<in>Good. \<forall>x. rdisks ! i = Some x
      \<longrightarrow> holds_shards (pe_H env) e bucket object fi [data] (spot (ei_Distribution (fi_Erasure fi)) i) x (metaArr ! i)"
  proof (intro ballI allI impI)
    fix i x assume i: "i \<in> Good" and x: "rdisks ! i = Some x"
    then have c: "put_copy env bucket object disks p data actualSize inline (sfile (spot ?dist i)) (spot ?dist i) (metaArr ! i)"
        and h: "inline \<or> holds_file x bucket (pathJoin [object, pe_dataDirUUID env, ''part.'' @ show_int 1]) (sfile (spot ?dist i))"
      using has [OF i] by auto
    show "holds_shards (pe_H env) e bucket object fi [data] (spot (ei_Distribution (fi_Erasure fi)) i) x (metaArr ! i)"
      unfolding fd by (rule put_holds [OF cg c _ ne [OF gN [OF i]] h]) (simp add: sfile_def)
  qed
  have small: "\<forall>k<length [data]. int (nblk e (length ([data] ! k)) * 32 + sF e (length ([data] ! k))) < 2 ^ 63"
    using assms(7) by simp
  have ask: "asks len start n (length (concat [data]))" using assms(21) by simp
  have lm: "length metaArr = length rdisks" using assms(13,14) by simp
  have rest: "\<forall>i<length rdisks. i \<notin> Good \<longrightarrow> (\<forall>x. rdisks ! i = Some x \<longrightarrow> IsValid (metaArr ! i)
       \<longrightarrow> drive_ok (pe_H env) e bucket object fi [data] (spot (ei_Distribution (fi_Erasure fi)) i) False x (metaArr ! i))"
    using assms(13,19) unfolding fd by simp
  show ?thesis
    using get_range [OF de lm H small ask good assms(16) holds rest assms(20), of dst] q by simp
qed

section \<open>A buffer that is too small\<close>

text \<open>A stream of unknown size gets a buffer of its size before compression and 256 bytes. Encryption after compression
  adds 32 bytes for every 64 KiB, so that the stream of an object of 900000 bytes that does not compress is longer
  than the buffer, and is cut there although a block has not been filled.\<close>

lemma buffer_of_stream: "put_buffer (-1) 900000 = 900256" "blockSizeV2 = 1048576"
  by (simp_all add: put_buffer_def blockSizeV2_def)

definition fresh_sink :: "sink option" where
  "fresh_sink = Some \<lparr>sk_got = [], sk_room = None, sk_err = EOF\<rparr>"

text \<open>What \<open>Encode\<close> writes with a buffer that is smaller than both the block and the stream: it reports success,
  but the file of a shard is not the one that a reader expects for the size of the object, and is reported as
  corrupt. Here with blocks of four bytes, a buffer of two and a stream of three.\<close>

lemma short_buffer_corrupts:
  "map_option (\<lambda>(pw, r). (r, map_option (\<lambda>s. (length (sk_got s), bitrotVerify zero_hash (sk_got s, EOF)
        (int (length (sk_got s))) (ShardFileSize xor_set 3) HighwayHash256S [] (ShardSize xor_set))) (pw_writers pw ! 0)))
      (Encode (shard_Writer zero_hash) (\<lambda>xs. xs) xor_set ([1, 2, 3], EOF) [fresh_sink, fresh_sink, fresh_sink] 2 2)
     = Some (Inr 3, Some (66, Some errFileCorrupt))"
  by code_simp

text \<open>Three drives, of which the first does not take the object.\<close>

definition toy_env :: "nat put_env" where
  "toy_env = \<lparr>pe_sc = no_config, pe_defaultParityCount = 1, pe_crc = (\<lambda>s. 0), pe_new = (\<lambda>d p. xor_codec), pe_H = zero_hash,
     pe_ord = (\<lambda>xs. xs), pe_versionUUID = ''v'', pe_dataDirUUID = ''d'', pe_tmpUUID = ''t'', pe_fvID = ''f'', pe_now = At 1,
     pe_etag = ''e'', pe_ctype = ''c'', pe_lock = None, pe_usable = (\<lambda>d. True), pe_online = (\<lambda>d. True),
     pe_sink = (\<lambda>d. \<lparr>sk_got = [], sk_room = None, sk_err = EOF\<rparr>),
     pe_rename = (\<lambda>d fi. if d = 0 then (d, Some errDiskNotFound) else (d, None))\<rparr>"

definition toy_opts :: put_opts where
  "toy_opts = \<lparr>po_Versioned = False, po_VersionID = [], po_UserDefined = [], po_MTime = ZeroTime, po_MaxParity = False\<rparr>"

definition toy_disks :: "nat option list" where
  "toy_disks = [Some 0, Some 1, Some 2]"

definition toy_put :: "nat put_out option" where
  "toy_put = putObject toy_env toy_opts ''b'' ''o'' ([1, 2, 3], EOF) 3 3 toy_disks"

lemma toy_put_ok: "map_option pu_err toy_put = Some None"
  by code_simp

definition toy_out :: "nat put_out" where
  "toy_out = the toy_put"

lemma toy_facts:
  "put_dist toy_env ''b'' ''o'' toy_disks = [2, 3, 1]"
  "put_par toy_env toy_opts toy_disks = 1"
  "length toy_disks = 3"
  "map (\<lambda>d. d = None) (pu_disks toy_out) = [False, True, False]"
  by code_simp+

lemma toy_fields: "pe_H toy_env = zero_hash" "pe_new toy_env = (\<lambda>d p. xor_codec)"
  by (simp_all add: toy_env_def)

definition toy_erasure :: erasure where
  "toy_erasure = \<lparr>encoder = xor_codec, dataBlocks = 2, parityBlocks = 1, blockSize = blockSizeV2\<rparr>"

lemma toy_erasure_ok:
  "NewErasure (pe_new toy_env) (int (length toy_disks) - 1) 1 blockSizeV2 = Inr toy_erasure"
  "put_inline toy_erasure False 3 3" "dB toy_erasure = 2" "bS toy_erasure = 1048576"
  by (simp_all add: toy_env_def toy_facts(3) NewErasure_def toy_erasure_def wrap64_def dB_def bS_def blockSizeV2_def) code_simp

theorem put_get_witness:
  "{(dst', err). \<exists>once. getObjectWithFileInfo zero_hash (\<lambda>d p. xor_codec) (\<lambda>d. True) buffer_Write ''b'' ''o'' 1 2 []
      (pu_meta toy_out ! 0) [noFileInfo, pu_meta toy_out ! 2, pu_meta toy_out ! 0]
      [None, Some gone_drive, Some gone_drive] (dst', once, err)} = {([2, 3], None)}"
proof -
  let ?disks = toy_disks and ?data = "[1, 2, 3] :: bytes"
    and ?rd = "[None, Some gone_drive, Some gone_drive]" and ?ms = "[noFileInfo, pu_meta toy_out ! 2, pu_meta toy_out ! 0]"
  have env: "env_ok toy_env" using zero_hash_ok by (simp add: env_ok_def toy_env_def any_order_def)
  have put: "putObject toy_env toy_opts ''b'' ''o'' (?data, EOF) 3 3 ?disks = Some toy_out" "pu_err toy_out = None"
    using toy_put_ok by (auto simp: toy_out_def toy_put_def)
  have on: "pu_disks toy_out ! 0 \<noteq> None" "pu_disks toy_out ! 2 \<noteq> None"
    using toy_facts(4) by (auto simp: map_eq_Cons_conv)
  have good: "{1, 2} \<subseteq> {i. i < length ?disks \<and> still_has toy_env ''b'' ''o'' ?disks True toy_out ?rd ?ms i}"
    using on by (simp add: still_has_def toy_facts spot_def)
  have small: "int (nblk toy_erasure (length ?data) * 32 + sF toy_erasure (length ?data)) < 2 ^ 63"
    by (simp add: nblk_def sF_def cdiv_def toy_erasure_ok)
  have rest: "\<forall>i<length ?disks. i \<notin> {1, 2} \<longrightarrow> (\<forall>d. ?rd ! i = Some d \<longrightarrow> IsValid (?ms ! i) \<longrightarrow>
      drive_ok (pe_H toy_env) toy_erasure ''b'' ''o'' (?ms ! 2) [?data] (spot (put_dist toy_env ''b'' ''o'' ?disks) i) False d (?ms ! i))"
    by (auto simp: toy_facts less_Suc_eq numeral_3_eq_3)
  have rs: "rs_ok (pe_new toy_env (int (length ?disks) - 1) 1) (nat (int (length ?disks) - 1)) (nat 1)"
    using xor_codec_ok by (simp add: toy_env_def toy_facts)
  have inl: "True = put_inline toy_erasure (po_Versioned toy_opts) 3 3" using toy_erasure_ok(2) by (simp add: toy_opts_def)
  have "(\<exists>ans. getObjectWithFileInfo zero_hash (\<lambda>d p. xor_codec) (\<lambda>d. True) buffer_Write ''b'' ''o'' 1 2 []
      (pu_meta toy_out ! 0) ?ms ?rd ans)
     \<and> (\<forall>dst' once err. getObjectWithFileInfo zero_hash (\<lambda>d p. xor_codec) (\<lambda>d. True) buffer_Write ''b'' ''o'' 1 2 []
      (pu_meta toy_out ! 0) ?ms ?rd (dst', once, err) \<longrightarrow> dst' = [2, 3] \<and> err = None)"
    using put_get [OF env _ _ _ _ _ small _ toy_erasure_ok(1) inl put _ _ good _ _ _ rest _ _ rs,
        where loc = "\<lambda>d. True" and len = 2 and start = 1 and n = 2 and g = 2 and dst = "[]"]
    by (simp add: size_ok_def blockSizeV2_def toy_facts toy_erasure_ok(3) same_place_def asks_def toy_fields)
  then show ?thesis by (rule only_outcome)
qed

end
