(* ===== verification/Erasure_Info.thy ===== *)
theory Erasure_Info
  imports Erasure_Put
begin

text \<open>
  Which metadata an object has (\<open>getObjectFileInfo\<close> in \<open>cmd/erasure-object.go\<close>): the drives are asked for their
  copies, and the copies are reduced to one. An object that is lost for good is removed on the way; copies that
  are missing are healed later. \<open>rv\<close> is what \<open>ReadVersion\<close> of a drive answers, \<open>dv\<close> its \<open>DeleteVersion\<close>.
\<close>

section \<open>Definitions\<close>






section \<open>Majorities\<close>




section \<open>The version that most drives have\<close>











end
