(* ===== verification/Spec2Isabelle.thy ===== *)
theory Spec2Isabelle
  imports Zcn_MultipartFlow Zcn_MultiPut Zcn_Config Object_Names Namespace_Lock Dsync Erasure_Info
begin

text \<open>
  Verification of zs3server, an S3 server that stores its objects in a 0chain allocation. The program is
  a fork of MinIO with a gateway, \<open>cmd/gateway/zcn\<close>. This development models the gateway as a whole, the
  lock stack of the server it runs in, and of the server with drives of its own the way of an object to its
  drives and back: erasure coding, bit-rot protection, metadata and quorums. It proves what these parts
  promise to each other.

  \<^bold>\<open>The program and its theories.\<close> Paths are below \<open>src/\<close>.

  \<^item> A request for an object reaches a handler of \<open>cmd/gateway/zcn/gateway-zcn.go\<close>. Theory \<open>Zcn_Gateway\<close> has
    one definition per handler (\<open>ListObjects\<close>, \<open>GetObjectNInfo\<close>, \<open>PutObject\<close>, \<open>DeleteBucket\<close> and the others),
    with \<open>remotePathOf\<close> and \<open>getRelativePathOfObj\<close> for the way from names to paths and back. \<open>Http_Range\<close>
    models \<open>cmd/httprange.go\<close>, and \<open>Object_Names\<close> the checks on names that a request passes first
    (\<open>cmd/object-api-utils.go\<close>, \<open>cmd/object-api-input-checks.go\<close>, \<open>cmd/generic-handlers.go\<close>).
  \<^item> Handlers look up and list references with \<open>dStorage.go\<close>: theory \<open>Zcn_DStorage\<close>, where the loop over
    pages and the heap of directories are \<open>lr_dirs\<close> and \<open>listRegularRefs\<close>.
  \<^item> They move data with the rest of \<open>dStorage.go\<close>, \<open>helper.go\<close>, \<open>memFile.go\<close> and the batching goroutine of
    \<open>worker.go\<close>: theory \<open>Zcn_Transfer\<close> (\<open>getFileReader\<close>, \<open>putFile\<close>, the relation \<open>batch_step\<close>).
  \<^item> Uploads of one path exclude each other by \<open>lockPath\<close> and \<open>unlockPath\<close>: theory \<open>Zcn_PathLock\<close>.
  \<^item> \<open>PutMultipleObjects\<close> starts a goroutine per object: theory \<open>Zcn_MultiPut\<close>.
  \<^item> Multipart uploads (\<open>multipart.go\<close>) pass their parts through host files, the queue of
    \<open>seqpriorityqueue.go\<close>, a feeder and a chunker goroutine to the SDK: theories \<open>Seq_Priority_Queue\<close>,
    \<open>Host_Files\<close>, \<open>Zcn_Multipart\<close> (sizes, chunker, handlers) and \<open>Zcn_MultipartFlow\<close> (the goroutines and their
    channels as the relation \<open>flow_step\<close>).
  \<^item> \<open>initSDK.go\<close> and \<open>NewGatewayLayer\<close> read the configuration and build the first state: theory \<open>Zcn_Config\<close>.
  \<^item> Below the object layer the server has its own locks. \<open>Lsync\<close> models the mutex of
    \<open>internal/lsync/lrwmutex.go\<close>, \<open>Namespace_Lock\<close> the lock map and the lock instances of
    \<open>cmd/namespace-lock.go\<close>, \<open>Dynamic_Timeout\<close> the timeouts of \<open>cmd/dynamic-timeouts.go\<close>, \<open>Local_Locker\<close> the lock
    server \<open>cmd/local-locker.go\<close>, and \<open>Dsync\<close> the quorum protocol of \<open>internal/dsync/drwmutex.go\<close>.
  \<^item> A server with drives cuts an object into blocks and shards. \<open>Erasure_Geometry\<close> has the sizes and offsets
    and the codec (\<open>cmd/erasure-coding.go\<close>) and the lists of parts and checksums, \<open>Bitrot\<close> the writers and
    readers with sums (\<open>cmd/bitrot*.go\<close>), \<open>Erasure_Read\<close> the parallel reader of \<open>cmd/erasure-decode.go\<close> with its
    goroutines, \<open>Erasure_Coding\<close> the loops of \<open>Encode\<close>, \<open>Decode\<close> and \<open>Heal\<close>, and \<open>Erasure_Roundtrip\<close> what they do together.
  \<^item> The drives answer one by one. \<open>Error_Quorum\<close> reduces their errors (\<open>cmd/erasure-metadata-utils.go\<close>);
    \<open>Storage_Class\<close> has the parity of the storage classes (\<open>internal/config/storageclass\<close>), \<open>Restore_Status\<close> the
    restore header (\<open>cmd/bucket-lifecycle.go\<close>) and \<open>Object_Errors\<close> the errors of the object layer.
    \<open>Erasure_Metadata\<close> has the metadata of a version, the distribution of shards and the vote on the latest
    version (\<open>cmd/erasure-metadata.go\<close>, \<open>cmd/erasure-healing-common.go\<close>).
  \<^item> On these rest \<open>Erasure_Healing\<close> (which drives have to be healed, which objects are lost), \<open>Erasure_Object\<close>
    (\<open>getObjectWithFileInfo\<close>, a read over all parts), \<open>Erasure_Put\<close> (\<open>putObject\<close> with \<open>renameData\<close>) and \<open>Erasure_Info\<close>
    (\<open>getObjectFileInfo\<close>) of \<open>cmd/erasure-object.go\<close> and \<open>cmd/erasure-healing.go\<close>.
  \<^item> \<open>Prelude\<close>, \<open>Go_Strings\<close>, \<open>Go_Time\<close>, \<open>Go_Path\<close> and \<open>Go_Heap\<close> hold what the code uses of Go: strings, 64-bit
    arithmetic, times, paths and \<open>container/heap\<close>. \<open>Zcn_Types\<close> holds the data that the parts of the gateway share.

  \<^bold>\<open>How code becomes definitions.\<close> A struct is a record and an enumeration a datatype. The SDK of 0chain,
  the host and the clock are fields of the record \<open>zenv\<close> or arguments; a world of an arbitrary type is
  threaded through their calls. Errors are values of a sum type, a panic is an error value or \<open>None\<close>,
  and \<open>None\<close> is also a call that waits for ever. Integers of 64 bits are \<open>int\<close> with \<open>wrap64\<close> where a result
  can leave the range. Concurrent parts are step relations whose steps are the critical sections and
  channel operations of the code; their properties hold in every interleaving.

  \<^bold>\<open>What is proved.\<close>
  \<^item> Data: what the SDK reads of a finished multipart upload are the parts in order, in every interleaving,
    and a completed upload finishes while the SDK reads, through a channel of 240 chunks; the chunker loses
    nothing; a bounded range read delivers the bytes of the range, but for the case stated below; batches reach the workers once and in order; several objects are stored each under its
    own path.
  \<^item> Names and listings: a name is found again under its path exactly when its elements are proper
    names, and stays in its bucket; the checks on requests let only such names pass; listings return
    each entry once, in order, and resume where they stopped; bucket listings end.
  \<^item> Locks: the mutex refines a reader-writer lock; namespace locks and distributed locks exclude each
    other, with lost and delayed messages for the latter; namespace locks do not deadlock; the lock
    server stays well-formed and unlocking undoes locking; timeouts stay in their bounds; the refresh loop
    counts correctly.
  \<^item> Drives: what was encoded is decoded and healed from any sufficient set of shards, whatever the other
    drives do and in every interleaving of the readers; a range of an object of several parts is read
    correctly; an object that was stored can be read from any drives that keep enough copies; the metadata
    of a majority is found; quorums overlap; what counts as lost cannot be read.
  \<^item> Errors: the theorems about a last byte that is lost, open and suffix ranges, a deadlock of the path
    locks, a hanging request, a part that is uploaded twice, a wrong size, the listing of parts and the
    expiry of fresh locks beside an old one state when the code goes wrong.

  \<^bold>\<open>Interfaces.\<close> The locale \<open>slice_heap\<close> is the contract of \<open>container/heap\<close> towards its user and is interpreted
  on the queue of part numbers and on the queue of directories; \<open>sequencer\<close> is the contract of the queue of
  parts towards the feeder, \<open>part_store\<close> that of the part files towards the handlers, \<open>rw_mutex\<close> that of the
  mutex towards the lock map, and \<open>net_locker\<close> that of a lock server towards the quorum protocol;
  \<open>shard_reader\<close> and \<open>shard_writer\<close> are those of the bit-rot readers and writers towards \<open>Decode\<close> and \<open>Encode\<close>. Each is
  interpreted on the definitions of the component that provides it.

  \<^bold>\<open>Termination.\<close> Loops over pages and over part files need not end for an arbitrary SDK or host and are
  partial functions into \<open>option\<close>; the theorems about them prove that they return. The loop that expires
  locks is one as well, and is proved to return when time passes. The goroutines of an upload, with the reads
  of the SDK, take a bounded number of steps. Loops over the indices of a lock id are
  total functions. Waiting with a timeout takes the list of what happens at each attempt.

  \<^bold>\<open>Hypotheses.\<close> Theorems about listings assume that the SDK serves the references of a directory in pages
  sorted by path (\<open>serves\<close>), those about downloads that it serves the blocks of the object (\<open>serves_file\<close>).
  The codec is a parameter with the contract \<open>rs_ok\<close> (any sufficient set of shards gives the others), a hash
  function one whose sums have their documented size; that a drive returns what it was given is asked
  only of the drives that the theorem counts as intact; the others may fail in any way, or hold files whose
  damage the checksums detect. The readers of a set are all preferred or none (\<open>prefer_ok\<close>, \<open>same_place\<close>), which
  holds for sets of drives that are all local or all remote; a stream of unknown size is not more than 256
  bytes longer than its actual size when that is below a block (\<open>size_ok\<close>). The orders in
  which Go walks a map are parameters, restricted only to be orders (\<open>any_order\<close>).
  The exclusion of distributed locks assumes unique operation ids and no expiry or forced release. A handler
  that waits takes what it meets at the end of the wait as an argument: \<open>contentMap\<close> when it gets the mutex, how
  its context ends, the outcome of its batch; without one it does not return. Theorems about multipart uploads
  are for uploads without compression whose parts are uploaded once and that are not aborted. The reference
  counts of namespace locks are unbounded where the code has 32 bits.
  Witnesses show for each theorem that its hypotheses can hold.

  \<^bold>\<open>Not modelled.\<close> Of the erasure-coded object layer the copying, tagging and deletion of objects, its
  multipart uploads and the choice among pools; the file system object layer, disk access, HTTP and XML, signatures and
  identity management, administration and metrics, bucket features that the gateway does not support,
  event targets, S3 Select, the gateways to other clouds and the separate search, log and client
  programs: they are not part of the gateway's path, or rest on cryptographic, network and cloud packages
  outside the repository. Of the modelled files only logging, metrics and random back-off are left out.
\<close>

section \<open>From a request to a path\<close>

text \<open>
  C18. The checks on names protect the gateway. Let the bucket name be valid and not one of the server's
  own. A request whose URL path has no bad component gets a path at or below the directory of its
  bucket. An object name that passes \<open>checkObjectArgs\<close> lies properly below it and is found again
  from its path, so that different accepted names have different paths.
\<close>

theorem accepted_names_safe:
  assumes bucket: "IsValidBucketName bucket" "\<not> isMinioMetaBucketName bucket" "bucket \<noteq> rootBucketName"
  shows "(\<not> hasBadPathComponent (''/'' @ bucket @ ''/'' @ object) \<longrightarrow>
      remotePathOf bucket object = ''/'' @ bucket \<or> HasPrefix (remotePathOf bucket object) (''/'' @ bucket @ ''/'')) \<and>
    (checkObjectArgs None bucket object = None \<longrightarrow>
      HasPrefix (remotePathOf bucket object) (''/'' @ bucket @ ''/'') \<and>
      getRelativePathOfObj (remotePathOf bucket object) bucket = object)"
proof (intro conjI impI)
  have ok: "name_ok bucket" using valid_bucket_name [OF bucket(1,2)] .
  assume "\<not> hasBadPathComponent (''/'' @ bucket @ ''/'' @ object)"
  then have "''..'' \<notin> set (split_on slash object)" using no_bad_component(1) split_on_request by blast
  then have path: "remotePathOf bucket object = abs_path (bucket # norm_elems (split_on slash object))"
    using remotePathOf_no_dotdot [OF ok] bucket(3) by (simp add: bucket_dir_def)
  show "remotePathOf bucket object = ''/'' @ bucket \<or> HasPrefix (remotePathOf bucket object) (''/'' @ bucket @ ''/'')"
    by (cases "norm_elems (split_on slash object) = []") (auto simp: path abs_path_def join_with_Cons HasPrefix_iff)
next
  have ok: "name_ok bucket" using valid_bucket_name [OF bucket(1,2)] .
  assume "checkObjectArgs None bucket object = None"
  then have valid: "IsValidObjectName object" "\<not> HasPrefix object SlashSeparator"
    by (auto simp: checkObjectArgs_def checkObjectNameForLengthAndSlash_def split: if_splits)
  note names = valid_object_names [OF valid]
  have join: "join_with [slash] (split_on slash object) = object" by (rule join_split)
  have path: "remotePathOf bucket object = abs_path (bucket # split_on slash object)"
    using remotePathOf_names [OF ok names split_on_nonempty] bucket(3) unfolding join by (simp add: bucket_dir_def)
  then show "HasPrefix (remotePathOf bucket object) (''/'' @ bucket @ ''/'')"
    by (auto simp: abs_path_def join_with_Cons HasPrefix_iff)
  show "getRelativePathOfObj (remotePathOf bucket object) bucket = object"
    using getRelativePathOfObj_names [OF ok names split_on_nonempty] bucket(3) unfolding join by (simp add: path bucket_dir_def)
qed

theorem accepted_names_safe_witness:
  "checkObjectArgs None ''photos'' ''2024/cat.png'' = None \<and>
   getRelativePathOfObj (remotePathOf ''photos'' ''2024/cat.png'') ''photos'' = ''2024/cat.png''"
proof -
  have b: "IsValidBucketName ''photos''" "\<not> isMinioMetaBucketName ''photos''" "''photos'' \<noteq> rootBucketName" by code_simp+
  have c: "checkObjectArgs None ''photos'' ''2024/cat.png'' = None" by code_simp
  from accepted_names_safe [OF b, THEN conjunct2] c show ?thesis by blast
qed

end
